(* ===== verification/Prelude.thy ===== *)
theory Prelude
  imports Main "HOL-Library.Word" "HOL-Library.Multiset"
begin

text \<open>
  Shared vocabulary of the development: the machine integer types of the C++ code, the LLBC return
  codes, the fact collections the component theories add to, the generic invariant locale that every
  step relation of the development interprets, and list lemmas used by several components.
\<close>

section \<open>Types and return codes\<close>

type_synonym byte = "8 word"
type_synonym u32 = "32 word"
type_synonym u64 = "64 word"

text \<open>The C type \<open>int\<close>, where its width matters.\<close>

type_synonym cint = "32 word"

text \<open>\<open>LLBC_OK\<close> and \<open>LLBC_FAILED\<close>: the \<open>int\<close> return codes of LLBC and of the RPC layer.\<close>

abbreviation (input) LLBC_OK :: int where "LLBC_OK \<equiv> 0"
abbreviation (input) LLBC_FAILED :: int where "LLBC_FAILED \<equiv> - 1"

section \<open>Decimal numbers\<close>

text \<open>\<open>%lu\<close> and \<open>std::to_string\<close> of an unsigned value.\<close>

definition digit_char :: "nat \<Rightarrow> char" where
  "digit_char d = char_of (48 + d)"

fun dec_str :: "nat \<Rightarrow> string" where
  "dec_str n = (if n < 10 then [digit_char n] else dec_str (n div 10) @ [digit_char (n mod 10)])"

declare dec_str.simps [simp del]

section \<open>Lists\<close>

lemma takeWhile_until: "x \<notin> set xs \<Longrightarrow> takeWhile (\<lambda>y. y \<noteq> x) (xs @ x # ys) = xs"
  by (induction xs) auto

lemma dropWhile_until: "x \<notin> set xs \<Longrightarrow> dropWhile (\<lambda>y. y \<noteq> x) (xs @ x # ys) = x # ys"
  by (induction xs) auto

section \<open>Results\<close>

text \<open>Sequencing of operations that may fail: \<open>Inl\<close> is the failure.\<close>

definition ebind :: "'e + 'a \<Rightarrow> ('a \<Rightarrow> 'e + 'b) \<Rightarrow> 'e + 'b" where
  "ebind m f = (case m of Inl e \<Rightarrow> Inl e | Inr x \<Rightarrow> f x)"

lemma ebind_simps [simp]: "ebind (Inl e) f = Inl e" "ebind (Inr x) f = f x"
  by (simp_all add: ebind_def)

lemma ebind_eq_Inr: "ebind m f = Inr y \<longleftrightarrow> (\<exists>x. m = Inr x \<and> f x = Inr y)"
  by (cases m) auto

section \<open>Fact collections\<close>

named_theorems queue_defs "definitions of the queue components"
named_theorems deque_defs "definitions of the deque"
named_theorems coro_defs "definitions of the coroutine manager"

section \<open>Invariants of transition systems\<close>

text \<open>
  A transition system is a start predicate and a step relation. The locale collects what a component
  has to show for a candidate invariant; its conclusion is that the invariant holds in every state
  a finite run reaches.
\<close>

inductive reaches :: "('s \<Rightarrow> 's \<Rightarrow> bool) \<Rightarrow> 's \<Rightarrow> 's \<Rightarrow> bool" for step where
  reaches_refl [intro]: "reaches step s s"
| reaches_step [intro]: "reaches step s t \<Longrightarrow> step t u \<Longrightarrow> reaches step s u"

lemma reaches_trans: "reaches step s t \<Longrightarrow> reaches step t u \<Longrightarrow> reaches step s u"
  by (rotate_tac, induction rule: reaches.induct) auto

locale transition_invariant =
  fixes start :: "'s \<Rightarrow> bool" and step :: "'s \<Rightarrow> 's \<Rightarrow> bool" and inv :: "'s \<Rightarrow> bool"
  assumes inv_start: "start s \<Longrightarrow> inv s"
    and inv_step: "inv s \<Longrightarrow> step s t \<Longrightarrow> inv t"
begin

lemma inv_reaches: "reaches step s t \<Longrightarrow> inv s \<Longrightarrow> inv t"
  by (induction rule: reaches.induct) (auto intro: inv_step)

lemma inv_reachable: "start s \<Longrightarrow> reaches step s t \<Longrightarrow> inv t"
  by (blast intro: inv_start inv_reaches)

end

section \<open>Simulation of a specification\<close>

text \<open>
  Sequences of commands on a component and on its specification. The component's step may not return
  (\<open>None\<close>) or fail (\<open>Inl\<close>); the specification is undefined where a command may not be used.
\<close>

fun run_cmds :: "('c \<Rightarrow> 's \<Rightarrow> ('e + 's) option) \<Rightarrow> 'c list \<Rightarrow> 's \<Rightarrow> ('e + 's) option" where
  "run_cmds exec [] s = Some (Inr s)"
| "run_cmds exec (c # cs) s = (case exec c s of Some (Inr t) \<Rightarrow> run_cmds exec cs t | r \<Rightarrow> r)"

fun spec_cmds :: "('c \<Rightarrow> 'a \<Rightarrow> 'a option) \<Rightarrow> 'c list \<Rightarrow> 'a \<Rightarrow> 'a option" where
  "spec_cmds spec [] a = Some a"
| "spec_cmds spec (c # cs) a = Option.bind (spec c a) (spec_cmds spec cs)"

text \<open>The relation is indexed by a budget that each command may raise by one.\<close>

locale simulation =
  fixes exec :: "'c \<Rightarrow> 's \<Rightarrow> ('e + 's) option" and spec :: "'c \<Rightarrow> 'a \<Rightarrow> 'a option"
    and rel :: "nat \<Rightarrow> 's \<Rightarrow> 'a \<Rightarrow> bool" and bound :: nat
  assumes step_sim: "rel n s a \<Longrightarrow> n < bound \<Longrightarrow> spec c a = Some b \<Longrightarrow> \<exists>t. exec c s = Some (Inr t) \<and> rel (n + 1) t b"
begin

lemma run_sim:
  "rel n s a \<Longrightarrow> n + length cs \<le> bound \<Longrightarrow> spec_cmds spec cs a = Some b \<Longrightarrow>
   \<exists>t. run_cmds exec cs s = Some (Inr t) \<and> rel (n + length cs) t b"
proof (induction cs arbitrary: n s a)
  case (Cons c cs)
  then obtain a1 where a1: "spec c a = Some a1" "spec_cmds spec cs a1 = Some b" by (auto split: bind_splits)
  then obtain t where t: "exec c s = Some (Inr t)" "rel (n + 1) t a1" using step_sim [OF Cons.prems(1) _ a1(1)] Cons.prems(2) by auto
  show ?case using Cons.IH [OF t(2) _ a1(2)] Cons.prems(2) t(1) by simp
qed simp

end

end
