(* ===== verification/Llbc_Block.thy ===== *)
theory Llbc_Block
  imports Prelude
begin

text \<open>
  Bytes and message blocks of LLBC: the byte order helpers (3rd/llbc/llbc/include/llbc/common/EndianInl.h)
  and \<open>LLBC_MessageBlock\<close> (core/thread/MessageBlockInl.h), the growing buffer that carries the payload of
  a packet. The host is little-endian. A buffer is a list of cells; a cell that was allocated but never
  written is \<open>None\<close>. Buffer arguments are non-null and sizes stay below \<open>2^64\<close>.
\<close>

unbundle bit_operations_syntax

section \<open>Object representations and byte order\<close>

datatype endian = BigEndian | LittleEndian

definition LLBC_MachineEndian :: endian where
  "LLBC_MachineEndian = LittleEndian"

abbreviation (input) NetEndian :: endian where "NetEndian \<equiv> BigEndian"

text \<open>The bytes of an unsigned value in memory order on a little-endian host, and the value of such
  bytes.\<close>

fun le_bytes :: "nat \<Rightarrow> nat \<Rightarrow> byte list" where
  "le_bytes 0 x = []"
| "le_bytes (Suc n) x = of_nat x # le_bytes n (x div 256)"

fun le_val :: "byte list \<Rightarrow> nat" where
  "le_val [] = 0"
| "le_val (b # bs) = unat b + 256 * le_val bs"

definition obj_bytes :: "'w::len word \<Rightarrow> byte list" where
  "obj_bytes v = le_bytes (LENGTH('w) div 8) (unat v)"

definition bytes_obj :: "byte list \<Rightarrow> 'w::len word" where
  "bytes_obj bs = of_nat (le_val bs)"

text \<open>\<open>LLBC_ReverseBytes\<close>: \<open>ptr[i] = copyPtr[sizeof(T) - i - 1]\<close> for every \<open>i\<close>.\<close>

definition LLBC_ReverseBytes :: "'w::len word \<Rightarrow> 'w word" where
  "LLBC_ReverseBytes v =
     (let copy = obj_bytes v; n = length copy
      in bytes_obj (map (\<lambda>i. copy ! (n - i - 1)) [0 ..< n]))"

definition LLBC_Net2Host :: "'w::len word \<Rightarrow> 'w word" where
  "LLBC_Net2Host v = (if LLBC_MachineEndian \<noteq> NetEndian then LLBC_ReverseBytes v else v)"

definition LLBC_Host2Net :: "'w::len word \<Rightarrow> 'w word" where
  "LLBC_Host2Net v = (if LLBC_MachineEndian \<noteq> NetEndian then LLBC_ReverseBytes v else v)"

text \<open>The specialisations for \<open>sint64\<close> and \<open>uint64\<close> reverse the two halves separately.\<close>

definition LLBC_Net2Host64 :: "u64 \<Rightarrow> u64" where
  "LLBC_Net2Host64 v =
     (if LLBC_MachineEndian = NetEndian then v
      else let part1 = ucast (v AND 0x00000000ffffffff) :: u32;
               part2 = ucast (drop_bit 32 v) :: u32;
               part1 = LLBC_Net2Host part1;
               part2 = LLBC_Net2Host part2
           in push_bit 32 (ucast part2) OR ucast part1)"

definition LLBC_Host2Net64 :: "u64 \<Rightarrow> u64" where
  "LLBC_Host2Net64 v =
     (if LLBC_MachineEndian = NetEndian then v
      else let part1 = ucast (v AND 0x00000000ffffffff) :: u32;
               part2 = ucast (drop_bit 32 v) :: u32;
               part1 = LLBC_Net2Host part1;
               part2 = LLBC_Net2Host part2
           in push_bit 32 (ucast part2) OR ucast part1)"

section \<open>Message blocks\<close>

record mblock =
  mb_attach :: bool
  mb_buf :: "byte option list"
  mb_readPos :: nat
  mb_writePos :: nat

definition LLBC_CFG_THREAD_MSG_BLOCK_DFT_SIZE :: nat where
  "LLBC_CFG_THREAD_MSG_BLOCK_DFT_SIZE = 256"

definition write_cells :: "nat \<Rightarrow> byte option list \<Rightarrow> byte option list \<Rightarrow> byte option list" where
  "write_cells p xs buf = take p buf @ xs @ drop (p + length xs) buf"

definition MB_new :: "nat \<Rightarrow> mblock" where
  "MB_new sz = \<lparr>mb_attach = False, mb_buf = replicate sz None, mb_readPos = 0, mb_writePos = 0\<rparr>"

definition MB_attached :: "byte option list \<Rightarrow> mblock" where
  "MB_attached buf = \<lparr>mb_attach = True, mb_buf = buf, mb_readPos = 0, mb_writePos = 0\<rparr>"

definition MB_GetSize :: "mblock \<Rightarrow> nat" where
  "MB_GetSize b = length (mb_buf b)"

definition MB_GetReadableSize :: "mblock \<Rightarrow> nat" where
  "MB_GetReadableSize b =
     (if mb_readPos b \<ge> mb_writePos b then 0 else mb_writePos b - mb_readPos b)"

definition MB_GetWritableSize :: "mblock \<Rightarrow> nat" where
  "MB_GetWritableSize b = MB_GetSize b - mb_writePos b"

definition MB_GetDataStartWithReadPos :: "mblock \<Rightarrow> byte option list" where
  "MB_GetDataStartWithReadPos b = drop (mb_readPos b) (mb_buf b)"

text \<open>\<open>Resize\<close> asserts that the block owns its buffer and grows; \<open>None\<close> is the failed assertion.\<close>

definition MB_Resize :: "nat \<Rightarrow> mblock \<Rightarrow> mblock option" where
  "MB_Resize newSize b =
     (if \<not> mb_attach b \<and> newSize > MB_GetSize b
      then Some (b\<lparr>mb_buf := mb_buf b @ replicate (newSize - MB_GetSize b) None\<rparr>)
      else None)"

definition MB_Allocate :: "nat \<Rightarrow> mblock \<Rightarrow> (int \<times> mblock) option" where
  "MB_Allocate sz b =
     (if mb_attach b then Some (LLBC_FAILED, b)
      else case MB_Resize (MB_GetSize b + sz) b of
             None \<Rightarrow> None
           | Some b' \<Rightarrow> Some (LLBC_OK, b'))"

definition MB_Read :: "nat \<Rightarrow> mblock \<Rightarrow> int \<times> byte option list \<times> mblock" where
  "MB_Read len b =
     (if len > MB_GetReadableSize b then (LLBC_FAILED, [], b)
      else (LLBC_OK, take len (drop (mb_readPos b) (mb_buf b)), b\<lparr>mb_readPos := mb_readPos b + len\<rparr>))"

definition MB_Write :: "byte option list \<Rightarrow> mblock \<Rightarrow> (int \<times> mblock) option" where
  "MB_Write xs b =
     (let len = length xs; w = mb_writePos b
      in if len = 0 then Some (LLBC_OK, b)
         else case (if w + len > MB_GetSize b
                    then MB_Resize (max (w + len) (MB_GetSize b * 2)) b else Some b) of
                None \<Rightarrow> None
              | Some b' \<Rightarrow> Some (LLBC_OK, b'\<lparr>mb_buf := write_cells w xs (mb_buf b'), mb_writePos := w + len\<rparr>))"

definition MB_Release :: "mblock \<Rightarrow> mblock" where
  "MB_Release b = b\<lparr>mb_buf := [], mb_readPos := 0, mb_writePos := 0\<rparr>"

definition MB_Clear :: "mblock \<Rightarrow> mblock" where
  "MB_Clear b =
     (let b = b\<lparr>mb_readPos := 0, mb_writePos := 0\<rparr>
      in if mb_attach b then b\<lparr>mb_buf := [], mb_attach := False\<rparr> else b)"

definition MB_SetReadPos :: "nat \<Rightarrow> mblock \<Rightarrow> int \<times> mblock" where
  "MB_SetReadPos pos b =
     (if pos > MB_GetSize b then (LLBC_FAILED, b) else (LLBC_OK, b\<lparr>mb_readPos := pos\<rparr>))"

definition MB_ShiftReadPos :: "int \<Rightarrow> mblock \<Rightarrow> int \<times> mblock" where
  "MB_ShiftReadPos off b =
     (let pos = int (mb_readPos b) + off
      in if pos < 0 \<or> pos > int (MB_GetSize b) then (LLBC_FAILED, b)
         else (LLBC_OK, b\<lparr>mb_readPos := nat pos\<rparr>))"

definition MB_SetWritePos :: "nat \<Rightarrow> mblock \<Rightarrow> int \<times> mblock" where
  "MB_SetWritePos pos b =
     (if pos > MB_GetSize b then (LLBC_FAILED, b) else (LLBC_OK, b\<lparr>mb_writePos := pos\<rparr>))"

definition MB_ShiftWritePos :: "int \<Rightarrow> mblock \<Rightarrow> int \<times> mblock" where
  "MB_ShiftWritePos off b =
     (let pos = int (mb_writePos b) + off
      in if pos < 0 \<or> pos > int (MB_GetSize b) then (LLBC_FAILED, b)
         else (LLBC_OK, b\<lparr>mb_writePos := nat pos\<rparr>))"

text \<open>A block that owns its buffer and whose readable bytes are \<open>bs\<close>.\<close>

definition mb_repr :: "mblock \<Rightarrow> byte list \<Rightarrow> bool" where
  "mb_repr b bs \<longleftrightarrow> \<not> mb_attach b \<and> mb_readPos b \<le> mb_writePos b \<and> mb_writePos b \<le> MB_GetSize b
     \<and> take (mb_writePos b - mb_readPos b) (drop (mb_readPos b) (mb_buf b)) = map Some bs"

section \<open>Lemmas on byte order\<close>

lemma length_le_bytes [simp]: "length (le_bytes n x) = n"
  by (induction n arbitrary: x) auto

lemma le_val_bytes: "le_val (le_bytes n x) = x mod 256 ^ n"
  by (induction n arbitrary: x) (auto simp: unat_of_nat mod_mult2_eq)

lemma le_val_bound: "le_val bs < 256 ^ length bs"
proof (induction bs)
  case (Cons b bs)
  have "unat b < 256" using unsigned_less [of b] by simp
  then show ?case using Cons by simp
qed simp

lemma le_bytes_val: "le_bytes (length bs) (le_val bs) = bs"
proof (induction bs)
  case (Cons b bs)
  have "unat b < 256" using unsigned_less [of b] by simp
  moreover have "(256 :: byte) * x = 0" for x
  proof -
    have "(256 :: byte) = 0" by simp
    then show ?thesis by (simp only: mult_zero_left)
  qed
  ultimately show ?case using Cons by (simp add: div_mult_self1)
qed simp

lemma length_obj_bytes: "length (obj_bytes (v :: 'w::len word)) = LENGTH('w) div 8"
  by (simp add: obj_bytes_def)

lemma bytes_obj_bytes:
  assumes "8 dvd LENGTH('w)"
  shows "bytes_obj (obj_bytes (v :: 'w::len word)) = v"
proof -
  obtain k where "LENGTH('w) = 8 * k" using assms by (rule dvdE)
  then have "unat v < 256 ^ (LENGTH('w) div 8)" using unsigned_less [of v] by (simp add: power_mult)
  then show ?thesis by (simp add: bytes_obj_def obj_bytes_def le_val_bytes)
qed

lemma obj_bytes_obj:
  assumes "length bs = LENGTH('w) div 8" "8 dvd LENGTH('w)"
  shows "obj_bytes (bytes_obj bs :: 'w::len word) = bs"
proof -
  have "(2 :: nat) ^ LENGTH('w) = 256 ^ length bs"
    using assms power_mult [of "2 :: nat" 8 "length bs"] by simp
  then have "unat (bytes_obj bs :: 'w word) = le_val bs"
    using le_val_bound [of bs] by (simp add: bytes_obj_def unat_of_nat)
  then show ?thesis using assms le_bytes_val [of bs] by (simp add: obj_bytes_def)
qed

lemma reverse_map: "map (\<lambda>i. xs ! (length xs - i - 1)) [0 ..< length xs] = rev xs"
  by (rule nth_equalityI) (auto simp: rev_nth)

lemma ReverseBytes_rev: "LLBC_ReverseBytes v = bytes_obj (rev (obj_bytes v))"
  using reverse_map [of "obj_bytes v"] by (simp add: LLBC_ReverseBytes_def Let_def)

lemma ReverseBytes_bytes:
  "8 dvd LENGTH('w) \<Longrightarrow> obj_bytes (LLBC_ReverseBytes v) = rev (obj_bytes (v :: 'w::len word))"
  by (simp add: ReverseBytes_rev obj_bytes_obj length_obj_bytes)

lemma ReverseBytes_involutive:
  "8 dvd LENGTH('w) \<Longrightarrow> LLBC_ReverseBytes (LLBC_ReverseBytes (v :: 'w::len word)) = v"
  by (simp add: ReverseBytes_rev obj_bytes_obj length_obj_bytes bytes_obj_bytes)

lemma Net2Host_Host2Net:
  "8 dvd LENGTH('w) \<Longrightarrow> LLBC_Net2Host (LLBC_Host2Net (v :: 'w::len word)) = v"
  by (simp add: LLBC_Net2Host_def LLBC_Host2Net_def ReverseBytes_involutive)

text \<open>What \<open>Host2Net\<close> puts on the wire is the big-endian representation.\<close>

lemma Host2Net_bytes:
  "8 dvd LENGTH('w) \<Longrightarrow> obj_bytes (LLBC_Host2Net v) = rev (obj_bytes (v :: 'w::len word))"
  by (simp add: LLBC_Host2Net_def LLBC_MachineEndian_def ReverseBytes_bytes)

lemma bit_low32: "bit (0xffffffff :: u64) n \<longleftrightarrow> n < 32"
proof -
  have "(0xffffffff :: u64) = mask 32" by (simp add: mask_eq_exp_minus_1)
  then show ?thesis by (simp only: bit_mask_iff) auto
qed

lemma bit_ones32: "bit (0xffffffff :: int) n \<longleftrightarrow> n < 32"
proof -
  have "(0xffffffff :: int) = mask 32" by (simp add: mask_eq_exp_minus_1)
  then show ?thesis by (simp only: bit_mask_iff) auto
qed

lemma halves_join:
  fixes a b :: u32
  defines "j \<equiv> push_bit 32 (ucast b) OR ucast a :: u64"
  shows "ucast (drop_bit 32 j) = b" "ucast (j AND 0xffffffff) = a"
  unfolding j_def
  by (rule bit_word_eqI; auto simp: bit_simps bit_low32 bit_ones32 dest: bit_imp_le_length)+

lemma halves_split:
  fixes v :: u64
  shows "push_bit 32 (ucast (ucast (drop_bit 32 v) :: u32)) OR ucast (ucast (v AND 0xffffffff) :: u32) = v"
  by (rule bit_word_eqI) (auto simp: bit_simps bit_low32 bit_ones32)

lemma Net2Host64_Host2Net64: "LLBC_Net2Host64 (LLBC_Host2Net64 v) = v"
  using halves_join halves_split [of v]
  by (simp add: LLBC_Net2Host64_def LLBC_Host2Net64_def LLBC_MachineEndian_def Let_def
      LLBC_Net2Host_def ReverseBytes_involutive)

section \<open>Lemmas on message blocks\<close>

lemma MB_new_repr: "mb_repr (MB_new n) []"
  by (simp add: mb_repr_def MB_new_def)

lemma mb_repr_length: "mb_repr b bs \<Longrightarrow> length bs = mb_writePos b - mb_readPos b"
  by (auto simp: mb_repr_def MB_GetSize_def dest!: arg_cong [of _ _ length])

lemma MB_readable: "mb_repr b bs \<Longrightarrow> MB_GetReadableSize b = length bs"
  by (auto simp: MB_GetReadableSize_def mb_repr_length)

lemma MB_readable_cells:
  "mb_repr b bs \<Longrightarrow> take (MB_GetReadableSize b) (MB_GetDataStartWithReadPos b) = map Some bs"
  using mb_repr_length [of b bs]
  by (simp add: MB_readable MB_GetDataStartWithReadPos_def mb_repr_def)

lemma MB_put_repr:
  assumes "mb_repr b bs" "mb_writePos b + length cs \<le> MB_GetSize b"
  shows "mb_repr (b\<lparr>mb_buf := write_cells (mb_writePos b) (map Some cs) (mb_buf b),
      mb_writePos := mb_writePos b + length cs\<rparr>) (bs @ cs)"
  using assms mb_repr_length [OF assms(1)]
  by (auto simp: mb_repr_def MB_GetSize_def write_cells_def drop_take)

lemma MB_Resize_repr:
  "mb_repr b bs \<Longrightarrow> n > MB_GetSize b \<Longrightarrow>
     \<exists>b'. MB_Resize n b = Some b' \<and> mb_repr b' bs \<and> MB_GetSize b' = n \<and> mb_writePos b' = mb_writePos b"
  by (auto simp: MB_Resize_def mb_repr_def MB_GetSize_def)

lemma MB_Write_repr:
  assumes "mb_repr b bs"
  shows "\<exists>b'. MB_Write (map Some cs) b = Some (LLBC_OK, b') \<and> mb_repr b' (bs @ cs)"
proof (cases "cs = [] \<or> mb_writePos b + length cs \<le> MB_GetSize b")
  case True
  then show ?thesis using assms MB_put_repr [of b bs cs] by (auto simp: MB_Write_def Let_def)
next
  case False
  let ?n = "max (mb_writePos b + length cs) (MB_GetSize b * 2)"
  have "?n > MB_GetSize b" using False by linarith
  from MB_Resize_repr [OF assms this] obtain b' where
    "MB_Resize ?n b = Some b'" "mb_repr b' bs" "MB_GetSize b' = ?n" "mb_writePos b' = mb_writePos b"
    by blast
  then show ?thesis using False MB_put_repr [of b' bs cs] by (auto simp: MB_Write_def Let_def)
qed

lemma MB_Read_repr:
  assumes "mb_repr b bs" "n \<le> length bs"
  shows "\<exists>b'. MB_Read n b = (LLBC_OK, map Some (take n bs), b') \<and> mb_repr b' (drop n bs)"
proof -
  have len: "length bs = mb_writePos b - mb_readPos b" by (rule mb_repr_length [OF assms(1)])
  have w: "take (mb_writePos b - mb_readPos b) (drop (mb_readPos b) (mb_buf b)) = map Some bs"
    using assms(1) by (simp add: mb_repr_def)
  have "take n (drop (mb_readPos b) (mb_buf b)) = map Some (take n bs)"
    using arg_cong [OF w, of "take n"] assms(2) len by (simp add: take_map min_def split: if_splits)
  moreover have "take (mb_writePos b - (mb_readPos b + n)) (drop (mb_readPos b + n) (mb_buf b)) = map Some (drop n bs)"
    using arg_cong [OF w, of "drop n"] assms(2) len by (simp add: drop_map drop_take add.commute)
  ultimately show ?thesis
    using assms len by (auto simp: MB_Read_def MB_readable mb_repr_def MB_GetSize_def)
qed

lemma MB_Read_short:
  "mb_repr b bs \<Longrightarrow> length bs < n \<Longrightarrow> MB_Read n b = (LLBC_FAILED, [], b)"
  by (simp add: MB_Read_def MB_readable)

lemma MB_ShiftReadPos_repr:
  assumes "mb_repr b bs" "n \<le> length bs"
  shows "\<exists>b'. MB_ShiftReadPos (int n) b = (LLBC_OK, b') \<and> mb_repr b' (drop n bs)"
proof -
  obtain b' where "MB_Read n b = (LLBC_OK, map Some (take n bs), b')" "mb_repr b' (drop n bs)"
    using MB_Read_repr [OF assms] by auto
  moreover have "mb_readPos b + n \<le> MB_GetSize b"
    using assms mb_repr_length [OF assms(1)] by (auto simp: mb_repr_def)
  moreover have "nat (int (mb_readPos b) + int n) = mb_readPos b + n" by simp
  ultimately show ?thesis
    using assms by (auto simp: MB_Read_def MB_readable MB_ShiftReadPos_def Let_def split: if_splits)
qed

section \<open>Properties\<close>

text \<open>A block that is written in any pieces holds the concatenation of the pieces, however often its
  buffer is reallocated, and reading \<open>n\<close> bytes returns the first \<open>n\<close> of them and leaves the rest; a read
  of more than is there fails and changes nothing.\<close>

theorem block_write_read:
  assumes "mb_repr b bs"
  shows "\<exists>b'. MB_Write (map Some cs) b = Some (LLBC_OK, b') \<and> mb_repr b' (bs @ cs)
    \<and> (if n \<le> length bs + length cs
       then \<exists>b''. MB_Read n b' = (LLBC_OK, map Some (take n (bs @ cs)), b'') \<and> mb_repr b'' (drop n (bs @ cs))
       else MB_Read n b' = (LLBC_FAILED, [], b'))"
proof -
  obtain b' where "MB_Write (map Some cs) b = Some (LLBC_OK, b')" "mb_repr b' (bs @ cs)"
    using MB_Write_repr [OF assms] by blast
  then show ?thesis using MB_Read_repr [of b' "bs @ cs" n] MB_Read_short [of b' "bs @ cs" n] by auto
qed

theorem block_write_read_witness:
  "\<exists>b'. MB_Write [Some 1, Some 2] (MB_new 1) = Some (LLBC_OK, b') \<and> mb_repr b' [1, 2]"
  using block_write_read [OF MB_new_repr, of "[1, 2]" 1 0] by auto

end
