(* ===== verification/Llbc_Stream.thy ===== *)
theory Llbc_Stream
  imports Llbc_Block
begin

text \<open>
  \<open>LLBC_Stream\<close> (3rd/llbc/llbc/include/llbc/common/Stream.h and StreamInl.h): the serialiser that a packet
  uses for strings and protobuf messages. The buffer is a list of cells whose length is \<open>_cap\<close>. Reads
  of memory outside the buffer, or never written, have the result \<open>Rd_undef\<close>; writes outside the buffer
  have the result \<open>None\<close>. The protobuf library is a pair of arguments: \<open>ser\<close> is \<open>SerializeToArray\<close>
  (with \<open>ByteSizeLong\<close> the length of its result) and \<open>parse\<close> is \<open>ParseFromArray\<close>.
\<close>

section \<open>The stream and its operations\<close>

datatype 'a rd = Rd_ok 'a | Rd_fail | Rd_undef

record stream =
  st_buf :: "byte option list"
  st_pos :: nat
  st_endian :: endian
  st_attach :: bool

definition LLBC_CFG_COM_STREAM_AUTO_RESIZE_INCR_LIMIT :: nat where
  "LLBC_CFG_COM_STREAM_AUTO_RESIZE_INCR_LIMIT = 512"

definition LLBC_DefaultEndian :: endian where
  "LLBC_DefaultEndian = NetEndian"

text \<open>The bytes at \<open>p .. p + n - 1\<close>, if they are inside the buffer and written.\<close>

definition read_cells :: "nat \<Rightarrow> nat \<Rightarrow> byte option list \<Rightarrow> byte list option" where
  "read_cells p n buf = (if p + n \<le> length buf then those (take n (drop p buf)) else None)"

definition Stream_new :: stream where
  "Stream_new = \<lparr>st_buf = [], st_pos = 0, st_endian = LLBC_DefaultEndian, st_attach = False\<rparr>"

definition Stream_with_cap :: "nat \<Rightarrow> stream" where
  "Stream_with_cap cap =
     \<lparr>st_buf = replicate cap None, st_pos = 0, st_endian = LLBC_DefaultEndian, st_attach = False\<rparr>"

definition Stream_Attach :: "byte option list \<Rightarrow> stream \<Rightarrow> stream" where
  "Stream_Attach buf s = s\<lparr>st_buf := buf, st_pos := 0, st_attach := True\<rparr>"

definition Stream_Detach :: "stream \<Rightarrow> byte option list \<times> stream" where
  "Stream_Detach s = (st_buf s, s\<lparr>st_buf := [], st_pos := 0, st_attach := False\<rparr>)"

definition Stream_SetEndian :: "endian \<Rightarrow> stream \<Rightarrow> stream" where
  "Stream_SetEndian e s = s\<lparr>st_endian := e\<rparr>"

definition Stream_GetCap :: "stream \<Rightarrow> nat" where
  "Stream_GetCap s = length (st_buf s)"

text \<open>\<open>_cap - _pos\<close> on \<open>size_t\<close>.\<close>

definition Stream_GetFreeCap :: "stream \<Rightarrow> nat" where
  "Stream_GetFreeCap s =
     (if st_pos s \<le> Stream_GetCap s then Stream_GetCap s - st_pos s
      else 2 ^ 64 + Stream_GetCap s - st_pos s)"

definition Stream_SetPos :: "nat \<Rightarrow> stream \<Rightarrow> stream" where
  "Stream_SetPos pos s = s\<lparr>st_pos := min pos (Stream_GetCap s)\<rparr>"

definition Stream_Skip :: "int \<Rightarrow> stream \<Rightarrow> bool \<times> stream" where
  "Stream_Skip sz s =
     (let newPos = int (st_pos s) + sz
      in if newPos < 0 \<or> newPos > int (Stream_GetCap s) then (False, s)
         else (True, s\<lparr>st_pos := nat newPos\<rparr>))"

definition Stream_Recap :: "nat \<Rightarrow> stream \<Rightarrow> bool \<times> stream" where
  "Stream_Recap newCap s =
     (if st_attach s \<or> newCap < Stream_GetCap s then (False, s)
      else (True, s\<lparr>st_buf := st_buf s @ replicate (newCap - Stream_GetCap s) None\<rparr>))"

text \<open>\<open>(newCap + 0xf) & 0xfffffff0\<close>: the mask is 32 bits wide, so it rounds up to a multiple of 16 and
  cuts the result to 32 bits.\<close>

definition recap_mask :: "nat \<Rightarrow> nat" where
  "recap_mask newCap = (newCap + 15) div 16 * 16 mod 2 ^ 32"

definition Stream_AutoRecap :: "nat \<Rightarrow> stream \<Rightarrow> bool \<times> stream" where
  "Stream_AutoRecap needCap s =
     (if Stream_GetFreeCap s \<ge> needCap then (True, s)
      else let cap = Stream_GetCap s;
               newCap = max (st_pos s + needCap) (min (cap * 2) (cap + LLBC_CFG_COM_STREAM_AUTO_RESIZE_INCR_LIMIT))
           in Stream_Recap (recap_mask newCap) s)"

text \<open>\<open>memcpy(_buf + _pos, ..)\<close> and the step of \<open>_pos\<close>; \<open>None\<close> if the buffer is too small.\<close>

definition stream_put :: "byte option list \<Rightarrow> stream \<Rightarrow> stream option" where
  "stream_put xs s =
     (if st_pos s + length xs \<le> Stream_GetCap s
      then Some (s\<lparr>st_buf := write_cells (st_pos s) xs (st_buf s), st_pos := st_pos s + length xs\<rparr>)
      else None)"

definition Stream_Write :: "byte option list \<Rightarrow> stream \<Rightarrow> stream option" where
  "Stream_Write xs s =
     (if xs = [] then Some s
      else case Stream_AutoRecap (length xs) s of
             (False, s') \<Rightarrow> Some s'
           | (True, s') \<Rightarrow> stream_put xs s')"

text \<open>The \<open>Write\<close> for arithmetic types ignores the result of \<open>AutoRecap\<close>.\<close>

definition Stream_Write_arith :: "'w::len word \<Rightarrow> stream \<Rightarrow> stream option" where
  "Stream_Write_arith v s =
     (let s' = snd (Stream_AutoRecap (LENGTH('w) div 8) s);
          v' = (if st_endian s' \<noteq> LLBC_MachineEndian then LLBC_ReverseBytes v else v)
      in stream_put (map Some (obj_bytes v')) s')"

definition Stream_Read :: "nat \<Rightarrow> stream \<Rightarrow> byte list rd \<times> stream" where
  "Stream_Read len s =
     (if len = 0 then (Rd_ok [], s)
      else if st_pos s + len > Stream_GetCap s then (Rd_fail, s)
      else (case read_cells (st_pos s) len (st_buf s) of None \<Rightarrow> Rd_undef | Some bs \<Rightarrow> Rd_ok bs,
            s\<lparr>st_pos := st_pos s + len\<rparr>))"

definition Stream_Read_arith :: "stream \<Rightarrow> 'w::len word rd \<times> stream" where
  "Stream_Read_arith s =
     (let n = LENGTH('w) div 8
      in if Stream_GetFreeCap s < n then (Rd_fail, s)
         else (case read_cells (st_pos s) n (st_buf s) of
                 None \<Rightarrow> Rd_undef
               | Some bs \<Rightarrow>
                   (let obj = bytes_obj bs
                    in Rd_ok (if st_endian s \<noteq> LLBC_MachineEndian then LLBC_ReverseBytes obj else obj)),
               s\<lparr>st_pos := st_pos s + n\<rparr>))"

text \<open>\<open>std::string\<close>: a 32-bit length and the characters.\<close>

definition char_byte :: "char \<Rightarrow> byte" where
  "char_byte c = of_nat (of_char c)"

definition byte_char :: "byte \<Rightarrow> char" where
  "byte_char b = char_of (unat b)"

definition Stream_Write_string :: "string \<Rightarrow> stream \<Rightarrow> stream option" where
  "Stream_Write_string str s =
     Option.bind (Stream_Write_arith (of_nat (length str) :: u32) s)
       (Stream_Write (map (\<lambda>c. Some (char_byte c)) str))"

definition Stream_Read_string :: "stream \<Rightarrow> string rd \<times> stream" where
  "Stream_Read_string s =
     (case Stream_Read_arith s of
        (Rd_ok (len :: u32), s') \<Rightarrow>
          (if len = 0 then (Rd_ok [], s')
           else case Stream_Read (unat len) s' of
                  (Rd_ok bs, s'') \<Rightarrow> (Rd_ok (map byte_char bs), s'')
                | (Rd_fail, s'') \<Rightarrow> (Rd_fail, s'')
                | (Rd_undef, s'') \<Rightarrow> (Rd_undef, s''))
      | (Rd_fail, s') \<Rightarrow> (Rd_fail, s')
      | (Rd_undef, s') \<Rightarrow> (Rd_undef, s'))"

text \<open>
  Protobuf messages: a 32-bit size and the serialised bytes. \<open>Read\<close> passes the size to \<open>ParseFromArray\<close>
  without comparing it with what is left in the buffer; the size is cast to \<open>int\<close>.
\<close>

definition Stream_Write_msg :: "('m \<Rightarrow> byte list) \<Rightarrow> 'm \<Rightarrow> stream \<Rightarrow> stream option" where
  "Stream_Write_msg ser m s =
     (let needSize = length (ser m);
          s' = (if Stream_GetFreeCap s < needSize + 4
                then snd (Stream_Recap (Stream_GetCap s + (needSize + 4)) s) else s)
      in Option.bind (Stream_Write_arith (of_nat needSize :: u32) s')
           (stream_put (map Some (ser m))))"

definition Stream_Read_msg :: "(byte list \<Rightarrow> 'm option) \<Rightarrow> stream \<Rightarrow> 'm rd \<times> stream" where
  "Stream_Read_msg parse s =
     (case Stream_Read_arith s of
        (Rd_ok (pbDataSize :: u32), s') \<Rightarrow>
          (if sint pbDataSize < 0 then (Rd_undef, s')
           else case read_cells (st_pos s') (unat pbDataSize) (st_buf s') of
                  None \<Rightarrow> (Rd_undef, s')
                | Some bs \<Rightarrow>
                    (case parse bs of
                       None \<Rightarrow> (Rd_fail, s')
                     | Some m \<Rightarrow> (Rd_ok m, s'\<lparr>st_pos := st_pos s' + unat pbDataSize\<rparr>)))
      | (Rd_fail, s') \<Rightarrow> (Rd_fail, s')
      | (Rd_undef, s') \<Rightarrow> (Rd_undef, s'))"

text \<open>\<open>Replace(n0, n1, buf, len)\<close> with \<open>n1\<close> possibly \<open>npos\<close> (here \<open>None\<close>); an empty \<open>buf\<close> is the null pointer.\<close>

definition Stream_Replace :: "nat \<Rightarrow> nat option \<Rightarrow> byte option list \<Rightarrow> stream \<Rightarrow> stream option" where
  "Stream_Replace a b xs s =
     (let (n0, n1) = (case b of
            None \<Rightarrow> (min a (st_pos s), st_pos s)
          | Some b \<Rightarrow> if b > st_pos s then (min a (st_pos s), st_pos s)
                      else if a > b then (b, a) else (a, b));
          eraseSize = n1 - n0
      in if length xs = eraseSize
         then (if length xs > 0
               then map_option (Stream_SetPos (st_pos s)) (Stream_Write xs (Stream_SetPos n0 s))
               else Some s)
         else let backBuf = take (st_pos s - n1) (drop n1 (st_buf s))
              in Option.bind (Stream_Write xs (Stream_SetPos n0 s)) (Stream_Write backBuf))"

definition Stream_Insert :: "nat \<Rightarrow> byte option list \<Rightarrow> stream \<Rightarrow> stream option" where
  "Stream_Insert pos xs s = Stream_Replace pos (Some pos) xs s"

definition Stream_Erase :: "nat \<Rightarrow> nat option \<Rightarrow> stream \<Rightarrow> stream option" where
  "Stream_Erase n0 n1 s = Stream_Replace n0 n1 [] s"

definition Stream_Clear :: "stream \<Rightarrow> stream" where
  "Stream_Clear s =
     (if st_attach s then s\<lparr>st_buf := [], st_pos := 0, st_attach := False\<rparr> else s\<lparr>st_pos := 0\<rparr>)"

definition Stream_Assign :: "stream \<Rightarrow> stream \<Rightarrow> stream option" where
  "Stream_Assign rhs s =
     (let s' = Stream_SetPos (st_pos rhs) s
      in if st_pos s' \<noteq> 0 then Stream_Write (take (st_pos rhs) (st_buf rhs)) s' else Some s')"

definition Stream_copy :: "stream \<Rightarrow> stream option" where
  "Stream_copy rhs = Stream_Assign rhs Stream_new"

text \<open>A stream that has been written and holds \<open>bs\<close>.\<close>

definition stream_repr :: "stream \<Rightarrow> byte list \<Rightarrow> bool" where
  "stream_repr s bs \<longleftrightarrow> \<not> st_attach s \<and> st_endian s = NetEndian \<and> st_pos s = length bs
     \<and> length bs \<le> Stream_GetCap s \<and> take (length bs) (st_buf s) = map Some bs"

section \<open>The wire format\<close>

text \<open>What the operations above write and read, as functions on byte lists: the abstract
  specification that the packet layer is proved against.\<close>

definition rd_bind :: "'a rd \<Rightarrow> ('a \<Rightarrow> 'b rd) \<Rightarrow> 'b rd" where
  "rd_bind r f = (case r of Rd_ok x \<Rightarrow> f x | Rd_fail \<Rightarrow> Rd_fail | Rd_undef \<Rightarrow> Rd_undef)"

definition word_enc :: "'w::len word \<Rightarrow> byte list" where
  "word_enc v = rev (obj_bytes v)"

definition word_dec :: "byte list \<Rightarrow> ('w::len word \<times> byte list) rd" where
  "word_dec bs =
     (let n = LENGTH('w) div 8
      in if length bs < n then Rd_fail else Rd_ok (bytes_obj (rev (take n bs)), drop n bs))"

definition string_enc :: "string \<Rightarrow> byte list" where
  "string_enc str = word_enc (of_nat (length str) :: u32) @ map char_byte str"

definition string_dec :: "byte list \<Rightarrow> (string \<times> byte list) rd" where
  "string_dec bs = rd_bind (word_dec bs) (\<lambda>(len :: u32, rest).
     if unat len \<le> length rest then Rd_ok (map byte_char (take (unat len) rest), drop (unat len) rest)
     else Rd_fail)"

definition msg_enc :: "('m \<Rightarrow> byte list) \<Rightarrow> 'm \<Rightarrow> byte list" where
  "msg_enc ser m = word_enc (of_nat (length (ser m)) :: u32) @ ser m"

definition msg_dec :: "(byte list \<Rightarrow> 'm option) \<Rightarrow> byte list \<Rightarrow> ('m \<times> byte list) rd" where
  "msg_dec parse bs = rd_bind (word_dec bs) (\<lambda>(len :: u32, rest).
     if sint len < 0 \<or> unat len > length rest then Rd_undef
     else case parse (take (unat len) rest) of
            None \<Rightarrow> Rd_fail
          | Some m \<Rightarrow> Rd_ok (m, drop (unat len) rest))"

text \<open>A stream positioned before the bytes \<open>bs\<close>, and a read that behaves as the decoder result \<open>d\<close>.\<close>

definition rdr :: "stream \<Rightarrow> byte list \<Rightarrow> bool" where
  "rdr s bs \<longleftrightarrow> st_endian s = NetEndian \<and> st_pos s \<le> Stream_GetCap s \<and> drop (st_pos s) (st_buf s) = map Some bs"

definition reads_as :: "stream \<Rightarrow> 'a rd \<times> stream \<Rightarrow> ('a \<times> byte list) rd \<Rightarrow> bool" where
  "reads_as s res d \<longleftrightarrow> (case d of
       Rd_ok (v, rest) \<Rightarrow> fst res = Rd_ok v \<and> rdr (snd res) rest \<and> st_buf (snd res) = st_buf s
     | Rd_fail \<Rightarrow> fst res = Rd_fail
     | Rd_undef \<Rightarrow> fst res = Rd_undef)"

text \<open>\<open>std::string\<close> and protobuf sizes are 32 bits on the wire.\<close>

definition string_ok :: "string \<Rightarrow> bool" where
  "string_ok str \<longleftrightarrow> length str + 2000 < 2 ^ 32"

definition msg_ok :: "('m \<Rightarrow> byte list) \<Rightarrow> 'm \<Rightarrow> bool" where
  "msg_ok ser m \<longleftrightarrow> length (ser m) < 2 ^ 31"

section \<open>Lemmas\<close>

lemma those_map_Some [simp]: "those (map Some xs) = Some xs"
  by (induction xs) auto

lemma read_cells_all: "read_cells (length as) (length bs) (map Some (as @ bs @ cs)) = Some bs"
  by (simp add: read_cells_def)

lemma byte_char_byte [simp]: "byte_char (char_byte c) = c"
proof -
  have "of_char c < (256 :: nat)" using of_char_mod_256 [of c] mod_less_divisor [of 256 "of_char c"] by simp
  then have "unat (of_nat (of_char c) :: byte) = (of_char c :: nat)" by (simp add: unat_of_nat)
  then show ?thesis by (simp add: byte_char_def char_byte_def)
qed

lemma recap_mask_ge:
  assumes "n + 15 < 2 ^ 32"
  shows "n \<le> recap_mask n" "recap_mask n \<le> n + 15"
proof -
  have "(n + 15) div 16 * 16 \<le> n + 15" by simp
  with assms have "(n + 15) div 16 * 16 mod 2 ^ 32 = (n + 15) div 16 * 16" by (intro mod_less) linarith
  then show "n \<le> recap_mask n" "recap_mask n \<le> n + 15" unfolding recap_mask_def by linarith+
qed

lemma Stream_new_repr: "stream_repr Stream_new []"
  by (simp add: stream_repr_def Stream_new_def LLBC_DefaultEndian_def)

lemma Stream_Recap_repr:
  "stream_repr s bs \<Longrightarrow> Stream_GetCap s \<le> n \<Longrightarrow>
     fst (Stream_Recap n s) \<and> stream_repr (snd (Stream_Recap n s)) bs \<and> Stream_GetCap (snd (Stream_Recap n s)) = n"
  by (auto simp: Stream_Recap_def stream_repr_def Stream_GetCap_def)

lemma Stream_AutoRecap_repr:
  assumes "stream_repr s bs" "Stream_GetCap s + k + 600 < 2 ^ 32"
  shows "\<exists>s'. Stream_AutoRecap k s = (True, s') \<and> stream_repr s' bs \<and> length bs + k \<le> Stream_GetCap s'
    \<and> Stream_GetCap s' \<le> Stream_GetCap s + k + 600"
proof (cases "Stream_GetFreeCap s \<ge> k")
  case True
  then show ?thesis
    using assms by (auto simp: Stream_AutoRecap_def Stream_GetFreeCap_def stream_repr_def split: if_splits)
next
  case False
  let ?cap = "Stream_GetCap s"
  let ?n = "max (st_pos s + k) (min (?cap * 2) (?cap + 512))"
  have pos: "st_pos s = length bs" "st_pos s \<le> ?cap" using assms(1) by (auto simp: stream_repr_def)
  have n: "?n \<le> ?cap + k + 512" using pos by auto
  have "?cap < st_pos s + k" using False pos by (auto simp: Stream_GetFreeCap_def)
  moreover have "?n \<le> recap_mask ?n" "recap_mask ?n \<le> ?n + 15"
    using n assms(2) by (intro recap_mask_ge; linarith)+
  ultimately have "?cap \<le> recap_mask ?n" "length bs + k \<le> recap_mask ?n" "recap_mask ?n \<le> ?cap + k + 600"
    using n pos by linarith+
  moreover have "Stream_AutoRecap k s = Stream_Recap (recap_mask ?n) s"
    using False by (simp add: Stream_AutoRecap_def Let_def LLBC_CFG_COM_STREAM_AUTO_RESIZE_INCR_LIMIT_def)
  ultimately show ?thesis
    using Stream_Recap_repr [OF assms(1), of "recap_mask ?n"] by (cases "Stream_Recap (recap_mask ?n) s") auto
qed

lemma stream_put_repr:
  assumes "stream_repr s bs" "length bs + length cs \<le> Stream_GetCap s"
  shows "\<exists>s'. stream_put (map Some cs) s = Some s' \<and> stream_repr s' (bs @ cs) \<and> Stream_GetCap s' = Stream_GetCap s"
  using assms by (auto simp: stream_put_def stream_repr_def Stream_GetCap_def write_cells_def)

lemma Stream_Write_repr:
  assumes "stream_repr s bs" "Stream_GetCap s + length cs + 600 < 2 ^ 32"
  shows "\<exists>s'. Stream_Write (map Some cs) s = Some s' \<and> stream_repr s' (bs @ cs)
    \<and> Stream_GetCap s' \<le> Stream_GetCap s + length cs + 600"
proof (cases "cs = []")
  case True
  then show ?thesis using assms by (simp add: Stream_Write_def)
next
  case False
  obtain s' where s': "Stream_AutoRecap (length cs) s = (True, s')" "stream_repr s' bs"
    "length bs + length cs \<le> Stream_GetCap s'" "Stream_GetCap s' \<le> Stream_GetCap s + length cs + 600"
    using Stream_AutoRecap_repr [OF assms] by blast
  with stream_put_repr [OF s'(2,3)] False show ?thesis by (auto simp: Stream_Write_def)
qed

lemma Stream_Write_arith_repr:
  fixes v :: "'w::len word"
  assumes "stream_repr s bs" "Stream_GetCap s + LENGTH('w) + 600 < 2 ^ 32" "8 dvd LENGTH('w)"
  shows "\<exists>s'. Stream_Write_arith v s = Some s' \<and> stream_repr s' (bs @ rev (obj_bytes v))
    \<and> Stream_GetCap s' \<le> Stream_GetCap s + LENGTH('w) + 600"
proof -
  have "LENGTH('w) div 8 \<le> LENGTH('w)" by simp
  with assms(2) have small: "Stream_GetCap s + LENGTH('w) div 8 + 600 < 2 ^ 32" by linarith
  obtain s' where s': "Stream_AutoRecap (LENGTH('w) div 8) s = (True, s')" "stream_repr s' bs"
    "length bs + LENGTH('w) div 8 \<le> Stream_GetCap s'" "Stream_GetCap s' \<le> Stream_GetCap s + LENGTH('w) div 8 + 600"
    using Stream_AutoRecap_repr [OF assms(1) small] by blast
  have len: "length (rev (obj_bytes v)) = LENGTH('w) div 8" by (simp add: length_obj_bytes)
  have e: "st_endian s' = NetEndian" using s'(2) by (simp add: stream_repr_def)
  from stream_put_repr [OF s'(2), of "rev (obj_bytes v)"] s'(3,4) len show ?thesis
    by (auto simp: Stream_Write_arith_def s'(1) e LLBC_MachineEndian_def ReverseBytes_bytes [OF assms(3)])
qed

lemma Stream_Write_string_repr:
  assumes "stream_repr s bs" "Stream_GetCap s + length str + 1300 < 2 ^ 32"
  shows "\<exists>s'. Stream_Write_string str s = Some s' \<and> stream_repr s' (bs @ string_enc str)"
proof -
  obtain s1 where s1: "Stream_Write_arith (of_nat (length str) :: u32) s = Some s1"
    "stream_repr s1 (bs @ word_enc (of_nat (length str) :: u32))" "Stream_GetCap s1 \<le> Stream_GetCap s + 32 + 600"
    using Stream_Write_arith_repr [OF assms(1), of "of_nat (length str) :: u32"] assms(2)
    by (auto simp: word_enc_def)
  have "Stream_GetCap s1 + length (map char_byte str) + 600 < 2 ^ 32" using s1(3) assms(2) by simp
  from Stream_Write_repr [OF s1(2) this] s1(1) show ?thesis
    by (auto simp: Stream_Write_string_def string_enc_def comp_def)
qed

lemma Stream_Write_msg_repr:
  assumes "stream_repr s bs" "Stream_GetCap s + length (ser m) + 700 < 2 ^ 32"
  shows "\<exists>s'. Stream_Write_msg ser m s = Some s' \<and> stream_repr s' (bs @ msg_enc ser m)"
proof -
  let ?n = "length (ser m)"
  define s' where "s' = (if Stream_GetFreeCap s < ?n + 4 then snd (Stream_Recap (Stream_GetCap s + (?n + 4)) s) else s)"
  have s': "stream_repr s' bs" "length bs + ?n + 4 \<le> Stream_GetCap s'" "Stream_GetCap s' \<le> Stream_GetCap s + (?n + 4)"
    using assms(1) Stream_Recap_repr [OF assms(1), of "Stream_GetCap s + (?n + 4)"]
    by (auto simp: s'_def Stream_GetFreeCap_def stream_repr_def)
  have free: "Stream_AutoRecap 4 s' = (True, s')"
    using s'(1,2) by (auto simp: Stream_AutoRecap_def Stream_GetFreeCap_def stream_repr_def)
  have e: "st_endian s' = NetEndian" using s'(1) by (simp add: stream_repr_def)
  obtain s1 where s1: "Stream_Write_arith (of_nat ?n :: u32) s' = Some s1"
    "stream_repr s1 (bs @ word_enc (of_nat ?n :: u32))" "Stream_GetCap s1 = Stream_GetCap s'"
    using stream_put_repr [OF s'(1), of "rev (obj_bytes (of_nat ?n :: u32))"] s'(2)
    by (auto simp: Stream_Write_arith_def free e word_enc_def LLBC_MachineEndian_def ReverseBytes_bytes
        length_obj_bytes)
  have "length (bs @ word_enc (of_nat ?n :: u32)) + ?n \<le> Stream_GetCap s1"
    using s1(3) s'(2) by (simp add: word_enc_def length_obj_bytes)
  from stream_put_repr [OF s1(2) this] s1(1) show ?thesis
    by (auto simp: Stream_Write_msg_def Let_def msg_enc_def s'_def)
qed

lemma rdr_cells: "rdr s bs \<Longrightarrow> n \<le> length bs \<Longrightarrow> read_cells (st_pos s) n (st_buf s) = Some (take n bs)"
  by (auto simp: rdr_def read_cells_def Stream_GetCap_def take_map dest: arg_cong [of _ _ length])

lemma rdr_length: "rdr s bs \<Longrightarrow> length bs = Stream_GetCap s - st_pos s \<and> st_pos s \<le> Stream_GetCap s"
  by (auto simp: rdr_def Stream_GetCap_def dest: arg_cong [of _ _ length])

lemma rdr_step: "rdr s bs \<Longrightarrow> n \<le> length bs \<Longrightarrow> rdr (s\<lparr>st_pos := st_pos s + n\<rparr>) (drop n bs)"
  using rdr_length [of s bs]
  by (auto simp: rdr_def Stream_GetCap_def drop_map add.commute simp flip: drop_drop)

lemma Stream_Read_arith_spec:
  assumes "rdr s bs" "8 dvd LENGTH('w)"
  shows "reads_as s (Stream_Read_arith s) (word_dec bs :: ('w::len word \<times> byte list) rd)"
proof -
  let ?n = "LENGTH('w) div 8"
  have free: "Stream_GetFreeCap s = length bs"
    using rdr_length [OF assms(1)] by (simp add: Stream_GetFreeCap_def)
  have "LLBC_ReverseBytes (bytes_obj (take ?n bs) :: 'w word) = bytes_obj (rev (take ?n bs))"
    if "?n \<le> length bs" using that assms(2) by (simp add: ReverseBytes_rev obj_bytes_obj)
  then show ?thesis
    using assms(1) free rdr_cells [OF assms(1), of ?n] rdr_step [OF assms(1), of ?n]
    by (auto simp: reads_as_def Stream_Read_arith_def word_dec_def Let_def rdr_def LLBC_MachineEndian_def)
qed

lemma string_dec_nil: "string_dec [] = Rd_fail" and msg_dec_nil: "msg_dec parse [] = Rd_fail"
  by (simp_all add: string_dec_def msg_dec_def word_dec_def rd_bind_def)

lemma reads_asE:
  assumes "reads_as s res d"
  obtains (ok) v rest s' where "d = Rd_ok (v, rest)" "res = (Rd_ok v, s')" "rdr s' rest" "st_buf s' = st_buf s"
  | (fail) s' where "d = Rd_fail" "res = (Rd_fail, s')"
  | (undef) s' where "d = Rd_undef" "res = (Rd_undef, s')"
  using assms by (cases res; cases d) (auto simp: reads_as_def)

lemma Stream_Read_string_spec:
  assumes "rdr s bs"
  shows "reads_as s (Stream_Read_string s) (string_dec bs)"
  using Stream_Read_arith_spec [OF assms, where 'w = 32, simplified]
proof (cases rule: reads_asE)
  case (ok len rest s')
  have r: "read_cells (st_pos s') (unat len) (st_buf s') = Some (take (unat len) rest)"
    if "unat len \<le> length rest" using rdr_cells [OF ok(3) that] .
  show ?thesis
    using ok rdr_length [OF ok(3)] r rdr_step [OF ok(3), of "unat len"]
    by (auto simp: reads_as_def Stream_Read_string_def string_dec_def rd_bind_def Stream_Read_def unat_eq_0)
qed (auto simp: reads_as_def Stream_Read_string_def string_dec_def rd_bind_def)

lemma Stream_Read_msg_spec:
  assumes "rdr s bs"
  shows "reads_as s (Stream_Read_msg parse s) (msg_dec parse bs)"
  using Stream_Read_arith_spec [OF assms, where 'w = 32, simplified]
proof (cases rule: reads_asE)
  case (ok len rest s')
  have short: "read_cells (st_pos s') (unat len) (st_buf s') = None" if "unat len > length rest"
    using that rdr_length [OF ok(3)] by (auto simp: read_cells_def Stream_GetCap_def)
  show ?thesis
    using ok short rdr_cells [OF ok(3), of "unat len"] rdr_step [OF ok(3), of "unat len"]
    by (auto simp: reads_as_def Stream_Read_msg_def msg_dec_def rd_bind_def not_less split: option.split)
qed (auto simp: reads_as_def Stream_Read_msg_def msg_dec_def rd_bind_def)

section \<open>The interface of a byte codec\<close>

text \<open>
  An encoder and a decoder that undo each other with any bytes following. Two codecs give a codec of
  pairs, which is how the packet layer writes one field after another.
\<close>

locale byte_codec =
  fixes enc :: "'a \<Rightarrow> byte list" and dec :: "byte list \<Rightarrow> ('a \<times> byte list) rd" and ok :: "'a \<Rightarrow> bool"
  assumes dec_enc: "ok x \<Longrightarrow> dec (enc x @ rest) = Rd_ok (x, rest)"
begin

lemma enc_prefix_free: "ok x \<Longrightarrow> ok y \<Longrightarrow> enc x @ r = enc y @ r' \<Longrightarrow> x = y \<and> r = r'"
  by (metis dec_enc prod.inject rd.inject)

lemma enc_inj: "ok x \<Longrightarrow> ok y \<Longrightarrow> enc x = enc y \<Longrightarrow> x = y"
  using enc_prefix_free [of x y "[]" "[]"] by simp

end

locale byte_codec_pair =
  fst: byte_codec enc1 dec1 ok1 + snd: byte_codec enc2 dec2 ok2
  for enc1 :: "'a \<Rightarrow> byte list" and dec1 ok1 and enc2 :: "'b \<Rightarrow> byte list" and dec2 ok2

sublocale byte_codec_pair \<subseteq> pair: byte_codec
  "\<lambda>(x, y). enc1 x @ enc2 y"
  "\<lambda>bs. rd_bind (dec1 bs) (\<lambda>(x, r). rd_bind (dec2 r) (\<lambda>(y, r'). Rd_ok ((x, y), r')))"
  "\<lambda>(x, y). ok1 x \<and> ok2 y"
  by unfold_locales (auto simp: rd_bind_def fst.dec_enc snd.dec_enc)

lemma word_dec_enc: "8 dvd LENGTH('w) \<Longrightarrow> word_dec (word_enc v @ rest) = Rd_ok (v :: 'w::len word, rest)"
  by (simp add: word_dec_def word_enc_def length_obj_bytes bytes_obj_bytes)

lemma length_word_enc [simp]: "length (word_enc (v :: 'w::len word)) = LENGTH('w) div 8"
  by (simp add: word_enc_def length_obj_bytes)

interpretation word_codec: byte_codec "word_enc :: 'w::len word \<Rightarrow> byte list" word_dec "\<lambda>_. 8 dvd LENGTH('w)"
  by unfold_locales (simp add: word_dec_enc)

interpretation string_codec: byte_codec string_enc string_dec string_ok
proof
  fix str rest
  assume "string_ok str"
  then have "unat (of_nat (length str) :: u32) = length str" by (simp add: string_ok_def unat_of_nat)
  then show "string_dec (string_enc str @ rest) = Rd_ok (str, rest)"
    by (simp add: string_dec_def string_enc_def word_dec_enc rd_bind_def comp_def)
qed

lemma msg_dec_enc:
  assumes "parse (ser m) = Some m" "msg_ok ser m"
  shows "msg_dec parse (msg_enc ser m @ rest) = Rd_ok (m, rest)"
proof -
  have "length (ser m) < 2 ^ 31" using assms(2) by (simp add: msg_ok_def)
  then have "unat (of_nat (length (ser m)) :: u32) = length (ser m)" "\<not> sint (of_nat (length (ser m)) :: u32) < 0"
    by (simp_all add: unat_of_nat signed_of_nat signed_take_bit_int_eq_self)
  then show ?thesis using assms(1) by (simp add: msg_dec_def msg_enc_def word_dec_enc rd_bind_def)
qed

lemma stream_overwrite:
  assumes "stream_repr s bs" "n0 + length cs \<le> length bs"
  shows "\<exists>s'. Stream_Write (map Some cs) (Stream_SetPos n0 s) = Some s' \<and>
    stream_repr (Stream_SetPos (length bs) s') (take n0 bs @ cs @ drop (n0 + length cs) bs)"
proof -
  let ?m = "n0 + length cs"
  have s: "st_pos s = length bs" "length bs \<le> length (st_buf s)" "take (length bs) (st_buf s) = map Some bs"
    "\<not> st_attach s" "st_endian s = NetEndian"
    using assms(1) by (auto simp: stream_repr_def Stream_GetCap_def)
  have cells: "take n0 (st_buf s) = map Some (take n0 bs)"
    "take (length bs - ?m) (drop ?m (st_buf s)) = map Some (drop ?m bs)"
    using arg_cong [OF s(3), of "take n0"] arg_cong [OF s(3), of "drop ?m"] assms(2)
    by (simp_all add: take_map min_absorb1 drop_take drop_map)
  then have "take (length bs) (write_cells n0 (map Some cs) (st_buf s)) = map Some (take n0 bs @ cs @ drop ?m bs)"
    using assms(2) s(2) by (simp add: write_cells_def)
  moreover have "Stream_Write (map Some cs) (Stream_SetPos n0 s) = stream_put (map Some cs) (Stream_SetPos n0 s)"
    using assms(2) s(2) by (auto simp: Stream_Write_def Stream_AutoRecap_def Stream_GetFreeCap_def
        Stream_SetPos_def Stream_GetCap_def stream_put_def write_cells_def)
  ultimately show ?thesis
    using assms(2) s(2,4,5)
    by (auto simp: stream_put_def Stream_SetPos_def Stream_GetCap_def stream_repr_def write_cells_def)
qed

section \<open>Properties\<close>

text \<open>\<open>Replace(n0, n1, buf, len)\<close> on a written stream gives the bytes before \<open>n0\<close>, the new bytes and the
  bytes from \<open>n1\<close> on, for every \<open>n0 <= n1\<close> inside the written part, whether the stream shrinks, grows or
  has to reallocate.\<close>

theorem stream_replace:
  assumes "stream_repr s bs" "n0 \<le> n1" "n1 \<le> length bs"
    and "2 * Stream_GetCap s + length cs + 2000 < 2 ^ 32"
  shows "\<exists>s'. Stream_Replace n0 (Some n1) (map Some cs) s = Some s' \<and>
    stream_repr s' (take n0 bs @ cs @ drop n1 bs)"
proof -
  have s: "st_pos s = length bs" "length bs \<le> Stream_GetCap s" "take (length bs) (st_buf s) = map Some bs"
    "\<not> st_attach s" "st_endian s = NetEndian"
    using assms(1) by (auto simp: stream_repr_def Stream_GetCap_def)
  let ?s0 = "Stream_SetPos n0 s"
  have "n0 \<le> length bs" using assms(2,3) by simp
  then have "take n0 (st_buf s) = map Some (take n0 bs)"
    using arg_cong [OF s(3), of "take n0"] by (simp add: take_map min_absorb1)
  then have s0: "stream_repr ?s0 (take n0 bs)" "Stream_GetCap ?s0 = Stream_GetCap s"
    using assms(2,3) s by (auto simp: stream_repr_def Stream_SetPos_def Stream_GetCap_def)
  have rest: "take (length bs - n1) (drop n1 (st_buf s)) = map Some (drop n1 bs)"
    using arg_cong [OF s(3), of "drop n1"] by (simp add: drop_take drop_map)
  obtain s1 where s1: "Stream_Write (map Some cs) ?s0 = Some s1" "stream_repr s1 (take n0 bs @ cs)"
    "Stream_GetCap s1 \<le> Stream_GetCap s + length cs + 600"
    using Stream_Write_repr [OF s0(1), of cs] s0(2) assms(4) by auto
  have "Stream_GetCap s1 + length (drop n1 bs) + 600 < 2 ^ 32" using s1(3) assms(4) s(2) by simp
  from Stream_Write_repr [OF s1(2) this] obtain s2 where
    s2: "Stream_Write (map Some (drop n1 bs)) s1 = Some s2" "stream_repr s2 ((take n0 bs @ cs) @ drop n1 bs)"
    by blast
  show ?thesis
  proof (cases "length cs = n1 - n0")
    case True
    then show ?thesis
      using stream_overwrite [OF assms(1), of n0 cs] assms(1-3) s(1)
      by (auto simp: Stream_Replace_def Let_def)
  next
    case False
    then show ?thesis using s1 s2 s(1) assms(2,3) rest by (auto simp: Stream_Replace_def Let_def)
  qed
qed

theorem stream_replace_witness:
  "\<exists>s'. Stream_Replace 1 (Some 2) [Some 7, Some 8]
        (Stream_new\<lparr>st_buf := [Some 1, Some 2, Some 3], st_pos := 3\<rparr>) = Some s' \<and> stream_repr s' [1, 7, 8, 3]"
proof -
  have "stream_repr (Stream_new\<lparr>st_buf := [Some 1, Some 2, Some 3], st_pos := 3\<rparr>) [1, 2, 3]"
    by (simp add: stream_repr_def Stream_new_def Stream_GetCap_def LLBC_DefaultEndian_def numeral_3_eq_3)
  from stream_replace [OF this, of 1 2 "[7, 8]"] show ?thesis
    by (simp add: Stream_GetCap_def)
qed

text \<open>Copying a stream gives an empty stream: the copy constructor clips the position of the source to
  the capacity \<open>0\<close> of the new stream before it tests that there is something to copy.\<close>

theorem stream_copy_loses_content: "Stream_copy s = Some Stream_new"
  by (simp add: Stream_copy_def Stream_Assign_def Stream_SetPos_def Stream_new_def Stream_GetCap_def)

text \<open>Writing \<open>2^32\<close> bytes to a new stream writes outside its buffer: the 32-bit mask of \<open>AutoRecap\<close> turns
  the new capacity into \<open>0\<close>, and \<open>Recap\<close> reports success.\<close>

theorem stream_write_4g_overflows:
  assumes "length xs = 2 ^ 32"
  shows "Stream_AutoRecap (length xs) Stream_new = (True, Stream_new) \<and> Stream_Write xs Stream_new = None"
proof -
  have "recap_mask (2 ^ 32) = 0" by (simp add: recap_mask_def)
  then have "Stream_AutoRecap (length xs) Stream_new = (True, Stream_new)"
    using assms by (simp add: Stream_AutoRecap_def Stream_GetFreeCap_def Stream_GetCap_def Stream_new_def
        Stream_Recap_def Let_def)
  moreover have "stream_put xs Stream_new = None"
    using assms by (simp add: stream_put_def Stream_GetCap_def Stream_new_def)
  ultimately show ?thesis using assms by (auto simp: Stream_Write_def)
qed

theorem stream_write_4g_overflows_witness:
  "Stream_Write (replicate (2 ^ 32) (Some 0)) Stream_new = None"
  using stream_write_4g_overflows [of "replicate (2 ^ 32) (Some 0)"] by (simp only: length_replicate)

end
