(* ===== verification/Llbc_Packet.thy ===== *)
theory Llbc_Packet
  imports Llbc_Stream
begin

text \<open>
  \<open>LLBC_Packet\<close> (3rd/llbc/llbc/include/llbc/comm/PacketInl.h and src/comm/Packet.cpp): the header fields and
  the payload block, with the typed reads and writes the RPC layer uses. Integers of built-in type go to
  the block in network order, strings and protobuf messages go through a temporary stream. Not
  modelled: encoders and decoders, the status description, pre-handle results and the address fields, which
  the RPC layer never sets. A block taken from the object pool is a cleared block of default size.
\<close>

section \<open>The packet and its operations\<close>

record packet =
  pk_length :: nat
  pk_sessionId :: cint
  pk_acceptSessionId :: cint
  pk_senderSvcId :: cint
  pk_recverSvcId :: cint
  pk_opcode :: cint
  pk_status :: cint
  pk_flags :: cint
  pk_extData1 :: u64
  pk_pooled :: bool
  pk_payload :: "mblock option"

definition Packet_new :: packet where
  "Packet_new = \<lparr>pk_length = 0, pk_sessionId = 0, pk_acceptSessionId = 0, pk_senderSvcId = 0,
     pk_recverSvcId = 0, pk_opcode = 0, pk_status = 0, pk_flags = 0, pk_extData1 = 0, pk_pooled = False,
     pk_payload = None\<rparr>"

text \<open>\<open>LLBC_GetObjectFromSafetyPool<LLBC_Packet>()\<close>: a cleared packet that knows its pool.\<close>

definition Packet_from_pool :: packet where
  "Packet_from_pool = Packet_new\<lparr>pk_pooled := True\<rparr>"

definition Packet_SetHeader :: "cint \<Rightarrow> cint \<Rightarrow> cint \<Rightarrow> packet \<Rightarrow> packet" where
  "Packet_SetHeader sessionId opcode status p =
     p\<lparr>pk_sessionId := sessionId, pk_opcode := opcode, pk_status := status\<rparr>"

definition Packet_SetHeader_svc :: "cint \<Rightarrow> cint \<Rightarrow> cint \<Rightarrow> cint \<Rightarrow> packet \<Rightarrow> packet" where
  "Packet_SetHeader_svc svcId sessionId opcode status p =
     p\<lparr>pk_recverSvcId := svcId, pk_sessionId := sessionId, pk_opcode := opcode, pk_status := status\<rparr>"

text \<open>The overload that copies the session of another packet, and nothing else of it.\<close>

definition Packet_SetHeader_from :: "packet \<Rightarrow> cint \<Rightarrow> cint \<Rightarrow> packet \<Rightarrow> packet" where
  "Packet_SetHeader_from other opcode status p =
     p\<lparr>pk_sessionId := pk_sessionId other, pk_opcode := opcode, pk_status := status\<rparr>"

definition Packet_HasFlags :: "cint \<Rightarrow> packet \<Rightarrow> bool" where
  "Packet_HasFlags flags p \<longleftrightarrow> pk_flags p AND flags = flags"

definition Packet_AddFlags :: "cint \<Rightarrow> packet \<Rightarrow> packet" where
  "Packet_AddFlags flags p = p\<lparr>pk_flags := pk_flags p OR flags\<rparr>"

definition Packet_RemoveFlags :: "cint \<Rightarrow> packet \<Rightarrow> packet" where
  "Packet_RemoveFlags flags p = p\<lparr>pk_flags := pk_flags p AND NOT flags\<rparr>"

definition Packet_GetPayload :: "packet \<Rightarrow> byte option list" where
  "Packet_GetPayload p = (case pk_payload p of None \<Rightarrow> [] | Some b \<Rightarrow> MB_GetDataStartWithReadPos b)"

definition Packet_GetPayloadLength :: "packet \<Rightarrow> nat" where
  "Packet_GetPayloadLength p = (case pk_payload p of None \<Rightarrow> 0 | Some b \<Rightarrow> MB_GetReadableSize b)"

definition Packet_DetachPayload :: "packet \<Rightarrow> mblock option \<times> packet" where
  "Packet_DetachPayload p = (pk_payload p, p\<lparr>pk_payload := None\<rparr>)"

definition Packet_SetPayload :: "mblock option \<Rightarrow> packet \<Rightarrow> packet" where
  "Packet_SetPayload b p = p\<lparr>pk_payload := b\<rparr>"

definition Packet_ResetPayload :: "packet \<Rightarrow> packet" where
  "Packet_ResetPayload p =
     (case pk_payload p of
        None \<Rightarrow> p
      | Some b \<Rightarrow> p\<lparr>pk_payload := Some (snd (MB_SetWritePos 0 (snd (MB_SetReadPos 0 b))))\<rparr>)"

text \<open>\<open>Clear()\<close>: a pooled payload goes back to its pool, another one is cleared in place.\<close>

definition Packet_Clear :: "packet \<Rightarrow> packet" where
  "Packet_Clear p =
     Packet_new\<lparr>pk_pooled := pk_pooled p,
       pk_payload := (if pk_pooled p then None else map_option MB_Clear (pk_payload p))\<rparr>"

definition Packet_CheckAndCreatePayload :: "nat \<Rightarrow> packet \<Rightarrow> mblock" where
  "Packet_CheckAndCreatePayload initSize p =
     (case pk_payload p of
        Some b \<Rightarrow> b
      | None \<Rightarrow> if pk_pooled p then MB_new LLBC_CFG_THREAD_MSG_BLOCK_DFT_SIZE else MB_new initSize)"

text \<open>\<open>None\<close> is a failed assertion of the message block.\<close>

definition Packet_Write :: "byte option list \<Rightarrow> packet \<Rightarrow> (int \<times> packet) option" where
  "Packet_Write xs p =
     (case MB_Write xs (Packet_CheckAndCreatePayload (length xs) p) of
        None \<Rightarrow> None
      | Some (ret, b) \<Rightarrow> Some (ret, p\<lparr>pk_payload := Some b\<rparr>))"

definition Packet_WriteRawType :: "'w::len word \<Rightarrow> packet \<Rightarrow> (int \<times> packet) option" where
  "Packet_WriteRawType val p = Packet_Write (map Some (obj_bytes (LLBC_Host2Net val))) p"

text \<open>\<open>Write(const _Ty &)\<close>: through a temporary stream.\<close>

definition Packet_Write_obj :: "(stream \<Rightarrow> stream option) \<Rightarrow> packet \<Rightarrow> (int \<times> packet) option" where
  "Packet_Write_obj wr p =
     (case wr Stream_new of
        None \<Rightarrow> None
      | Some s \<Rightarrow> Packet_Write (take (st_pos s) (st_buf s)) p)"

definition Packet_Write_string :: "string \<Rightarrow> packet \<Rightarrow> (int \<times> packet) option" where
  "Packet_Write_string str = Packet_Write_obj (Stream_Write_string str)"

definition Packet_Write_msg :: "('m \<Rightarrow> byte list) \<Rightarrow> 'm \<Rightarrow> packet \<Rightarrow> (int \<times> packet) option" where
  "Packet_Write_msg ser m = Packet_Write_obj (Stream_Write_msg ser m)"

definition Packet_Read :: "nat \<Rightarrow> packet \<Rightarrow> int \<times> byte option list \<times> packet" where
  "Packet_Read len p =
     (case pk_payload p of
        None \<Rightarrow> (LLBC_FAILED, [], p)
      | Some b \<Rightarrow> (let (ret, xs, b') = MB_Read len b in (ret, xs, p\<lparr>pk_payload := Some b'\<rparr>)))"

definition Packet_ReadRawType :: "packet \<Rightarrow> 'w::len word rd \<times> packet" where
  "Packet_ReadRawType p =
     (let (ret, xs, p') = Packet_Read (LENGTH('w) div 8) p
      in if ret \<noteq> LLBC_OK then (Rd_fail, p')
         else (case those xs of None \<Rightarrow> Rd_undef | Some bs \<Rightarrow> Rd_ok (LLBC_Net2Host (bytes_obj bs)), p'))"

definition Packet_Read_obj :: "(stream \<Rightarrow> 'a rd \<times> stream) \<Rightarrow> packet \<Rightarrow> 'a rd \<times> packet" where
  "Packet_Read_obj rd p =
     (case pk_payload p of
        None \<Rightarrow> (Rd_fail, p)
      | Some b \<Rightarrow>
          (let s = Stream_Attach (take (MB_GetReadableSize b) (MB_GetDataStartWithReadPos b)) Stream_new
           in case rd s of
                (Rd_ok v, s') \<Rightarrow> (Rd_ok v, p\<lparr>pk_payload := Some (snd (MB_ShiftReadPos (int (st_pos s')) b))\<rparr>)
              | (Rd_fail, _) \<Rightarrow> (Rd_fail, p)
              | (Rd_undef, _) \<Rightarrow> (Rd_undef, p)))"

definition Packet_Read_string :: "packet \<Rightarrow> string rd \<times> packet" where
  "Packet_Read_string = Packet_Read_obj Stream_Read_string"

definition Packet_Read_msg :: "(byte list \<Rightarrow> 'm option) \<Rightarrow> packet \<Rightarrow> 'm rd \<times> packet" where
  "Packet_Read_msg parse = Packet_Read_obj (Stream_Read_msg parse)"

text \<open>A packet whose unread payload is \<open>bs\<close>; a write that appends \<open>cs\<close> and a read that behaves as the
  decoder result \<open>d\<close>, both leaving the header alone.\<close>

definition packet_repr :: "packet \<Rightarrow> byte list \<Rightarrow> bool" where
  "packet_repr p bs \<longleftrightarrow> (case pk_payload p of None \<Rightarrow> bs = [] | Some b \<Rightarrow> mb_repr b bs)"

definition packet_writes :: "packet \<Rightarrow> (int \<times> packet) option \<Rightarrow> byte list \<Rightarrow> bool" where
  "packet_writes p res bs \<longleftrightarrow>
     (\<exists>b. res = Some (LLBC_OK, p\<lparr>pk_payload := Some b\<rparr>) \<and> mb_repr b bs)"

definition packet_reads :: "packet \<Rightarrow> 'a rd \<times> packet \<Rightarrow> ('a \<times> byte list) rd \<Rightarrow> bool" where
  "packet_reads p res d \<longleftrightarrow> (case d of
       Rd_ok (v, rest) \<Rightarrow> \<exists>b. res = (Rd_ok v, p\<lparr>pk_payload := Some b\<rparr>) \<and> mb_repr b rest
     | Rd_fail \<Rightarrow> res = (Rd_fail, p)
     | Rd_undef \<Rightarrow> fst res = Rd_undef)"

section \<open>Lemmas\<close>

lemma CheckAndCreatePayload_repr: "packet_repr p bs \<Longrightarrow> mb_repr (Packet_CheckAndCreatePayload n p) bs"
  by (auto simp: packet_repr_def Packet_CheckAndCreatePayload_def MB_new_repr split: option.splits)

lemma Packet_Write_spec:
  "packet_repr p bs \<Longrightarrow> packet_writes p (Packet_Write (map Some cs) p) (bs @ cs)"
  using MB_Write_repr [OF CheckAndCreatePayload_repr [of p bs "length cs"], of cs]
  by (auto simp: packet_writes_def Packet_Write_def)

lemma packet_writes_repr: "packet_writes p (Some (LLBC_OK, p')) bs \<Longrightarrow> packet_repr p' bs"
  by (auto simp: packet_writes_def packet_repr_def)

lemma packet_writesE:
  assumes "packet_writes p res bs"
  obtains b where "res = Some (LLBC_OK, p\<lparr>pk_payload := Some b\<rparr>)" "packet_repr (p\<lparr>pk_payload := Some b\<rparr>) bs"
  using assms by (auto simp: packet_writes_def packet_repr_def)

lemma Packet_WriteRawType_spec:
  "packet_repr p bs \<Longrightarrow> 8 dvd LENGTH('w) \<Longrightarrow>
     packet_writes p (Packet_WriteRawType (v :: 'w::len word) p) (bs @ word_enc v)"
  by (simp add: Packet_WriteRawType_def Host2Net_bytes word_enc_def Packet_Write_spec)

lemma Packet_Write_obj_spec:
  assumes "packet_repr p bs" "\<exists>s. wr Stream_new = Some s \<and> stream_repr s cs"
  shows "packet_writes p (Packet_Write_obj wr p) (bs @ cs)"
  using assms Packet_Write_spec [OF assms(1), of cs] by (auto simp: Packet_Write_obj_def stream_repr_def)

lemma Packet_Write_string_spec:
  "packet_repr p bs \<Longrightarrow> string_ok str \<Longrightarrow> packet_writes p (Packet_Write_string str p) (bs @ string_enc str)"
  using Stream_Write_string_repr [OF Stream_new_repr, of str]
  by (auto simp: Packet_Write_string_def string_ok_def Stream_new_def Stream_GetCap_def
      intro!: Packet_Write_obj_spec)

lemma Packet_Write_msg_spec:
  "packet_repr p bs \<Longrightarrow> msg_ok ser m \<Longrightarrow> packet_writes p (Packet_Write_msg ser m p) (bs @ msg_enc ser m)"
  using Stream_Write_msg_repr [OF Stream_new_repr, of ser m]
  by (auto simp: Packet_Write_msg_def msg_ok_def Stream_new_def Stream_GetCap_def
      intro!: Packet_Write_obj_spec)

lemma Packet_ReadRawType_spec:
  assumes "packet_repr p bs" "8 dvd LENGTH('w)"
  shows "packet_reads p (Packet_ReadRawType p) (word_dec bs :: ('w::len word \<times> byte list) rd)"
proof (cases "pk_payload p")
  case None
  obtain k where "LENGTH('w) = 8 * k" using assms(2) by (rule dvdE)
  then have "0 < LENGTH('w) div 8" using len_gt_0 [where 'a = 'w] by (cases k) auto
  then show ?thesis
    using assms(1) None by (simp add: packet_reads_def packet_repr_def Packet_ReadRawType_def Packet_Read_def word_dec_def)
next
  case (Some b)
  let ?n = "LENGTH('w) div 8"
  have b: "mb_repr b bs" using assms(1) Some by (simp add: packet_repr_def)
  show ?thesis
  proof (cases "length bs < ?n")
    case True
    have "p\<lparr>pk_payload := Some b\<rparr> = p" using Some by simp
    then show ?thesis
      using True Some MB_Read_short [OF b True]
      by (simp add: packet_reads_def Packet_ReadRawType_def Packet_Read_def word_dec_def)
  next
    case False
    then obtain b' where "MB_Read ?n b = (LLBC_OK, map Some (take ?n bs), b')" "mb_repr b' (drop ?n bs)"
      using MB_Read_repr [OF b, of ?n] by auto
    moreover have "LLBC_Net2Host (bytes_obj (take ?n bs) :: 'w word) = bytes_obj (rev (take ?n bs))"
      using False assms(2) by (simp add: LLBC_Net2Host_def LLBC_MachineEndian_def ReverseBytes_rev obj_bytes_obj)
    ultimately show ?thesis
      using False Some
      by (auto simp: packet_reads_def Packet_ReadRawType_def Packet_Read_def word_dec_def Let_def)
  qed
qed

lemma Packet_Read_obj_spec:
  assumes "packet_repr p bs" "\<And>s. rdr s bs \<Longrightarrow> reads_as s (rd s) (dec bs)" "dec [] = Rd_fail"
  shows "packet_reads p (Packet_Read_obj rd p) (dec bs)"
proof (cases "pk_payload p")
  case None
  then show ?thesis using assms(1,3) by (simp add: packet_reads_def packet_repr_def Packet_Read_obj_def)
next
  case (Some b)
  have b: "mb_repr b bs" using assms(1) Some by (simp add: packet_repr_def)
  let ?s = "Stream_Attach (take (MB_GetReadableSize b) (MB_GetDataStartWithReadPos b)) Stream_new"
  have s: "rdr ?s bs" "st_buf ?s = map Some bs"
    by (simp_all add: rdr_def MB_readable_cells [OF b] Stream_Attach_def Stream_new_def LLBC_DefaultEndian_def
        Stream_GetCap_def)
  from assms(2) [OF s(1)] show ?thesis
  proof (cases rule: reads_asE)
    case (ok v rest s')
    have "st_pos s' \<le> length bs" "rest = drop (st_pos s') bs"
      using ok(3,4) s(2) by (auto simp: rdr_def Stream_GetCap_def simp flip: drop_map)
         (metis drop_map inj_map_eq_map inj_Some)
    with MB_ShiftReadPos_repr [OF b, of "st_pos s'"] ok Some show ?thesis
      by (auto simp: packet_reads_def Packet_Read_obj_def Let_def)
  qed (use Some in \<open>auto simp: packet_reads_def Packet_Read_obj_def Let_def\<close>)
qed

lemma Packet_Read_string_spec:
  "packet_repr p bs \<Longrightarrow> packet_reads p (Packet_Read_string p) (string_dec bs)"
  unfolding Packet_Read_string_def
  by (rule Packet_Read_obj_spec) (simp_all add: Stream_Read_string_spec string_dec_nil)

lemma Packet_Read_msg_spec:
  "packet_repr p bs \<Longrightarrow> packet_reads p (Packet_Read_msg parse p) (msg_dec parse bs)"
  unfolding Packet_Read_msg_def
  by (rule Packet_Read_obj_spec) (simp_all add: Stream_Read_msg_spec msg_dec_nil)

lemmas packet_write_specs = Packet_WriteRawType_spec Packet_Write_string_spec Packet_Write_msg_spec
lemmas packet_read_specs = Packet_ReadRawType_spec Packet_Read_string_spec Packet_Read_msg_spec

lemma packet_readsE:
  assumes "packet_reads p res d"
  obtains (ok) v rest b where "d = Rd_ok (v, rest)" "res = (Rd_ok v, p\<lparr>pk_payload := Some b\<rparr>)"
      "packet_repr (p\<lparr>pk_payload := Some b\<rparr>) rest"
  | (fail) "d = Rd_fail" "res = (Rd_fail, p)"
  | (undef) p' where "d = Rd_undef" "res = (Rd_undef, p')"
  using assms by (cases d; cases res) (auto simp: packet_reads_def packet_repr_def)

lemma packet_reads_okE:
  assumes "packet_reads p res (Rd_ok (v, rest))"
  obtains b where "res = (Rd_ok v, p\<lparr>pk_payload := Some b\<rparr>)" "packet_repr (p\<lparr>pk_payload := Some b\<rparr>) rest"
  using assms by (auto simp: packet_reads_def packet_repr_def)

lemma packet_payload_length: "packet_repr p bs \<Longrightarrow> Packet_GetPayloadLength p = length bs"
  by (auto simp: packet_repr_def Packet_GetPayloadLength_def MB_readable split: option.splits)

lemma packet_payload_cells:
  "packet_repr p bs \<Longrightarrow> take (Packet_GetPayloadLength p) (Packet_GetPayload p) = map Some bs"
  by (auto simp: packet_repr_def Packet_GetPayloadLength_def Packet_GetPayload_def MB_readable_cells
      split: option.splits)

lemma Packet_pool_repr: "packet_repr Packet_from_pool []"
  by (simp add: packet_repr_def Packet_from_pool_def Packet_new_def)

lemma packet_repr_header [simp]:
  "packet_repr (Packet_SetHeader a b c p) bs = packet_repr p bs"
  "packet_repr (p\<lparr>pk_status := st\<rparr>) bs = packet_repr p bs"
  "packet_repr (p\<lparr>pk_opcode := st\<rparr>) bs = packet_repr p bs"
  "packet_repr (p\<lparr>pk_sessionId := st\<rparr>) bs = packet_repr p bs"
  by (simp_all add: packet_repr_def Packet_SetHeader_def)

section \<open>Properties\<close>

text \<open>Reading a protobuf message from a packet uses memory outside the received payload exactly when
  the 32-bit size in front of the message exceeds the bytes that follow it or has its top bit set; the
  size comes from the peer and is not checked.\<close>

theorem packet_read_msg_out_of_bounds:
  assumes "packet_repr p bs"
  shows "fst (Packet_Read_msg parse p) = Rd_undef \<longleftrightarrow>
    4 \<le> length bs \<and> (let n = bytes_obj (rev (take 4 bs)) :: u32 in sint n < 0 \<or> unat n > length bs - 4)"
  using Packet_Read_msg_spec [OF assms, of parse]
  by (cases rule: packet_readsE)
     (auto simp: msg_dec_def word_dec_def rd_bind_def Let_def split: if_splits option.splits)

theorem packet_read_msg_out_of_bounds_witness:
  "fst (Packet_Read_msg Some (Packet_new\<lparr>pk_payload := Some \<lparr>mb_attach = False,
      mb_buf = [Some 0, Some 0, Some 0, Some 9, Some 1], mb_readPos = 0, mb_writePos = 5\<rparr>\<rparr>)) = Rd_undef"
proof -
  have "packet_repr (Packet_new\<lparr>pk_payload := Some \<lparr>mb_attach = False,
      mb_buf = [Some 0, Some 0, Some 0, Some 9, Some 1], mb_readPos = 0, mb_writePos = 5\<rparr>\<rparr>) [0, 0, 0, 9, 1]"
    by (simp add: packet_repr_def mb_repr_def MB_GetSize_def)
  from packet_read_msg_out_of_bounds [OF this, of Some] show ?thesis
    by (simp add: bytes_obj_def)
qed

end
