(* ===== verification/Rpc_Head.thy ===== *)
theory Rpc_Head
  imports Llbc_Packet
begin

text \<open>
  The head of an RPC packet, \<open>RpcChannel::PkgHead\<close> (src/rpc_channel.h, src/rpc_channel.cpp), and the controller of
  a call, \<open>RpcController\<close> (src/rpc_controller.h). A head is the sequence number of the call, the service
  name and the method name, in front of the protobuf message of the request or response.
\<close>

section \<open>The package head\<close>

datatype rpc_opcode = RpcReq | RpcRsp

definition opcode_val :: "rpc_opcode \<Rightarrow> cint" where
  "opcode_val c = (case c of RpcReq \<Rightarrow> 1 | RpcRsp \<Rightarrow> 2)"

record pkg_head =
  ph_seq :: u64
  ph_service_name :: string
  ph_method_name :: string

text \<open>Sequencing of packet reads and writes with the early return on a code other than \<open>LLBC_OK\<close>.\<close>

definition read_then :: "'a rd \<times> packet \<Rightarrow> ('a \<Rightarrow> packet \<Rightarrow> 'b rd \<times> packet) \<Rightarrow> 'b rd \<times> packet" where
  "read_then r f = (case r of
       (Rd_ok x, p) \<Rightarrow> f x p
     | (Rd_fail, p) \<Rightarrow> (Rd_fail, p)
     | (Rd_undef, p) \<Rightarrow> (Rd_undef, p))"

definition write_then :: "(int \<times> packet) option \<Rightarrow> (packet \<Rightarrow> (int \<times> packet) option) \<Rightarrow> (int \<times> packet) option" where
  "write_then r f = (case r of
       None \<Rightarrow> None
     | Some (ret, p) \<Rightarrow> if ret \<noteq> LLBC_OK then Some (ret, p) else f p)"

definition PkgHead_FromPacket :: "packet \<Rightarrow> pkg_head rd \<times> packet" where
  "PkgHead_FromPacket packet =
     read_then (Packet_ReadRawType packet) (\<lambda>seq p.
     read_then (Packet_Read_string p) (\<lambda>service p.
     read_then (Packet_Read_string p) (\<lambda>meth p.
       (Rd_ok \<lparr>ph_seq = seq, ph_service_name = service, ph_method_name = meth\<rparr>, p))))"

definition PkgHead_ToPacket :: "pkg_head \<Rightarrow> packet \<Rightarrow> (int \<times> packet) option" where
  "PkgHead_ToPacket h packet =
     write_then (Packet_WriteRawType (ph_seq h) packet) (\<lambda>p.
     write_then (Packet_Write_string (ph_service_name h) p) (\<lambda>p.
     write_then (Packet_Write_string (ph_method_name h) p) (\<lambda>p.
       Some (LLBC_OK, p))))"

text \<open>
  \<open>ToString\<close>: \<open>snprintf(buffer.data(), 1024, ..)\<close> into a string that was just emptied. The result is the
  text, cut to 1023 characters, and the number of bytes written including the terminator; the string
  itself has size \<open>0\<close>, so \<open>data()\<close> points to one byte. \<open>%s\<close> prints up to the first null character.
\<close>

definition MAX_BUFFER_SIZE :: nat where
  "MAX_BUFFER_SIZE = 1024"

definition c_str :: "string \<Rightarrow> string" where
  "c_str s = takeWhile (\<lambda>c. c \<noteq> CHR 0x00) s"

definition PkgHead_format :: "pkg_head \<Rightarrow> string" where
  "PkgHead_format h = ''seq: '' @ dec_str (unat (ph_seq h)) @ ''|service_name: '' @ c_str (ph_service_name h)
     @ ''|method_name: '' @ c_str (ph_method_name h)"

definition PkgHead_ToString :: "pkg_head \<Rightarrow> string \<times> nat" where
  "PkgHead_ToString h =
     (let out = take (MAX_BUFFER_SIZE - 1) (PkgHead_format h) in (out, length out + 1))"

section \<open>The controller\<close>

record controller =
  rc_isFailed :: bool
  rc_errorText :: string
  rc_pkg_head :: pkg_head
  rc_session_id :: cint
  rc_coro_handle :: nat
  rc_use_coro :: bool

definition RpcController_new :: "bool \<Rightarrow> controller" where
  "RpcController_new use_coro = \<lparr>rc_isFailed = False, rc_errorText = [],
     rc_pkg_head = \<lparr>ph_seq = 0, ph_service_name = [], ph_method_name = []\<rparr>, rc_session_id = 0,
     rc_coro_handle = 0, rc_use_coro = use_coro\<rparr>"

definition RpcController_Reset :: "controller \<Rightarrow> controller" where
  "RpcController_Reset c = c"

definition RpcController_SetFailed :: "string \<Rightarrow> controller \<Rightarrow> controller" where
  "RpcController_SetFailed reason c = c\<lparr>rc_isFailed := True, rc_errorText := reason\<rparr>"

definition RpcController_SetPkgHead :: "pkg_head \<Rightarrow> controller \<Rightarrow> controller" where
  "RpcController_SetPkgHead h c = c\<lparr>rc_pkg_head := h\<rparr>"

definition RpcController_SetSessionID :: "cint \<Rightarrow> controller \<Rightarrow> controller" where
  "RpcController_SetSessionID sid c = c\<lparr>rc_session_id := sid\<rparr>"

definition RpcController_SetCoroHandle :: "nat \<Rightarrow> controller \<Rightarrow> controller" where
  "RpcController_SetCoroHandle h c = c\<lparr>rc_coro_handle := h\<rparr>"

section \<open>The wire format of a head\<close>

definition head_enc :: "pkg_head \<Rightarrow> byte list" where
  "head_enc h = word_enc (ph_seq h) @ string_enc (ph_service_name h) @ string_enc (ph_method_name h)"

definition head_dec :: "byte list \<Rightarrow> (pkg_head \<times> byte list) rd" where
  "head_dec bs = rd_bind (word_dec bs) (\<lambda>(seq, r1). rd_bind (string_dec r1) (\<lambda>(service, r2).
     rd_bind (string_dec r2) (\<lambda>(meth, r3).
       Rd_ok (\<lparr>ph_seq = seq, ph_service_name = service, ph_method_name = meth\<rparr>, r3))))"

definition head_ok :: "pkg_head \<Rightarrow> bool" where
  "head_ok h \<longleftrightarrow> string_ok (ph_service_name h) \<and> string_ok (ph_method_name h)"

text \<open>A failing read may leave the packet partly read, so only the success is stated with the packet.\<close>

definition head_read :: "packet \<Rightarrow> pkg_head rd \<times> packet \<Rightarrow> (pkg_head \<times> byte list) rd \<Rightarrow> bool" where
  "head_read p res d \<longleftrightarrow> (case d of
       Rd_ok (h, rest) \<Rightarrow> \<exists>b. res = (Rd_ok h, p\<lparr>pk_payload := Some b\<rparr>) \<and> mb_repr b rest
     | Rd_fail \<Rightarrow> fst res = Rd_fail
     | Rd_undef \<Rightarrow> fst res = Rd_undef)"

section \<open>Lemmas\<close>

interpretation names_codec: byte_codec_pair string_enc string_dec string_ok string_enc string_dec string_ok
  by unfold_locales

interpretation head_codec: byte_codec head_enc head_dec head_ok
proof
  fix h rest
  assume "head_ok h"
  then have "string_ok (ph_service_name h)" "string_ok (ph_method_name h)" by (simp_all add: head_ok_def)
  then show "head_dec (head_enc h @ rest) = Rd_ok (h, rest)"
    using names_codec.pair.dec_enc [of "(ph_service_name h, ph_method_name h)" rest]
    by (simp add: head_dec_def head_enc_def word_dec_enc string_codec.dec_enc rd_bind_def)
qed

lemma ToPacket_spec:
  assumes "packet_repr p bs" "head_ok h"
  shows "packet_writes p (PkgHead_ToPacket h p) (bs @ head_enc h)"
proof -
  have ok: "string_ok (ph_service_name h)" "string_ok (ph_method_name h)"
    using assms(2) by (simp_all add: head_ok_def)
  obtain b1 where b1: "Packet_WriteRawType (ph_seq h) p = Some (LLBC_OK, p\<lparr>pk_payload := Some b1\<rparr>)"
    "packet_repr (p\<lparr>pk_payload := Some b1\<rparr>) (bs @ word_enc (ph_seq h))"
    using Packet_WriteRawType_spec [OF assms(1), of "ph_seq h"] by (auto elim: packet_writesE)
  obtain b2 where b2: "Packet_Write_string (ph_service_name h) (p\<lparr>pk_payload := Some b1\<rparr>)
      = Some (LLBC_OK, p\<lparr>pk_payload := Some b2\<rparr>)"
    "packet_repr (p\<lparr>pk_payload := Some b2\<rparr>) (bs @ word_enc (ph_seq h) @ string_enc (ph_service_name h))"
    using Packet_Write_string_spec [OF b1(2) ok(1)] by (auto elim!: packet_writesE)
  from Packet_Write_string_spec [OF b2(2) ok(2)] b1(1) b2(1) show ?thesis
    by (auto simp: packet_writes_def PkgHead_ToPacket_def write_then_def head_enc_def)
qed

lemma FromPacket_spec:
  assumes "packet_repr p bs"
  shows "head_read p (PkgHead_FromPacket p) (head_dec bs)"
  using Packet_ReadRawType_spec [OF assms, where 'w = 64, simplified]
proof (cases rule: packet_readsE)
  case (ok seq r1 b1)
  note seq = ok
  from Packet_Read_string_spec [OF seq(3)] show ?thesis
  proof (cases rule: packet_readsE)
    case (ok service r2 b2)
    note service = ok
    have "packet_repr (p\<lparr>pk_payload := Some b2\<rparr>) r2" using service(3) by simp
    from Packet_Read_string_spec [OF this] show ?thesis
      by (cases rule: packet_readsE)
         (use seq service in \<open>auto simp: head_read_def head_dec_def PkgHead_FromPacket_def read_then_def
            rd_bind_def packet_repr_def\<close>)
  qed (use seq in \<open>auto simp: head_read_def head_dec_def PkgHead_FromPacket_def read_then_def rd_bind_def\<close>)
qed (auto simp: head_read_def head_dec_def PkgHead_FromPacket_def read_then_def rd_bind_def)

lemma dec_str_nonempty: "dec_str n \<noteq> []"
  by (simp add: dec_str.simps [of n])

text \<open>What a request or response packet holds, and that reading it back gives the head and the message.\<close>

lemma write_head_msg:
  assumes "packet_repr p bs" "head_ok h" "msg_ok ser m"
  shows "\<exists>p1 b. PkgHead_ToPacket h p = Some (LLBC_OK, p1)
    \<and> Packet_Write_msg ser m p1 = Some (LLBC_OK, p\<lparr>pk_payload := Some b\<rparr>)
    \<and> mb_repr b (bs @ head_enc h @ msg_enc ser m) \<and> (\<exists>x. p1 = p\<lparr>pk_payload := x\<rparr>)"
proof -
  obtain b1 where b1: "PkgHead_ToPacket h p = Some (LLBC_OK, p\<lparr>pk_payload := Some b1\<rparr>)"
    "packet_repr (p\<lparr>pk_payload := Some b1\<rparr>) (bs @ head_enc h)"
    using ToPacket_spec [OF assms(1,2)] by (auto elim: packet_writesE)
  from Packet_Write_msg_spec [OF b1(2) assms(3)] b1(1) show ?thesis
    by (auto simp: packet_writes_def)
qed

lemma read_head_msg:
  assumes "packet_repr p (head_enc h @ msg_enc ser m)" "head_ok h" "parse (ser m) = Some m" "msg_ok ser m"
  shows "\<exists>p1. PkgHead_FromPacket p = (Rd_ok h, p1) \<and> fst (Packet_Read_msg parse p1) = Rd_ok m
    \<and> (\<exists>x. p1 = p\<lparr>pk_payload := x\<rparr>)"
proof -
  have "head_read p (PkgHead_FromPacket p) (Rd_ok (h, msg_enc ser m))"
    using FromPacket_spec [OF assms(1)] head_codec.dec_enc [OF assms(2)] by simp
  then obtain b where b: "PkgHead_FromPacket p = (Rd_ok h, p\<lparr>pk_payload := Some b\<rparr>)" "mb_repr b (msg_enc ser m)"
    by (auto simp: head_read_def)
  then have "packet_repr (p\<lparr>pk_payload := Some b\<rparr>) (msg_enc ser m)" by (simp add: packet_repr_def)
  from Packet_Read_msg_spec [OF this, of parse] msg_dec_enc [of parse ser m "[]"] assms(3,4) b(1) show ?thesis
    by (auto simp: packet_reads_def)
qed

section \<open>Properties\<close>

text \<open>C32: a head and a message written to a fresh packet are read back unchanged, for names and messages
  whose sizes fit the 32-bit length fields, and none of the steps fails.\<close>

theorem head_roundtrip:
  assumes "head_ok h" "msg_ok ser m" "parse (ser m) = Some m"
  shows "\<exists>p1 p2 p3. PkgHead_ToPacket h Packet_from_pool = Some (LLBC_OK, p1)
    \<and> Packet_Write_msg ser m p1 = Some (LLBC_OK, p2)
    \<and> PkgHead_FromPacket p2 = (Rd_ok h, p3) \<and> fst (Packet_Read_msg parse p3) = Rd_ok m"
proof -
  obtain p1 b where w: "PkgHead_ToPacket h Packet_from_pool = Some (LLBC_OK, p1)"
    "Packet_Write_msg ser m p1 = Some (LLBC_OK, Packet_from_pool\<lparr>pk_payload := Some b\<rparr>)"
    "mb_repr b ([] @ head_enc h @ msg_enc ser m)"
    using write_head_msg [OF Packet_pool_repr assms(1,2)] by blast
  then have "packet_repr (Packet_from_pool\<lparr>pk_payload := Some b\<rparr>) (head_enc h @ msg_enc ser m)"
    by (simp add: packet_repr_def)
  from read_head_msg [of _ h ser m parse] this assms w show ?thesis by blast
qed

theorem head_roundtrip_witness:
  "\<exists>p1 p2 p3. PkgHead_ToPacket \<lparr>ph_seq = 7, ph_service_name = ''EchoService'', ph_method_name = ''Echo''\<rparr>
        Packet_from_pool = Some (LLBC_OK, p1)
    \<and> Packet_Write_msg id [1, 2, 3] p1 = Some (LLBC_OK, p2)
    \<and> PkgHead_FromPacket p2 = (Rd_ok \<lparr>ph_seq = 7, ph_service_name = ''EchoService'', ph_method_name = ''Echo''\<rparr>, p3)
    \<and> fst (Packet_Read_msg Some p3) = Rd_ok [1, 2, 3]"
  by (rule head_roundtrip) (simp_all add: head_ok_def string_ok_def msg_ok_def)

text \<open>\<open>PkgHead::ToString\<close> writes at least 36 bytes through \<open>data()\<close> of an empty string, which provides one
  byte, and 16 with the small buffer of libstdc++: every call writes outside the string.\<close>

theorem head_ToString_overflows: "36 \<le> snd (PkgHead_ToString h) \<and> snd (PkgHead_ToString h) \<le> MAX_BUFFER_SIZE"
proof -
  have "1 \<le> length (dec_str (unat (ph_seq h)))" using dec_str_nonempty [of "unat (ph_seq h)"]
    by (cases "dec_str (unat (ph_seq h))") auto
  then have "35 \<le> length (PkgHead_format h)" by (simp add: PkgHead_format_def)
  then show ?thesis by (simp add: PkgHead_ToString_def MAX_BUFFER_SIZE_def)
qed

end
