(* ===== verification/Llbc_Heap.thy ===== *)
theory Llbc_Heap
  imports Prelude
begin

text \<open>
  \<open>LLBC_BinaryHeap\<close> (3rd/llbc/llbc/include/llbc/core/timer/BinaryHeap.h and BinaryHeapInl.h): the
  array heap that orders the timeouts of suspended coroutines. The elements live in positions
  \<open>1 .. _size\<close> of a vector that is resized by doubling; position \<open>0\<close> is unused. The comparison functor
  \<open>Comp\<close> is the argument \<open>lt\<close>, the value \<open>T()\<close> that fills fresh and vacated cells is \<open>d\<close>.
  The theory ends with the interface \<open>prio_queue\<close> and its interpretation on these operations.
\<close>

section \<open>The heap and its operations\<close>

record 'a binary_heap =
  bh_size :: nat
  bh_elems :: "'a list"

text \<open>\<open>std::vector::resize\<close>: cut, or pad with default-constructed values.\<close>

definition vec_resize :: "'a \<Rightarrow> nat \<Rightarrow> 'a list \<Rightarrow> 'a list" where
  "vec_resize d n xs = take n xs @ replicate (n - length xs) d"

definition BinaryHeap_new :: "'a \<Rightarrow> nat \<Rightarrow> 'a binary_heap" where
  "BinaryHeap_new d capacity =
     \<lparr>bh_size = 0, bh_elems = vec_resize d (if capacity > 1 then capacity else 1) []\<rparr>"

definition BinaryHeap_IsEmpty :: "'a binary_heap \<Rightarrow> bool" where
  "BinaryHeap_IsEmpty h \<longleftrightarrow> bh_size h = 0"

text \<open>\<open>FindTop\<close> returns the code and the out-parameter; \<open>Top\<close> asserts a non-empty heap.\<close>

definition BinaryHeap_FindTop :: "'a binary_heap \<Rightarrow> int \<times> 'a option" where
  "BinaryHeap_FindTop h =
     (if BinaryHeap_IsEmpty h then (LLBC_FAILED, None) else (LLBC_OK, Some (bh_elems h ! 1)))"

definition BinaryHeap_Top :: "'a binary_heap \<Rightarrow> 'a option" where
  "BinaryHeap_Top h = (if BinaryHeap_IsEmpty h then None else Some (bh_elems h ! 1))"

text \<open>The loop of \<open>Insert\<close>: parents move down into the hole at \<open>pos\<close>.\<close>

fun percolate_up :: "('a \<Rightarrow> 'a \<Rightarrow> bool) \<Rightarrow> 'a \<Rightarrow> nat \<Rightarrow> 'a list \<Rightarrow> 'a list" where
  "percolate_up lt e pos es =
     (if pos > 1 \<and> lt e (es ! (pos div 2))
      then percolate_up lt e (pos div 2) (es[pos := es ! (pos div 2)])
      else es[pos := e])"

text \<open>The capacity check at the start of \<open>Insert\<close>: a full vector is doubled.\<close>

definition insert_cells :: "'a \<Rightarrow> 'a binary_heap \<Rightarrow> 'a list" where
  "insert_cells d h =
     (let sz = length (bh_elems h)
      in if bh_size h = sz - 1 then vec_resize d (sz * 2) (bh_elems h) else bh_elems h)"

definition BinaryHeap_Insert :: "('a \<Rightarrow> 'a \<Rightarrow> bool) \<Rightarrow> 'a \<Rightarrow> 'a \<Rightarrow> 'a binary_heap \<Rightarrow> 'a binary_heap" where
  "BinaryHeap_Insert lt d e h =
     (let pos = bh_size h + 1
      in \<lparr>bh_size = pos, bh_elems = percolate_up lt e pos (insert_cells d h)\<rparr>)"

text \<open>
  The loop of \<open>PercolateDown\<close>: the smaller child moves up into the hole at \<open>index\<close>. Every call of the
  code has \<open>index \<ge> 1\<close>; the guard only makes the recursion total at \<open>0\<close>.
\<close>

function percolate_down :: "('a \<Rightarrow> 'a \<Rightarrow> bool) \<Rightarrow> nat \<Rightarrow> 'a \<Rightarrow> nat \<Rightarrow> 'a list \<Rightarrow> 'a list" where
  "percolate_down lt sz e index es =
     (if 0 < index \<and> index * 2 \<le> sz
      then (let child = (if index * 2 \<noteq> sz \<and> lt (es ! (index * 2 + 1)) (es ! (index * 2))
                         then index * 2 + 1 else index * 2)
            in if lt (es ! child) e
               then percolate_down lt sz e child (es[index := es ! child])
               else es[index := e])
      else es[index := e])"
  by pat_completeness auto
termination
  by (relation "measure (\<lambda>(lt, sz, e, index, es). sz + 1 - index)") (auto split: if_splits)

definition BinaryHeap_PercolateDown :: "('a \<Rightarrow> 'a \<Rightarrow> bool) \<Rightarrow> nat \<Rightarrow> 'a binary_heap \<Rightarrow> 'a binary_heap" where
  "BinaryHeap_PercolateDown lt index h =
     h\<lparr>bh_elems := percolate_down lt (bh_size h) (bh_elems h ! index) index (bh_elems h)\<rparr>"

text \<open>The loop of \<open>BuildHeap\<close>, \<open>i\<close> from \<open>_size / 2\<close> down to \<open>1\<close>.\<close>

fun build_heap :: "('a \<Rightarrow> 'a \<Rightarrow> bool) \<Rightarrow> nat \<Rightarrow> 'a binary_heap \<Rightarrow> 'a binary_heap" where
  "build_heap lt 0 h = h"
| "build_heap lt (Suc i) h = build_heap lt i (BinaryHeap_PercolateDown lt (Suc i) h)"

definition BinaryHeap_BuildHeap :: "('a \<Rightarrow> 'a \<Rightarrow> bool) \<Rightarrow> 'a binary_heap \<Rightarrow> 'a binary_heap" where
  "BinaryHeap_BuildHeap lt h = build_heap lt (bh_size h div 2) h"

text \<open>The constructor from a container copies it to positions \<open>1 ..\<close> and builds the heap.\<close>

definition BinaryHeap_of :: "('a \<Rightarrow> 'a \<Rightarrow> bool) \<Rightarrow> 'a \<Rightarrow> 'a list \<Rightarrow> 'a binary_heap" where
  "BinaryHeap_of lt d elems =
     BinaryHeap_BuildHeap lt \<lparr>bh_size = length elems, bh_elems = d # elems\<rparr>"

definition BinaryHeap_DeleteTop :: "('a \<Rightarrow> 'a \<Rightarrow> bool) \<Rightarrow> 'a \<Rightarrow> 'a binary_heap \<Rightarrow> int \<times> 'a binary_heap" where
  "BinaryHeap_DeleteTop lt d h =
     (if BinaryHeap_IsEmpty h then (LLBC_FAILED, h)
      else let es = (if bh_size h \<noteq> 1 then (bh_elems h)[1 := bh_elems h ! bh_size h] else bh_elems h);
               es = es[bh_size h := d];
               h' = \<lparr>bh_size = bh_size h - 1, bh_elems = es\<rparr>
           in (LLBC_OK, BinaryHeap_PercolateDown lt 1 h'))"

text \<open>\<open>DeleteElem(index)\<close> shifts the following elements left by one and rebuilds the heap.\<close>

fun shift_left :: "nat \<Rightarrow> nat \<Rightarrow> 'a list \<Rightarrow> 'a list" where
  "shift_left i 0 es = es"
| "shift_left i (Suc k) es = shift_left (Suc i) k (es[i := es ! Suc i])"

definition BinaryHeap_DeleteElem :: "('a \<Rightarrow> 'a \<Rightarrow> bool) \<Rightarrow> nat \<Rightarrow> 'a binary_heap \<Rightarrow> int \<times> 'a binary_heap" where
  "BinaryHeap_DeleteElem lt index h =
     (if BinaryHeap_IsEmpty h then (LLBC_FAILED, h)
      else if index \<le> 0 \<or> index > bh_size h then (LLBC_FAILED, h)
      else (LLBC_OK, BinaryHeap_BuildHeap lt
              \<lparr>bh_size = bh_size h - 1,
               bh_elems = shift_left index (bh_size h - index) (bh_elems h)\<rparr>))"

text \<open>The overloads with an out-parameter and the search by value.\<close>

definition BinaryHeap_DeleteTop_out ::
    "('a \<Rightarrow> 'a \<Rightarrow> bool) \<Rightarrow> 'a \<Rightarrow> 'a binary_heap \<Rightarrow> int \<times> 'a option \<times> 'a binary_heap" where
  "BinaryHeap_DeleteTop_out lt d h =
     (if BinaryHeap_IsEmpty h then (LLBC_FAILED, None, h)
      else (LLBC_OK, Some (bh_elems h ! 1), snd (BinaryHeap_DeleteTop lt d h)))"

definition BinaryHeap_DeleteElem_out ::
    "('a \<Rightarrow> 'a \<Rightarrow> bool) \<Rightarrow> nat \<Rightarrow> 'a binary_heap \<Rightarrow> int \<times> 'a option \<times> 'a binary_heap" where
  "BinaryHeap_DeleteElem_out lt index h =
     (if BinaryHeap_IsEmpty h then (LLBC_FAILED, None, h)
      else if index \<le> 0 \<or> index > bh_size h then (LLBC_FAILED, None, h)
      else (LLBC_OK, Some (bh_elems h ! index), snd (BinaryHeap_DeleteElem lt index h)))"

definition BinaryHeap_DeleteElem_value :: "('a \<Rightarrow> 'a \<Rightarrow> bool) \<Rightarrow> 'a \<Rightarrow> 'a binary_heap \<Rightarrow> int \<times> 'a binary_heap" where
  "BinaryHeap_DeleteElem_value lt e h =
     (case find (\<lambda>i. bh_elems h ! i = e) [1 ..< Suc (bh_size h)] of
        Some i \<Rightarrow> BinaryHeap_DeleteElem lt i h
      | None \<Rightarrow> (LLBC_FAILED, h))"

definition BinaryHeap_MakeEmpty :: "'a \<Rightarrow> 'a binary_heap \<Rightarrow> 'a binary_heap" where
  "BinaryHeap_MakeEmpty d h = \<lparr>bh_size = 0, bh_elems = vec_resize d 1 (bh_elems h)\<rparr>"

definition BinaryHeap_GetSize :: "'a binary_heap \<Rightarrow> nat" where
  "BinaryHeap_GetSize h = bh_size h"

section \<open>Invariant and content\<close>

text \<open>The comparison functors of the code compare a key of the elements.\<close>

definition by_key :: "('a \<Rightarrow> 'k::linorder) \<Rightarrow> 'a \<Rightarrow> 'a \<Rightarrow> bool" where
  "by_key key a b \<longleftrightarrow> key a < key b"

text \<open>Every child below a node at or after \<open>k\<close> is at least its parent.\<close>

definition heap_from :: "('a \<Rightarrow> 'k::linorder) \<Rightarrow> nat \<Rightarrow> nat \<Rightarrow> 'a list \<Rightarrow> bool" where
  "heap_from key n k xs \<longleftrightarrow>
     (\<forall>j \<in> {2..n}. k \<le> j div 2 \<longrightarrow> key (xs ! (j div 2)) \<le> key (xs ! j))"

definition heap_inv :: "('a \<Rightarrow> 'k::linorder) \<Rightarrow> 'a binary_heap \<Rightarrow> bool" where
  "heap_inv key h \<longleftrightarrow> bh_size h < length (bh_elems h) \<and> heap_from key (bh_size h) 1 (bh_elems h)"

definition heap_slice :: "nat \<Rightarrow> 'a list \<Rightarrow> 'a list" where
  "heap_slice n xs = take n (drop 1 xs)"

definition heap_content :: "'a binary_heap \<Rightarrow> 'a multiset" where
  "heap_content h = mset (heap_slice (bh_size h) (bh_elems h))"

text \<open>The heap with a hole: \<open>heap_up\<close> may fail at position \<open>p\<close> towards its parent,
  \<open>heap_down\<close> at position \<open>p\<close> towards its children.\<close>

definition heap_up :: "('a \<Rightarrow> 'k::linorder) \<Rightarrow> nat \<Rightarrow> nat \<Rightarrow> 'a list \<Rightarrow> bool" where
  "heap_up key n p xs \<longleftrightarrow>
     (\<forall>j \<in> {2..n}. j \<noteq> p \<longrightarrow> key (xs ! (j div 2)) \<le> key (xs ! j)) \<and>
     (\<forall>j \<in> {2..n}. j div 2 = p \<longrightarrow> 1 < p \<longrightarrow> key (xs ! (p div 2)) \<le> key (xs ! j))"

definition heap_down :: "('a \<Rightarrow> 'k::linorder) \<Rightarrow> nat \<Rightarrow> nat \<Rightarrow> nat \<Rightarrow> 'a list \<Rightarrow> bool" where
  "heap_down key n k p xs \<longleftrightarrow>
     (\<forall>j \<in> {2..n}. k \<le> j div 2 \<longrightarrow> j div 2 \<noteq> p \<longrightarrow> key (xs ! (j div 2)) \<le> key (xs ! j)) \<and>
     (\<forall>j \<in> {2..n}. j div 2 = p \<longrightarrow> k \<le> p div 2 \<longrightarrow> key (xs ! (p div 2)) \<le> key (xs ! j))"

text \<open>A client's view: take the top until the queue is empty or \<open>n\<close> elements are out.\<close>

fun pq_drain :: "('q \<Rightarrow> 'a option) \<Rightarrow> ('q \<Rightarrow> 'q) \<Rightarrow> nat \<Rightarrow> 'q \<Rightarrow> 'a list" where
  "pq_drain first del 0 q = []"
| "pq_drain first del (Suc n) q =
     (case first q of None \<Rightarrow> [] | Some e \<Rightarrow> e # pq_drain first del n (del q))"

declare percolate_up.simps [simp del] percolate_down.simps [simp del]

section \<open>Lemmas\<close>

lemma heap_slice_update:
  "1 \<le> i \<Longrightarrow> heap_slice n (xs[i := v]) = (heap_slice n xs)[i - 1 := v]"
  by (simp add: heap_slice_def drop_update_swap take_update_swap)

lemma heap_slice_nth: "1 \<le> i \<Longrightarrow> i \<le> n \<Longrightarrow> n < length xs \<Longrightarrow> heap_slice n xs ! (i - 1) = xs ! i"
  by (simp add: heap_slice_def)

lemma length_heap_slice [simp]: "n < length xs \<Longrightarrow> length (heap_slice n xs) = n"
  by (simp add: heap_slice_def)

text \<open>Moving an element into the hole and the hole to its place permutes the content.\<close>

lemma heap_slice_move:
  assumes "1 \<le> p" "p \<le> n" "1 \<le> q" "q \<le> n" "p \<noteq> q" "n < length es"
  shows "mset (heap_slice n (es[p := es ! q, q := e])) = mset (heap_slice n (es[p := e]))"
proof -
  let ?ys = "heap_slice n (es[p := e])"
  have "?ys[q - 1 := ?ys ! (p - 1), p - 1 := ?ys ! (q - 1)] = heap_slice n (es[p := es ! q, q := e])"
    using assms by (intro nth_equalityI) (auto simp: heap_slice_def nth_list_update)
  moreover have "mset (?ys[q - 1 := ?ys ! (p - 1), p - 1 := ?ys ! (q - 1)]) = mset ?ys"
    using assms by (intro mset_swap) auto
  ultimately show ?thesis by simp
qed

lemma length_percolate_up [simp]: "length (percolate_up lt e pos es) = length es"
  by (induction lt e pos es rule: percolate_up.induct) (subst percolate_up.simps, simp)

lemma length_percolate_down [simp]: "length (percolate_down lt n e i es) = length es"
  by (induction lt n e i es rule: percolate_down.induct)
     (subst percolate_down.simps, auto simp: Let_def split: if_splits)

lemma mset_percolate_up:
  assumes "1 \<le> pos" "pos \<le> n" "n < length es"
  shows "mset (heap_slice n (percolate_up lt e pos es)) = mset (heap_slice n (es[pos := e]))"
  using assms
proof (induction lt e pos es rule: percolate_up.induct)
  case (1 lt e pos es)
  show ?case
  proof (cases "pos > 1 \<and> lt e (es ! (pos div 2))")
    case True
    moreover from True "1.prems" have "1 \<le> pos div 2" "pos div 2 \<le> n" "pos div 2 \<noteq> pos" by auto
    ultimately show ?thesis
      using "1.IH" "1.prems" heap_slice_move [of pos n "pos div 2" es e]
      by (simp add: percolate_up.simps [of lt e pos es])
  next
    case False
    then show ?thesis by (auto simp: percolate_up.simps [of lt e pos es])
  qed
qed

lemma heap_up_swap:
  assumes "heap_up key n p (es[p := e])" "1 < p" "p \<le> n" "n < length es" "key e < key (es ! (p div 2))"
  shows "heap_up key n (p div 2) (es[p := es ! (p div 2), p div 2 := e])"
proof -
  let ?q = "p div 2" and ?xs = "es[p := e]"
  have q: "1 \<le> ?q" "?q < p" using assms(2) by auto
  have nth: "es[p := es ! ?q, ?q := e] ! j = (if j = ?q then e else if j = p then es ! ?q else es ! j)"
    if "j \<le> n" for j using that q assms(3,4) by (simp add: nth_list_update)
  have old: "?xs ! j = (if j = p then e else es ! j)" if "j \<le> n" for j
    using that assms(3,4) by (simp add: nth_list_update)
  have up1: "key (?xs ! (j div 2)) \<le> key (?xs ! j)" if "j \<in> {2..n}" "j \<noteq> p" for j
    using assms(1) that by (auto simp: heap_up_def)
  have up2: "key (?xs ! ?q) \<le> key (?xs ! j)" if "j \<in> {2..n}" "j div 2 = p" for j
    using assms(1,2) that by (auto simp: heap_up_def)
  show ?thesis unfolding heap_up_def
  proof (intro conjI ballI impI)
    fix j assume j: "j \<in> {2..n}" "j \<noteq> ?q"
    then have jn: "j \<le> n" "j div 2 \<le> n" by auto
    show "key (es[p := es ! ?q, ?q := e] ! (j div 2)) \<le> key (es[p := es ! ?q, ?q := e] ! j)"
    proof (cases "j = p")
      case True
      then show ?thesis using nth [OF jn(1)] nth [OF jn(2)] q assms(5) by simp
    next
      case False
      then have "key (?xs ! (j div 2)) \<le> key (?xs ! j)" using up1 j by blast
      moreover have "j div 2 = p \<Longrightarrow> key (es ! ?q) \<le> key (es ! j)"
        using up2 [of j] j old [of ?q] old [OF jn(1)] q False assms(3) by simp
      ultimately show ?thesis
        using nth [OF jn(1)] nth [OF jn(2)] old [OF jn(1)] old [OF jn(2)] False j q assms(5)
        by (auto split: if_splits)
    qed
  next
    fix j assume j: "j \<in> {2..n}" "j div 2 = ?q" "1 < ?q"
    then have jn: "j \<le> n" by auto
    have qq: "?q div 2 \<le> n" "?q \<le> n" using q assms(3) by auto
    have qne: "?q div 2 \<noteq> ?q" "?q div 2 \<noteq> p" "j \<noteq> ?q" using j q by auto
    have gp: "key (es ! (?q div 2)) \<le> key (es ! ?q)"
      using up1 [of ?q] j q assms(3) old [OF qq(1)] old [OF qq(2)] qne by auto
    have "j \<noteq> p \<Longrightarrow> key (es ! ?q) \<le> key (es ! j)"
      using up1 [of j] j old [OF jn] old [OF qq(2)] q by auto
    then show "key (es[p := es ! ?q, ?q := e] ! (?q div 2)) \<le> key (es[p := es ! ?q, ?q := e] ! j)"
      using nth [OF jn] nth [OF qq(1)] qne gp by auto
  qed
qed

lemma heap_percolate_up:
  assumes "heap_up key n pos (es[pos := e])" "1 \<le> pos" "pos \<le> n" "n < length es"
  shows "heap_from key n 1 (percolate_up (by_key key) e pos es)"
  using assms
proof (induction "by_key key" e pos es rule: percolate_up.induct)
  case (1 e pos es)
  show ?case
  proof (cases "pos > 1 \<and> by_key key e (es ! (pos div 2))")
    case True
    then have "heap_up key n (pos div 2) ((es[pos := es ! (pos div 2)])[pos div 2 := e])"
      using "1.prems" by (intro heap_up_swap) (auto simp: by_key_def)
    then have "heap_from key n 1 (percolate_up (by_key key) e (pos div 2) (es[pos := es ! (pos div 2)]))"
      using "1.hyps" True "1.prems" by auto
    then show ?thesis using True by (simp add: percolate_up.simps [of "by_key key" e pos es])
  next
    case False
    have "key (es[pos := e] ! (j div 2)) \<le> key (es[pos := e] ! j)" if "j \<in> {2..n}" for j
    proof (cases "j = pos")
      case True
      then show ?thesis using False that "1.prems"(3,4) by (auto simp: by_key_def nth_list_update)
    next
      case False
      then show ?thesis using "1.prems"(1) that by (auto simp: heap_up_def)
    qed
    moreover have "percolate_up (by_key key) e pos es = es[pos := e]"
      using False by (subst percolate_up.simps) auto
    ultimately show ?thesis by (simp add: heap_from_def)
  qed
qed

lemma mset_percolate_down:
  assumes "1 \<le> i" "i \<le> n" "n < length es"
  shows "mset (heap_slice n (percolate_down lt n e i es)) = mset (heap_slice n (es[i := e]))"
  using assms
proof (induction lt n e i es rule: percolate_down.induct)
  case (1 lt n e i es)
  let ?c = "if i * 2 \<noteq> n \<and> lt (es ! (i * 2 + 1)) (es ! (i * 2)) then i * 2 + 1 else i * 2"
  show ?case
  proof (cases "0 < i \<and> i * 2 \<le> n \<and> lt (es ! ?c) e")
    case True
    then have c: "1 \<le> ?c" "?c \<le> n" "?c \<noteq> i" by auto
    have "mset (heap_slice n (percolate_down lt n e ?c (es[i := es ! ?c])))
            = mset (heap_slice n ((es[i := es ! ?c])[?c := e]))"
      using True c "1.prems" by (intro "1.IH") auto
    also have "\<dots> = mset (heap_slice n (es[i := e]))"
      using c "1.prems" by (intro heap_slice_move) auto
    finally show ?thesis using True by (simp add: percolate_down.simps [of lt n e i es] Let_def)
  next
    case False
    then have "percolate_down lt n e i es = es[i := e]"
      by (subst percolate_down.simps) (auto simp: Let_def)
    then show ?thesis by simp
  qed
qed

lemma heap_down_swap:
  assumes hd: "heap_down key n k p (es[p := e])"
    and b: "1 \<le> k" "k \<le> p" "n < length es" "c \<in> {2..n}" "c div 2 = p"
    and lt: "key (es ! c) < key e"
    and least: "\<And>j. j \<in> {2..n} \<Longrightarrow> j div 2 = p \<Longrightarrow> key (es ! c) \<le> key (es ! j)"
  shows "heap_down key n k c (es[p := es ! c, c := e])"
proof -
  have pc: "p < c" "p \<le> n" "c \<le> n" "p \<noteq> c" using b by auto
  have nth: "es[p := es ! c, c := e] ! j = (if j = c then e else if j = p then es ! c else es ! j)"
    if "j \<le> n" for j using that pc b(3) by (simp add: nth_list_update)
  have old: "es[p := e] ! j = (if j = p then e else es ! j)" if "j \<le> n" for j
    using that pc b(3) by (simp add: nth_list_update)
  have d1: "key (es[p := e] ! (j div 2)) \<le> key (es[p := e] ! j)"
    if "j \<in> {2..n}" "k \<le> j div 2" "j div 2 \<noteq> p" for j
    using hd that by (auto simp: heap_down_def)
  have d2: "key (es[p := e] ! (p div 2)) \<le> key (es[p := e] ! j)"
    if "j \<in> {2..n}" "j div 2 = p" "k \<le> p div 2" for j
    using hd that by (auto simp: heap_down_def)
  show ?thesis unfolding heap_down_def
  proof (intro conjI ballI impI)
    fix j assume j: "j \<in> {2..n}" "k \<le> j div 2" "j div 2 \<noteq> c"
    then have jn: "j \<le> n" "j div 2 \<le> n" "j div 2 \<noteq> j" by auto
    consider "j div 2 = p" | "j = p" | "j div 2 \<noteq> p" "j \<noteq> p" by blast
    then show "key (es[p := es ! c, c := e] ! (j div 2)) \<le> key (es[p := es ! c, c := e] ! j)"
    proof cases
      case 1
      with least [OF j(1) 1] show ?thesis
        using nth [OF jn(1)] nth [OF jn(2)] jn(3) pc lt by auto
    next
      case 2
      have q: "p div 2 \<le> n" "p div 2 \<noteq> p" "p div 2 \<noteq> c" using j jn 2 pc by auto
      have "k \<le> p div 2" using j(2) 2 by simp
      from d2 [OF b(4,5) this] have "key (es ! (p div 2)) \<le> key (es ! c)"
        unfolding old [OF q(1)] old [OF pc(3)] using q pc by simp
      then show ?thesis unfolding 2 nth [OF q(1)] nth [OF pc(2)] using q pc by simp
    next
      case 3
      with d1 [OF j(1,2)] have "key (es[p := e] ! (j div 2)) \<le> key (es[p := e] ! j)" by blast
      moreover have "j \<noteq> c" using 3 b(5) by blast
      ultimately show ?thesis
        using nth [OF jn(1)] nth [OF jn(2)] old [OF jn(1)] old [OF jn(2)] 3 j by auto
    qed
  next
    fix j assume j: "j \<in> {2..n}" "j div 2 = c" "k \<le> c div 2"
    then have jn: "j \<le> n" "j \<noteq> c" "j \<noteq> p" using pc by auto
    have "key (es[p := e] ! (j div 2)) \<le> key (es[p := e] ! j)" using d1 [OF j(1)] j b pc by auto
    then show "key (es[p := es ! c, c := e] ! (c div 2)) \<le> key (es[p := es ! c, c := e] ! j)"
      using nth [OF jn(1)] nth [of p] old [OF jn(1)] old [OF pc(3)] j jn pc b(5) by auto
  qed
qed

lemma heap_percolate_down:
  assumes "heap_down key n k i (es[i := e])" "1 \<le> k" "k \<le> i" "n < length es"
  shows "heap_from key n k (percolate_down (by_key key) n e i es)"
  using assms
proof (induction "by_key key" n e i es rule: percolate_down.induct)
  case (1 n e i es)
  let ?c = "if i * 2 \<noteq> n \<and> by_key key (es ! (i * 2 + 1)) (es ! (i * 2)) then i * 2 + 1 else i * 2"
  have kids: "j = i * 2 \<or> j = i * 2 + 1" if "j div 2 = i" for j using that by auto
  have least: "key (es ! ?c) \<le> key (es ! j)" if "j \<in> {2..n}" "j div 2 = i" for j
    using kids [OF that(2)] that(1) by (auto simp: by_key_def)
  show ?case
  proof (cases "0 < i \<and> i * 2 \<le> n \<and> by_key key (es ! ?c) e")
    case True
    then have c: "?c \<in> {2..n}" "?c div 2 = i" by auto
    have "heap_down key n k ?c (es[i := es ! ?c, ?c := e])"
      using "1.prems" c least True by (intro heap_down_swap) (auto simp: by_key_def)
    then have "heap_from key n k (percolate_down (by_key key) n e ?c (es[i := es ! ?c]))"
      using True c "1.prems" by (intro "1.hyps") auto
    then show ?thesis
      using True by (simp add: percolate_down.simps [of "by_key key" n e i es] Let_def)
  next
    case False
    then have eq: "percolate_down (by_key key) n e i es = es[i := e]"
      by (subst percolate_down.simps) (auto simp: Let_def)
    have "key (es[i := e] ! (j div 2)) \<le> key (es[i := e] ! j)" if "j \<in> {2..n}" "k \<le> j div 2" for j
    proof (cases "j div 2 = i")
      case True
      with False that "1.prems"(2,3) have "key e \<le> key (es ! ?c)" by (auto simp: by_key_def)
      with least [OF that(1) True] have "key e \<le> key (es ! j)" by order
      with True that "1.prems"(4) show ?thesis by (auto simp: nth_list_update)
    next
      case False
      with "1.prems"(1) that show ?thesis by (auto simp: heap_down_def)
    qed
    then show ?thesis by (simp add: eq heap_from_def)
  qed
qed

lemma vec_resize_grow: "length xs \<le> n \<Longrightarrow> vec_resize d n xs = xs @ replicate (n - length xs) d"
  by (simp add: vec_resize_def)

text \<open>The vector after the capacity check of \<open>Insert\<close>: large enough, old cells unchanged.\<close>

lemma insert_room:
  assumes "bh_size h < length (bh_elems h)"
  shows "bh_size h + 1 < length (insert_cells d h)"
    and "j \<le> bh_size h \<Longrightarrow> insert_cells d h ! j = bh_elems h ! j"
    and "heap_slice (bh_size h) (insert_cells d h) = heap_slice (bh_size h) (bh_elems h)"
  using assms by (auto simp: insert_cells_def Let_def vec_resize_grow nth_append heap_slice_def)

lemma heap_slice_snoc:
  "n + 1 < length es \<Longrightarrow> heap_slice (n + 1) (es[n + 1 := e]) = heap_slice n es @ [e]"
  by (simp add: heap_slice_def drop_update_swap take_Suc_conv_app_nth)

lemma Insert_size [simp]: "bh_size (BinaryHeap_Insert lt d e h) = bh_size h + 1"
  by (simp add: BinaryHeap_Insert_def Let_def)

lemma Insert_content:
  assumes "heap_inv key h"
  shows "heap_content (BinaryHeap_Insert lt d e h) = add_mset e (heap_content h)"
proof -
  let ?es = "insert_cells d h" and ?n = "bh_size h"
  have len: "?n < length (bh_elems h)" using assms by (simp add: heap_inv_def)
  have "mset (heap_slice (?n + 1) (percolate_up lt e (?n + 1) ?es)) = mset (heap_slice ?n ?es @ [e])"
    using insert_room(1) [OF len] by (subst mset_percolate_up) (auto simp: heap_slice_snoc [symmetric])
  then show ?thesis
    using insert_room(3) [OF len] by (simp add: heap_content_def BinaryHeap_Insert_def Let_def)
qed

lemma Insert_inv:
  assumes "heap_inv key h"
  shows "heap_inv key (BinaryHeap_Insert (by_key key) d e h)"
proof -
  let ?es = "insert_cells d h" and ?n = "bh_size h"
  have len: "?n < length (bh_elems h)" using assms by (simp add: heap_inv_def)
  have "heap_up key (?n + 1) (?n + 1) (?es[?n + 1 := e])"
    using assms insert_room(2) [OF len] by (auto simp: heap_up_def heap_inv_def heap_from_def)
  then have "heap_from key (?n + 1) 1 (percolate_up (by_key key) e (?n + 1) ?es)"
    using insert_room(1) [OF len] by (intro heap_percolate_up) auto
  then show ?thesis
    using insert_room(1) [OF len] by (simp add: heap_inv_def BinaryHeap_Insert_def Let_def)
qed

lemma heap_slice_eq_Nil: "n < length xs \<Longrightarrow> heap_slice n xs = [] \<longleftrightarrow> n = 0"
  by (auto simp: heap_slice_def)

lemma IsEmpty_content: "heap_inv key h \<Longrightarrow> BinaryHeap_IsEmpty h \<longleftrightarrow> heap_content h = {#}"
  by (simp add: heap_inv_def BinaryHeap_IsEmpty_def heap_content_def heap_slice_eq_Nil)

lemma in_heap_content:
  assumes "n < length xs"
  shows "x \<in> set (heap_slice n xs) \<longleftrightarrow> (\<exists>i. 1 \<le> i \<and> i \<le> n \<and> xs ! i = x)"
proof
  assume "x \<in> set (heap_slice n xs)"
  then obtain k where "k < n" "heap_slice n xs ! k = x"
    using assms by (auto simp: in_set_conv_nth)
  then show "\<exists>i. 1 \<le> i \<and> i \<le> n \<and> xs ! i = x"
    using assms by (intro exI [of _ "k + 1"]) (auto simp: heap_slice_def)
next
  assume "\<exists>i. 1 \<le> i \<and> i \<le> n \<and> xs ! i = x"
  then obtain i where "1 \<le> i" "i \<le> n" "xs ! i = x" by blast
  then show "x \<in> set (heap_slice n xs)"
    using assms heap_slice_nth [of i n xs] by (auto simp: in_set_conv_nth intro!: exI [of _ "i - 1"])
qed

text \<open>The root of a heap is a minimum: walk from any position to its parent.\<close>

lemma heap_root_least:
  assumes "heap_from key n 1 xs"
  shows "1 \<le> i \<Longrightarrow> i \<le> n \<Longrightarrow> key (xs ! 1) \<le> key (xs ! i)"
proof (induction i rule: less_induct)
  case (less i)
  show ?case
  proof (cases "i = 1")
    case False
    then have "1 \<le> i div 2" "i div 2 < i" "i \<in> {2..n}" using less.prems by auto
    then have "key (xs ! 1) \<le> key (xs ! (i div 2))" "key (xs ! (i div 2)) \<le> key (xs ! i)"
      using less assms by (auto simp: heap_from_def)
    then show ?thesis by order
  qed simp
qed

lemma Top_least:
  assumes "heap_inv key h" "heap_content h \<noteq> {#}"
  shows "\<exists>e. BinaryHeap_Top h = Some e \<and> e \<in># heap_content h \<and> (\<forall>x \<in># heap_content h. key e \<le> key x)"
proof -
  have len: "bh_size h < length (bh_elems h)" and hp: "heap_from key (bh_size h) 1 (bh_elems h)"
    using assms(1) by (auto simp: heap_inv_def)
  have pos: "0 < bh_size h"
    using IsEmpty_content [OF assms(1)] assms(2) by (simp add: BinaryHeap_IsEmpty_def)
  have "bh_elems h ! 1 \<in># heap_content h"
    using pos by (auto simp: heap_content_def in_heap_content [OF len])
  moreover have "\<forall>x \<in># heap_content h. key (bh_elems h ! 1) \<le> key x"
    using heap_root_least [OF hp] by (auto simp: heap_content_def in_heap_content [OF len])
  ultimately show ?thesis using pos by (auto simp: BinaryHeap_Top_def BinaryHeap_IsEmpty_def)
qed

text \<open>The vector of \<open>DeleteTop\<close> before the percolation: the last element on top of the rest.\<close>

lemma delete_slice:
  assumes "0 < n" "n < length es"
  shows "mset (heap_slice (n - 1) ((if n \<noteq> 1 then es[1 := es ! n] else es)[n := d]))
           = mset (heap_slice n es) - {#es ! 1#}"
proof (cases "n = 1")
  case True
  then show ?thesis using assms by (simp add: heap_slice_def take_Suc_conv_app_nth)
next
  case False
  define m where "m = n - 2"
  have m: "n = Suc (Suc m)" using False assms(1) by (simp add: m_def)
  have sl: "heap_slice n es = es ! 1 # take m (drop 2 es) @ [es ! n]"
    using m assms(2) by (intro nth_equalityI) (auto simp: heap_slice_def nth_Cons nth_append less_Suc_eq split: nat.splits)
  have "heap_slice (n - 1) (es[1 := es ! n, n := d]) = es ! n # take m (drop 2 es)"
    using m assms(2) by (intro nth_equalityI) (auto simp: heap_slice_def nth_Cons nth_list_update split: nat.splits)
  then show ?thesis using False sl by simp
qed

lemma percolate_self: "es[i := es ! i] = es"
  by simp

lemma DeleteTop_ok:
  assumes "heap_inv key h" "BinaryHeap_Top h = Some e"
  shows "heap_inv key (snd (BinaryHeap_DeleteTop (by_key key) d h))"
    and "heap_content (snd (BinaryHeap_DeleteTop (by_key key) d h)) = heap_content h - {#e#}"
proof -
  let ?n = "bh_size h" and ?es = "bh_elems h"
  define ds where "ds = (if ?n \<noteq> 1 then ?es[1 := ?es ! ?n] else ?es)[?n := d]"
  have n: "0 < ?n" and e: "e = ?es ! 1"
    using assms(2) by (auto simp: BinaryHeap_Top_def BinaryHeap_IsEmpty_def split: if_splits)
  have len: "?n < length ?es" and hp: "heap_from key ?n 1 ?es" using assms(1) by (auto simp: heap_inv_def)
  have dl: "length ds = length ?es" by (simp add: ds_def)
  have ds: "ds ! j = ?es ! j" if "j \<noteq> 1" "j \<noteq> ?n" for j using that by (simp add: ds_def)
  have res: "snd (BinaryHeap_DeleteTop (by_key key) d h)
      = \<lparr>bh_size = ?n - 1, bh_elems = percolate_down (by_key key) (?n - 1) (ds ! 1) 1 ds\<rparr>"
    using n by (simp add: BinaryHeap_DeleteTop_def BinaryHeap_IsEmpty_def BinaryHeap_PercolateDown_def
        Let_def ds_def del: One_nat_def)
  have "heap_down key (?n - 1) 1 1 (ds[1 := ds ! 1])"
    unfolding heap_down_def percolate_self
  proof (intro conjI ballI impI)
    fix j assume "j \<in> {2..?n - 1}" "1 \<le> j div 2" "j div 2 \<noteq> 1"
    moreover from this have "ds ! j = ?es ! j" "ds ! (j div 2) = ?es ! (j div 2)" by (auto intro: ds)
    ultimately show "key (ds ! (j div 2)) \<le> key (ds ! j)" using hp by (auto simp: heap_from_def)
  qed auto
  then have "heap_from key (?n - 1) 1 (percolate_down (by_key key) (?n - 1) (ds ! 1) 1 ds)"
    using len dl n by (intro heap_percolate_down) auto
  then show "heap_inv key (snd (BinaryHeap_DeleteTop (by_key key) d h))"
    using len dl n by (auto simp: heap_inv_def res)
  have "mset (heap_slice (?n - 1) (percolate_down (by_key key) (?n - 1) (ds ! 1) 1 ds))
      = mset (heap_slice (?n - 1) ds)"
  proof (cases "?n = 1")
    case True
    then show ?thesis by (simp add: heap_slice_def)
  next
    case False
    then show ?thesis using mset_percolate_down [of 1 "?n - 1" ds] n len dl by simp
  qed
  then show "heap_content (snd (BinaryHeap_DeleteTop (by_key key) d h)) = heap_content h - {#e#}"
    using delete_slice [OF n len] e by (simp add: heap_content_def res ds_def del: One_nat_def)
qed

lemma PercolateDown_simps [simp]:
  "bh_size (BinaryHeap_PercolateDown lt i h) = bh_size h"
  "length (bh_elems (BinaryHeap_PercolateDown lt i h)) = length (bh_elems h)"
  by (simp_all add: BinaryHeap_PercolateDown_def)

lemma PercolateDown_step:
  assumes "bh_size h < length (bh_elems h)" "1 \<le> i" "heap_from key (bh_size h) (Suc i) (bh_elems h)"
  shows "heap_from key (bh_size h) i (bh_elems (BinaryHeap_PercolateDown (by_key key) i h))"
proof -
  have "heap_down key (bh_size h) i i ((bh_elems h)[i := bh_elems h ! i])"
    using assms(2,3) unfolding percolate_self by (auto simp: heap_down_def heap_from_def)
  then show ?thesis
    using assms by (auto simp: BinaryHeap_PercolateDown_def intro!: heap_percolate_down)
qed

lemma PercolateDown_content:
  assumes "bh_size h < length (bh_elems h)" "1 \<le> i" "i \<le> bh_size h"
  shows "heap_content (BinaryHeap_PercolateDown lt i h) = heap_content h"
  using assms mset_percolate_down [of i "bh_size h" "bh_elems h" lt "bh_elems h ! i"]
  by (simp add: heap_content_def BinaryHeap_PercolateDown_def)

lemma build_heap_ok:
  assumes "bh_size h < length (bh_elems h)" "i \<le> bh_size h"
    "heap_from key (bh_size h) (Suc i) (bh_elems h)"
  shows "heap_inv key (build_heap (by_key key) i h)
    \<and> heap_content (build_heap (by_key key) i h) = heap_content h"
  using assms
proof (induction i arbitrary: h)
  case 0
  then show ?case by (simp add: heap_inv_def)
next
  case (Suc i)
  then show ?case
    using PercolateDown_step [of h "Suc i" key] PercolateDown_content [of h "Suc i" "by_key key"] by simp
qed

lemma BuildHeap_ok:
  assumes "bh_size h < length (bh_elems h)"
  shows "heap_inv key (BinaryHeap_BuildHeap (by_key key) h)
    \<and> heap_content (BinaryHeap_BuildHeap (by_key key) h) = heap_content h"
proof -
  have "heap_from key (bh_size h) (Suc (bh_size h div 2)) (bh_elems h)"
    by (auto simp: heap_from_def dest: div_le_mono [of _ _ 2])
  then show ?thesis
    using build_heap_ok [OF assms, of "bh_size h div 2" key] by (simp add: BinaryHeap_BuildHeap_def)
qed

lemma shift_left_eq:
  "i + k < length es \<Longrightarrow> shift_left i k es = take i es @ take k (drop (Suc i) es) @ drop (i + k) es"
proof (induction k arbitrary: i es)
  case 0
  then show ?case by simp
next
  case (Suc k)
  then show ?case
    by (intro nth_equalityI) (auto simp: nth_append nth_list_update less_Suc_eq intro!: arg_cong [of _ _ "(!) es"])
qed

lemma DeleteElem_content:
  assumes "heap_inv key h" "1 \<le> i" "i \<le> bh_size h"
  shows "fst (BinaryHeap_DeleteElem (by_key key) i h) = LLBC_OK"
    and "heap_inv key (snd (BinaryHeap_DeleteElem (by_key key) i h))"
    and "heap_content (snd (BinaryHeap_DeleteElem (by_key key) i h)) = heap_content h - {#bh_elems h ! i#}"
proof -
  let ?n = "bh_size h" and ?es = "bh_elems h"
  let ?h = "\<lparr>bh_size = ?n - 1, bh_elems = shift_left i (?n - i) ?es\<rparr>"
  have len: "?n < length ?es" using assms(1) by (simp add: heap_inv_def)
  have eq: "BinaryHeap_DeleteElem (by_key key) i h = (LLBC_OK, BinaryHeap_BuildHeap (by_key key) ?h)"
    using assms(2,3) by (simp add: BinaryHeap_DeleteElem_def BinaryHeap_IsEmpty_def)
  have sl: "shift_left i (?n - i) ?es = take i ?es @ take (?n - i) (drop (Suc i) ?es) @ drop ?n ?es"
    using shift_left_eq [of i "?n - i" ?es] assms(3) len by simp
  have "heap_slice ?n ?es = heap_slice (i - 1) ?es @ ?es ! i # take (?n - i) (drop (Suc i) ?es)"
    using assms(2,3) len by (intro nth_equalityI) (auto simp: heap_slice_def nth_append nth_Cons split: nat.splits intro!: arg_cong [of _ _ "(!) ?es"])
  moreover have "heap_slice (?n - 1) (shift_left i (?n - i) ?es)
      = heap_slice (i - 1) ?es @ take (?n - i) (drop (Suc i) ?es)"
    using assms(2,3) len unfolding sl by (intro nth_equalityI) (auto simp: heap_slice_def nth_append)
  ultimately have "heap_content ?h = heap_content h - {#?es ! i#}"
    by (simp add: heap_content_def)
  then show "fst (BinaryHeap_DeleteElem (by_key key) i h) = LLBC_OK"
    "heap_inv key (snd (BinaryHeap_DeleteElem (by_key key) i h))"
    "heap_content (snd (BinaryHeap_DeleteElem (by_key key) i h)) = heap_content h - {#?es ! i#}"
    using BuildHeap_ok [of ?h key] len assms(3) by (auto simp: eq sl)
qed

section \<open>The priority queue interface\<close>

text \<open>
  What the coroutine manager relies on: a bag of elements, insertion, a top of least key and its
  removal. The lemmas are the client's: what is known of all elements from the top alone, and the
  order in which the elements leave the queue.
\<close>

locale prio_queue =
  fixes is_empty :: "'q \<Rightarrow> bool" and top :: "'q \<Rightarrow> 'a option"
    and ins :: "'a \<Rightarrow> 'q \<Rightarrow> 'q" and del :: "'q \<Rightarrow> 'q"
    and inv :: "'q \<Rightarrow> bool" and content :: "'q \<Rightarrow> 'a multiset" and key :: "'a \<Rightarrow> 'k::linorder"
  assumes empty_iff: "inv q \<Longrightarrow> is_empty q \<longleftrightarrow> content q = {#}"
    and top_empty: "inv q \<Longrightarrow> content q = {#} \<Longrightarrow> top q = None"
    and top_least: "inv q \<Longrightarrow> content q \<noteq> {#} \<Longrightarrow>
          \<exists>e. top q = Some e \<and> e \<in># content q \<and> (\<forall>x \<in># content q. key e \<le> key x)"
    and ins_inv: "inv q \<Longrightarrow> inv (ins e q)"
    and ins_content: "inv q \<Longrightarrow> content (ins e q) = add_mset e (content q)"
    and del_inv: "inv q \<Longrightarrow> top q = Some e \<Longrightarrow> inv (del q)"
    and del_content: "inv q \<Longrightarrow> top q = Some e \<Longrightarrow> content (del q) = content q - {#e#}"
begin

lemma top_SomeD:
  assumes "inv q" "top q = Some e"
  shows "e \<in># content q" and "x \<in># content q \<Longrightarrow> key e \<le> key x"
  using assms top_least [of q] top_empty [of q] by (cases "content q = {#}", auto)+

lemma top_None_iff: "inv q \<Longrightarrow> top q = None \<longleftrightarrow> content q = {#}"
  using top_least [of q] top_empty [of q] by (cases "content q = {#}") auto

lemma nothing_due: "inv q \<Longrightarrow> top q = Some e \<Longrightarrow> t < key e \<Longrightarrow> x \<in># content q \<Longrightarrow> t < key x"
  by (blast intro: order.strict_trans2 dest: top_SomeD(2))

lemma del_size: "inv q \<Longrightarrow> top q = Some e \<Longrightarrow> size (content (del q)) < size (content q)"
  using top_SomeD(1) [of q e] del_content [of q e]
  by (metis size_Diff1_less)

lemma del_add: "inv q \<Longrightarrow> top q = Some e \<Longrightarrow> content q = add_mset e (content (del q))"
  using top_SomeD(1) [of q e] del_content [of q e] by simp

lemma drain_sorts:
  assumes "inv q" "size (content q) \<le> n"
  shows "mset (pq_drain top del n q) = content q" and "sorted (map key (pq_drain top del n q))"
proof -
  have "mset (pq_drain top del n q) = content q \<and> sorted (map key (pq_drain top del n q))"
    using assms
  proof (induction n arbitrary: q)
    case 0
    then show ?case by simp
  next
    case (Suc n)
    show ?case
    proof (cases "top q")
      case None
      with Suc.prems(1) have "content q = {#}" by (simp add: top_None_iff)
      with None show ?thesis by simp
    next
      case (Some e)
      have "size (content (del q)) \<le> n"
        using del_size [OF Suc.prems(1) Some] Suc.prems(2) by linarith
      then have IH: "mset (pq_drain top del n (del q)) = content (del q)
          \<and> sorted (map key (pq_drain top del n (del q)))"
        using Suc.IH del_inv [OF Suc.prems(1) Some] by blast
      moreover have "\<forall>x \<in> set (pq_drain top del n (del q)). key e \<le> key x"
        using top_SomeD(2) [OF Suc.prems(1) Some] del_content [OF Suc.prems(1) Some] IH
        by (metis in_diffD set_mset_mset)
      ultimately show ?thesis using Some del_add [OF Suc.prems(1) Some] by auto
    qed
  qed
  then show "mset (pq_drain top del n q) = content q" "sorted (map key (pq_drain top del n q))" by auto
qed

lemma inserts:
  "inv q \<Longrightarrow> inv (fold ins xs q) \<and> content (fold ins xs q) = mset xs + content q"
  by (induction xs arbitrary: q) (auto simp: ins_inv ins_content)

end

interpretation bh: prio_queue BinaryHeap_IsEmpty BinaryHeap_Top "BinaryHeap_Insert (by_key key) d"
  "\<lambda>h. snd (BinaryHeap_DeleteTop (by_key key) d h)" "heap_inv key" heap_content key
  for key :: "'a \<Rightarrow> 'k::linorder" and d :: 'a
proof unfold_locales
  fix q :: "'a binary_heap" and e
  show "heap_inv key q \<Longrightarrow> BinaryHeap_IsEmpty q \<longleftrightarrow> heap_content q = {#}"
    by (rule IsEmpty_content)
  show "heap_inv key q \<Longrightarrow> heap_content q = {#} \<Longrightarrow> BinaryHeap_Top q = None"
    using IsEmpty_content [of key q] by (simp add: BinaryHeap_Top_def)
  show "heap_inv key q \<Longrightarrow> heap_content q \<noteq> {#} \<Longrightarrow> \<exists>e. BinaryHeap_Top q = Some e \<and>
      e \<in># heap_content q \<and> (\<forall>x \<in># heap_content q. key e \<le> key x)"
    by (rule Top_least)
qed (simp_all add: Insert_inv Insert_content DeleteTop_ok)

lemma BinaryHeap_new_inv: "heap_inv key (BinaryHeap_new d n)" and
  BinaryHeap_new_content: "heap_content (BinaryHeap_new d n) = {#}"
  by (auto simp: heap_inv_def BinaryHeap_new_def vec_resize_def heap_from_def heap_content_def heap_slice_def)

lemma DeleteElem_cases:
  assumes "heap_inv key h"
  shows "if 1 \<le> i \<and> i \<le> BinaryHeap_GetSize h
    then \<exists>h'. BinaryHeap_DeleteElem (by_key key) i h = (LLBC_OK, h') \<and> heap_inv key h'
           \<and> heap_content h = add_mset (bh_elems h ! i) (heap_content h')
    else BinaryHeap_DeleteElem (by_key key) i h = (LLBC_FAILED, h)"
proof (cases "1 \<le> i \<and> i \<le> bh_size h")
  case True
  obtain r h' where eq: "BinaryHeap_DeleteElem (by_key key) i h = (r, h')" by fastforce
  have "bh_elems h ! i \<in># heap_content h"
    using True assms by (auto simp: heap_content_def heap_inv_def in_heap_content)
  with True eq DeleteElem_content [OF assms, of i] show ?thesis
    by (simp add: BinaryHeap_GetSize_def)
next
  case False
  then show ?thesis
    by (auto simp: BinaryHeap_DeleteElem_def BinaryHeap_GetSize_def BinaryHeap_IsEmpty_def not_le)
qed

lemma DeleteElem_value_ok:
  assumes "heap_inv key h"
  shows "if e \<in># heap_content h
    then \<exists>h'. BinaryHeap_DeleteElem_value (by_key key) e h = (LLBC_OK, h') \<and> heap_inv key h'
           \<and> heap_content h = add_mset e (heap_content h')
    else BinaryHeap_DeleteElem_value (by_key key) e h = (LLBC_FAILED, h)"
proof (cases "find (\<lambda>i. bh_elems h ! i = e) [1 ..< Suc (bh_size h)]")
  case None
  then have "\<forall>i. 1 \<le> i \<longrightarrow> i \<le> bh_size h \<longrightarrow> bh_elems h ! i \<noteq> e"
    by (auto simp: find_None_iff)
  then have "e \<notin># heap_content h"
    using assms by (auto simp: heap_content_def heap_inv_def in_heap_content)
  then show ?thesis using None by (simp add: BinaryHeap_DeleteElem_value_def)
next
  case (Some i)
  then have i: "1 \<le> i" "i \<le> bh_size h" "bh_elems h ! i = e" by (auto simp: find_Some_iff simp del: upt_Suc)
  then have "e \<in># heap_content h"
    using assms by (auto simp: heap_content_def heap_inv_def in_heap_content)
  then show ?thesis
    using DeleteElem_cases [OF assms, of i] i Some
    by (simp add: BinaryHeap_DeleteElem_value_def BinaryHeap_GetSize_def)
qed

section \<open>Properties\<close>


text \<open>Deletion by index succeeds exactly for an index in \<open>1 .. _size\<close> and removes that element;
  deletion by value succeeds exactly when the value is in the heap and removes one occurrence. Both
  keep the heap order, and a failing call changes nothing.\<close>

theorem heap_DeleteElem:
  assumes "heap_inv key h"
  shows "(if 1 \<le> i \<and> i \<le> BinaryHeap_GetSize h
     then \<exists>h'. BinaryHeap_DeleteElem (by_key key) i h = (LLBC_OK, h') \<and> heap_inv key h'
            \<and> heap_content h = add_mset (bh_elems h ! i) (heap_content h')
     else BinaryHeap_DeleteElem (by_key key) i h = (LLBC_FAILED, h))
   \<and> (if e \<in># heap_content h
      then \<exists>h'. BinaryHeap_DeleteElem_value (by_key key) e h = (LLBC_OK, h') \<and> heap_inv key h'
             \<and> heap_content h = add_mset e (heap_content h')
      else BinaryHeap_DeleteElem_value (by_key key) e h = (LLBC_FAILED, h))"
  using DeleteElem_cases [OF assms] DeleteElem_value_ok [OF assms] by blast

theorem heap_DeleteElem_witness:
  "\<exists>h'. BinaryHeap_DeleteElem (by_key id) 2
        (BinaryHeap_of (by_key id) 0 [5, 3, 8::int]) = (LLBC_OK, h')
      \<and> heap_inv id h' \<and> {#8, 3#} = heap_content h'"
proof -
  let ?h = "BinaryHeap_of (by_key id) 0 [5, 3, 8::int]"
  have h: "?h = \<lparr>bh_size = 3, bh_elems = [0, 3, 5, 8]\<rparr>"
    by code_simp
  have "heap_inv id ?h"
    using BuildHeap_ok [of "\<lparr>bh_size = 3, bh_elems = [0, 5, 3, 8::int]\<rparr>" id]
    by (simp add: BinaryHeap_of_def numeral_3_eq_3)
  from heap_DeleteElem [OF this, of 2] show ?thesis
    by (auto simp: h BinaryHeap_GetSize_def heap_content_def heap_slice_def eval_nat_numeral)
qed

end
