(* ===== verification/Rpc_Coro_Mgr.thy ===== *)
theory Rpc_Coro_Mgr
  imports Rpc_Head Llbc_Heap
begin

text \<open>
  \<open>RpcCoroMgr\<close> (src/rpc_coro_mgr.h, src/rpc_coro_mgr.cpp): the table of coroutines suspended in a call and the
  heap of their timeouts. Controllers live in a store of addresses, a coroutine handle is an address with
  \<open>0\<close> for \<open>nullptr\<close>. What a coroutine does when it is resumed is application code: the argument \<open>resume\<close>, a
  function on the whole state, which later theories extend by further fields. \<open>cw_log\<close> records each resumption with
  the context and the controller it finds; \<open>cw_fault\<close> records the use of a null or dead object.
\<close>

section \<open>State\<close>

record coro_ctx =
  cx_uid :: u64
  cx_timeout :: int
  cx_handle :: nat
  cx_rsp :: nat
  cx_controller :: nat

record coro_world =
  cw_suspended :: "u64 \<rightharpoonup> coro_ctx"
  cw_heap :: "coro_ctx binary_heap"
  cw_uid_generator :: u64
  cw_ctrl :: "nat \<rightharpoonup> controller"
  cw_frames :: "nat set"
  cw_log :: "(coro_ctx \<times> controller) list"
  cw_fault :: bool

text \<open>\<open>contextCmp\<close>, and the value \<open>context{}\<close> that fills vacated heap cells and is returned for a missing
  context.\<close>

definition contextCmp :: "coro_ctx \<Rightarrow> coro_ctx \<Rightarrow> bool" where
  "contextCmp a b \<longleftrightarrow> cx_timeout a < cx_timeout b"

definition null_context :: coro_ctx where
  "null_context = \<lparr>cx_uid = 0, cx_timeout = 0, cx_handle = 0, cx_rsp = 0, cx_controller = 0\<rparr>"

definition CORO_TIME_OUT :: int where
  "CORO_TIME_OUT = 10000"

section \<open>Operations\<close>

definition NewCoroUid :: "('z) coro_world_scheme \<Rightarrow> u64 \<times> 'z coro_world_scheme" where
  "NewCoroUid w =
     (let g = cw_uid_generator w + 1
      in if g = 0 then (g + 1, w\<lparr>cw_uid_generator := g + 1\<rparr>) else (g, w\<lparr>cw_uid_generator := g\<rparr>))"

text \<open>\<open>unordered_map::insert\<close> keeps an existing entry; the heap gets the context in any case.\<close>

definition AddCoroContext :: "coro_ctx \<Rightarrow> 'z coro_world_scheme \<Rightarrow> bool \<times> 'z coro_world_scheme" where
  "AddCoroContext ctx w =
     (let w = w\<lparr>cw_heap := BinaryHeap_Insert contextCmp null_context ctx (cw_heap w)\<rparr>
      in if cw_suspended w (cx_uid ctx) \<noteq> None then (False, w)
         else (True, w\<lparr>cw_suspended := (cw_suspended w)(cx_uid ctx \<mapsto> ctx)\<rparr>))"

text \<open>Uses of a controller and of a handle.\<close>

definition with_ctrl :: "nat \<Rightarrow> (controller \<Rightarrow> controller) \<Rightarrow> 'z coro_world_scheme \<Rightarrow> 'z coro_world_scheme" where
  "with_ctrl a f w = (case cw_ctrl w a of
       None \<Rightarrow> w\<lparr>cw_fault := True\<rparr>
     | Some c \<Rightarrow> w\<lparr>cw_ctrl := (cw_ctrl w)(a \<mapsto> f c)\<rparr>)"

definition handle_resume ::
    "(nat \<Rightarrow> 'z coro_world_scheme \<Rightarrow> 'z coro_world_scheme) \<Rightarrow> coro_ctx \<Rightarrow> 'z coro_world_scheme \<Rightarrow> 'z coro_world_scheme" where
  "handle_resume resume ctx w =
     (if cx_handle ctx = 0 then w\<lparr>cw_fault := True\<rparr>
      else resume (cx_handle ctx)
        (w\<lparr>cw_log := cw_log w @ (case cw_ctrl w (cx_controller ctx) of None \<Rightarrow> [] | Some c \<Rightarrow> [(ctx, c)])\<rparr>))"

text \<open>\<open>handle.done()\<close> reads the coroutine frame.\<close>

definition handle_done :: "coro_ctx \<Rightarrow> 'z coro_world_scheme \<Rightarrow> 'z coro_world_scheme" where
  "handle_done ctx w = (if cx_handle ctx \<in> cw_frames w then w else w\<lparr>cw_fault := True\<rparr>)"

definition KillCoro_ctx ::
    "(nat \<Rightarrow> 'z coro_world_scheme \<Rightarrow> 'z coro_world_scheme) \<Rightarrow> coro_ctx \<Rightarrow> string \<Rightarrow> 'z coro_world_scheme \<Rightarrow> 'z coro_world_scheme" where
  "KillCoro_ctx resume ctx reason w =
     (let w = with_ctrl (cx_controller ctx) (RpcController_SetFailed reason) w;
          w = handle_resume resume ctx w
      in w\<lparr>cw_suspended := (cw_suspended w)(cx_uid ctx := None)\<rparr>)"

definition KillCoro ::
    "(nat \<Rightarrow> 'z coro_world_scheme \<Rightarrow> 'z coro_world_scheme) \<Rightarrow> u64 \<Rightarrow> string \<Rightarrow> 'z coro_world_scheme \<Rightarrow> 'z coro_world_scheme" where
  "KillCoro resume uid reason w = (case cw_suspended w uid of
       None \<Rightarrow> w
     | Some ctx \<Rightarrow> KillCoro_ctx resume ctx reason w)"

text \<open>The loop of \<open>HandleCoroTimeout\<close>; not returning is \<open>None\<close>.\<close>

partial_function (option) HandleCoroTimeout ::
    "(nat \<Rightarrow> 'z coro_world_scheme \<Rightarrow> 'z coro_world_scheme) \<Rightarrow> int \<Rightarrow> 'z coro_world_scheme \<Rightarrow> 'z coro_world_scheme option" where
  "HandleCoroTimeout resume now w =
     (case BinaryHeap_Top (cw_heap w) of
        None \<Rightarrow> Some w
      | Some first \<Rightarrow>
          (if cx_timeout first > now then Some w
           else if cw_suspended w (cx_uid first) = None
           then HandleCoroTimeout resume now
                  (w\<lparr>cw_heap := snd (BinaryHeap_DeleteTop contextCmp null_context (cw_heap w))\<rparr>)
           else HandleCoroTimeout resume now
                  (KillCoro_ctx resume first ''coro timeout''
                    (w\<lparr>cw_heap := snd (BinaryHeap_DeleteTop contextCmp null_context (cw_heap w))\<rparr>))))"

definition PopCoroContext :: "u64 \<Rightarrow> 'z coro_world_scheme \<Rightarrow> coro_ctx \<times> 'z coro_world_scheme" where
  "PopCoroContext uid w = (case cw_suspended w uid of
       Some ctx \<Rightarrow> (ctx, w\<lparr>cw_suspended := (cw_suspended w)(uid := None)\<rparr>)
     | None \<Rightarrow> (null_context, w))"

section \<open>Invariant and the contract of application code\<close>

abbreviation heap_contexts :: "'z coro_world_scheme \<Rightarrow> coro_ctx multiset" where
  "heap_contexts w \<equiv> heap_content (cw_heap w)"

text \<open>Every suspended context is in the heap under its own id, with a handle and a live controller that
  names the same handle; the heap knows no other context for a suspended id; no coroutine is
  suspended twice.\<close>

definition ctx_live :: "(nat \<rightharpoonup> controller) \<Rightarrow> coro_ctx \<Rightarrow> bool" where
  "ctx_live cs ctx \<longleftrightarrow> cx_handle ctx \<noteq> 0 \<and> (\<exists>c. cs (cx_controller ctx) = Some c \<and> rc_coro_handle c = cx_handle ctx)"

definition coro_inv :: "'z coro_world_scheme \<Rightarrow> bool" where
  "coro_inv w \<longleftrightarrow> heap_inv cx_timeout (cw_heap w)
     \<and> (\<forall>u ctx. cw_suspended w u = Some ctx \<longrightarrow> cx_uid ctx = u \<and> ctx \<in># heap_contexts w \<and> ctx_live (cw_ctrl w) ctx)
     \<and> (\<forall>c d. c \<in># heap_contexts w \<longrightarrow> cw_suspended w (cx_uid c) = Some d \<longrightarrow> d = c)
     \<and> (\<forall>u v c d. cw_suspended w u = Some c \<longrightarrow> cw_suspended w v = Some d \<longrightarrow> cx_handle c = cx_handle d \<longrightarrow> u = v)"

text \<open>
  What a resumed coroutine \<open>h\<close> may do before it suspends or ends: start further calls, whose contexts have
  fresh ids and a timeout in the future, and anything to objects that are not the manager's or another
  coroutine's.
\<close>

definition new_ctx_ok :: "int \<Rightarrow> nat \<Rightarrow> 'z coro_world_scheme \<Rightarrow> (nat \<rightharpoonup> controller) \<Rightarrow> coro_ctx \<Rightarrow> bool" where
  "new_ctx_ok now h w cs c \<longleftrightarrow> cx_timeout c > now \<and> ctx_live cs c \<and> cw_suspended w (cx_uid c) = None
     \<and> (\<forall>d. d \<in># heap_contexts w \<longrightarrow> cx_uid d \<noteq> cx_uid c)
     \<and> (\<forall>u d. cw_suspended w u = Some d \<longrightarrow> cx_handle d \<noteq> h \<longrightarrow> cx_handle d \<noteq> cx_handle c)"

definition app_ok :: "int \<Rightarrow> nat \<Rightarrow> 'z coro_world_scheme \<Rightarrow> 'z coro_world_scheme \<Rightarrow> bool" where
  "app_ok now h w w' \<longleftrightarrow>
     (\<exists>new. (\<forall>c \<in> set new. new_ctx_ok now h w (cw_ctrl w') c)
        \<and> distinct (map cx_uid new) \<and> distinct (map cx_handle new)
        \<and> cw_suspended w' = cw_suspended w ++ map_of (map (\<lambda>c. (cx_uid c, c)) new)
        \<and> heap_contexts w' = mset new + heap_contexts w
        \<and> (heap_inv cx_timeout (cw_heap w) \<longrightarrow> heap_inv cx_timeout (cw_heap w')))
     \<and> cw_log w' = cw_log w \<and> cw_fault w' = cw_fault w
     \<and> (\<forall>a c. cw_ctrl w a = Some c \<longrightarrow> rc_coro_handle c \<noteq> h \<longrightarrow>
          (\<exists>c'. cw_ctrl w' a = Some c' \<and> rc_coro_handle c' = rc_coro_handle c))"

text \<open>The suspended contexts whose time is up, and what one run of \<open>HandleCoroTimeout\<close> has to do with them.\<close>

definition expired :: "int \<Rightarrow> 'z coro_world_scheme \<Rightarrow> coro_ctx set" where
  "expired now w = {ctx. cx_timeout ctx \<le> now \<and> cw_suspended w (cx_uid ctx) = Some ctx}"

definition timeouts_handled :: "int \<Rightarrow> 'z coro_world_scheme \<Rightarrow> (coro_ctx \<times> controller) list \<Rightarrow> 'z coro_world_scheme \<Rightarrow> bool" where
  "timeouts_handled now w ks w' \<longleftrightarrow> cw_log w' = cw_log w @ ks
     \<and> distinct (map fst ks) \<and> set (map fst ks) = expired now w \<and> sorted (map (cx_timeout \<circ> fst) ks)
     \<and> (\<forall>(ctx, c) \<in> set ks. rc_isFailed c \<and> rc_errorText c = ''coro timeout'')
     \<and> (\<forall>ctx. cw_suspended w (cx_uid ctx) = Some ctx \<longrightarrow> now < cx_timeout ctx \<longrightarrow>
          cw_suspended w' (cx_uid ctx) = Some ctx)
     \<and> expired now w' = {}"

text \<open>The ids are the residues \<open>1 .. 2^64 - 1\<close> in cyclic order.\<close>

definition uid_next :: "u64 \<Rightarrow> u64" where
  "uid_next g = (if g + 1 = 0 then g + 1 + 1 else g + 1)"

text \<open>The ids of \<open>n\<close> calls in a row.\<close>

fun coro_uids :: "nat \<Rightarrow> 'z coro_world_scheme \<Rightarrow> u64 list" where
  "coro_uids 0 w = []"
| "coro_uids (Suc n) w = (let (u, w') = NewCoroUid w in u # coro_uids n w')"

text \<open>The manager before the first call.\<close>

definition coro_world0 :: coro_world where
  "coro_world0 = \<lparr>cw_suspended = Map.empty, cw_heap = BinaryHeap_new null_context 256, cw_uid_generator = 0,
     cw_ctrl = Map.empty, cw_frames = {}, cw_log = [], cw_fault = False\<rparr>"

text \<open>The manager with one coroutine suspended, whose controller is at address \<open>5\<close>.\<close>

definition coro_world1 :: coro_world where
  "coro_world1 = snd (AddCoroContext \<lparr>cx_uid = 1, cx_timeout = 10000, cx_handle = 8, cx_rsp = 0, cx_controller = 5\<rparr>
     (coro_world0\<lparr>cw_ctrl := [5 \<mapsto> (RpcController_new True)\<lparr>rc_coro_handle := 8\<rparr>]\<rparr>))"

section \<open>Lemmas\<close>

lemma contextCmp_by_key: "contextCmp = by_key cx_timeout"
  by (simp add: fun_eq_iff contextCmp_def by_key_def)

lemma ctx_live_SetFailed:
  "ctx_live (cs(a \<mapsto> RpcController_SetFailed r c)) ctx \<longleftrightarrow> ctx_live (cs(a \<mapsto> c)) ctx"
  by (auto simp: ctx_live_def RpcController_SetFailed_def)

lemma new_in_suspended:
  assumes "distinct (map cx_uid new)"
  shows "map_of (map (\<lambda>c. (cx_uid c, c)) new) u = Some c \<longleftrightarrow> c \<in> set new \<and> cx_uid c = u"
  using assms by (subst map_of_eq_Some_iff) (auto simp: comp_def)

lemma new_not_suspended:
  "map_of (map (\<lambda>c. (cx_uid c, c)) new) u = None \<longleftrightarrow> u \<notin> cx_uid ` set new"
  by (simp add: map_of_eq_None_iff image_image)

text \<open>The parts of the invariant as rules.\<close>

lemma coro_invD:
  assumes "coro_inv w"
  shows "heap_inv cx_timeout (cw_heap w)"
    and "cw_suspended w u = Some ctx \<Longrightarrow> cx_uid ctx = u"
    and "cw_suspended w u = Some ctx \<Longrightarrow> ctx \<in># heap_contexts w"
    and "cw_suspended w u = Some ctx \<Longrightarrow> ctx_live (cw_ctrl w) ctx"
    and "c \<in># heap_contexts w \<Longrightarrow> cw_suspended w (cx_uid c) = Some d \<Longrightarrow> d = c"
    and "cw_suspended w u = Some c \<Longrightarrow> cw_suspended w v = Some d \<Longrightarrow> cx_handle c = cx_handle d \<Longrightarrow> u = v"
  using assms unfolding coro_inv_def by blast+

lemma coro_invI:
  assumes "heap_inv cx_timeout (cw_heap w)"
    and "\<And>u ctx. cw_suspended w u = Some ctx \<Longrightarrow> cx_uid ctx = u \<and> ctx \<in># heap_contexts w \<and> ctx_live (cw_ctrl w) ctx"
    and "\<And>c d. c \<in># heap_contexts w \<Longrightarrow> cw_suspended w (cx_uid c) = Some d \<Longrightarrow> d = c"
    and "\<And>u v c d. cw_suspended w u = Some c \<Longrightarrow> cw_suspended w v = Some d \<Longrightarrow> cx_handle c = cx_handle d \<Longrightarrow> u = v"
  shows "coro_inv w"
  using assms unfolding coro_inv_def by blast

text \<open>Resuming the coroutine \<open>h\<close>, which no context but possibly \<open>uid\<close> waits for, and erasing \<open>uid\<close> keeps the
  invariant; \<open>w1\<close> is the state in which the coroutine runs.\<close>

lemma resume_erase_inv:
  assumes inv: "coro_inv w"
    and handle: "\<And>u c. cw_suspended w u = Some c \<Longrightarrow> u \<noteq> uid \<Longrightarrow> cx_handle c \<noteq> h"
    and w1: "cw_suspended w1 = cw_suspended w" "heap_inv cx_timeout (cw_heap w1)"
      "heap_contexts w1 \<subseteq># heap_contexts w" "\<And>c. c \<in># heap_contexts w \<Longrightarrow> cx_uid c \<noteq> uid \<Longrightarrow> c \<in># heap_contexts w1"
      "\<And>a c. cw_ctrl w a = Some c \<Longrightarrow> \<exists>c'. cw_ctrl w1 a = Some c' \<and> rc_coro_handle c' = rc_coro_handle c"
    and app: "app_ok now h w1 w2"
  shows "coro_inv (w2\<lparr>cw_suspended := (cw_suspended w2)(uid := None)\<rparr>)"
proof -
  obtain new where new: "\<forall>c \<in> set new. new_ctx_ok now h w1 (cw_ctrl w2) c"
    "distinct (map cx_uid new)" "distinct (map cx_handle new)"
    "cw_suspended w2 = cw_suspended w ++ map_of (map (\<lambda>c. (cx_uid c, c)) new)"
    "heap_contexts w2 = mset new + heap_contexts w1" "heap_inv cx_timeout (cw_heap w2)"
    using app w1(1,2) by (auto simp: app_ok_def)
  have keep: "\<exists>c'. cw_ctrl w2 a = Some c' \<and> rc_coro_handle c' = rc_coro_handle c"
    if "cw_ctrl w a = Some c" "rc_coro_handle c \<noteq> h" for a c
    using w1(5) [OF that(1)] app that(2) unfolding app_ok_def by metis
  have susp: "c \<in> set new \<and> cx_uid c = u \<and> u \<noteq> uid \<or>
      cw_suspended w u = Some c \<and> u \<noteq> uid \<and> u \<notin> cx_uid ` set new"
    if "((cw_suspended w2)(uid := None)) u = Some c" for u c
    using that by (auto simp: new(4) map_add_Some_iff new_in_suspended [OF new(2)] new_not_suspended split: if_splits)
  have live: "ctx_live (cw_ctrl w2) c" if c: "cw_suspended w u = Some c" "u \<noteq> uid" for u c
    using coro_invD(4) [OF inv c(1)] keep handle [OF c] unfolding ctx_live_def by metis
  have fresh: "cw_suspended w (cx_uid c) = None" "\<And>d. d \<in># heap_contexts w1 \<Longrightarrow> cx_uid d \<noteq> cx_uid c"
      "ctx_live (cw_ctrl w2) c"
      "\<And>u d. cw_suspended w u = Some d \<Longrightarrow> cx_handle d \<noteq> h \<Longrightarrow> cx_handle d \<noteq> cx_handle c"
    if "c \<in> set new" for c
    using new(1) that w1(1) by (auto simp: new_ctx_ok_def)
  show ?thesis
  proof (rule coro_invI, goal_cases)
    case 1
    show ?case using new(6) by simp
  next
    case (2 u c)
    then have "((cw_suspended w2)(uid := None)) u = Some c" by simp
    from susp [OF this] show ?case
    proof (elim disjE conjE)
      assume "c \<in> set new" "cx_uid c = u"
      then show ?thesis using fresh(3) by (simp add: new(5))
    next
      assume c: "cw_suspended w u = Some c" "u \<noteq> uid"
      then have "cx_uid c \<noteq> uid" using coro_invD(2) [OF inv c(1)] by blast
      then show ?thesis
        using coro_invD(2,3) [OF inv c(1)] w1(4) live [OF c] by (simp add: new(5))
    qed
  next
    case (3 c d)
    then have "((cw_suspended w2)(uid := None)) (cx_uid c) = Some d" by simp
    note d = susp [OF this]
    have "c \<in> set new \<or> c \<in># heap_contexts w1" using 3(1) by (simp add: new(5))
    then show ?case
    proof
      assume c: "c \<in> set new"
      with d have "d \<in> set new" "cx_uid d = cx_uid c" by auto
      with c new(2) show "d = c" by (auto simp: distinct_map inj_on_def)
    next
      assume c: "c \<in># heap_contexts w1"
      have "d \<notin> set new \<or> cx_uid d \<noteq> cx_uid c" using fresh(2) [OF _ c] by metis
      with d have "cw_suspended w (cx_uid c) = Some d" by blast
      with coro_invD(5) [OF inv mset_subset_eqD [OF w1(3) c]] show "d = c" by blast
    qed
  next
    case (4 u v c d)
    then have uv: "((cw_suspended w2)(uid := None)) u = Some c"
      "((cw_suspended w2)(uid := None)) v = Some d" by simp_all
    have same: "c = d" if "c \<in> set new" "d \<in> set new"
      using new(3) 4(3) that by (auto simp: distinct_map inj_on_def)
    have mixed: "False" if "c \<in> set new" "cw_suspended w v = Some d" "v \<noteq> uid"
      using fresh(4) [OF that(1,2) handle [OF that(2,3)]] 4(3) by simp
    have mixed': "False" if "d \<in> set new" "cw_suspended w u = Some c" "u \<noteq> uid"
      using fresh(4) [OF that(1,2) handle [OF that(2,3)]] 4(3) by simp
    from susp [OF uv(1)] susp [OF uv(2)] show ?case
      using same mixed mixed' coro_invD(6) [OF inv _ _ 4(3)] by blast
  qed
qed

lemma heap_due:
  assumes "heap_inv cx_timeout (cw_heap w)" "BinaryHeap_Top (cw_heap w) = Some ctx"
  defines "w' \<equiv> w\<lparr>cw_heap := snd (BinaryHeap_DeleteTop contextCmp null_context (cw_heap w))\<rparr>"
  shows "heap_inv cx_timeout (cw_heap w')" "heap_contexts w = add_mset ctx (heap_contexts w')"
    "\<And>c. c \<in># heap_contexts w \<Longrightarrow> cx_timeout ctx \<le> cx_timeout c"
  using assms bh.del_inv [OF assms(1,2)] bh.del_add [OF assms(1,2)] bh.top_SomeD [OF assms(1,2)]
  by (auto simp: contextCmp_by_key)

lemma handle_unique:
  "coro_inv w \<Longrightarrow> cw_suspended w (cx_uid ctx) = Some ctx \<Longrightarrow> cw_suspended w u = Some c \<Longrightarrow> u \<noteq> cx_uid ctx \<Longrightarrow>
     cx_handle c \<noteq> cx_handle ctx"
  using coro_invD(6) by blast

text \<open>Killing a suspended coroutine whose heap entry may already be gone.\<close>

lemma KillCoro_ctx_ok:
  assumes inv: "coro_inv w" and ctx: "cw_suspended w (cx_uid ctx) = Some ctx"
    and w1: "w1 = w \<or> (BinaryHeap_Top (cw_heap w) = Some ctx
      \<and> w1 = w\<lparr>cw_heap := snd (BinaryHeap_DeleteTop contextCmp null_context (cw_heap w))\<rparr>)"
    and app: "\<And>h w. app_ok now h w (resume h w)"
    and w2_def: "w2 = KillCoro_ctx resume ctx reason w1"
  shows "coro_inv w2" "cw_fault w2 = cw_fault w"
    and "\<exists>c. cw_log w2 = cw_log w @ [(ctx, RpcController_SetFailed reason c)]"
    and "\<exists>new. (\<forall>c \<in> set new. cx_timeout c > now \<and> cw_suspended w (cx_uid c) = None)
      \<and> cw_suspended w2 = (cw_suspended w ++ map_of (map (\<lambda>c. (cx_uid c, c)) new))(cx_uid ctx := None)
      \<and> heap_contexts w2 = mset new + heap_contexts w1"
proof -
  obtain c where c: "cw_ctrl w (cx_controller ctx) = Some c" "cx_handle ctx \<noteq> 0"
    using coro_invD(4) [OF inv ctx] by (auto simp: ctx_live_def)
  have same: "cw_suspended w1 = cw_suspended w" "cw_ctrl w1 = cw_ctrl w" "cw_fault w1 = cw_fault w" "cw_log w1 = cw_log w"
    using w1 by auto
  have heap: "heap_inv cx_timeout (cw_heap w1)" "heap_contexts w1 \<subseteq># heap_contexts w"
      "\<And>c. c \<in># heap_contexts w \<Longrightarrow> cx_uid c \<noteq> cx_uid ctx \<Longrightarrow> c \<in># heap_contexts w1"
    using w1 coro_invD(1) [OF inv] heap_due [of w ctx] by auto
  define run where "run = w1\<lparr>cw_ctrl := (cw_ctrl w)(cx_controller ctx \<mapsto> RpcController_SetFailed reason c),
     cw_log := cw_log w @ [(ctx, RpcController_SetFailed reason c)]\<rparr>"
  have w2: "w2 = (resume (cx_handle ctx) run)\<lparr>cw_suspended := (cw_suspended (resume (cx_handle ctx) run))(cx_uid ctx := None)\<rparr>"
    using c same by (simp add: w2_def KillCoro_ctx_def with_ctrl_def handle_resume_def run_def Let_def)
  note run = app [of "cx_handle ctx" run]
  show "coro_inv w2"
    unfolding w2
  proof (rule resume_erase_inv [OF inv handle_unique [OF inv ctx] _ _ _ _ _ run])
    show "\<exists>c'. cw_ctrl run a = Some c' \<and> rc_coro_handle c' = rc_coro_handle d" if "cw_ctrl w a = Some d" for a d
      using that c(1) by (auto simp: run_def RpcController_SetFailed_def)
  qed (use heap same in \<open>simp_all add: run_def\<close>)
  from run show "cw_fault w2 = cw_fault w" "\<exists>c. cw_log w2 = cw_log w @ [(ctx, RpcController_SetFailed reason c)]"
    using same by (auto simp: w2 app_ok_def run_def)
  from run show "\<exists>new. (\<forall>c \<in> set new. cx_timeout c > now \<and> cw_suspended w (cx_uid c) = None)
      \<and> cw_suspended w2 = (cw_suspended w ++ map_of (map (\<lambda>c. (cx_uid c, c)) new))(cx_uid ctx := None)
      \<and> heap_contexts w2 = mset new + heap_contexts w1"
    using same by (auto simp: w2 app_ok_def run_def new_ctx_ok_def)
qed

lemma nothing_expired:
  assumes "coro_inv w" "\<And>c. c \<in># heap_contexts w \<Longrightarrow> now < cx_timeout c"
  shows "expired now w = {}" "timeouts_handled now w [] w"
proof -
  show "expired now w = {}"
    using assms(2) coro_invD(3) [OF assms(1)] by (force simp: expired_def)
  then show "timeouts_handled now w [] w" by (auto simp: timeouts_handled_def expired_def)
qed

lemma drop_resumed_inv:
  assumes "coro_inv w" "BinaryHeap_Top (cw_heap w) = Some ctx" "cw_suspended w (cx_uid ctx) = None"
  shows "coro_inv (w\<lparr>cw_heap := snd (BinaryHeap_DeleteTop contextCmp null_context (cw_heap w))\<rparr>)"
proof -
  note due = heap_due [OF coro_invD(1) [OF assms(1)] assms(2)]
  show ?thesis
  proof (rule coro_invI, goal_cases)
    case 1
    show ?case using due(1) by simp
  next
    case (2 u c)
    then have c: "cw_suspended w u = Some c" by simp
    then have "c \<noteq> ctx" using coro_invD(2) [OF assms(1) c] assms(3) by auto
    then show ?case using coro_invD(2-4) [OF assms(1) c] due(2) by auto
  next
    case (3 c d)
    then show ?case using coro_invD(5) [OF assms(1), of c d] due(2) by simp
  next
    case (4 u v c d)
    then show ?case using coro_invD(6) [OF assms(1), of u c v d] by simp
  qed
qed

lemma timeouts_handled_cons:
  assumes inv: "coro_inv w" and ctx: "cw_suspended w (cx_uid ctx) = Some ctx" "cx_timeout ctx \<le> now"
    and least: "\<And>c. c \<in># heap_contexts w \<Longrightarrow> cx_timeout ctx \<le> cx_timeout c"
    and log: "cw_log w2 = cw_log w @ [(ctx, RpcController_SetFailed ''coro timeout'' c)]"
    and new: "\<forall>c \<in> set new. cx_timeout c > now \<and> cw_suspended w (cx_uid c) = None"
    and susp: "cw_suspended w2 = (cw_suspended w ++ map_of (map (\<lambda>c. (cx_uid c, c)) new))(cx_uid ctx := None)"
    and rest: "timeouts_handled now w2 ks w'"
  shows "timeouts_handled now w ((ctx, RpcController_SetFailed ''coro timeout'' c) # ks) w'"
proof -
  have old: "cw_suspended w2 u = cw_suspended w u" if "cw_suspended w u \<noteq> None" "u \<noteq> cx_uid ctx" for u
  proof -
    have "u \<notin> cx_uid ` set new" using new that(1) by auto
    then show ?thesis using that(2) by (simp add: susp map_add_def new_not_suspended [THEN iffD2])
  qed
  have exp: "expired now w2 = expired now w - {ctx}"
  proof (intro set_eqI iffI)
    fix d assume d: "d \<in> expired now w2"
    then have "cw_suspended w2 (cx_uid d) = Some d" "cx_timeout d \<le> now" by (auto simp: expired_def)
    then have "d \<notin> set new" "cx_uid d \<noteq> cx_uid ctx" using new by (auto simp: susp split: if_splits)
    then have "cw_suspended w (cx_uid d) = Some d"
      using d by (auto simp: expired_def susp map_add_Some_iff dest!: map_of_SomeD)
    then show "d \<in> expired now w - {ctx}"
      using d \<open>cx_uid d \<noteq> cx_uid ctx\<close> by (auto simp: expired_def)
  next
    fix d assume "d \<in> expired now w - {ctx}"
    moreover from this have "cx_uid d \<noteq> cx_uid ctx" using ctx(1) by (auto simp: expired_def)
    ultimately show "d \<in> expired now w2" using old [of "cx_uid d"] by (auto simp: expired_def)
  qed
  have le: "cx_timeout ctx \<le> cx_timeout d" if "d \<in> expired now w" for d
    using that least coro_invD(3) [OF inv] by (auto simp: expired_def)
  have ctx_exp: "ctx \<in> expired now w" using ctx by (simp add: expired_def)
  have ks: "set (map fst ks) = expired now w - {ctx}" "distinct (map fst ks)" "sorted (map (cx_timeout \<circ> fst) ks)"
    "cw_log w' = cw_log w2 @ ks" "expired now w' = {}"
    "\<forall>(ctx, c) \<in> set ks. rc_isFailed c \<and> rc_errorText c = ''coro timeout''"
    using rest exp by (simp_all add: timeouts_handled_def)
  have "cw_suspended w' (cx_uid d) = Some d" if "cw_suspended w (cx_uid d) = Some d" "now < cx_timeout d" for d
  proof -
    have "cx_uid d \<noteq> cx_uid ctx" using that ctx by (metis linorder_not_le option.inject)
    then have "cw_suspended w2 (cx_uid d) = Some d" using old that by simp
    then show ?thesis using rest that(2) by (simp add: timeouts_handled_def)
  qed
  moreover have "sorted (map (cx_timeout \<circ> fst) ((ctx, c') # ks))" for c' :: controller
    using ks(1,3) le by (auto simp: image_iff)
  moreover have "distinct (map fst ((ctx, c') # ks))" for c' :: controller using ks(1,2) by auto
  moreover have "set (map fst ((ctx, c') # ks)) = expired now w" for c' :: controller
    using ks(1) ctx_exp by auto
  ultimately show ?thesis
    unfolding timeouts_handled_def using log ks(4-6) by (simp add: RpcController_SetFailed_def)
qed

lemma HandleCoroTimeout_ok:
  assumes app: "\<And>h w. app_ok now h w (resume h w)" and inv: "coro_inv w"
  shows "\<exists>w' ks. HandleCoroTimeout resume now w = Some w' \<and> coro_inv w' \<and> cw_fault w' = cw_fault w
    \<and> timeouts_handled now w ks w'"
  using inv
proof (induction "size (filter_mset (\<lambda>c. cx_timeout c \<le> now) (heap_contexts w))" arbitrary: w rule: less_induct)
  case less
  note heap = coro_invD(1) [OF less.prems]
  show ?case
  proof (cases "BinaryHeap_Top (cw_heap w)")
    case None
    then have "heap_contexts w = {#}" using bh.top_None_iff [OF heap] by simp
    then show ?thesis
      using nothing_expired(2) [OF less.prems] less.prems None by (subst HandleCoroTimeout.simps) auto
  next
    case (Some ctx)
    let ?w1 = "w\<lparr>cw_heap := snd (BinaryHeap_DeleteTop contextCmp null_context (cw_heap w))\<rparr>"
    note due = heap_due [OF heap Some]
    show ?thesis
    proof (cases "cx_timeout ctx > now")
      case True
      then have "now < cx_timeout c" if "c \<in># heap_contexts w" for c using due(3) [OF that] by simp
      from nothing_expired(2) [OF less.prems this] True Some less.prems show ?thesis
        by (subst HandleCoroTimeout.simps) auto
    next
      case False
      have smaller: "size (filter_mset (\<lambda>c. cx_timeout c \<le> now) (heap_contexts ?w1))
          < size (filter_mset (\<lambda>c. cx_timeout c \<le> now) (heap_contexts w))"
        using False due(2) by simp
      show ?thesis
      proof (cases "cw_suspended w (cx_uid ctx)")
        case None
        from less.hyps [OF smaller drop_resumed_inv [OF less.prems Some None]] None False Some show ?thesis
          by (subst HandleCoroTimeout.simps) (simp add: timeouts_handled_def expired_def)
      next
        case (Some d)
        then have ctx: "cw_suspended w (cx_uid ctx) = Some ctx"
          using coro_invD(5) [OF less.prems _ Some] due(2) by simp
        let ?w2 = "KillCoro_ctx resume ctx ''coro timeout'' ?w1"
        have "?w1 = w \<or> BinaryHeap_Top (cw_heap w) = Some ctx \<and> ?w1 = ?w1"
          using \<open>BinaryHeap_Top (cw_heap w) = Some ctx\<close> by simp
        note kill = KillCoro_ctx_ok [OF less.prems ctx this app refl, where reason = "''coro timeout''"]
        obtain c where log: "cw_log ?w2 = cw_log w @ [(ctx, RpcController_SetFailed ''coro timeout'' c)]"
          using kill(3) by blast
        obtain new where new: "\<forall>c \<in> set new. cx_timeout c > now \<and> cw_suspended w (cx_uid c) = None"
          "cw_suspended ?w2 = (cw_suspended w ++ map_of (map (\<lambda>c. (cx_uid c, c)) new))(cx_uid ctx := None)"
          "heap_contexts ?w2 = mset new + heap_contexts ?w1"
          using kill(4) by blast
        have "filter_mset (\<lambda>c. cx_timeout c \<le> now) (mset new) = {#}"
          using new(1) by (auto simp: filter_empty_conv simp flip: mset_filter)
        then have "size (filter_mset (\<lambda>c. cx_timeout c \<le> now) (heap_contexts ?w2))
            < size (filter_mset (\<lambda>c. cx_timeout c \<le> now) (heap_contexts w))"
          using smaller by (simp only: new(3) filter_union_mset size_union size_empty add_0)
        from less.hyps [OF this kill(1)] obtain w' ks where
          w': "HandleCoroTimeout resume now ?w2 = Some w'" "coro_inv w'" "cw_fault w' = cw_fault ?w2"
            "timeouts_handled now ?w2 ks w'" by blast
        have "timeouts_handled now w ((ctx, RpcController_SetFailed ''coro timeout'' c) # ks) w'"
          using timeouts_handled_cons [OF less.prems ctx _ due(3) log new(1,2) w'(4)] False by simp
        with w' kill(2) False \<open>BinaryHeap_Top (cw_heap w) = Some ctx\<close> ctx show ?thesis
          by (subst HandleCoroTimeout.simps) auto
      qed
    qed
  qed
qed

section \<open>Identifiers of calls\<close>

lemma NewCoroUid_next: "NewCoroUid w = (uid_next (cw_uid_generator w), w\<lparr>cw_uid_generator := uid_next (cw_uid_generator w)\<rparr>)"
  by (simp add: NewCoroUid_def uid_next_def Let_def)

lemma unat_uid_next: "unat (uid_next g) = unat g mod (2 ^ 64 - 1) + 1"
proof (cases "unat g = 2 ^ 64 - 1")
  case True
  then have "g + 1 = 0" by (simp add: word_arith_nat_defs(1) word_unat_eq_iff)
  then show ?thesis using True by (simp add: uid_next_def)
next
  case False
  moreover have "unat g < 2 ^ 64" using unsigned_less [of g] by simp
  ultimately have "unat (g + 1) = unat g + 1" by (simp add: unat_word_ariths)
  moreover from this have "g + 1 \<noteq> 0" by (metis Suc_eq_plus1 nat.distinct(1) unat_0)
  ultimately show ?thesis using False \<open>unat g < 2 ^ 64\<close> by (simp add: uid_next_def)
qed

lemma unat_uid_iterate: "0 < k \<Longrightarrow> unat ((uid_next ^^ k) g) = (unat g + (k - 1)) mod (2 ^ 64 - 1) + 1"
proof (induction k)
  case (Suc k)
  show ?case
  proof (cases k)
    case 0
    then show ?thesis by (simp add: unat_uid_next)
  next
    case (Suc j)
    then show ?thesis using Suc.IH by (simp add: unat_uid_next mod_simps)
  qed
qed simp

lemma coro_uids_map: "coro_uids n w = map (\<lambda>k. (uid_next ^^ Suc k) (cw_uid_generator w)) [0 ..< n]"
proof (induction n arbitrary: w)
  case (Suc n)
  have "map (\<lambda>k. (uid_next ^^ Suc k) g) [0 ..< Suc n] = uid_next g # map (\<lambda>k. (uid_next ^^ Suc (Suc k)) g) [0 ..< n]" for g
    by (simp only: upt_conv_Cons zero_less_Suc map_Suc_upt [symmetric] list.map map_map) simp
  with Suc show ?case by (simp add: NewCoroUid_next funpow_Suc_right del: funpow.simps upt_Suc)
qed simp

section \<open>Registering and removing contexts\<close>

lemma AddCoroContext_inv:
  assumes "coro_inv w" "cw_suspended w (cx_uid ctx) = None" "ctx_live (cw_ctrl w) ctx"
    and "\<And>c. c \<in># heap_contexts w \<Longrightarrow> cx_uid c \<noteq> cx_uid ctx"
    and "\<And>u c. cw_suspended w u = Some c \<Longrightarrow> cx_handle c \<noteq> cx_handle ctx"
  shows "coro_inv (snd (AddCoroContext ctx w))" "fst (AddCoroContext ctx w)"
    "cw_suspended (snd (AddCoroContext ctx w)) = (cw_suspended w)(cx_uid ctx \<mapsto> ctx)"
    "heap_contexts (snd (AddCoroContext ctx w)) = add_mset ctx (heap_contexts w)"
proof -
  let ?w = "snd (AddCoroContext ctx w)"
  note heap = coro_invD(1) [OF assms(1)]
  show susp: "cw_suspended ?w = (cw_suspended w)(cx_uid ctx \<mapsto> ctx)" and "fst (AddCoroContext ctx w)"
    using assms(2) by (simp_all add: AddCoroContext_def)
  show cont: "heap_contexts ?w = add_mset ctx (heap_contexts w)"
    using bh.ins_content [OF heap] by (simp add: AddCoroContext_def contextCmp_by_key Let_def)
  have inv: "heap_inv cx_timeout (cw_heap ?w)" "cw_ctrl ?w = cw_ctrl w"
    using bh.ins_inv [OF heap] by (simp_all add: AddCoroContext_def contextCmp_by_key Let_def)
  show "coro_inv ?w"
  proof (rule coro_invI, goal_cases)
    case (2 u c)
    then show ?case using coro_invD(2-4) [OF assms(1), of u c] assms(3) by (auto simp: susp cont inv(2) split: if_splits)
  next
    case (3 c d)
    then show ?case using coro_invD(5) [OF assms(1), of c d] assms(4) by (auto simp: susp cont split: if_splits)
  next
    case (4 u v c d)
    then show ?case using coro_invD(6) [OF assms(1), of u c v d] assms(5) by (auto simp: susp split: if_splits)
  qed (use inv in simp)
qed

lemma PopCoroContext_inv:
  assumes "coro_inv w"
  shows "coro_inv (snd (PopCoroContext u w))"
proof (cases "cw_suspended w u")
  case (Some ctx)
  show ?thesis
  proof (rule coro_invI, goal_cases)
    case (2 v c)
    then show ?case using coro_invD(2-4) [OF assms, of v c] Some by (auto simp: PopCoroContext_def split: if_splits)
  next
    case (3 c d)
    then show ?case using coro_invD(5) [OF assms, of c d] Some by (auto simp: PopCoroContext_def split: if_splits)
  next
    case (4 v v' c d)
    then show ?case using coro_invD(6) [OF assms, of v c v' d] Some by (auto simp: PopCoroContext_def split: if_splits)
  qed (use coro_invD(1) [OF assms] Some in \<open>simp add: PopCoroContext_def\<close>)
qed (use assms in \<open>simp add: PopCoroContext_def\<close>)

lemma coro_world0_inv: "coro_inv coro_world0"
  by (rule coro_invI) (simp_all add: coro_world0_def BinaryHeap_new_inv BinaryHeap_new_content)

lemma app_ok_id: "app_ok now h w w"
  by (auto simp: app_ok_def intro: exI [of _ "[]"])

lemma coro_world1_inv: "coro_inv coro_world1"
proof -
  have "coro_inv (coro_world0\<lparr>cw_ctrl := [5 \<mapsto> (RpcController_new True)\<lparr>rc_coro_handle := 8\<rparr>]\<rparr>)"
    by (rule coro_invI) (simp_all add: coro_world0_def BinaryHeap_new_inv BinaryHeap_new_content)
  then show ?thesis unfolding coro_world1_def
    by (rule AddCoroContext_inv(1)) (simp_all add: coro_world0_def BinaryHeap_new_content ctx_live_def)
qed

lemma coro_world1_expired:
  "expired 20000 coro_world1 = {\<lparr>cx_uid = 1, cx_timeout = 10000, cx_handle = 8, cx_rsp = 0, cx_controller = 5\<rparr>}"
  "\<not> cw_fault coro_world1"
  by (auto simp: expired_def coro_world1_def coro_world0_def AddCoroContext_def split: if_splits)

section \<open>Properties\<close>

text \<open>C25: \<open>HandleCoroTimeout\<close> returns, whatever further calls the resumed coroutines start. It resumes every
  coroutine whose timeout has passed, exactly once and in the order of the timeouts, each with its controller
  failed with "coro timeout", resumes no other coroutine, keeps every other suspended context, keeps the
  invariant of the manager and uses no null or dead object.\<close>

theorem coro_timeouts:
  assumes "coro_inv w" and "\<And>h w. app_ok now h w (resume h w)"
  shows "\<exists>w' ks. HandleCoroTimeout resume now w = Some w' \<and> coro_inv w' \<and> cw_fault w' = cw_fault w
    \<and> timeouts_handled now w ks w'"
  using HandleCoroTimeout_ok [of now resume w] assms by blast

theorem coro_timeouts_witness:
  "\<exists>w' ks. HandleCoroTimeout (\<lambda>h w. w) 20000 coro_world1 = Some w' \<and> coro_inv w' \<and> \<not> cw_fault w'
    \<and> timeouts_handled 20000 coro_world1 ks w'
    \<and> expired 20000 coro_world1 = {\<lparr>cx_uid = 1, cx_timeout = 10000, cx_handle = 8, cx_rsp = 0, cx_controller = 5\<rparr>}"
  using coro_timeouts [of coro_world1 20000 "\<lambda>h w. w"] coro_world1_inv coro_world1_expired
  by (auto simp: app_ok_id)

text \<open>C40: the ids of up to \<open>2^64 - 1\<close> consecutive calls are different from each other and from \<open>0\<close>, from
  whatever value the generator starts.\<close>

theorem coro_uids_unique:
  assumes "n \<le> 2 ^ 64 - 1"
  shows "distinct (coro_uids n w) \<and> 0 \<notin> set (coro_uids n w)"
proof -
  let ?g = "cw_uid_generator w"
  have val: "unat ((uid_next ^^ Suc k) ?g) = (unat ?g + k) mod (2 ^ 64 - 1) + 1" for k
    using unat_uid_iterate [of "Suc k" ?g] by simp
  have "(uid_next ^^ Suc i) ?g \<noteq> (uid_next ^^ Suc j) ?g" if "i < j" "j < n" for i j
  proof
    assume "(uid_next ^^ Suc i) ?g = (uid_next ^^ Suc j) ?g"
    then have "(unat ?g + i) mod (2 ^ 64 - 1) = (unat ?g + j) mod (2 ^ 64 - 1)"
      using val [of i] val [of j] by (simp del: funpow.simps)
    then have "(2 ^ 64 - 1) dvd (j - i)" 
      using that mod_eq_dvd_iff_nat [of "unat ?g + i" "unat ?g + j" "2 ^ 64 - 1"] by simp
    then show False using that assms by (auto dest: dvd_imp_le)
  qed
  then have "distinct (coro_uids n w)"
    by (auto simp: coro_uids_map distinct_conv_nth linorder_neq_iff simp del: funpow.simps)
  moreover have "(uid_next ^^ Suc k) ?g \<noteq> 0" for k
    using val [of k] by (metis Suc_eq_plus1 nat.distinct(1) unat_0)
  ultimately show ?thesis by (auto simp: coro_uids_map simp del: funpow.simps)
qed

theorem coro_uids_unique_witness:
  "distinct (coro_uids 3 coro_world0) \<and> 0 \<notin> set (coro_uids 3 coro_world0)"
  by (rule coro_uids_unique) simp

end
