(* ===== verification/Spsc_Queue.thy ===== *)
theory Spsc_Queue
  imports Prelude
begin

text \<open>
  \<open>SPSCQueue<T, Capacity>\<close> (include/spsc_queue.h): the lock-free ring buffer between the network
  thread and the logic thread. First the operations as one thread runs them, then the interleaving
  of one producer and one consumer, one atomic access per step. A slot is \<open>Some v\<close> while it holds a
  live object and \<open>None\<close> before \<open>construct\<close> and after \<open>destroy\<close>, so that a move out of a dead slot is a
  visible outcome (\<open>Pop_dead\<close>). The theory states the interface \<open>bounded_queue\<close> that the
  connection manager relies on.
\<close>

section \<open>The ring buffer\<close>

record 'a spsc =
  sq_data :: "'a option list"
  sq_head :: nat
  sq_tail :: nat

datatype 'a pop_result = Pop_empty | Pop_val 'a | Pop_dead

definition SPSC_new :: "nat \<Rightarrow> 'a spsc" where [queue_defs]:
  "SPSC_new cap = \<lparr>sq_data = replicate cap None, sq_head = 0, sq_tail = 0\<rparr>"

definition SPSC_emplace :: "nat \<Rightarrow> 'a \<Rightarrow> 'a spsc \<Rightarrow> bool \<times> 'a spsc" where [queue_defs]:
  "SPSC_emplace cap x q =
     (let t = sq_tail q
      in if (t + 1) mod cap = sq_head q then (False, q)
         else (True, q\<lparr>sq_data := (sq_data q)[t := Some x], sq_tail := (t + 1) mod cap\<rparr>))"

definition SPSC_pop :: "nat \<Rightarrow> 'a spsc \<Rightarrow> 'a pop_result \<times> 'a spsc" where [queue_defs]:
  "SPSC_pop cap q =
     (let h = sq_head q
      in if h = sq_tail q then (Pop_empty, q)
         else (case sq_data q ! h of None \<Rightarrow> Pop_dead | Some v \<Rightarrow> Pop_val v,
               q\<lparr>sq_data := (sq_data q)[h := None], sq_head := (h + 1) mod cap\<rparr>))"

text \<open>\<open>size()\<close> subtracts two \<open>size_t\<close> values and then compares the unsigned difference with \<open>0\<close>.\<close>

definition SPSC_size :: "nat \<Rightarrow> 'a spsc \<Rightarrow> u64" where [queue_defs]:
  "SPSC_size cap q =
     (let diff = (of_nat (sq_tail q) - of_nat (sq_head q) :: u64)
      in if diff < 0 then diff + of_nat cap else diff)"

definition SPSC_empty :: "'a spsc \<Rightarrow> bool" where [queue_defs]:
  "SPSC_empty q \<longleftrightarrow> sq_head q = sq_tail q"

text \<open>
  The loop of the destructor, \<open>i\<close> from \<open>head_\<close> to \<open>tail_\<close>. It destroys each slot on the way; \<open>None\<close> is a
  loop that did not reach \<open>tail_\<close> within the fuel.
\<close>

fun spsc_destroy :: "nat \<Rightarrow> nat \<Rightarrow> nat \<Rightarrow> nat \<Rightarrow> 'a option list \<Rightarrow> 'a option list option" where
  "spsc_destroy cap fuel i tail data =
     (if i = tail then Some data
      else case fuel of 0 \<Rightarrow> None
           | Suc n \<Rightarrow> spsc_destroy cap n ((i + 1) mod cap) tail (data[i := None]))"

definition SPSC_delete :: "nat \<Rightarrow> 'a spsc \<Rightarrow> 'a option list option" where
  "SPSC_delete cap q = spsc_destroy cap cap (sq_head q) (sq_tail q) (sq_data q)"

declare spsc_destroy.simps [simp del]

text \<open>The queued elements, oldest first, and the invariant: the slots from \<open>head_\<close> up to \<open>tail_\<close> hold
  live objects and no other slot does.\<close>

definition spsc_count :: "nat \<Rightarrow> 'a spsc \<Rightarrow> nat" where
  "spsc_count cap q = (sq_tail q + cap - sq_head q) mod cap"

definition spsc_list :: "nat \<Rightarrow> 'a spsc \<Rightarrow> 'a list" where
  "spsc_list cap q =
     map (\<lambda>i. the (sq_data q ! ((sq_head q + i) mod cap))) [0 ..< spsc_count cap q]"

definition spsc_repr :: "nat \<Rightarrow> 'a spsc \<Rightarrow> 'a list \<Rightarrow> bool" where
  "spsc_repr cap q xs \<longleftrightarrow>
     length (sq_data q) = cap \<and> sq_head q < cap \<and> length xs < cap \<and>
     sq_tail q = (sq_head q + length xs) mod cap \<and>
     (\<forall>i < cap. sq_data q ! ((sq_head q + i) mod cap) = (if i < length xs then Some (xs ! i) else None))"

definition spsc_inv :: "nat \<Rightarrow> 'a spsc \<Rightarrow> bool" where
  "spsc_inv cap q \<longleftrightarrow> spsc_repr cap q (spsc_list cap q)"

section \<open>One producer and one consumer\<close>

text \<open>
  The program counters name the points between the atomic accesses of \<open>emplace\<close> and \<open>pop\<close>, with the
  local variables that are live there. \<open>head_\<close> is written by the consumer only and \<open>tail_\<close> by the
  producer only, so the acquire load of the other side's index and the release store of the own one
  order the slot accesses as the interleaving does. \<open>spsc_sent\<close> and \<open>spsc_received\<close> record the
  elements of successful calls.
\<close>

datatype 'a producer = P_idle | P_loaded 'a nat | P_room 'a nat | P_built 'a nat
datatype 'a consumer = C_idle | C_loaded nat | C_ready nat | C_moved nat 'a | C_destroyed nat 'a

record 'a spsc_sys =
  sys_queue :: "'a spsc"
  sys_prod :: "'a producer"
  sys_cons :: "'a consumer"
  spsc_sent :: "'a list"
  spsc_received :: "'a list"

inductive spsc_step :: "nat \<Rightarrow> 'a spsc_sys \<Rightarrow> 'a spsc_sys \<Rightarrow> bool" for cap where
  p_load: "sys_prod s = P_idle \<Longrightarrow>
     spsc_step cap s (s\<lparr>sys_prod := P_loaded x (sq_tail (sys_queue s))\<rparr>)"
| p_full: "sys_prod s = P_loaded x t \<Longrightarrow> (t + 1) mod cap = sq_head (sys_queue s) \<Longrightarrow>
     spsc_step cap s (s\<lparr>sys_prod := P_idle\<rparr>)"
| p_check: "sys_prod s = P_loaded x t \<Longrightarrow> (t + 1) mod cap \<noteq> sq_head (sys_queue s) \<Longrightarrow>
     spsc_step cap s (s\<lparr>sys_prod := P_room x t\<rparr>)"
| p_construct: "sys_prod s = P_room x t \<Longrightarrow>
     spsc_step cap s (s\<lparr>sys_prod := P_built x t,
       sys_queue := (sys_queue s)\<lparr>sq_data := (sq_data (sys_queue s))[t := Some x]\<rparr>\<rparr>)"
| p_publish: "sys_prod s = P_built x t \<Longrightarrow>
     spsc_step cap s (s\<lparr>sys_prod := P_idle,
       sys_queue := (sys_queue s)\<lparr>sq_tail := (t + 1) mod cap\<rparr>, spsc_sent := spsc_sent s @ [x]\<rparr>)"
| c_load: "sys_cons s = C_idle \<Longrightarrow>
     spsc_step cap s (s\<lparr>sys_cons := C_loaded (sq_head (sys_queue s))\<rparr>)"
| c_empty: "sys_cons s = C_loaded h \<Longrightarrow> h = sq_tail (sys_queue s) \<Longrightarrow>
     spsc_step cap s (s\<lparr>sys_cons := C_idle\<rparr>)"
| c_check: "sys_cons s = C_loaded h \<Longrightarrow> h \<noteq> sq_tail (sys_queue s) \<Longrightarrow>
     spsc_step cap s (s\<lparr>sys_cons := C_ready h\<rparr>)"
| c_move: "sys_cons s = C_ready h \<Longrightarrow> sq_data (sys_queue s) ! h = Some v \<Longrightarrow>
     spsc_step cap s (s\<lparr>sys_cons := C_moved h v\<rparr>)"
| c_destroy: "sys_cons s = C_moved h v \<Longrightarrow>
     spsc_step cap s (s\<lparr>sys_cons := C_destroyed h v,
       sys_queue := (sys_queue s)\<lparr>sq_data := (sq_data (sys_queue s))[h := None]\<rparr>\<rparr>)"
| c_publish: "sys_cons s = C_destroyed h v \<Longrightarrow>
     spsc_step cap s (s\<lparr>sys_cons := C_idle,
       sys_queue := (sys_queue s)\<lparr>sq_head := (h + 1) mod cap\<rparr>, spsc_received := spsc_received s @ [v]\<rparr>)"

inductive_cases spsc_stepE: "spsc_step cap s t"

text \<open>The state before the first call; \<open>Capacity\<close> is positive, as the code computes indices modulo
  \<open>Capacity\<close>.\<close>

definition spsc_sys0 :: "nat \<Rightarrow> 'a spsc_sys" where
  "spsc_sys0 cap = \<lparr>sys_queue = SPSC_new cap, sys_prod = P_idle, sys_cons = C_idle,
     spsc_sent = [], spsc_received = []\<rparr>"

definition spsc_start :: "nat \<Rightarrow> 'a spsc_sys \<Rightarrow> bool" where
  "spsc_start cap s \<longleftrightarrow> 0 < cap \<and> s = spsc_sys0 cap"

text \<open>The queue as it stands between calls: without the slot under construction, with the slot
  that is moved out but whose index is not yet published.\<close>

definition settled :: "'a spsc_sys \<Rightarrow> 'a spsc" where
  "settled s =
     (let q = sys_queue s;
          d = (case sys_cons s of C_destroyed h v \<Rightarrow> (sq_data q)[h := Some v] | _ \<Rightarrow> sq_data q);
          d = (case sys_prod s of P_built x t \<Rightarrow> d[t := None] | _ \<Rightarrow> d)
      in q\<lparr>sq_data := d\<rparr>)"

definition prod_ok :: "nat \<Rightarrow> 'a spsc \<Rightarrow> 'a producer \<Rightarrow> bool" where
  "prod_ok cap q p \<longleftrightarrow> (case p of P_idle \<Rightarrow> True | P_loaded x t \<Rightarrow> t = sq_tail q
     | P_room x t \<Rightarrow> t = sq_tail q \<and> (t + 1) mod cap \<noteq> sq_head q
     | P_built x t \<Rightarrow> t = sq_tail q \<and> (t + 1) mod cap \<noteq> sq_head q \<and> sq_data q ! t = Some x)"

definition cons_ok :: "'a spsc \<Rightarrow> 'a consumer \<Rightarrow> bool" where
  "cons_ok q c \<longleftrightarrow> (case c of C_idle \<Rightarrow> True | C_loaded h \<Rightarrow> h = sq_head q
     | C_ready h \<Rightarrow> h = sq_head q \<and> h \<noteq> sq_tail q
     | C_moved h v \<Rightarrow> h = sq_head q \<and> h \<noteq> sq_tail q \<and> sq_data q ! h = Some v
     | C_destroyed h v \<Rightarrow> h = sq_head q \<and> h \<noteq> sq_tail q \<and> sq_data q ! h = None)"

definition spsc_sys_inv :: "nat \<Rightarrow> 'a spsc_sys \<Rightarrow> bool" where
  "spsc_sys_inv cap s \<longleftrightarrow> prod_ok cap (sys_queue s) (sys_prod s) \<and> cons_ok (sys_queue s) (sys_cons s)
     \<and> (\<exists>xs. spsc_repr cap (settled s) xs \<and> spsc_sent s = spsc_received s @ xs)"

text \<open>What a call does to the queue between calls: nothing, or one whole operation.\<close>

definition spsc_atomic :: "nat \<Rightarrow> 'a spsc_sys \<Rightarrow> 'a spsc_sys \<Rightarrow> bool" where
  "spsc_atomic cap s t \<longleftrightarrow>
     (settled t = settled s \<and> spsc_sent t = spsc_sent s \<and> spsc_received t = spsc_received s)
   \<or> (\<exists>x. SPSC_emplace cap x (settled s) = (True, settled t) \<and> spsc_sent t = spsc_sent s @ [x]
        \<and> spsc_received t = spsc_received s)
   \<or> (\<exists>v. SPSC_pop cap (settled s) = (Pop_val v, settled t) \<and> spsc_sent t = spsc_sent s
        \<and> spsc_received t = spsc_received s @ [v])"

text \<open>Slot accesses: \<open>construct\<close> finds no live object, the move finds one, and the two threads are never
  at the same slot.\<close>

definition spsc_access_ok :: "'a spsc_sys \<Rightarrow> bool" where
  "spsc_access_ok s \<longleftrightarrow>
     (case sys_prod s of P_room x t \<Rightarrow> sq_data (sys_queue s) ! t = None | _ \<Rightarrow> True) \<and>
     (case sys_cons s of C_ready h \<Rightarrow> sq_data (sys_queue s) ! h \<noteq> None | _ \<Rightarrow> True) \<and>
     (\<forall>x t h. sys_prod s = P_room x t \<longrightarrow>
        sys_cons s = C_ready h \<or> (\<exists>v. sys_cons s = C_moved h v) \<longrightarrow> t \<noteq> h)"

text \<open>The loop \<open>while (queue.pop(x))\<close> of a client, for at most \<open>n\<close> elements.\<close>

fun queue_drain :: "('q \<Rightarrow> 'a pop_result \<times> 'q) \<Rightarrow> nat \<Rightarrow> 'q \<Rightarrow> 'a list \<times> 'q" where
  "queue_drain pop 0 q = ([], q)"
| "queue_drain pop (Suc n) q =
     (case pop q of
        (Pop_val x, q') \<Rightarrow> (let (xs, q'') = queue_drain pop n q' in (x # xs, q''))
      | (_, q') \<Rightarrow> ([], q'))"

section \<open>Lemmas on the ring buffer\<close>

lemma mod_window_eq:
  fixes h i j cap :: nat
  assumes "i < cap" "j < cap"
  shows "(h + i) mod cap = (h + j) mod cap \<longleftrightarrow> i = j"
proof -
  have less: "(h + i) mod cap \<noteq> (h + j) mod cap" if "i < j" "j < cap" for i j
    using that mod_eq_dvd_iff_nat [of "h + i" "h + j" cap] by (auto dest: dvd_imp_le)
  show ?thesis using less [of i j] less [of j i] assms by (cases i j rule: linorder_cases) auto
qed

lemma ring_offset:
  fixes h i cap :: nat
  assumes "i < cap" "h < cap"
  obtains k where "k < cap" "i = (h + k) mod cap"
  using that [of "i - h"] that [of "i + cap - h"] assms by (cases "h \<le> i") auto

lemma spsc_count_repr: "spsc_repr cap q xs \<Longrightarrow> spsc_count cap q = length xs"
  by (auto simp: spsc_repr_def spsc_count_def mod_if)

lemma spsc_repr_length: "spsc_repr cap q xs \<Longrightarrow> length xs \<le> cap - 1"
  by (auto simp: spsc_repr_def)

lemma spsc_list_repr: "spsc_repr cap q xs \<Longrightarrow> spsc_list cap q = xs"
  by (rule nth_equalityI) (auto simp: spsc_list_def spsc_count_repr, simp add: spsc_repr_def)

lemma spsc_inv_iff: "spsc_inv cap q \<longleftrightarrow> (\<exists>xs. spsc_repr cap q xs)"
  by (auto simp: spsc_inv_def dest: spsc_list_repr)

lemma spsc_repr_list: "spsc_inv cap q \<Longrightarrow> spsc_repr cap q (spsc_list cap q)"
  by (simp add: spsc_inv_def)

lemma spsc_empty_iff: "spsc_repr cap q xs \<Longrightarrow> sq_head q = sq_tail q \<longleftrightarrow> xs = []"
  using mod_window_eq [of 0 cap "length xs" "sq_head q"] by (auto simp: spsc_repr_def)

lemma spsc_full_iff:
  assumes "spsc_repr cap q xs"
  shows "(sq_tail q + 1) mod cap = sq_head q \<longleftrightarrow> length xs = cap - 1"
proof -
  have "(sq_tail q + 1) mod cap = (sq_head q + Suc (length xs)) mod cap"
    using assms by (simp add: spsc_repr_def mod_Suc_eq)
  moreover have "sq_head q = (sq_head q + 0) mod cap" using assms by (simp add: spsc_repr_def)
  moreover have "Suc (length xs) = cap \<or> Suc (length xs) < cap" using assms by (auto simp: spsc_repr_def)
  ultimately show ?thesis
    using mod_window_eq [of "Suc (length xs)" cap 0 "sq_head q"] by (auto simp del: add_Suc_right)
qed

lemma spsc_slot:
  assumes "spsc_repr cap q xs" "i < cap"
  shows "sq_data q ! ((sq_head q + i) mod cap) = (if i < length xs then Some (xs ! i) else None)"
  using assms by (simp add: spsc_repr_def)

lemma spsc_tail_slot:
  assumes "spsc_repr cap q xs"
  shows "sq_data q ! sq_tail q = None" "sq_tail q < cap" "length (sq_data q) = cap"
  using assms spsc_slot [OF assms, of "length xs"] by (auto simp: spsc_repr_def)

lemma spsc_head_slot:
  assumes "spsc_repr cap q (x # xs)"
  shows "sq_data q ! sq_head q = Some x" "sq_head q < cap"
  using assms spsc_slot [OF assms, of 0] by (auto simp: spsc_repr_def)

lemma SPSC_new_repr: "0 < cap \<Longrightarrow> spsc_repr cap (SPSC_new cap) []"
  by (simp add: spsc_repr_def SPSC_new_def)

lemma spsc_push_repr:
  assumes "spsc_repr cap q xs" "length xs \<noteq> cap - 1"
  shows "spsc_repr cap (q\<lparr>sq_data := (sq_data q)[sq_tail q := Some x], sq_tail := (sq_tail q + 1) mod cap\<rparr>)
           (xs @ [x])"
  using assms
  by (auto simp: spsc_repr_def mod_Suc_eq nth_list_update mod_window_eq nth_append)

lemma spsc_shift_repr:
  assumes "spsc_repr cap q (x # xs)"
  shows "spsc_repr cap (q\<lparr>sq_data := (sq_data q)[sq_head q := None], sq_head := Suc (sq_head q) mod cap\<rparr>) xs"
proof -
  have h: "sq_head q < cap" "Suc (length xs) < cap" "length (sq_data q) = cap"
    using assms by (auto simp: spsc_repr_def)
  have slot: "(sq_data q)[sq_head q := None] ! ((Suc (sq_head q) mod cap + i) mod cap)
      = (if i < length xs then Some (xs ! i) else None)" if "i < cap" for i
  proof -
    have eq: "(Suc (sq_head q) mod cap + i) mod cap = (sq_head q + (Suc i mod cap)) mod cap"
      by (simp add: mod_simps)
    have "(sq_head q + 0) mod cap = sq_head q" using h by simp
    then have "(sq_head q + (Suc i mod cap)) mod cap = sq_head q \<longleftrightarrow> Suc i mod cap = 0"
      using mod_window_eq [of "Suc i mod cap" cap 0 "sq_head q"] h by auto
    then show ?thesis
      using spsc_slot [OF assms, of "Suc i mod cap"] h that unfolding eq
      by (cases "Suc i = cap") (auto simp: nth_list_update)
  qed
  show ?thesis using assms h slot by (simp add: spsc_repr_def mod_simps)
qed

lemma SPSC_emplace_repr:
  assumes "spsc_repr cap q xs"
  shows "if length xs < cap - 1
    then fst (SPSC_emplace cap x q) \<and> spsc_repr cap (snd (SPSC_emplace cap x q)) (xs @ [x])
    else SPSC_emplace cap x q = (False, q)"
proof -
  have "length xs \<le> cap - 1" using assms by (auto simp: spsc_repr_def)
  then show ?thesis
    using spsc_full_iff [OF assms] spsc_push_repr [OF assms, of x] by (auto simp: SPSC_emplace_def Let_def)
qed

lemma SPSC_pop_repr:
  assumes "spsc_repr cap q xs"
  shows "case xs of [] \<Rightarrow> SPSC_pop cap q = (Pop_empty, q)
    | x # xs' \<Rightarrow> \<exists>q'. SPSC_pop cap q = (Pop_val x, q') \<and> spsc_repr cap q' xs'"
  using assms spsc_empty_iff [OF assms]
  by (cases xs) (auto simp: SPSC_pop_def Let_def spsc_head_slot spsc_shift_repr)

lemma spsc_destroy_all:
  assumes "length data = cap" "h < cap" "n \<le> fuel" "n < cap"
    and "\<And>i. n \<le> i \<Longrightarrow> i < cap \<Longrightarrow> data ! ((h + i) mod cap) = None"
  shows "spsc_destroy cap fuel h ((h + n) mod cap) data = Some (replicate cap None)"
  using assms
proof (induction n arbitrary: fuel h data)
  case 0
  have "data ! i = None" if "i < cap" for i
    using that "0.prems"(2,5) by (metis ring_offset le0)
  then have "data = replicate cap None" using "0.prems"(1) by (intro nth_equalityI) auto
  then show ?case using "0.prems"(2) by (subst spsc_destroy.simps) simp
next
  case (Suc n)
  obtain fuel' where fuel: "fuel = Suc fuel'" using Suc.prems(3) by (cases fuel) auto
  have ne: "h \<noteq> (h + Suc n) mod cap"
    using mod_window_eq [of 0 cap "Suc n" h] Suc.prems(2,4) by auto
  have "data[h := None] ! ((Suc h mod cap + i) mod cap) = None" if "n \<le> i" "i < cap" for i
  proof (cases "Suc i = cap")
    case False
    then have "data ! ((h + Suc i) mod cap) = None" using that Suc.prems(5) [of "Suc i"] by simp
    then show ?thesis using Suc.prems(1,2) by (simp add: nth_list_update mod_simps)
  next
    case True
    then have "(Suc h mod cap + i) mod cap = h" using Suc.prems(2) by (simp add: mod_simps flip: add_Suc_right)
    then show ?thesis using Suc.prems(1,2) by simp
  qed
  then have "spsc_destroy cap fuel' (Suc h mod cap) ((Suc h mod cap + n) mod cap) (data[h := None])
      = Some (replicate cap None)"
    using Suc.prems fuel by (intro Suc.IH) auto
  moreover have "(Suc h mod cap + n) mod cap = (h + Suc n) mod cap" by (simp add: mod_simps)
  ultimately show ?case using ne fuel by (subst spsc_destroy.simps) simp
qed

section \<open>The interface of a bounded queue\<close>

text \<open>
  What the connection manager uses of the queue: \<open>push\<close> and \<open>pop\<close> keep the invariant, \<open>push\<close> fails exactly
  when \<open>limit\<close> elements are queued and otherwise appends, \<open>pop\<close> returns the oldest element.
\<close>

locale bounded_queue =
  fixes push :: "'a \<Rightarrow> 'q \<Rightarrow> bool \<times> 'q"
    and pop :: "'q \<Rightarrow> 'a pop_result \<times> 'q"
    and inv :: "'q \<Rightarrow> bool"
    and content :: "'q \<Rightarrow> 'a list"
    and limit :: nat
  assumes push_room: "inv q \<Longrightarrow> length (content q) < limit \<Longrightarrow>
      \<exists>q'. push x q = (True, q') \<and> inv q' \<and> content q' = content q @ [x]"
    and push_full: "inv q \<Longrightarrow> limit \<le> length (content q) \<Longrightarrow> push x q = (False, q)"
    and pop_nil: "inv q \<Longrightarrow> content q = [] \<Longrightarrow> pop q = (Pop_empty, q)"
    and pop_cons: "inv q \<Longrightarrow> content q = x # xs \<Longrightarrow>
      \<exists>q'. pop q = (Pop_val x, q') \<and> inv q' \<and> content q' = xs"
    and content_limit: "inv q \<Longrightarrow> length (content q) \<le> limit"
begin

lemma push_inv: "inv q \<Longrightarrow> inv (snd (push x q))"
  using push_room [of q x] push_full [of q x] by (cases "length (content q) < limit") auto

lemma push_result: "inv q \<Longrightarrow> fst (push x q) \<longleftrightarrow> length (content q) < limit"
  using push_room [of q x] push_full [of q x] by (cases "length (content q) < limit") auto

lemma push_content:
  "inv q \<Longrightarrow> content (snd (push x q)) = (if length (content q) < limit then content q @ [x] else content q)"
  using push_room [of q x] push_full [of q x] by auto

lemma pop_never_dead: "inv q \<Longrightarrow> fst (pop q) \<noteq> Pop_dead"
  using pop_nil [of q] pop_cons [of q] by (cases "content q") auto

lemma pop_inv: "inv q \<Longrightarrow> inv (snd (pop q)) \<and> content (snd (pop q)) = tl (content q)"
  using pop_nil [of q] pop_cons [of q] by (cases "content q") fastforce+

lemma drain_all:
  "inv q \<Longrightarrow> length (content q) \<le> n \<Longrightarrow>
     \<exists>q'. queue_drain pop n q = (content q, q') \<and> inv q' \<and> content q' = []"
proof (induction n arbitrary: q)
  case (Suc n)
  show ?case
  proof (cases "content q")
    case Nil
    then show ?thesis using pop_nil [of q] Suc.prems by auto
  next
    case (Cons x xs)
    then obtain q' where "pop q = (Pop_val x, q')" "inv q'" "content q' = xs"
      using pop_cons Suc.prems(1) by blast
    then show ?thesis using Suc.IH [of q'] Suc.prems(2) Cons by auto
  qed
qed auto

lemma pushes_content:
  "inv q \<Longrightarrow> length (content q) + length xs \<le> limit \<Longrightarrow>
     inv (fold (\<lambda>x q. snd (push x q)) xs q) \<and> content (fold (\<lambda>x q. snd (push x q)) xs q) = content q @ xs"
  by (induction xs arbitrary: q) (simp_all add: push_inv push_content)

end

interpretation spsc: bounded_queue "SPSC_emplace cap" "SPSC_pop cap" "spsc_inv cap" "spsc_list cap" "cap - 1"
  for cap :: nat
proof unfold_locales
  fix q :: "'a spsc" and x xs
  assume inv: "spsc_inv cap q"
  note repr = spsc_repr_list [OF inv]
  note emplace = SPSC_emplace_repr [OF repr, of x] and pop = SPSC_pop_repr [OF repr]
  show "length (spsc_list cap q) < cap - 1 \<Longrightarrow>
      \<exists>q'. SPSC_emplace cap x q = (True, q') \<and> spsc_inv cap q' \<and> spsc_list cap q' = spsc_list cap q @ [x]"
    using emplace by (cases "SPSC_emplace cap x q") (auto simp: spsc_inv_iff dest: spsc_list_repr)
  show "cap - 1 \<le> length (spsc_list cap q) \<Longrightarrow> SPSC_emplace cap x q = (False, q)"
    using emplace by auto
  show "spsc_list cap q = [] \<Longrightarrow> SPSC_pop cap q = (Pop_empty, q)" using pop by simp
  show "spsc_list cap q = x # xs \<Longrightarrow>
      \<exists>q'. SPSC_pop cap q = (Pop_val x, q') \<and> spsc_inv cap q' \<and> spsc_list cap q' = xs"
    using pop by (auto simp: spsc_inv_iff dest: spsc_list_repr)
  show "length (spsc_list cap q) \<le> cap - 1" using repr by (auto simp: spsc_repr_def)
qed

lemma SPSC_new_inv: "0 < cap \<Longrightarrow> spsc_inv cap (SPSC_new cap)"
  and SPSC_new_list: "0 < cap \<Longrightarrow> spsc_list cap (SPSC_new cap) = []"
  using SPSC_new_repr [of cap] by (auto simp: spsc_inv_iff dest: spsc_list_repr)

section \<open>The interleaving of producer and consumer\<close>

lemma settled_fields [simp]:
  "sq_head (settled s) = sq_head (sys_queue s)" "sq_tail (settled s) = sq_tail (sys_queue s)"
  by (simp_all add: settled_def Let_def)

lemma settled_data:
  "sq_data (settled s) =
     (let d = (case sys_cons s of C_destroyed h v \<Rightarrow> (sq_data (sys_queue s))[h := Some v]
               | _ \<Rightarrow> sq_data (sys_queue s))
      in case sys_prod s of P_built x t \<Rightarrow> d[t := None] | _ \<Rightarrow> d)"
  by (simp add: settled_def Let_def)

lemma spsc_eqI:
  "sq_head p = sq_head q \<Longrightarrow> sq_tail p = sq_tail q \<Longrightarrow> sq_data p = sq_data q \<Longrightarrow> (p :: 'a spsc) = q"
  by simp


lemma update_here: "xs ! i = v \<Longrightarrow> xs[i := v] = xs"
  by auto

lemma settled_construct:
  assumes "spsc_repr cap (settled s) xs" "sys_prod s = P_room x t" "t = sq_tail (sys_queue s)"
    "cons_ok (sys_queue s) (sys_cons s)"
  shows "settled (s\<lparr>sys_prod := P_built x t,
      sys_queue := (sys_queue s)\<lparr>sq_data := (sq_data (sys_queue s))[t := Some x]\<rparr>\<rparr>) = settled s"
proof -
  have "sq_data (settled s) ! t = None" using spsc_tail_slot(1) [OF assms(1)] assms(3) by simp
  with assms(2-4) show ?thesis
    by (intro spsc_eqI) (auto simp: settled_data cons_ok_def update_here list_update_swap split: consumer.splits)
qed

lemma settled_publish:
  assumes "prod_ok cap (sys_queue s) (P_built x t)" "sys_prod s = P_built x t"
    "cons_ok (sys_queue s) (sys_cons s)"
  shows "SPSC_emplace cap x (settled s) = (True, settled (s\<lparr>sys_prod := P_idle,
      sys_queue := (sys_queue s)\<lparr>sq_tail := (t + 1) mod cap\<rparr>, spsc_sent := spsc_sent s @ [x]\<rparr>))"
  using assms
  by (auto simp: prod_ok_def cons_ok_def SPSC_emplace_def settled_def Let_def update_here list_update_swap
      split: consumer.splits)

lemma settled_destroy:
  assumes "prod_ok cap (sys_queue s) (sys_prod s)" "sys_cons s = C_moved h v"
    "cons_ok (sys_queue s) (C_moved h v)"
  shows "settled (s\<lparr>sys_cons := C_destroyed h v,
      sys_queue := (sys_queue s)\<lparr>sq_data := (sq_data (sys_queue s))[h := None]\<rparr>\<rparr>) = settled s"
  using assms
  by (auto simp: prod_ok_def cons_ok_def settled_def Let_def update_here split: producer.splits)

lemma settled_consume:
  assumes "prod_ok cap (sys_queue s) (sys_prod s)" "sys_cons s = C_destroyed h v"
    "cons_ok (sys_queue s) (C_destroyed h v)" "spsc_repr cap (settled s) xs"
  shows "SPSC_pop cap (settled s) = (Pop_val v, settled (s\<lparr>sys_cons := C_idle,
      sys_queue := (sys_queue s)\<lparr>sq_head := (h + 1) mod cap\<rparr>, spsc_received := spsc_received s @ [v]\<rparr>))"
proof -
  have len: "h < length (sq_data (sys_queue s))"
    using assms(3,4) by (auto simp: cons_ok_def spsc_repr_def settled_data Let_def
        split: consumer.splits producer.splits)
  show ?thesis
    using assms(1-3) len
    by (auto simp: prod_ok_def cons_ok_def SPSC_pop_def settled_def Let_def update_here
        list_update_swap [of "sq_tail (sys_queue s)" "sq_head (sys_queue s)"] split: producer.splits)
qed

lemma spsc_step_atomic:
  assumes "spsc_sys_inv cap s" "spsc_step cap s t"
  shows "spsc_atomic cap s t"
proof -
  obtain xs where inv: "prod_ok cap (sys_queue s) (sys_prod s)" "cons_ok (sys_queue s) (sys_cons s)"
    "spsc_repr cap (settled s) xs"
    using assms(1) by (auto simp: spsc_sys_inv_def)
  from assms(2) show ?thesis
  proof cases
    case (p_construct x t)
    then show ?thesis
      using settled_construct [OF inv(3), of x t] inv by (simp add: spsc_atomic_def prod_ok_def)
  next
    case (p_publish x t)
    then show ?thesis using settled_publish [of cap s x t] inv by (auto simp: spsc_atomic_def)
  next
    case (c_destroy h v)
    then show ?thesis using settled_destroy [of cap s h v] inv by (auto simp: spsc_atomic_def)
  next
    case (c_publish h v)
    then show ?thesis using settled_consume [of cap s h v] inv by (auto simp: spsc_atomic_def)
  qed (auto simp: spsc_atomic_def settled_def)
qed

lemma spsc_atomic_repr:
  assumes "spsc_atomic cap s t" "spsc_repr cap (settled s) xs" "spsc_sent s = spsc_received s @ xs"
  shows "\<exists>ys. spsc_repr cap (settled t) ys \<and> spsc_sent t = spsc_received t @ ys"
  using assms(1) unfolding spsc_atomic_def
proof (elim disjE exE conjE)
  fix x assume "SPSC_emplace cap x (settled s) = (True, settled t)"
    "spsc_sent t = spsc_sent s @ [x]" "spsc_received t = spsc_received s"
  then show ?thesis
    using SPSC_emplace_repr [OF assms(2), of x] assms(3) by (auto split: if_splits)
next
  fix v assume "SPSC_pop cap (settled s) = (Pop_val v, settled t)"
    "spsc_sent t = spsc_sent s" "spsc_received t = spsc_received s @ [v]"
  then show ?thesis using SPSC_pop_repr [OF assms(2)] assms(3) by (cases xs) auto
qed (use assms in auto)

lemma spsc_step_local:
  assumes "spsc_sys_inv cap s" "spsc_step cap s t"
  shows "prod_ok cap (sys_queue t) (sys_prod t)" "cons_ok (sys_queue t) (sys_cons t)"
proof -
  obtain xs where repr: "spsc_repr cap (settled s) xs" using assms(1) by (auto simp: spsc_sys_inv_def)
  have len: "length (sq_data (sys_queue s)) = cap" "sq_head (sys_queue s) < cap"
      "sq_tail (sys_queue s) < cap"
    using repr spsc_tail_slot(2) [OF repr]
    by (auto simp: spsc_repr_def settled_data Let_def split: consumer.splits producer.splits)
  have next_eq: "Suc (sq_tail (sys_queue s)) mod cap = Suc (sq_head (sys_queue s)) mod cap
      \<longleftrightarrow> sq_tail (sys_queue s) = sq_head (sys_queue s)"
    using mod_window_eq [of "sq_tail (sys_queue s)" cap "sq_head (sys_queue s)" 1] len by simp
  from assms(2,1) show "prod_ok cap (sys_queue t) (sys_prod t)"
    by (cases) (auto simp: spsc_sys_inv_def prod_ok_def cons_ok_def len next_eq split: producer.splits)
  from assms(2,1) show "cons_ok (sys_queue t) (sys_cons t)"
    by (cases) (auto simp: spsc_sys_inv_def prod_ok_def cons_ok_def len split: consumer.splits)
qed

interpretation spsc_run: transition_invariant "spsc_start cap" "spsc_step cap" "spsc_sys_inv cap"
  for cap
proof
  fix s t :: "'b spsc_sys"
  show "spsc_start cap s \<Longrightarrow> spsc_sys_inv cap s"
    using SPSC_new_repr [of cap]
    by (auto simp: spsc_start_def spsc_sys0_def spsc_sys_inv_def prod_ok_def cons_ok_def settled_def)
  show "spsc_sys_inv cap s \<Longrightarrow> spsc_step cap s t \<Longrightarrow> spsc_sys_inv cap t"
    using spsc_step_local [of cap s t] spsc_atomic_repr [OF spsc_step_atomic, of cap s t]
    by (auto simp: spsc_sys_inv_def)
qed

text \<open>A run of one whole \<open>emplace\<close> call on a new queue.\<close>

lemma spsc_one_send:
  assumes "1 < cap"
  shows "\<exists>t. reaches (spsc_step cap) (spsc_sys0 cap) t \<and> spsc_sent t = [x] \<and> spsc_received t = []
    \<and> sys_cons t = C_idle"
proof -
  let ?s0 = "spsc_sys0 cap"
  let ?s1 = "?s0\<lparr>sys_prod := P_loaded x 0\<rparr>"
  let ?s2 = "?s0\<lparr>sys_prod := P_room x 0\<rparr>"
  let ?s3 = "?s0\<lparr>sys_prod := P_built x 0,
     sys_queue := (SPSC_new cap)\<lparr>sq_data := (sq_data (SPSC_new cap))[0 := Some x]\<rparr>\<rparr>"
  let ?s4 = "?s3\<lparr>sys_prod := P_idle, sys_queue := (sys_queue ?s3)\<lparr>sq_tail := (0 + 1) mod cap\<rparr>,
     spsc_sent := spsc_sent ?s3 @ [x]\<rparr>"
  have s1: "spsc_step cap ?s0 ?s1" using p_load [of ?s0 cap x] by (simp add: spsc_sys0_def SPSC_new_def)
  have s2: "spsc_step cap ?s1 ?s2"
    using p_check [of ?s1 x 0 cap] assms by (simp add: spsc_sys0_def SPSC_new_def)
  have s3: "spsc_step cap ?s2 ?s3"
    using p_construct [of ?s2 x 0 cap] by (simp add: spsc_sys0_def SPSC_new_def)
  have s4: "spsc_step cap ?s3 ?s4" by (rule p_publish) simp
  have "reaches (spsc_step cap) ?s0 ?s4"
    using reaches_refl [of "spsc_step cap" ?s0] s1 s2 s3 s4 by (meson reaches_step)
  moreover have "spsc_sent ?s4 = [x] \<and> spsc_received ?s4 = [] \<and> sys_cons ?s4 = C_idle"
    by (simp add: spsc_sys0_def)
  ultimately show ?thesis by (intro exI conjI) auto
qed

lemma spsc_inv_access:
  assumes "spsc_sys_inv cap s"
  shows "spsc_access_ok s"
proof -
  obtain xs where inv: "prod_ok cap (sys_queue s) (sys_prod s)" "cons_ok (sys_queue s) (sys_cons s)"
    "spsc_repr cap (settled s) xs"
    using assms by (auto simp: spsc_sys_inv_def)
  have tail: "sq_data (settled s) ! sq_tail (sys_queue s) = None" using spsc_tail_slot(1) [OF inv(3)] by simp
  have head: "sq_data (settled s) ! sq_head (sys_queue s) \<noteq> None"
    if "sq_head (sys_queue s) \<noteq> sq_tail (sys_queue s)"
    using spsc_head_slot(1) [of cap "settled s"] spsc_empty_iff [OF inv(3)] inv(3) that
    by (cases xs) auto
  show ?thesis
    using inv(1,2) tail head
    by (auto simp: spsc_access_ok_def prod_ok_def cons_ok_def settled_data Let_def
        split: producer.splits consumer.splits)
qed

section \<open>Properties\<close>

text \<open>C6: with one producer and one consumer running in any interleaving, the elements received are
  exactly the elements sent, in the order they were sent, up to those still in the queue, and at
  most \<open>Capacity - 1\<close> are in the queue.\<close>

theorem spsc_fifo:
  assumes "spsc_start cap s" "reaches (spsc_step cap) s t"
  shows "spsc_sent t = spsc_received t @ spsc_list cap (settled t)
    \<and> length (spsc_list cap (settled t)) \<le> cap - 1"
proof -
  obtain xs where "spsc_repr cap (settled t) xs" "spsc_sent t = spsc_received t @ xs"
    using spsc_run.inv_reachable [OF assms] by (auto simp: spsc_sys_inv_def)
  then show ?thesis using spsc_list_repr spsc_repr_length by metis
qed

theorem spsc_fifo_witness:
  "\<exists>t. reaches (spsc_step 2) (spsc_sys0 2) t \<and> spsc_sent t = [True] \<and> spsc_received t = []
     \<and> spsc_list 2 (settled t) = [True]"
proof -
  have start: "spsc_start 2 (spsc_sys0 2 :: bool spsc_sys)" by (simp add: spsc_start_def)
  obtain t where t: "reaches (spsc_step 2) (spsc_sys0 2) t" "spsc_sent t = [True]" "spsc_received t = []"
    using spsc_one_send [of 2 True] by auto
  with spsc_fifo [OF start t(1)] show ?thesis by auto
qed

text \<open>C27: each atomic access of the two threads leaves the queue between calls unchanged or performs one
  whole \<open>emplace\<close> or \<open>pop\<close> on it, and no access touches a slot in the wrong state: \<open>construct\<close> finds a
  dead slot, the move finds a live one, and the two threads are never at the same slot.\<close>

theorem spsc_linearizable:
  assumes "spsc_start cap s" "reaches (spsc_step cap) s t" "spsc_step cap t u"
  shows "spsc_atomic cap t u \<and> spsc_access_ok t"
  using spsc_run.inv_reachable [OF assms(1,2)] spsc_step_atomic spsc_inv_access assms(3) by blast

theorem spsc_linearizable_witness:
  "\<exists>t u. reaches (spsc_step 2) (spsc_sys0 2) t \<and> spsc_step 2 t u \<and> spsc_sent t = [True]
     \<and> spsc_atomic 2 t u \<and> spsc_access_ok t"
proof -
  have start: "spsc_start 2 (spsc_sys0 2 :: bool spsc_sys)" by (simp add: spsc_start_def)
  obtain t where t: "reaches (spsc_step 2) (spsc_sys0 2) t" "spsc_sent t = [True]" "sys_cons t = C_idle"
    using spsc_one_send [of 2 True] by auto
  then have "spsc_step 2 t (t\<lparr>sys_cons := C_loaded (sq_head (sys_queue t))\<rparr>)" by (blast intro: c_load)
  with t spsc_linearizable [OF start t(1) this] show ?thesis by blast
qed

text \<open>A queue of positive capacity keeps its invariant under any sequence of \<open>emplace\<close> and \<open>pop\<close>
  calls; \<open>emplace\<close> returns true exactly when fewer than \<open>Capacity - 1\<close> elements are queued, a failing call
  changes nothing, and \<open>pop\<close> returns the oldest element.\<close>

theorem spsc_refines_bounded_fifo:
  assumes "spsc_inv cap q"
  shows "spsc_inv cap (snd (SPSC_emplace cap x q)) \<and> spsc_inv cap (snd (SPSC_pop cap q))
    \<and> fst (SPSC_emplace cap x q) = (length (spsc_list cap q) < cap - 1)
    \<and> spsc_list cap (snd (SPSC_emplace cap x q)) =
        (if length (spsc_list cap q) < cap - 1 then spsc_list cap q @ [x] else spsc_list cap q)
    \<and> SPSC_pop cap q = (case spsc_list cap q of [] \<Rightarrow> (Pop_empty, q) | y # ys \<Rightarrow> (Pop_val y, snd (SPSC_pop cap q)))
    \<and> spsc_list cap (snd (SPSC_pop cap q)) = tl (spsc_list cap q)"
  using assms spsc.pop_nil [of cap q] spsc.pop_cons [of cap q]
  by (auto simp: spsc.push_inv spsc.pop_inv spsc.push_result spsc.push_content split: list.split)

theorem spsc_refines_bounded_fifo_witness:
  "SPSC_emplace 2 True (SPSC_new 2) = (True, \<lparr>sq_data = [Some True, None], sq_head = 0, sq_tail = 1\<rparr>)
    \<and> SPSC_pop 2 (SPSC_new 2 :: bool spsc) = (Pop_empty, SPSC_new 2)"
  using spsc_refines_bounded_fifo [OF SPSC_new_inv, of 2 True]
  by (simp add: SPSC_new_list) (simp add: queue_defs numeral_2_eq_2)

text \<open>The destructor reaches \<open>tail_\<close> and leaves no live object in any slot.\<close>

theorem spsc_delete_total:
  assumes "spsc_inv cap q"
  shows "SPSC_delete cap q = Some (replicate cap None)"
proof -
  note repr = spsc_repr_list [OF assms]
  let ?n = "length (spsc_list cap q)"
  have "spsc_destroy cap cap (sq_head q) ((sq_head q + ?n) mod cap) (sq_data q) = Some (replicate cap None)"
    using repr by (intro spsc_destroy_all) (auto simp: spsc_repr_def)
  then show ?thesis using repr by (simp add: SPSC_delete_def spsc_repr_def)
qed

theorem spsc_delete_total_witness:
  "SPSC_delete 3 \<lparr>sq_data = [Some 1, None, Some (0::int)], sq_head = 2, sq_tail = 1\<rparr>
     = Some [None, None, None]"
proof -
  have "spsc_inv 3 \<lparr>sq_data = [Some 1, None, Some (0::int)], sq_head = 2, sq_tail = 1\<rparr>" by code_simp
  from spsc_delete_total [OF this] show ?thesis by (simp add: numeral_3_eq_3)
qed

text \<open>\<open>size()\<close> is the number of queued elements as long as \<open>tail_\<close> has not wrapped behind \<open>head_\<close>; after
  that the test \<open>diff < 0\<close> on an unsigned value never holds, so the result is the number of elements
  minus \<open>Capacity\<close> modulo \<open>2^64\<close>.\<close>

theorem spsc_size_wraps:
  assumes "spsc_inv cap q"
  shows "SPSC_size cap q =
    (if sq_head q \<le> sq_tail q then of_nat (length (spsc_list cap q))
     else of_nat (length (spsc_list cap q)) - of_nat cap)"
proof -
  note repr = spsc_repr_list [OF assms]
  let ?n = "length (spsc_list cap q)"
  have "sq_tail q = (if sq_head q + ?n < cap then sq_head q + ?n else sq_head q + ?n - cap)"
    using repr by (auto simp: spsc_repr_def mod_if)
  moreover have "?n < cap" "sq_head q < cap" using repr by (auto simp: spsc_repr_def)
  ultimately show ?thesis by (auto simp: SPSC_size_def Let_def of_nat_diff split: if_splits)
qed

theorem spsc_size_wraps_witness:
  "SPSC_size 3 \<lparr>sq_data = [Some 1, None, Some (0::int)], sq_head = 2, sq_tail = 1\<rparr> = 2 - 3"
proof -
  let ?q = "\<lparr>sq_data = [Some 1, None, Some (0::int)], sq_head = 2, sq_tail = 1\<rparr>"
  have "spsc_inv 3 ?q" by code_simp
  moreover have "length (spsc_list 3 ?q) = 2" by code_simp
  ultimately show ?thesis using spsc_size_wraps [of 3 ?q] by simp
qed

end
