(* ===== verification/Rpc_Conn.thy ===== *)
theory Rpc_Conn
  imports Rpc_Coro_Mgr Spsc_Queue
begin

text \<open>
  The connection layer: \<open>RpcConnComp\<close> (src/rpc_conn_comp.h, src/rpc_conn_comp.cpp) with the two queues between the
  logic thread and the network thread, and \<open>RpcConnMgr\<close> (src/rpc_conn_mgr.h, src/rpc_conn_mgr.cpp). Packets are
  objects in a store and the queues hold their addresses, so that a packet nobody recycles stays visible
  in the store. The calls of the LLBC service (\<open>Listen\<close>, \<open>Connect\<close>, \<open>Start\<close>, ...) enter as arguments with their
  results; \<open>rw_sent\<close> lists the packets handed to \<open>LLBC_Service::Send\<close>, which takes ownership of them.
\<close>

section \<open>State\<close>

definition MAX_QUEUE_SIZE :: nat where
  "MAX_QUEUE_SIZE = 4096"

definition RECEIVE_TIME_OUT :: nat where
  "RECEIVE_TIME_OUT = 10000"

datatype deleg = Deleg_HandleRpcReq | Deleg_HandleRpcRsp | Deleg_user nat

record rpc_world = coro_world +
  rw_packets :: "nat \<rightharpoonup> packet"
  rw_next :: nat
  rw_sendQueue :: "nat spsc"
  rw_recvQueue :: "nat spsc"
  rw_sent :: "packet list"
  rw_delegs :: "cint \<rightharpoonup> deleg"
  rw_svc :: bool
  rw_comp :: bool
  rw_ip :: string
  rw_is_server :: bool
  rw_server_sessionID :: cint

text \<open>The object pool: an address not in use, and recycling.\<close>

definition alloc_packet :: "packet \<Rightarrow> 'z rpc_world_scheme \<Rightarrow> nat \<times> 'z rpc_world_scheme" where
  "alloc_packet p w = (rw_next w, w\<lparr>rw_packets := (rw_packets w)(rw_next w \<mapsto> p), rw_next := rw_next w + 1\<rparr>)"

definition LLBC_Recycle :: "nat \<Rightarrow> 'z rpc_world_scheme \<Rightarrow> 'z rpc_world_scheme" where
  "LLBC_Recycle a w =
     (if rw_packets w a = None then w\<lparr>cw_fault := True\<rparr> else w\<lparr>rw_packets := (rw_packets w)(a := None)\<rparr>)"

section \<open>RpcConnComp\<close>

definition PushSendPacket :: "nat \<Rightarrow> 'z rpc_world_scheme \<Rightarrow> int \<times> 'z rpc_world_scheme" where
  "PushSendPacket a w =
     (let (ok, q) = SPSC_emplace MAX_QUEUE_SIZE a (rw_sendQueue w)
      in (if ok then LLBC_OK else LLBC_FAILED, w\<lparr>rw_sendQueue := q\<rparr>))"

definition PopRecvPacket :: "'z rpc_world_scheme \<Rightarrow> int \<times> nat \<times> 'z rpc_world_scheme" where
  "PopRecvPacket w =
     (let (r, q) = SPSC_pop MAX_QUEUE_SIZE (rw_recvQueue w); w' = w\<lparr>rw_recvQueue := q\<rparr>
      in case r of
           Pop_val a \<Rightarrow> (LLBC_OK, a, w')
         | Pop_empty \<Rightarrow> (LLBC_FAILED, 0, w')
         | Pop_dead \<Rightarrow> (LLBC_OK, 0, w'\<lparr>cw_fault := True\<rparr>))"

text \<open>One turn of the loop of \<open>OnUpdate\<close> for the popped address \<open>a\<close>; a failed \<open>Send\<close> is only logged.\<close>

definition svc_send :: "nat \<Rightarrow> 'z rpc_world_scheme \<Rightarrow> 'z rpc_world_scheme" where
  "svc_send a w = (case rw_packets w a of
       None \<Rightarrow> w\<lparr>cw_fault := True\<rparr>
     | Some p \<Rightarrow> w\<lparr>rw_sent := rw_sent w @ [p], rw_packets := (rw_packets w)(a := None)\<rparr>)"

text \<open>\<open>OnUpdate\<close> pops until the queue is empty; the queue never holds more than \<open>MAX_QUEUE_SIZE - 1\<close>.\<close>

definition RpcConnComp_OnUpdate :: "'z rpc_world_scheme \<Rightarrow> 'z rpc_world_scheme" where
  "RpcConnComp_OnUpdate w =
     (let (as, q) = queue_drain (SPSC_pop MAX_QUEUE_SIZE) MAX_QUEUE_SIZE (rw_sendQueue w)
      in fold svc_send as (w\<lparr>rw_sendQueue := q\<rparr>))"

text \<open>\<open>OnRecvPacket\<close> copies session and opcode, sets the status to \<open>0\<close> and moves the payload; the result of
  \<open>emplace\<close> is ignored.\<close>

definition RpcConnComp_OnRecvPacket :: "packet \<Rightarrow> 'z rpc_world_scheme \<Rightarrow> 'z rpc_world_scheme" where
  "RpcConnComp_OnRecvPacket packet w =
     (let p = Packet_SetHeader_from packet (pk_opcode packet) 0 Packet_from_pool;
          p = Packet_SetPayload (fst (Packet_DetachPayload packet)) p;
          (a, w) = alloc_packet p w
      in w\<lparr>rw_recvQueue := snd (SPSC_emplace MAX_QUEUE_SIZE a (rw_recvQueue w))\<rparr>)"

section \<open>RpcConnMgr\<close>

text \<open>\<open>Init\<close> makes six service calls after creating the service and the component; \<open>created\<close> and \<open>rets\<close> are
  their results, in order: \<open>AddComponent\<close>, \<open>SetFPS\<close>, \<open>Subscribe\<close> twice, \<open>SuppressCoderNotFoundWarning\<close>, \<open>Start\<close>.\<close>

definition RpcConnMgr_Destroy :: "'z rpc_world_scheme \<Rightarrow> 'z rpc_world_scheme" where
  "RpcConnMgr_Destroy w = (if rw_svc w then w\<lparr>rw_svc := False\<rparr> else w)"

definition RpcConnMgr_Init :: "bool \<Rightarrow> int list \<Rightarrow> 'z rpc_world_scheme \<Rightarrow> int \<times> 'z rpc_world_scheme" where
  "RpcConnMgr_Init created rets w =
     (let w = (if rw_svc w then RpcConnMgr_Destroy w else w)
      in if \<not> created then (LLBC_FAILED, w\<lparr>rw_svc := False\<rparr>)
         else let w = w\<lparr>rw_svc := True, rw_comp := True,
                   rw_sendQueue := SPSC_new MAX_QUEUE_SIZE, rw_recvQueue := SPSC_new MAX_QUEUE_SIZE\<rparr>
              in if list_all (\<lambda>r. r = LLBC_OK) rets then (LLBC_OK, w) else (LLBC_FAILED, w))"

definition RpcConnMgr_StartRpcService :: "cint \<Rightarrow> string \<Rightarrow> nat \<Rightarrow> 'z rpc_world_scheme \<Rightarrow> int \<times> 'z rpc_world_scheme" where
  "RpcConnMgr_StartRpcService listened ip port w =
     (if rw_is_server w then (LLBC_FAILED, w)
      else let w = w\<lparr>rw_server_sessionID := listened\<rparr>
           in if listened = 0 then (LLBC_FAILED, w)
              else (LLBC_OK, w\<lparr>rw_is_server := True, rw_ip := ip @ '':'' @ dec_str port\<rparr>))"

text \<open>A channel is the session it sends on; \<open>connected\<close> is the result of \<open>Connect\<close>.\<close>

definition RpcConnMgr_CreateRpcChannel :: "cint \<Rightarrow> cint option" where
  "RpcConnMgr_CreateRpcChannel connected = (if connected = 0 then None else Some connected)"

definition RpcConnMgr_Subscribe :: "cint \<Rightarrow> deleg \<Rightarrow> 'z rpc_world_scheme \<Rightarrow> int \<times> 'z rpc_world_scheme" where
  "RpcConnMgr_Subscribe cmdID d w =
     (if rw_delegs w cmdID \<noteq> None then (LLBC_FAILED, w)
      else (LLBC_OK, w\<lparr>rw_delegs := (rw_delegs w)(cmdID \<mapsto> d)\<rparr>))"

definition RpcConnMgr_Unsubscribe :: "cint \<Rightarrow> 'z rpc_world_scheme \<Rightarrow> 'z rpc_world_scheme" where
  "RpcConnMgr_Unsubscribe cmdID w =
     (if rw_delegs w cmdID \<noteq> None then w\<lparr>rw_delegs := (rw_delegs w)(cmdID := None)\<rparr> else w)"

definition RpcConnMgr_delete :: "'z rpc_world_scheme \<Rightarrow> 'z rpc_world_scheme" where
  "RpcConnMgr_delete w =
     (let w = (if rw_svc w then w\<lparr>rw_svc := False\<rparr> else w)
      in RpcConnMgr_Unsubscribe (opcode_val RpcRsp) (RpcConnMgr_Unsubscribe (opcode_val RpcReq) w))"

definition RpcConnMgr_SendPacket :: "nat \<Rightarrow> 'z rpc_world_scheme \<Rightarrow> int \<times> 'z rpc_world_scheme" where
  "RpcConnMgr_SendPacket a w = (if rw_comp w then PushSendPacket a w else (LLBC_FAILED, w\<lparr>cw_fault := True\<rparr>))"

definition RpcConnMgr_RecvPacket :: "'z rpc_world_scheme \<Rightarrow> int \<times> nat \<times> 'z rpc_world_scheme" where
  "RpcConnMgr_RecvPacket w = (if rw_comp w then PopRecvPacket w else (LLBC_FAILED, 0, w\<lparr>cw_fault := True\<rparr>))"

text \<open>\<open>BlockingRecvPacket\<close>: \<open>env k\<close> is what the network thread does during the sleep number \<open>k\<close>. The result has the
  return code and the last value of the out-parameter, with \<open>None\<close> if nothing was popped.\<close>

function blocking_recv ::
    "(nat \<Rightarrow> 'z rpc_world_scheme \<Rightarrow> 'z rpc_world_scheme) \<Rightarrow> nat \<Rightarrow> 'z rpc_world_scheme \<Rightarrow> nat \<times> nat option \<times> 'z rpc_world_scheme" where
  "blocking_recv env cnt w =
     (let (ret, a, w') = RpcConnMgr_RecvPacket w
      in if ret = LLBC_OK then (cnt, Some a, w')
         else if cnt < RECEIVE_TIME_OUT then blocking_recv env (cnt + 1) (env cnt w')
         else (cnt, None, w'))"
  by pat_completeness auto
termination
  by (relation "measure (\<lambda>(env, cnt, w). RECEIVE_TIME_OUT - cnt)") auto

declare blocking_recv.simps [simp del]

definition RpcConnMgr_BlockingRecvPacket ::
    "(nat \<Rightarrow> 'z rpc_world_scheme \<Rightarrow> 'z rpc_world_scheme) \<Rightarrow> 'z rpc_world_scheme \<Rightarrow> int \<times> nat option \<times> 'z rpc_world_scheme" where
  "RpcConnMgr_BlockingRecvPacket env w =
     (let (cnt, a, w') = blocking_recv env 0 w
      in (if cnt \<noteq> RECEIVE_TIME_OUT then LLBC_OK else LLBC_FAILED, a, w'))"

text \<open>\<open>Tick\<close>: \<open>call d a\<close> runs the delegate \<open>d\<close> on the packet at \<open>a\<close>; not returning is \<open>None\<close>.\<close>

partial_function (option) RpcConnMgr_Tick ::
    "(deleg \<Rightarrow> nat \<Rightarrow> 'z rpc_world_scheme \<Rightarrow> 'z rpc_world_scheme) \<Rightarrow> 'z rpc_world_scheme \<Rightarrow> 'z rpc_world_scheme option" where
  "RpcConnMgr_Tick call w =
     (case RpcConnMgr_RecvPacket w of (ret, a, w') \<Rightarrow>
        if ret \<noteq> LLBC_OK then Some w'
        else case rw_packets w' a of
               None \<Rightarrow> RpcConnMgr_Tick call (w'\<lparr>cw_fault := True\<rparr>)
             | Some p \<Rightarrow>
                 (case rw_delegs w' (pk_opcode p) of
                    None \<Rightarrow> RpcConnMgr_Tick call w'
                  | Some d \<Rightarrow> RpcConnMgr_Tick call (LLBC_Recycle a (call d a w'))))"

section \<open>Invariant\<close>

abbreviation send_list :: "'z rpc_world_scheme \<Rightarrow> nat list" where
  "send_list w \<equiv> spsc_list MAX_QUEUE_SIZE (rw_sendQueue w)"

abbreviation recv_list :: "'z rpc_world_scheme \<Rightarrow> nat list" where
  "recv_list w \<equiv> spsc_list MAX_QUEUE_SIZE (rw_recvQueue w)"

text \<open>The queues are well formed, hold live packets, no packet twice, and addresses from \<open>rw_next\<close> on are
  unused.\<close>

definition conn_inv :: "'z rpc_world_scheme \<Rightarrow> bool" where
  "conn_inv w \<longleftrightarrow> rw_comp w \<and> spsc_inv MAX_QUEUE_SIZE (rw_sendQueue w) \<and> spsc_inv MAX_QUEUE_SIZE (rw_recvQueue w)
     \<and> distinct (send_list w @ recv_list w)
     \<and> (\<forall>a \<in> set (send_list w @ recv_list w). rw_packets w a \<noteq> None)
     \<and> (\<forall>a. rw_packets w a \<noteq> None \<longrightarrow> a < rw_next w)"

text \<open>What \<open>Tick\<close> does with one packet after popping it, and the states seen by the polls of \<open>BlockingRecvPacket\<close>
  as long as nothing arrives.\<close>

definition tick_packet ::
    "(deleg \<Rightarrow> nat \<Rightarrow> 'z rpc_world_scheme \<Rightarrow> 'z rpc_world_scheme) \<Rightarrow> nat \<Rightarrow> 'z rpc_world_scheme \<Rightarrow> 'z rpc_world_scheme" where
  "tick_packet call a w = (case rw_packets w a of
       None \<Rightarrow> w\<lparr>cw_fault := True\<rparr>
     | Some p \<Rightarrow> (case rw_delegs w (pk_opcode p) of
           None \<Rightarrow> w
         | Some d \<Rightarrow> LLBC_Recycle a (call d a w)))"

definition pop_recv :: "'z rpc_world_scheme \<Rightarrow> 'z rpc_world_scheme" where
  "pop_recv w = w\<lparr>rw_recvQueue := snd (SPSC_pop MAX_QUEUE_SIZE (rw_recvQueue w))\<rparr>"

fun env_run :: "(nat \<Rightarrow> 'z rpc_world_scheme \<Rightarrow> 'z rpc_world_scheme) \<Rightarrow> nat \<Rightarrow> 'z rpc_world_scheme \<Rightarrow> 'z rpc_world_scheme" where
  "env_run env 0 w = w"
| "env_run env (Suc k) w = env k (env_run env k w)"

definition recv_ready :: "'z rpc_world_scheme \<Rightarrow> bool" where
  "recv_ready w \<longleftrightarrow> rw_comp w \<and> spsc_inv MAX_QUEUE_SIZE (rw_recvQueue w)"

text \<open>Delegates that leave the receive queue to the connection component.\<close>

definition keeps_recv :: "(deleg \<Rightarrow> nat \<Rightarrow> 'z rpc_world_scheme \<Rightarrow> 'z rpc_world_scheme) \<Rightarrow> bool" where
  "keeps_recv call \<longleftrightarrow> (\<forall>d a w. rw_recvQueue (call d a w) = rw_recvQueue w \<and> rw_comp (call d a w) = rw_comp w)"

text \<open>The copy of a received packet that goes to the logic thread.\<close>

definition recv_copy :: "packet \<Rightarrow> packet" where
  "recv_copy packet = Packet_from_pool\<lparr>pk_sessionId := pk_sessionId packet, pk_opcode := pk_opcode packet,
     pk_status := 0, pk_payload := pk_payload packet\<rparr>"

text \<open>The world after a successful \<open>RpcConnMgr::Init\<close>.\<close>

definition rpc_world0 :: rpc_world where
  "rpc_world0 = \<lparr>cw_suspended = Map.empty, cw_heap = BinaryHeap_new null_context 256, cw_uid_generator = 0,
     cw_ctrl = Map.empty, cw_frames = {}, cw_log = [], cw_fault = False,
     rw_packets = Map.empty, rw_next = 1, rw_sendQueue = SPSC_new MAX_QUEUE_SIZE,
     rw_recvQueue = SPSC_new MAX_QUEUE_SIZE, rw_sent = [], rw_delegs = Map.empty, rw_svc = True, rw_comp = True,
     rw_ip = [], rw_is_server = False, rw_server_sessionID = 0\<rparr>"

text \<open>The same world after one packet has arrived.\<close>

definition rpc_world1 :: rpc_world where
  "rpc_world1 = RpcConnComp_OnRecvPacket Packet_new rpc_world0"

section \<open>Lemmas\<close>

lemma MAX_QUEUE_SIZE_pos: "0 < MAX_QUEUE_SIZE"
  by (simp add: MAX_QUEUE_SIZE_def)

lemma conn_inv_recv_ready: "conn_inv w \<Longrightarrow> recv_ready w"
  by (simp add: conn_inv_def recv_ready_def)

lemma RecvPacket_nil:
  assumes "recv_ready w" "recv_list w = []"
  shows "RpcConnMgr_RecvPacket w = (LLBC_FAILED, 0, w)"
  using assms spsc.pop_nil [of MAX_QUEUE_SIZE "rw_recvQueue w"]
  by (simp add: recv_ready_def RpcConnMgr_RecvPacket_def PopRecvPacket_def)

lemma RecvPacket_cons:
  assumes "recv_ready w" "recv_list w = a # as"
  shows "RpcConnMgr_RecvPacket w = (LLBC_OK, a, pop_recv w)" "recv_ready (pop_recv w)" "recv_list (pop_recv w) = as"
  using assms spsc.pop_cons [of MAX_QUEUE_SIZE "rw_recvQueue w" a as]
  by (auto simp: recv_ready_def RpcConnMgr_RecvPacket_def PopRecvPacket_def pop_recv_def)

lemma tick_packet_recv:
  "keeps_recv call \<Longrightarrow> rw_recvQueue (tick_packet call a w) = rw_recvQueue w \<and> rw_comp (tick_packet call a w) = rw_comp w"
  by (auto simp: keeps_recv_def tick_packet_def LLBC_Recycle_def split: option.splits)

lemma Tick_fold:
  assumes "keeps_recv call" "recv_ready w"
  shows "RpcConnMgr_Tick call w = Some (fold (\<lambda>a w. tick_packet call a (pop_recv w)) (recv_list w) w)
    \<and> recv_list (fold (\<lambda>a w. tick_packet call a (pop_recv w)) (recv_list w) w) = []"
  using assms(2)
proof (induction "recv_list w" arbitrary: w)
  case Nil
  then show ?case using RecvPacket_nil [of w] by (subst RpcConnMgr_Tick.simps) simp
next
  case (Cons a as)
  note pop = RecvPacket_cons [OF Cons.prems Cons.hyps(2) [symmetric]]
  let ?w = "tick_packet call a (pop_recv w)"
  have w: "recv_ready ?w" "recv_list ?w = as"
    using pop(2,3) tick_packet_recv [OF assms(1), of a "pop_recv w"] by (simp_all add: recv_ready_def)
  have "RpcConnMgr_Tick call w = RpcConnMgr_Tick call ?w"
    using pop(1) by (subst RpcConnMgr_Tick.simps) (simp add: tick_packet_def split: option.split)
  moreover have "fold f (recv_list w) w = fold f as (f a w)" for f
    using Cons.hyps(2) [symmetric] by simp
  ultimately show ?case using Cons.hyps(1) [of ?w] w by (simp only:)
qed

lemma blocking_recv_empty:
  assumes "\<And>j. j < k \<Longrightarrow> recv_ready (env_run env j w) \<and> recv_list (env_run env j w) = []" "k \<le> RECEIVE_TIME_OUT"
  shows "blocking_recv env 0 w = blocking_recv env k (env_run env k w)"
  using assms
proof (induction k)
  case (Suc k)
  then have "blocking_recv env 0 w = blocking_recv env k (env_run env k w)" by simp
  also have "\<dots> = blocking_recv env (Suc k) (env_run env (Suc k) w)"
    using Suc.prems(2) RecvPacket_nil [of "env_run env k w"] Suc.prems(1) [of k]
    by (subst blocking_recv.simps) simp
  finally show ?case .
qed simp

lemma rpc_world0_inv: "conn_inv rpc_world0"
  by (simp add: conn_inv_def rpc_world0_def SPSC_new_inv SPSC_new_list MAX_QUEUE_SIZE_pos)

lemma PushSendPacket_ok:
  assumes "conn_inv w" "length (send_list w) < MAX_QUEUE_SIZE - 1"
  shows "\<exists>q. PushSendPacket a w = (LLBC_OK, w\<lparr>rw_sendQueue := q\<rparr>) \<and> spsc_inv MAX_QUEUE_SIZE q
    \<and> spsc_list MAX_QUEUE_SIZE q = send_list w @ [a]"
  using assms spsc.push_room [of MAX_QUEUE_SIZE "rw_sendQueue w" a]
  by (auto simp: conn_inv_def PushSendPacket_def)

lemma PushSendPacket_full:
  assumes "conn_inv w" "MAX_QUEUE_SIZE - 1 \<le> length (send_list w)"
  shows "PushSendPacket a w = (LLBC_FAILED, w)"
  using assms spsc.push_full [of MAX_QUEUE_SIZE "rw_sendQueue w" a]
  by (auto simp: conn_inv_def PushSendPacket_def)

lemma fold_svc_send:
  assumes "distinct as" "\<forall>a \<in> set as. rw_packets w a \<noteq> None"
  shows "fold svc_send as w = w\<lparr>rw_sent := rw_sent w @ map (\<lambda>a. the (rw_packets w a)) as,
     rw_packets := (rw_packets w) |` (- set as)\<rparr>"
  using assms
proof (induction as arbitrary: w)
  case Nil
  have "(rw_packets w) |` UNIV = rw_packets w" by (simp add: restrict_map_def)
  then show ?case by simp
next
  case (Cons a as)
  obtain p where p: "rw_packets w a = Some p" using Cons.prems(2) by auto
  let ?m = "(rw_packets w)(a := None)"
  have m: "?m |` (- set as) = (rw_packets w) |` (- set (a # as))"
    by (auto simp: restrict_map_def fun_eq_iff)
  have l: "rw_sent w @ map (\<lambda>a. the (rw_packets w a)) (a # as) = (rw_sent w @ [p]) @ map (\<lambda>b. the (?m b)) as"
    using Cons.prems(1) p by simp
  have "svc_send a w = w\<lparr>rw_sent := rw_sent w @ [p], rw_packets := ?m\<rparr>"
    by (simp add: svc_send_def p)
  then have "fold svc_send (a # as) w = fold svc_send as (w\<lparr>rw_sent := rw_sent w @ [p], rw_packets := ?m\<rparr>)" by simp
  also have "\<dots> = w\<lparr>rw_sent := (rw_sent w @ [p]) @ map (\<lambda>b. the (?m b)) as, rw_packets := ?m |` (- set as)\<rparr>"
    by (subst Cons.IH) (use Cons.prems in auto)
  finally show ?case unfolding m l .
qed

lemma OnUpdate_ok:
  assumes "conn_inv w"
  shows "\<exists>q. RpcConnComp_OnUpdate w = w\<lparr>rw_sendQueue := q,
      rw_sent := rw_sent w @ map (\<lambda>a. the (rw_packets w a)) (send_list w),
      rw_packets := (rw_packets w) |` (- set (send_list w))\<rparr>
    \<and> spsc_inv MAX_QUEUE_SIZE q \<and> spsc_list MAX_QUEUE_SIZE q = []"
proof -
  have "spsc_inv MAX_QUEUE_SIZE (rw_sendQueue w)" using assms by (simp add: conn_inv_def)
  moreover from spsc.content_limit [OF this] have "length (send_list w) \<le> MAX_QUEUE_SIZE" by linarith
  ultimately obtain q where q: "queue_drain (SPSC_pop MAX_QUEUE_SIZE) MAX_QUEUE_SIZE (rw_sendQueue w) = (send_list w, q)"
    "spsc_inv MAX_QUEUE_SIZE q" "spsc_list MAX_QUEUE_SIZE q = []"
    using spsc.drain_all by blast
  then show ?thesis
    using fold_svc_send [of "send_list w" "w\<lparr>rw_sendQueue := q\<rparr>"] assms
    by (auto simp: RpcConnComp_OnUpdate_def conn_inv_def)
qed

lemma OnRecvPacket_ok:
  assumes "conn_inv w" "length (recv_list w) < MAX_QUEUE_SIZE - 1"
  shows "\<exists>q. RpcConnComp_OnRecvPacket packet w = w\<lparr>rw_packets := (rw_packets w)(rw_next w \<mapsto> recv_copy packet),
      rw_next := rw_next w + 1, rw_recvQueue := q\<rparr>
    \<and> spsc_inv MAX_QUEUE_SIZE q \<and> spsc_list MAX_QUEUE_SIZE q = recv_list w @ [rw_next w]"
  using assms spsc.push_room [of MAX_QUEUE_SIZE "rw_recvQueue w" "rw_next w"]
  by (auto simp: conn_inv_def RpcConnComp_OnRecvPacket_def alloc_packet_def recv_copy_def
      Packet_SetHeader_from_def Packet_SetPayload_def Packet_DetachPayload_def Let_def)

lemma OnRecvPacket_inv:
  assumes "conn_inv w" "length (recv_list w) < MAX_QUEUE_SIZE - 1"
  shows "conn_inv (RpcConnComp_OnRecvPacket packet w)"
proof -
  have "rw_packets w (rw_next w) = None" using assms(1) by (auto simp: conn_inv_def)
  then have "rw_next w \<notin> set (send_list w @ recv_list w)" using assms(1) by (auto simp: conn_inv_def)
  with OnRecvPacket_ok [OF assms, of packet] assms(1) show ?thesis
    by (auto simp: conn_inv_def less_Suc_eq)
qed

lemma OnUpdate_inv:
  assumes "conn_inv w"
  shows "conn_inv (RpcConnComp_OnUpdate w)"
  using OnUpdate_ok [OF assms] assms by (auto simp: conn_inv_def restrict_map_def split: if_splits)

lemma rpc_world1_inv: "conn_inv rpc_world1"
  and rpc_world1_recv: "recv_list rpc_world1 = [1]" "rw_packets rpc_world1 1 = Some (recv_copy Packet_new)"
    "rw_delegs rpc_world1 = Map.empty"
proof -
  have room: "length (recv_list rpc_world0) < MAX_QUEUE_SIZE - 1"
    by (simp add: rpc_world0_def SPSC_new_list MAX_QUEUE_SIZE_pos) (simp add: MAX_QUEUE_SIZE_def)
  show "conn_inv rpc_world1"
    unfolding rpc_world1_def by (rule OnRecvPacket_inv [OF rpc_world0_inv room])
  from OnRecvPacket_ok [OF rpc_world0_inv room, of Packet_new]
  show "recv_list rpc_world1 = [1]" "rw_packets rpc_world1 1 = Some (recv_copy Packet_new)"
    "rw_delegs rpc_world1 = Map.empty"
    unfolding rpc_world1_def
    by (auto simp: rpc_world0_def SPSC_new_list MAX_QUEUE_SIZE_pos)
qed

lemma blocking_recv_cases:
  assumes "\<And>j. j < k \<Longrightarrow> recv_ready (env_run env j w) \<and> recv_list (env_run env j w) = []"
    and "k \<le> RECEIVE_TIME_OUT" "recv_ready (env_run env k w)"
  shows "case recv_list (env_run env k w) of
      a # as \<Rightarrow> RpcConnMgr_BlockingRecvPacket env w =
        (if k < RECEIVE_TIME_OUT then LLBC_OK else LLBC_FAILED, Some a, pop_recv (env_run env k w))
    | [] \<Rightarrow> k = RECEIVE_TIME_OUT \<longrightarrow>
        RpcConnMgr_BlockingRecvPacket env w = (LLBC_FAILED, None, env_run env k w)"
  using assms(2) RecvPacket_nil [OF assms(3)] RecvPacket_cons(1) [OF assms(3)]
    blocking_recv_empty [OF assms(1,2)]
  by (auto simp: RpcConnMgr_BlockingRecvPacket_def blocking_recv.simps [of env k] split: list.split)

section \<open>Properties\<close>

text \<open>C33: \<open>Tick\<close> returns and handles every received packet exactly once, in the order of arrival, and leaves the
  receive queue empty, provided the delegates do not touch that queue.\<close>

theorem tick_drains_in_order:
  assumes "conn_inv w" "keeps_recv call"
  shows "RpcConnMgr_Tick call w = Some (fold (\<lambda>a w. tick_packet call a (pop_recv w)) (recv_list w) w)
    \<and> recv_list (the (RpcConnMgr_Tick call w)) = []"
  using Tick_fold [OF assms(2) conn_inv_recv_ready [OF assms(1)]] by simp

theorem tick_drains_in_order_witness:
  "RpcConnMgr_Tick (\<lambda>d a w. w) rpc_world1 = Some (tick_packet (\<lambda>d a w. w) 1 (pop_recv rpc_world1))"
  using tick_drains_in_order [OF rpc_world1_inv, of "\<lambda>d a w. w"] rpc_world1_recv
  by (simp add: keeps_recv_def)

text \<open>\<open>Tick\<close> forgets a packet with an opcode that has no delegate: it leaves the queue but is not recycled.\<close>

theorem tick_leaks_unknown_opcode:
  assumes "conn_inv w" "recv_list w = [a]" "rw_packets w a = Some p" "rw_delegs w (pk_opcode p) = None"
    and "keeps_recv call"
  shows "\<exists>w'. RpcConnMgr_Tick call w = Some w' \<and> recv_list w' = [] \<and> a \<notin> set (send_list w')
    \<and> rw_packets w' a = Some p"
proof -
  have eq: "tick_packet call a (pop_recv w) = pop_recv w"
    using assms(3,4) by (simp add: tick_packet_def pop_recv_def)
  moreover have "a \<notin> set (send_list w)" using assms(1,2) by (auto simp: conn_inv_def)
  ultimately show ?thesis
    using Tick_fold [OF assms(5) conn_inv_recv_ready [OF assms(1)]] assms(2,3) by (simp add: pop_recv_def)
qed

theorem tick_leaks_unknown_opcode_witness:
  "\<exists>w'. RpcConnMgr_Tick (\<lambda>d a w. w) rpc_world1 = Some w' \<and> recv_list w' = [] \<and> 1 \<notin> set (send_list w')
    \<and> rw_packets w' 1 = Some (recv_copy Packet_new)"
  using rpc_world1_recv
  by (intro tick_leaks_unknown_opcode rpc_world1_inv) (simp_all add: keeps_recv_def)

text \<open>\<open>BlockingRecvPacket\<close> returns after at most \<open>RECEIVE_TIME_OUT\<close> sleeps. If the first packet arrives during
  sleep number \<open>k\<close> it is popped, and the call returns \<open>LLBC_OK\<close> unless it was the last sleep: then the packet
  is popped and the call still reports \<open>LLBC_FAILED\<close>. If none arrives nothing is popped and the call fails.\<close>

theorem blocking_recv_result:
  assumes "\<And>j. j < k \<Longrightarrow> recv_ready (env_run env j w) \<and> recv_list (env_run env j w) = []"
    and "k \<le> RECEIVE_TIME_OUT" "recv_ready (env_run env k w)"
  shows "case recv_list (env_run env k w) of
      a # as \<Rightarrow> RpcConnMgr_BlockingRecvPacket env w =
        (if k < RECEIVE_TIME_OUT then LLBC_OK else LLBC_FAILED, Some a, pop_recv (env_run env k w))
    | [] \<Rightarrow> k = RECEIVE_TIME_OUT \<longrightarrow>
        RpcConnMgr_BlockingRecvPacket env w = (LLBC_FAILED, None, env_run env k w)"
  using assms by (rule blocking_recv_cases)

theorem blocking_recv_result_witness:
  "RpcConnMgr_BlockingRecvPacket (\<lambda>k w. w) rpc_world1 = (LLBC_OK, Some 1, pop_recv rpc_world1)"
  using blocking_recv_result [of 0 "\<lambda>k w. w" rpc_world1] conn_inv_recv_ready [OF rpc_world1_inv] rpc_world1_recv
  by (simp add: RECEIVE_TIME_OUT_def)

end
