(* ===== verification/Rpc_Channel.thy ===== *)
theory Rpc_Channel
  imports Rpc_Conn
begin

text \<open>
  \<open>RpcChannel\<close> (src/rpc_channel.h, src/rpc_channel.cpp): starting a call from a coroutine and the blocking call.
  Protobuf messages live in a store of addresses; \<open>ser\<close> is their serialisation and \<open>parse m bs\<close> the parse of
  \<open>bs\<close> into an object with the type of \<open>m\<close>. An object that a failed parse has touched keeps its old
  value in the model. \<open>pool_ok\<close> says whether the object pool returns a packet.
\<close>

section \<open>State and operations\<close>

record 'm msg_world = rpc_world +
  mw_msgs :: "nat \<rightharpoonup> 'm"

record method_desc =
  md_service :: string
  md_name :: string

text \<open>The part the two calls share: fill a packet and push it to the send queue. The result is the return
  code; on every failure the packet is recycled.\<close>

definition send_request ::
    "('m \<Rightarrow> byte list) \<Rightarrow> cint \<Rightarrow> method_desc \<Rightarrow> u64 \<Rightarrow> 'm \<Rightarrow> ('m, 'z) msg_world_scheme \<Rightarrow> int \<times> ('m, 'z) msg_world_scheme" where
  "send_request ser session_ID md seq req w =
     (let (a, w) = alloc_packet Packet_from_pool w;
          p = Packet_SetHeader session_ID (opcode_val RpcReq) 0 Packet_from_pool;
          pkgHead = \<lparr>ph_seq = seq, ph_service_name = md_service md, ph_method_name = md_name md\<rparr>
      in case PkgHead_ToPacket pkgHead p of
           None \<Rightarrow> (LLBC_FAILED, w\<lparr>cw_fault := True\<rparr>)
         | Some (ret, p) \<Rightarrow>
             (if ret \<noteq> LLBC_OK then (LLBC_FAILED, LLBC_Recycle a w)
              else case Packet_Write_msg ser req p of
                     None \<Rightarrow> (LLBC_FAILED, w\<lparr>cw_fault := True\<rparr>)
                   | Some (ret, p) \<Rightarrow>
                       (if ret \<noteq> LLBC_OK then (LLBC_FAILED, LLBC_Recycle a w)
                        else let (ret, w) = RpcConnMgr_SendPacket a (w\<lparr>rw_packets := (rw_packets w)(a \<mapsto> p)\<rparr>)
                             in if ret \<noteq> LLBC_OK then (LLBC_FAILED, LLBC_Recycle a w) else (LLBC_OK, w))))"

text \<open>\<open>env\<close> is the network thread during the sleeps of the blocking receive.\<close>

definition BlockingCallMethod ::
    "('m \<Rightarrow> byte list) \<Rightarrow> ('m \<Rightarrow> byte list \<Rightarrow> 'm option) \<Rightarrow> bool \<Rightarrow> (nat \<Rightarrow> ('m, 'z) msg_world_scheme \<Rightarrow> ('m, 'z) msg_world_scheme) \<Rightarrow>
     cint \<Rightarrow> method_desc \<Rightarrow> nat \<Rightarrow> 'm \<Rightarrow> nat \<Rightarrow> ('m, 'z) msg_world_scheme \<Rightarrow> ('m, 'z) msg_world_scheme" where
  "BlockingCallMethod ser parse pool_ok env session_ID md ca req rsp w =
     (if \<not> pool_ok then with_ctrl ca (RpcController_SetFailed ''acquire LLBC_Packet failed'') w
      else case send_request ser session_ID md 0 req w of (ret, w) \<Rightarrow>
        if ret \<noteq> LLBC_OK then w
        else case RpcConnMgr_BlockingRecvPacket env w of (ret, got, w) \<Rightarrow>
          if ret = LLBC_FAILED then with_ctrl ca (RpcController_SetFailed ''receive packet timeout'') w
          else case (got, mw_msgs w rsp) of
                 (Some a, Some old) \<Rightarrow>
                   (case rw_packets w a of
                      None \<Rightarrow> w\<lparr>cw_fault := True\<rparr>
                    | Some p \<Rightarrow>
                        (case PkgHead_FromPacket p of
                           (Rd_ok head, p) \<Rightarrow>
                             (case Packet_Read_msg (parse old) p of
                                (Rd_ok m, p) \<Rightarrow> LLBC_Recycle a (w\<lparr>mw_msgs := (mw_msgs w)(rsp \<mapsto> m)\<rparr>)
                              | (Rd_fail, p) \<Rightarrow> LLBC_Recycle a w
                              | (Rd_undef, p) \<Rightarrow> w\<lparr>cw_fault := True\<rparr>)
                         | (Rd_fail, p) \<Rightarrow> LLBC_Recycle a w
                         | (Rd_undef, p) \<Rightarrow> w\<lparr>cw_fault := True\<rparr>))
               | _ \<Rightarrow> w\<lparr>cw_fault := True\<rparr>)"

definition CallMethod ::
    "('m \<Rightarrow> byte list) \<Rightarrow> ('m \<Rightarrow> byte list \<Rightarrow> 'm option) \<Rightarrow> bool \<Rightarrow> (nat \<Rightarrow> ('m, 'z) msg_world_scheme \<Rightarrow> ('m, 'z) msg_world_scheme) \<Rightarrow>
     int \<Rightarrow> cint \<Rightarrow> method_desc \<Rightarrow> nat \<Rightarrow> 'm \<Rightarrow> nat \<Rightarrow> ('m, 'z) msg_world_scheme \<Rightarrow> ('m, 'z) msg_world_scheme" where
  "CallMethod ser parse pool_ok env now session_ID md ca req rsp w =
     (if ca = 0 then w
      else case cw_ctrl w ca of
             None \<Rightarrow> w\<lparr>cw_fault := True\<rparr>
           | Some c \<Rightarrow>
               (if \<not> rc_use_coro c then BlockingCallMethod ser parse pool_ok env session_ID md ca req rsp w
                else let (seq, w) = NewCoroUid w;
                         w = snd (AddCoroContext \<lparr>cx_uid = seq, cx_timeout = now + CORO_TIME_OUT,
                               cx_handle = rc_coro_handle c, cx_rsp = rsp, cx_controller = ca\<rparr> w)
                     in if \<not> pool_ok then w else snd (send_request ser session_ID md seq req w)))"

text \<open>The destructor of the channel closes its session; \<open>closed\<close> collects the ids passed to \<open>RemoveSession\<close>.\<close>

definition RpcChannel_delete :: "cint \<Rightarrow> cint list \<Rightarrow> cint list" where
  "RpcChannel_delete session_ID closed = closed @ [session_ID]"

text \<open>The packet of a request.\<close>

definition request_head :: "method_desc \<Rightarrow> u64 \<Rightarrow> pkg_head" where
  "request_head md seq = \<lparr>ph_seq = seq, ph_service_name = md_service md, ph_method_name = md_name md\<rparr>"

definition is_request :: "('m \<Rightarrow> byte list) \<Rightarrow> cint \<Rightarrow> method_desc \<Rightarrow> u64 \<Rightarrow> 'm \<Rightarrow> packet \<Rightarrow> bool" where
  "is_request ser sid md seq req p \<longleftrightarrow> pk_sessionId p = sid \<and> pk_opcode p = opcode_val RpcReq \<and> pk_status p = 0
     \<and> packet_repr p (head_enc (request_head md seq) @ msg_enc ser req)"

text \<open>A world with one controller for a coroutine and one for blocking calls, and one message object.\<close>

definition msg_world0 :: "'m \<Rightarrow> 'm msg_world" where
  "msg_world0 m = \<lparr>cw_suspended = Map.empty, cw_heap = BinaryHeap_new null_context 256, cw_uid_generator = 0,
     cw_ctrl = [5 \<mapsto> (RpcController_new True)\<lparr>rc_coro_handle := 8\<rparr>, 6 \<mapsto> RpcController_new False], cw_frames = {8},
     cw_log = [], cw_fault = False,
     rw_packets = Map.empty, rw_next = 10, rw_sendQueue = SPSC_new MAX_QUEUE_SIZE,
     rw_recvQueue = SPSC_new MAX_QUEUE_SIZE, rw_sent = [],
     rw_delegs = [opcode_val RpcReq \<mapsto> Deleg_HandleRpcReq, opcode_val RpcRsp \<mapsto> Deleg_HandleRpcRsp],
     rw_svc = True, rw_comp = True, rw_ip = [], rw_is_server = False, rw_server_sessionID = 0,
     mw_msgs = [7 \<mapsto> m]\<rparr>"

text \<open>The same world with a full send queue.\<close>

definition full_world :: "'m \<Rightarrow> 'm msg_world" where
  "full_world m = (msg_world0 m)\<lparr>rw_next := 100 + (MAX_QUEUE_SIZE - 1),
     rw_packets := (\<lambda>a. if 100 \<le> a \<and> a < 100 + (MAX_QUEUE_SIZE - 1) then Some Packet_new else None),
     rw_sendQueue := fold (\<lambda>a q. snd (SPSC_emplace MAX_QUEUE_SIZE a q)) [100 ..< 100 + (MAX_QUEUE_SIZE - 1)] (SPSC_new MAX_QUEUE_SIZE)\<rparr>"

section \<open>Lemmas\<close>

lemma request_packet:
  assumes "head_ok (request_head md seq)" "msg_ok ser req"
  shows "\<exists>p1 p2. PkgHead_ToPacket (request_head md seq) (Packet_SetHeader sid (opcode_val RpcReq) 0 Packet_from_pool) = Some (LLBC_OK, p1)
    \<and> Packet_Write_msg ser req p1 = Some (LLBC_OK, p2) \<and> is_request ser sid md seq req p2"
proof -
  let ?p = "Packet_SetHeader sid (opcode_val RpcReq) 0 Packet_from_pool"
  have "packet_repr ?p []" by (simp add: Packet_pool_repr)
  from write_head_msg [OF this assms] obtain p1 b where
    "PkgHead_ToPacket (request_head md seq) ?p = Some (LLBC_OK, p1)"
    "Packet_Write_msg ser req p1 = Some (LLBC_OK, ?p\<lparr>pk_payload := Some b\<rparr>)"
    "mb_repr b (head_enc (request_head md seq) @ msg_enc ser req)"
    by auto
  then show ?thesis
    by (auto simp: is_request_def packet_repr_def Packet_SetHeader_def)
qed

lemma send_request_ok:
  assumes "conn_inv w" "length (send_list w) < MAX_QUEUE_SIZE - 1"
    and "head_ok (request_head md seq)" "msg_ok ser req"
  shows "\<exists>q p. send_request ser sid md seq req w = (LLBC_OK, w\<lparr>rw_packets := (rw_packets w)(rw_next w \<mapsto> p),
      rw_next := rw_next w + 1, rw_sendQueue := q\<rparr>)
    \<and> spsc_inv MAX_QUEUE_SIZE q \<and> spsc_list MAX_QUEUE_SIZE q = send_list w @ [rw_next w]
    \<and> is_request ser sid md seq req p"
proof -
  obtain p1 p2 where p: "PkgHead_ToPacket (request_head md seq) (Packet_SetHeader sid (opcode_val RpcReq) 0 Packet_from_pool) = Some (LLBC_OK, p1)"
    "Packet_Write_msg ser req p1 = Some (LLBC_OK, p2)" "is_request ser sid md seq req p2"
    using request_packet [OF assms(3,4)] by blast
  have "spsc_inv MAX_QUEUE_SIZE (rw_sendQueue w)" "rw_comp w" using assms(1) by (simp_all add: conn_inv_def)
  moreover obtain q where q: "SPSC_emplace MAX_QUEUE_SIZE (rw_next w) (rw_sendQueue w) = (True, q)"
    "spsc_inv MAX_QUEUE_SIZE q" "spsc_list MAX_QUEUE_SIZE q = send_list w @ [rw_next w]"
    using spsc.push_room [OF calculation(1) assms(2), of "rw_next w"] by blast
  ultimately have "send_request ser sid md seq req w = (LLBC_OK, w\<lparr>rw_packets := (rw_packets w)(rw_next w \<mapsto> p2),
      rw_next := rw_next w + 1, rw_sendQueue := q\<rparr>)"
    using p by (simp add: send_request_def alloc_packet_def RpcConnMgr_SendPacket_def PushSendPacket_def
        request_head_def Let_def)
  with p(3) q(2,3) show ?thesis by blast
qed

lemma send_request_full:
  assumes "conn_inv w" "MAX_QUEUE_SIZE - 1 \<le> length (send_list w)"
    and "head_ok (request_head md seq)" "msg_ok ser req"
  shows "send_request ser sid md seq req w = (LLBC_FAILED, w\<lparr>rw_next := rw_next w + 1\<rparr>)"
proof -
  obtain p1 p2 where p: "PkgHead_ToPacket (request_head md seq) (Packet_SetHeader sid (opcode_val RpcReq) 0 Packet_from_pool) = Some (LLBC_OK, p1)"
    "Packet_Write_msg ser req p1 = Some (LLBC_OK, p2)"
    using request_packet [OF assms(3,4)] by blast
  have w: "spsc_inv MAX_QUEUE_SIZE (rw_sendQueue w)" "rw_comp w" "rw_packets w (rw_next w) = None"
    using assms(1) by (auto simp: conn_inv_def)
  have "(rw_packets w)(rw_next w := None) = rw_packets w" using w(3) by auto
  with spsc.push_full [OF w(1), of "rw_next w"] w assms(2) p show ?thesis
    by (auto simp: send_request_def alloc_packet_def RpcConnMgr_SendPacket_def PushSendPacket_def request_head_def
        LLBC_Recycle_def Let_def)
qed

lemma conn_inv_push:
  assumes "conn_inv w" "spsc_inv MAX_QUEUE_SIZE q" "spsc_list MAX_QUEUE_SIZE q = send_list w @ [rw_next w]"
  shows "conn_inv (w\<lparr>rw_packets := (rw_packets w)(rw_next w \<mapsto> p), rw_next := rw_next w + 1, rw_sendQueue := q\<rparr>)"
proof -
  have "rw_next w \<notin> set (send_list w @ recv_list w)" using assms(1) by (auto simp: conn_inv_def)
  then show ?thesis using assms by (auto simp: conn_inv_def less_Suc_eq)
qed

lemma msg_world0_inv: "coro_inv (msg_world0 m)" "conn_inv (msg_world0 m)"
  by (auto simp: coro_inv_def conn_inv_def msg_world0_def BinaryHeap_new_inv BinaryHeap_new_content SPSC_new_inv
      SPSC_new_list MAX_QUEUE_SIZE_pos)

lemma msg_world0_send: "send_list (msg_world0 m) = []" "rw_next (msg_world0 m) = 10"
  by (simp_all add: msg_world0_def SPSC_new_list MAX_QUEUE_SIZE_pos)

lemma echo_names: "string_ok ''EchoService''" "string_ok ''Echo''"
  by (simp_all add: string_ok_def)

lemma full_world_inv: "conn_inv (full_world m)" "send_list (full_world m) = [100 ..< 100 + (MAX_QUEUE_SIZE - 1)]"
proof -
  let ?q = "fold (\<lambda>a q. snd (SPSC_emplace MAX_QUEUE_SIZE a q)) [100 ..< 100 + (MAX_QUEUE_SIZE - 1)] (SPSC_new MAX_QUEUE_SIZE)"
  have "length (spsc_list MAX_QUEUE_SIZE (SPSC_new MAX_QUEUE_SIZE)) + length [100 ..< 100 + (MAX_QUEUE_SIZE - 1)] \<le> MAX_QUEUE_SIZE - 1"
    by (simp add: SPSC_new_list MAX_QUEUE_SIZE_pos)
  from spsc.pushes_content [OF SPSC_new_inv [OF MAX_QUEUE_SIZE_pos] this]
  have q: "spsc_inv MAX_QUEUE_SIZE ?q" "spsc_list MAX_QUEUE_SIZE ?q = [100 ..< 100 + (MAX_QUEUE_SIZE - 1)]"
    by (simp_all add: SPSC_new_list MAX_QUEUE_SIZE_pos)
  then show "send_list (full_world m) = [100 ..< 100 + (MAX_QUEUE_SIZE - 1)]" by (simp add: full_world_def)
  show "conn_inv (full_world m)"
    using q by (auto simp: conn_inv_def full_world_def msg_world0_def SPSC_new_inv SPSC_new_list MAX_QUEUE_SIZE_pos
        split: if_splits)
qed

lemma CallMethod_request:
  fixes w :: "('m, 'z) msg_world_scheme"
  assumes "coro_inv w" "conn_inv w" "ca \<noteq> 0" "cw_ctrl w ca = Some c" "rc_use_coro c" "rc_coro_handle c \<noteq> 0"
    and "length (send_list w) < MAX_QUEUE_SIZE - 1"
    and "seq = uid_next (cw_uid_generator w)" "cw_suspended w seq = None" "\<And>x. x \<in># heap_contexts w \<Longrightarrow> cx_uid x \<noteq> seq"
    and "\<And>u x. cw_suspended w u = Some x \<Longrightarrow> cx_handle x \<noteq> rc_coro_handle c"
    and "string_ok (md_service md)" "string_ok (md_name md)" "msg_ok ser req"
  shows "\<exists>H q p. let ctx = \<lparr>cx_uid = seq, cx_timeout = now + CORO_TIME_OUT, cx_handle = rc_coro_handle c, cx_rsp = rsp, cx_controller = ca\<rparr>;
        w' = w\<lparr>cw_uid_generator := seq, cw_heap := H, cw_suspended := (cw_suspended w)(seq \<mapsto> ctx),
               rw_packets := (rw_packets w)(rw_next w \<mapsto> p), rw_next := rw_next w + 1, rw_sendQueue := q\<rparr>
      in CallMethod ser parse True env now sid md ca req rsp w = w' \<and> coro_inv w' \<and> conn_inv w'
       \<and> spsc_list MAX_QUEUE_SIZE q = send_list w @ [rw_next w] \<and> is_request ser sid md seq req p"
proof -
  let ?ctx = "\<lparr>cx_uid = seq, cx_timeout = now + CORO_TIME_OUT, cx_handle = rc_coro_handle c, cx_rsp = rsp, cx_controller = ca\<rparr>"
  define w0 where "w0 = w\<lparr>cw_uid_generator := seq\<rparr>"
  define w1 where "w1 = snd (AddCoroContext ?ctx w0)"
  have "coro_inv w0" using assms(1) by (simp add: w0_def coro_inv_def)
  note add = AddCoroContext_inv [OF this, of ?ctx, folded w1_def]
  have w1: "coro_inv w1" "cw_suspended w1 = (cw_suspended w)(seq \<mapsto> ?ctx)"
    using add assms(3-11) by (auto simp: w0_def ctx_live_def)
  have rest: "w1 = w\<lparr>cw_uid_generator := seq, cw_heap := cw_heap w1, cw_suspended := cw_suspended w1\<rparr>"
    by (simp add: w1_def w0_def AddCoroContext_def Let_def)
  have same: "rw_packets w1 = rw_packets w" "rw_next w1 = rw_next w" "rw_sendQueue w1 = rw_sendQueue w"
    "rw_recvQueue w1 = rw_recvQueue w" "rw_comp w1 = rw_comp w" "cw_fault w1 = cw_fault w" "cw_ctrl w1 = cw_ctrl w"
    "mw_msgs w1 = mw_msgs w"
    by (subst rest, simp)+
  then have conn: "conn_inv w1" "length (send_list w1) < MAX_QUEUE_SIZE - 1"
    using assms(2,7) by (simp_all add: conn_inv_def)
  have "head_ok (request_head md seq)" using assms(12,13) by (simp add: head_ok_def request_head_def)
  from send_request_ok [OF conn this assms(14), of sid] obtain q p where
    sent: "send_request ser sid md seq req w1 = (LLBC_OK, w1\<lparr>rw_packets := (rw_packets w1)(rw_next w1 \<mapsto> p),
        rw_next := rw_next w1 + 1, rw_sendQueue := q\<rparr>)"
    "spsc_inv MAX_QUEUE_SIZE q" "spsc_list MAX_QUEUE_SIZE q = send_list w1 @ [rw_next w1]" "is_request ser sid md seq req p"
    by blast
  let ?w = "w1\<lparr>rw_packets := (rw_packets w1)(rw_next w1 \<mapsto> p), rw_next := rw_next w1 + 1, rw_sendQueue := q\<rparr>"
  have "CallMethod ser parse True env now sid md ca req rsp w = ?w"
    using assms(3-5,8) sent(1) by (simp add: CallMethod_def NewCoroUid_next w1_def w0_def Let_def)
  moreover have "coro_inv ?w" using w1(1) by (simp add: coro_inv_def)
  moreover have "conn_inv ?w" by (rule conn_inv_push [OF conn(1) sent(2,3)])
  moreover have "?w = w\<lparr>cw_uid_generator := seq, cw_heap := cw_heap w1, cw_suspended := (cw_suspended w)(seq \<mapsto> ?ctx),
      rw_packets := (rw_packets w)(rw_next w \<mapsto> p), rw_next := rw_next w + 1, rw_sendQueue := q\<rparr>"
    unfolding same by (subst rest, simp add: w1(2))
  ultimately show ?thesis using same sent(3,4)
    by (intro exI [of _ "cw_heap w1"] exI [of _ q] exI [of _ p]) (simp add: Let_def)
qed

section \<open>Properties\<close>



text \<open>With a full send queue nothing is sent. A coroutine call leaves its context suspended, so that only the
  timeout resumes it; a blocking call returns at once with its controller and its response as they were,
  so that the caller cannot tell the lost call from a success.\<close>

theorem call_with_full_queue:
  fixes w :: "('m, 'z) msg_world_scheme"
  assumes "conn_inv w" "MAX_QUEUE_SIZE - 1 \<le> length (send_list w)" "ca \<noteq> 0" "cw_ctrl w ca = Some c"
    and "string_ok (md_service md)" "string_ok (md_name md)" "msg_ok ser req"
  shows "let w' = CallMethod ser parse True env now sid md ca req rsp w; seq = uid_next (cw_uid_generator w) in
    send_list w' = send_list w \<and> rw_packets w' = rw_packets w \<and> cw_ctrl w' ca = Some c \<and> mw_msgs w' = mw_msgs w
    \<and> (rc_use_coro c \<and> cw_suspended w seq = None \<longrightarrow> cw_suspended w' = (cw_suspended w)(seq \<mapsto>
        \<lparr>cx_uid = seq, cx_timeout = now + CORO_TIME_OUT, cx_handle = rc_coro_handle c, cx_rsp = rsp, cx_controller = ca\<rparr>))"
proof -
  have head: "head_ok (request_head md s)" for s using assms(5,6) by (simp add: head_ok_def request_head_def)
  show ?thesis
  proof (cases "rc_use_coro c")
    case False
    then show ?thesis
      using send_request_full [OF assms(1,2) head assms(7), of sid] assms(3,4)
      by (simp add: CallMethod_def BlockingCallMethod_def Let_def)
  next
    case True
    let ?seq = "uid_next (cw_uid_generator w)"
    define w1 where "w1 = snd (AddCoroContext \<lparr>cx_uid = ?seq, cx_timeout = now + CORO_TIME_OUT,
        cx_handle = rc_coro_handle c, cx_rsp = rsp, cx_controller = ca\<rparr> (w\<lparr>cw_uid_generator := ?seq\<rparr>))"
    have same: "rw_packets w1 = rw_packets w" "rw_next w1 = rw_next w" "rw_sendQueue w1 = rw_sendQueue w"
      "rw_recvQueue w1 = rw_recvQueue w" "rw_comp w1 = rw_comp w" "cw_ctrl w1 = cw_ctrl w" "mw_msgs w1 = mw_msgs w"
      by (simp_all add: w1_def AddCoroContext_def Let_def)
    have "conn_inv w1" "MAX_QUEUE_SIZE - 1 \<le> length (send_list w1)"
      using assms(1,2) same by (simp_all add: conn_inv_def)
    note full = send_request_full [OF this head assms(7), of sid]
    have "CallMethod ser parse True env now sid md ca req rsp w = w1\<lparr>rw_next := rw_next w1 + 1\<rparr>"
      using True assms(3,4) full by (simp add: CallMethod_def NewCoroUid_next w1_def Let_def)
    moreover have "cw_suspended w ?seq = None \<Longrightarrow> cw_suspended w1 = (cw_suspended w)(?seq \<mapsto>
        \<lparr>cx_uid = ?seq, cx_timeout = now + CORO_TIME_OUT, cx_handle = rc_coro_handle c, cx_rsp = rsp, cx_controller = ca\<rparr>)"
      by (simp add: w1_def AddCoroContext_def Let_def)
    ultimately show ?thesis using same assms(4) by (simp add: Let_def)
  qed
qed

theorem call_with_full_queue_witness:
  "let w' = CallMethod id (\<lambda>_. Some) True (\<lambda>k w. w) 0 3
        \<lparr>md_service = ''EchoService'', md_name = ''Echo''\<rparr> 6 [1, 2] 7 (full_world []) in
    send_list w' = [100 ..< 100 + (MAX_QUEUE_SIZE - 1)] \<and> cw_ctrl w' 6 = Some (RpcController_new False) \<and> mw_msgs w' = [7 \<mapsto> []]"
proof -
  have "cw_ctrl (full_world []) 6 = Some (RpcController_new False)" "mw_msgs (full_world []) = [7 \<mapsto> []]"
    by (simp_all add: full_world_def msg_world0_def)
  with call_with_full_queue [OF full_world_inv(1) _ _ this(1), where parse = "\<lambda>_. Some" and env = "\<lambda>k w. w"
      and now = 0 and sid = 3 and md = "\<lparr>md_service = ''EchoService'', md_name = ''Echo''\<rparr>"
      and ser = id and req = "[1, 2]" and rsp = 7]
  show ?thesis
    by (simp add: full_world_inv(2) echo_names msg_ok_def Let_def)
qed



end
