(* ===== verification/Zk_Client.thy ===== *)
theory Zk_Client
  imports Prelude "HOL-Library.AList"
begin

text \<open>
  The ZooKeeper wrapper \<open>zk_cpp\<close> (src/src/zk/zk_cpp.h, src/src/zk/zk_cpp.cpp). The C client library and the servers
  behind it are not part of the repository: \<open>zoo_api\<close> collects the library functions the wrapper calls, as functions
  on a state \<open>'e\<close> of library and servers. A handle is an address with \<open>0\<close> for \<open>NULL\<close>. The two handler tables are
  lists in the iteration order of the \<open>unordered_map\<close>; \<open>'h\<close> is the type of the registered callbacks.
\<close>

section \<open>Codes\<close>

datatype zoo_rc = z_ok | z_system_error | z_runtime_inconsistency | z_data_inconsistency | z_connection_loss
  | z_marshalling_error | z_unimplemented | z_operation_timeout | z_bad_arguments | z_invliad_state | z_api_error
  | z_no_node | z_no_auth | z_bad_version | z_no_children_for_ephemeral | z_node_exists | z_not_empty
  | z_session_expired | z_invalid_callback | z_invalid_acl | z_auth_failed | z_closing | z_nothing | z_session_moved

fun zoo_rc_val :: "zoo_rc \<Rightarrow> int" where
  "zoo_rc_val z_ok = 0"
| "zoo_rc_val z_system_error = -1"
| "zoo_rc_val z_runtime_inconsistency = -2"
| "zoo_rc_val z_data_inconsistency = -3"
| "zoo_rc_val z_connection_loss = -4"
| "zoo_rc_val z_marshalling_error = -5"
| "zoo_rc_val z_unimplemented = -6"
| "zoo_rc_val z_operation_timeout = -7"
| "zoo_rc_val z_bad_arguments = -8"
| "zoo_rc_val z_invliad_state = -9"
| "zoo_rc_val z_api_error = -100"
| "zoo_rc_val z_no_node = -101"
| "zoo_rc_val z_no_auth = -102"
| "zoo_rc_val z_bad_version = -103"
| "zoo_rc_val z_no_children_for_ephemeral = -108"
| "zoo_rc_val z_node_exists = -110"
| "zoo_rc_val z_not_empty = -111"
| "zoo_rc_val z_session_expired = -112"
| "zoo_rc_val z_invalid_callback = -113"
| "zoo_rc_val z_invalid_acl = -114"
| "zoo_rc_val z_auth_failed = -115"
| "zoo_rc_val z_closing = -116"
| "zoo_rc_val z_nothing = -117"
| "zoo_rc_val z_session_moved = -118"

text \<open>Connection states; \<open>z_state\<close> is a plain \<open>enum\<close>, so \<open>get_state\<close> casts any code.\<close>

definition zoo_state_closed :: int where "zoo_state_closed = 0"
definition zoo_state_connecting :: int where "zoo_state_connecting = 1"
definition zoo_state_associating :: int where "zoo_state_associating = 2"
definition zoo_state_connected :: int where "zoo_state_connected = 3"
definition zoo_state_expired_session :: int where "zoo_state_expired_session = -112"
definition zoo_state_auth_failed :: int where "zoo_state_auth_failed = -113"

definition zoo_perm_all :: int where "zoo_perm_all = 0x1f"

definition zoo_path_buf_len :: nat where "zoo_path_buf_len = 1024"
definition zoo_value_buf_len :: nat where "zoo_value_buf_len = 10240"
definition zoo_recv_time_out :: int where "zoo_recv_time_out = 10000"

record zoo_acl =
  acl_scheme :: string
  acl_id :: string
  acl_perm :: int

text \<open>\<open>struct Stat\<close> of the library, as far as it is read, and \<open>zoo_state_t\<close>.\<close>

record zoo_stat =
  zs_ctime :: int
  zs_mtime :: int
  zs_version :: int
  zs_dataLength :: int
  zs_numChildren :: int

record zoo_state =
  zi_ctime :: int
  zi_mtime :: int
  zi_version :: int
  zi_children_count :: int

text \<open>The constants of \<open>zookeeper.h\<close> that the wrapper compares with.\<close>

record zoo_consts =
  ZOO_CONNECTING_STATE :: int
  ZOO_ASSOCIATING_STATE :: int
  ZOO_CONNECTED_STATE :: int
  ZOO_EXPIRED_SESSION_STATE :: int
  ZOO_AUTH_FAILED_STATE :: int
  ZOO_CREATED_EVENT :: int
  ZOO_DELETED_EVENT :: int
  ZOO_CHANGED_EVENT :: int
  ZOO_CHILD_EVENT :: int
  ZOO_SESSION_EVENT :: int
  ZOO_NOTWATCHING_EVENT :: int
  ZOO_EPHEMERAL :: int
  ZOO_SEQUENCE :: int

text \<open>The library. \<open>zoo_create\<close> also gives what it writes to the path buffer of the given size; \<open>zoo_get\<close> what it
  writes to the value buffer, the new value of \<open>*buffer_len\<close> and the \<open>Stat\<close>.\<close>

record 'e zoo_api =
  zookeeper_init :: "string \<Rightarrow> int \<Rightarrow> 'e \<Rightarrow> nat \<times> 'e"
  zookeeper_close :: "nat \<Rightarrow> 'e \<Rightarrow> 'e"
  zoo_recv_timeout :: "nat \<Rightarrow> 'e \<Rightarrow> int"
  zoo_state_of :: "nat \<Rightarrow> 'e \<Rightarrow> int"
  is_unrecoverable :: "nat \<Rightarrow> 'e \<Rightarrow> int"
  zoo_create :: "nat \<Rightarrow> string \<Rightarrow> string \<Rightarrow> zoo_acl list \<Rightarrow> int \<Rightarrow> nat \<Rightarrow> 'e \<Rightarrow> int \<times> string \<times> 'e"
  zoo_delete :: "nat \<Rightarrow> string \<Rightarrow> int \<Rightarrow> 'e \<Rightarrow> int \<times> 'e"
  zoo_exists :: "nat \<Rightarrow> string \<Rightarrow> bool \<Rightarrow> 'e \<Rightarrow> int \<times> zoo_stat option \<times> 'e"
  zoo_get :: "nat \<Rightarrow> string \<Rightarrow> bool \<Rightarrow> nat \<Rightarrow> 'e \<Rightarrow> int \<times> string \<times> int \<times> zoo_stat \<times> 'e"
  zoo_set :: "nat \<Rightarrow> string \<Rightarrow> string \<Rightarrow> int \<Rightarrow> 'e \<Rightarrow> int \<times> 'e"
  zoo_get_children :: "nat \<Rightarrow> string \<Rightarrow> bool \<Rightarrow> 'e \<Rightarrow> int \<times> string list \<times> 'e"
  zoo_set_acl :: "nat \<Rightarrow> string \<Rightarrow> int \<Rightarrow> zoo_acl list \<Rightarrow> 'e \<Rightarrow> int \<times> 'e"
  zoo_get_acl :: "nat \<Rightarrow> string \<Rightarrow> 'e \<Rightarrow> int \<times> zoo_acl list \<times> 'e"
  zoo_add_auth :: "nat \<Rightarrow> string \<Rightarrow> string \<Rightarrow> 'e \<Rightarrow> int \<times> 'e"
  zoo_const :: zoo_consts

section \<open>The wrapper\<close>

record 'h zk_cpp =
  m_zh :: nat
  m_url :: string
  m_data_event_map :: "(string \<times> 'h) list"
  m_child_event_map :: "(string \<times> 'h) list"

definition zk_new :: "'h zk_cpp" where
  "zk_new = \<lparr>m_zh = 0, m_url = [], m_data_event_map = [], m_child_event_map = []\<rparr>"

definition state_to_string :: "zoo_consts \<Rightarrow> int \<Rightarrow> string" where
  "state_to_string k state =
     (if state = 0 then ''zoo_closed_state''
      else if state = ZOO_CONNECTING_STATE k then ''zoo_state_connecting''
      else if state = ZOO_ASSOCIATING_STATE k then ''zoo_state_associating''
      else if state = ZOO_CONNECTED_STATE k then ''zoo_state_connected''
      else if state = ZOO_EXPIRED_SESSION_STATE k then ''zoo_state_expired_session''
      else if state = ZOO_AUTH_FAILED_STATE k then ''zoo_state_auth_failed''
      else ''zoo_state_invalid'')"

definition type_to_string :: "zoo_consts \<Rightarrow> int \<Rightarrow> string" where
  "type_to_string k state =
     (if state = ZOO_CREATED_EVENT k then ''zoo_event_created''
      else if state = ZOO_DELETED_EVENT k then ''zoo_event_deleted''
      else if state = ZOO_CHANGED_EVENT k then ''zoo_event_changed''
      else if state = ZOO_CHILD_EVENT k then ''zoo_event_child''
      else if state = ZOO_SESSION_EVENT k then ''zoo_event_session''
      else if state = ZOO_NOTWATCHING_EVENT k then ''zoo_event_notwatching''
      else ''zoo_event_unknow'')"

definition state_to_zoo_state_t :: "zoo_stat \<Rightarrow> zoo_state" where
  "state_to_zoo_state_t s = \<lparr>zi_ctime = zs_ctime s, zi_mtime = zs_mtime s, zi_version = zs_version s,
     zi_children_count = zs_numChildren s\<rparr>"

definition create_world_acl :: "int \<Rightarrow> zoo_acl" where
  "create_world_acl perms = \<lparr>acl_scheme = ''world'', acl_id = ''anyone'', acl_perm = perms\<rparr>"

definition create_auth_acl :: "int \<Rightarrow> zoo_acl" where
  "create_auth_acl perms = \<lparr>acl_scheme = ''auth'', acl_id = '''', acl_perm = perms\<rparr>"

definition create_digest_acl :: "int \<Rightarrow> string \<Rightarrow> string \<Rightarrow> zoo_acl" where
  "create_digest_acl perms user passwd =
     \<lparr>acl_scheme = ''digest'', acl_id = user @ '':'' @ passwd, acl_perm = perms\<rparr>"

definition create_ip_acl :: "int \<Rightarrow> string \<Rightarrow> zoo_acl" where
  "create_ip_acl perms ip_info = \<lparr>acl_scheme = ''ip'', acl_id = ip_info, acl_perm = perms\<rparr>"

definition zk_close :: "'e zoo_api \<Rightarrow> 'h zk_cpp \<Rightarrow> 'e \<Rightarrow> 'h zk_cpp \<times> 'e" where
  "zk_close api z e = (if m_zh z \<noteq> 0 then (z\<lparr>m_zh := 0\<rparr>, zookeeper_close api (m_zh z) e) else (z, e))"

text \<open>The destructor is \<open>close\<close>.\<close>

definition zk_connect :: "'e zoo_api \<Rightarrow> string \<Rightarrow> 'h zk_cpp \<Rightarrow> 'e \<Rightarrow> int \<times> 'h zk_cpp \<times> 'e" where
  "zk_connect api url z e =
     (let (z, e) = zk_close api (z\<lparr>m_url := url\<rparr>) e;
          (h, e) = zookeeper_init api url zoo_recv_time_out e
      in (zoo_rc_val z_ok, z\<lparr>m_zh := h\<rparr>, e))"

definition get_recv_time_out :: "'e zoo_api \<Rightarrow> 'h zk_cpp \<Rightarrow> 'e \<Rightarrow> int" where
  "get_recv_time_out api z e = (if m_zh z \<noteq> 0 then zoo_recv_timeout api (m_zh z) e else 0)"

definition get_state :: "'e zoo_api \<Rightarrow> 'h zk_cpp \<Rightarrow> 'e \<Rightarrow> int" where
  "get_state api z e = (if m_zh z \<noteq> 0 then zoo_state_of api (m_zh z) e else zoo_state_closed)"

definition unrecoverable :: "'e zoo_api \<Rightarrow> 'h zk_cpp \<Rightarrow> 'e \<Rightarrow> bool" where
  "unrecoverable api z e \<longleftrightarrow>
     (if m_zh z \<noteq> 0 then is_unrecoverable api (m_zh z) e = zoo_rc_val z_invliad_state else True)"

subsection \<open>Nodes\<close>

definition create_node ::
    "'e zoo_api \<Rightarrow> string \<Rightarrow> string \<Rightarrow> zoo_acl list \<Rightarrow> int \<Rightarrow> nat \<Rightarrow> 'h zk_cpp \<Rightarrow> 'e \<Rightarrow> int \<times> string \<times> 'e" where
  "create_node api path val acl create_flags path_buffer_len z e =
     zoo_create api (m_zh z) path val acl create_flags path_buffer_len e"

definition create_persistent_node :: "'e zoo_api \<Rightarrow> string \<Rightarrow> string \<Rightarrow> zoo_acl list \<Rightarrow> 'h zk_cpp \<Rightarrow> 'e \<Rightarrow> int \<times> 'e" where
  "create_persistent_node api path val acl z e =
     (let (rt, _, e) = create_node api path val acl 0 0 z e in (rt, e))"

definition create_ephemeral_node :: "'e zoo_api \<Rightarrow> string \<Rightarrow> string \<Rightarrow> zoo_acl list \<Rightarrow> 'h zk_cpp \<Rightarrow> 'e \<Rightarrow> int \<times> 'e" where
  "create_ephemeral_node api path val acl z e =
     (let (rt, _, e) = create_node api path val acl (ZOO_EPHEMERAL (zoo_const api)) 0 z e in (rt, e))"

definition create_sequence_node ::
    "'e zoo_api \<Rightarrow> string \<Rightarrow> string \<Rightarrow> zoo_acl list \<Rightarrow> 'h zk_cpp \<Rightarrow> 'e \<Rightarrow> int \<times> string \<times> 'e" where
  "create_sequence_node api path val acl z e =
     create_node api path val acl (ZOO_SEQUENCE (zoo_const api)) zoo_path_buf_len z e"

definition create_sequance_ephemeral_node ::
    "'e zoo_api \<Rightarrow> string \<Rightarrow> string \<Rightarrow> zoo_acl list \<Rightarrow> 'h zk_cpp \<Rightarrow> 'e \<Rightarrow> int \<times> string \<times> 'e" where
  "create_sequance_ephemeral_node api path val acl z e =
     create_node api path val acl (or (ZOO_SEQUENCE (zoo_const api)) (ZOO_EPHEMERAL (zoo_const api))) zoo_path_buf_len z e"

definition delete_node :: "'e zoo_api \<Rightarrow> string \<Rightarrow> int \<Rightarrow> 'h zk_cpp \<Rightarrow> 'e \<Rightarrow> int \<times> 'e" where
  "delete_node api path version z e = zoo_delete api (m_zh z) path version e"

text \<open>\<open>struct Stat s = {0}\<close> keeps its zeros when the call does not fill it; \<open>info\<close> is written in any case.\<close>

definition exists_node :: "'e zoo_api \<Rightarrow> string \<Rightarrow> bool \<Rightarrow> 'h zk_cpp \<Rightarrow> 'e \<Rightarrow> int \<times> zoo_state \<times> 'e" where
  "exists_node api path watch z e =
     (let (rt, s, e) = zoo_exists api (m_zh z) path watch e;
          s0 = \<lparr>zs_ctime = 0, zs_mtime = 0, zs_version = 0, zs_dataLength = 0, zs_numChildren = 0\<rparr>
      in (rt, state_to_zoo_state_t (case s of None \<Rightarrow> s0 | Some s \<Rightarrow> s), e))"

text \<open>\<open>std::string(data_buffer, buf_size)\<close> converts a negative size to \<open>size_t\<close> and throws: \<open>None\<close>.\<close>

definition buffer_string :: "string \<Rightarrow> int \<Rightarrow> string option" where
  "buffer_string buf n = (if n < 0 then None else Some (take (nat n) buf))"

definition get_node :: "'e zoo_api \<Rightarrow> string \<Rightarrow> bool \<Rightarrow> 'h zk_cpp \<Rightarrow> 'e \<Rightarrow> (int \<times> (string \<times> zoo_state) option \<times> 'e) option" where
  "get_node api path watch z e =
     (let (rt, buf, buf_size, s, e) = zoo_get api (m_zh z) path watch zoo_value_buf_len e
      in if rt \<noteq> zoo_rc_val z_ok then Some (rt, None, e)
         else if zs_dataLength s > buf_size
         then (let (rt, buf, buf_size, s, e) = zoo_get api (m_zh z) path watch (nat (zs_dataLength s)) e
               in if rt \<noteq> zoo_rc_val z_ok then Some (rt, None, e)
                  else map_option (\<lambda>v. (rt, Some (v, state_to_zoo_state_t s), e)) (buffer_string buf buf_size))
         else map_option (\<lambda>v. (rt, Some (v, state_to_zoo_state_t s), e)) (buffer_string buf buf_size))"

definition set_node :: "'e zoo_api \<Rightarrow> string \<Rightarrow> string \<Rightarrow> int \<Rightarrow> 'h zk_cpp \<Rightarrow> 'e \<Rightarrow> int \<times> 'e" where
  "set_node api path val version z e = zoo_set api (m_zh z) path val version e"

text \<open>\<open>children\<close> is appended to.\<close>

definition get_children :: "'e zoo_api \<Rightarrow> string \<Rightarrow> string list \<Rightarrow> bool \<Rightarrow> 'h zk_cpp \<Rightarrow> 'e \<Rightarrow> int \<times> string list \<times> 'e" where
  "get_children api path children watch z e =
     (let (rt, string_v, e) = zoo_get_children api (m_zh z) path watch e
      in if rt \<noteq> zoo_rc_val z_ok then (rt, children, e) else (rt, children @ string_v, e))"

definition set_acl :: "'e zoo_api \<Rightarrow> string \<Rightarrow> zoo_acl list \<Rightarrow> int \<Rightarrow> 'h zk_cpp \<Rightarrow> 'e \<Rightarrow> int \<times> 'e" where
  "set_acl api path acl version z e = zoo_set_acl api (m_zh z) path version acl e"

definition get_acl :: "'e zoo_api \<Rightarrow> string \<Rightarrow> zoo_acl list \<Rightarrow> 'h zk_cpp \<Rightarrow> 'e \<Rightarrow> int \<times> zoo_acl list \<times> 'e" where
  "get_acl api path acl z e =
     (let (ret, acl_v, e) = zoo_get_acl api (m_zh z) path e
      in if ret = zoo_rc_val z_ok then (ret, acl @ acl_v, e) else (ret, acl, e))"

definition add_auth :: "'e zoo_api \<Rightarrow> string \<Rightarrow> string \<Rightarrow> 'h zk_cpp \<Rightarrow> 'e \<Rightarrow> int \<times> 'e" where
  "add_auth api user_name user_passwd z e =
     zoo_add_auth api (m_zh z) ''digest'' (user_name @ '':'' @ user_passwd) e"

subsection \<open>Watches\<close>

definition add_data_event_handler :: "string \<Rightarrow> 'h \<Rightarrow> 'h zk_cpp \<Rightarrow> 'h zk_cpp" where
  "add_data_event_handler path handler z = z\<lparr>m_data_event_map := AList.update path handler (m_data_event_map z)\<rparr>"

definition add_child_event_handler :: "string \<Rightarrow> 'h \<Rightarrow> 'h zk_cpp \<Rightarrow> 'h zk_cpp" where
  "add_child_event_handler path handler z = z\<lparr>m_child_event_map := AList.update path handler (m_child_event_map z)\<rparr>"

definition get_data_event_handler :: "string \<Rightarrow> 'h zk_cpp \<Rightarrow> 'h option" where
  "get_data_event_handler path z = map_of (m_data_event_map z) path"

definition get_child_event_handler :: "string \<Rightarrow> 'h zk_cpp \<Rightarrow> 'h option" where
  "get_child_event_handler path z = map_of (m_child_event_map z) path"

text \<open>The result has the code, the read value and the new states; \<open>None\<close> is the exception of \<open>get_node\<close>.\<close>

definition watch_data_change :: "'e zoo_api \<Rightarrow> string \<Rightarrow> 'h \<Rightarrow> 'h zk_cpp \<Rightarrow> 'e \<Rightarrow> (int \<times> string \<times> 'h zk_cpp \<times> 'e) option" where
  "watch_data_change api path handler z e =
     (case get_node api path True z e of
        None \<Rightarrow> None
      | Some (rt, out, e) \<Rightarrow>
          (case out of
             None \<Rightarrow> Some (rt, [], z, e)
           | Some (val, _) \<Rightarrow> Some (rt, val, add_data_event_handler path handler z, e)))"

definition watch_children_event ::
    "'e zoo_api \<Rightarrow> string \<Rightarrow> 'h \<Rightarrow> 'h zk_cpp \<Rightarrow> 'e \<Rightarrow> int \<times> string list option \<times> 'h zk_cpp \<times> 'e" where
  "watch_children_event api path handler z e =
     (let (rt, children, e) = get_children api path [] True z e
      in if rt \<noteq> zoo_rc_val z_ok then (rt, None, z, e)
         else (rt, Some children, add_child_event_handler path handler z, e))"

fun rewatch_data :: "'e zoo_api \<Rightarrow> (string \<times> 'h) list \<Rightarrow> 'h zk_cpp \<Rightarrow> 'e \<Rightarrow> ('h zk_cpp \<times> 'e) option" where
  "rewatch_data api [] z e = Some (z, e)"
| "rewatch_data api ((path, h) # kvs) z e =
     (case watch_data_change api path h z e of
        None \<Rightarrow> None
      | Some (_, _, z, e) \<Rightarrow> rewatch_data api kvs z e)"

fun rewatch_children :: "'e zoo_api \<Rightarrow> (string \<times> 'h) list \<Rightarrow> 'h zk_cpp \<Rightarrow> 'e \<Rightarrow> 'h zk_cpp \<times> 'e" where
  "rewatch_children api [] z e = (z, e)"
| "rewatch_children api ((path, h) # kvs) z e =
     (let (_, _, z, e) = watch_children_event api path h z e in rewatch_children api kvs z e)"

definition zk_reconnect :: "'e zoo_api \<Rightarrow> 'h zk_cpp \<Rightarrow> 'e \<Rightarrow> ('h zk_cpp \<times> 'e) option" where
  "zk_reconnect api z e =
     (let (rt, z, e) = zk_connect api (m_url z) z e
      in if rt \<noteq> zoo_rc_val z_ok then Some (z, e)
         else case rewatch_data api (m_data_event_map z) (z\<lparr>m_data_event_map := [], m_child_event_map := []\<rparr>) e of
                None \<Rightarrow> None
              | Some (z', e) \<Rightarrow> Some (rewatch_children api (m_child_event_map z) z' e))"

subsection \<open>Events\<close>

text \<open>What an event makes the wrapper call: nothing, or a registered callback with the path and the new value or
  children.\<close>

datatype 'h zk_call = Call_none | Call_data 'h string string | Call_child 'h string "string list"

definition on_path_data_change :: "'e zoo_api \<Rightarrow> string \<Rightarrow> 'h zk_cpp \<Rightarrow> 'e \<Rightarrow> ('h zk_call \<times> 'h zk_cpp \<times> 'e) option" where
  "on_path_data_change api path z e =
     (case get_data_event_handler path z of
        None \<Rightarrow> Some (Call_none, z, e)
      | Some h \<Rightarrow>
          (case get_node api path True z e of
             None \<Rightarrow> None
           | Some (_, None, e) \<Rightarrow> Some (Call_none, z, e)
           | Some (_, Some (val, _), e) \<Rightarrow> Some (Call_data h path val, z, e)))"

definition on_path_child_change :: "'e zoo_api \<Rightarrow> string \<Rightarrow> 'h zk_cpp \<Rightarrow> 'e \<Rightarrow> ('h zk_call \<times> 'h zk_cpp \<times> 'e) option" where
  "on_path_child_change api path z e =
     (case get_child_event_handler path z of
        None \<Rightarrow> Some (Call_none, z, e)
      | Some h \<Rightarrow>
          (let (rt, children, e) = get_children api path [] True z e
           in if rt \<noteq> zoo_rc_val z_ok then Some (Call_none, z, e) else Some (Call_child h path children, z, e)))"

text \<open>\<open>on_session_connected\<close>, \<open>on_path_created\<close> and \<open>on_path_delete\<close> only print.\<close>

definition on_session_expired :: "'e zoo_api \<Rightarrow> 'h zk_cpp \<Rightarrow> 'e \<Rightarrow> ('h zk_call \<times> 'h zk_cpp \<times> 'e) option" where
  "on_session_expired api z e = map_option (\<lambda>(z, e). (Call_none, z, e)) (zk_reconnect api z e)"

definition zookeeper_watch_func :: "'e zoo_api \<Rightarrow> int \<Rightarrow> int \<Rightarrow> string \<Rightarrow> 'h zk_cpp \<Rightarrow> 'e \<Rightarrow> ('h zk_call \<times> 'h zk_cpp \<times> 'e) option" where
  "zookeeper_watch_func api type state path z e =
     (let k = zoo_const api
      in if type = ZOO_SESSION_EVENT k
         then (if state = ZOO_CONNECTED_STATE k then Some (Call_none, z, e)
               else if state = ZOO_EXPIRED_SESSION_STATE k then on_session_expired api z e
               else Some (Call_none, z, e))
         else if type = ZOO_CREATED_EVENT k then Some (Call_none, z, e)
         else if type = ZOO_DELETED_EVENT k then Some (Call_none, z, e)
         else if type = ZOO_CHANGED_EVENT k then on_path_data_change api path z e
         else if type = ZOO_CHILD_EVENT k then on_path_child_change api path z e
         else Some (Call_none, z, e))"

section \<open>What the wrapper relies on\<close>

text \<open>The handler tables have one entry per path.\<close>

definition zk_inv :: "'h zk_cpp \<Rightarrow> bool" where
  "zk_inv z \<longleftrightarrow> distinct (map fst (m_data_event_map z)) \<and> distinct (map fst (m_child_event_map z))"

text \<open>The documented behaviour of \<open>zoo_get\<close> on a node with the value \<open>v\<close> that does not change: the value cut to the
  buffer, the number of bytes written and the true length in \<open>Stat\<close>. \<open>S\<close> are the states in which it has that value.\<close>

definition node_has_value :: "'e zoo_api \<Rightarrow> nat \<Rightarrow> string \<Rightarrow> string \<Rightarrow> 'e set \<Rightarrow> bool" where
  "node_has_value api h path v S \<longleftrightarrow> (\<forall>e \<in> S. \<forall>w n. \<exists>s e'. e' \<in> S \<and> zs_dataLength s = int (length v)
     \<and> zoo_get api h path w n e = (zoo_rc_val z_ok, take n v, int (min n (length v)), s, e'))"

text \<open>The codes with which \<open>zoo_get\<close> and \<open>zoo_get_children\<close> answer for a path while the watches are set again; a
  successful \<open>zoo_get\<close> gives a length that is not negative.\<close>

definition answers_get :: "'e zoo_api \<Rightarrow> nat \<Rightarrow> (string \<Rightarrow> int) \<Rightarrow> bool" where
  "answers_get api h rc \<longleftrightarrow> (\<forall>p w n e. \<exists>buf len s e'. zoo_get api h p w n e = (rc p, buf, len, s, e')
     \<and> (rc p = zoo_rc_val z_ok \<longrightarrow> 0 \<le> len))"

definition answers_children :: "'e zoo_api \<Rightarrow> nat \<Rightarrow> (string \<Rightarrow> int) \<Rightarrow> bool" where
  "answers_children api h rc \<longleftrightarrow> (\<forall>p w e. fst (zoo_get_children api h p w e) = rc p)"

text \<open>A small service with one node that has a value and no children, for examples.\<close>

definition demo_consts :: zoo_consts where
  "demo_consts = \<lparr>ZOO_CONNECTING_STATE = 1, ZOO_ASSOCIATING_STATE = 2, ZOO_CONNECTED_STATE = 3,
     ZOO_EXPIRED_SESSION_STATE = -112, ZOO_AUTH_FAILED_STATE = -113, ZOO_CREATED_EVENT = 1, ZOO_DELETED_EVENT = 2,
     ZOO_CHANGED_EVENT = 3, ZOO_CHILD_EVENT = 4, ZOO_SESSION_EVENT = -1, ZOO_NOTWATCHING_EVENT = -2,
     ZOO_EPHEMERAL = 1, ZOO_SEQUENCE = 2\<rparr>"

definition demo_api :: "(string \<rightharpoonup> string) \<Rightarrow> unit zoo_api" where
  "demo_api nodes = \<lparr>zookeeper_init = (\<lambda>url t e. (7, e)), zookeeper_close = (\<lambda>h e. e),
     zoo_recv_timeout = (\<lambda>h e. 10000), zoo_state_of = (\<lambda>h e. 3), is_unrecoverable = (\<lambda>h e. 0),
     zoo_create = (\<lambda>h p v a f n e. (zoo_rc_val z_no_auth, [], e)),
     zoo_delete = (\<lambda>h p v e. (zoo_rc_val z_no_auth, e)),
     zoo_exists = (\<lambda>h p w e. (case nodes p of None \<Rightarrow> zoo_rc_val z_no_node | Some v \<Rightarrow> zoo_rc_val z_ok, None, e)),
     zoo_get = (\<lambda>h p w n e. (case nodes p of
        None \<Rightarrow> (zoo_rc_val z_no_node, [], 0, \<lparr>zs_ctime = 0, zs_mtime = 0, zs_version = 0, zs_dataLength = 0, zs_numChildren = 0\<rparr>, e)
      | Some v \<Rightarrow> (zoo_rc_val z_ok, take n v, int (min n (length v)),
          \<lparr>zs_ctime = 0, zs_mtime = 0, zs_version = 0, zs_dataLength = int (length v), zs_numChildren = 0\<rparr>, e))),
     zoo_set = (\<lambda>h p v ver e. (zoo_rc_val z_no_auth, e)),
     zoo_get_children = (\<lambda>h p w e. (case nodes p of None \<Rightarrow> zoo_rc_val z_no_node | Some v \<Rightarrow> zoo_rc_val z_ok, [], e)),
     zoo_set_acl = (\<lambda>h p v a e. (zoo_rc_val z_no_auth, e)), zoo_get_acl = (\<lambda>h p e. (zoo_rc_val z_no_auth, [], e)),
     zoo_add_auth = (\<lambda>h s c e. (zoo_rc_val z_no_auth, e)), zoo_const = demo_consts\<rparr>"

section \<open>Lemmas\<close>

lemma get_node_answer:
  assumes "answers_get api (m_zh z) rc"
  shows "\<exists>out e'. get_node api path w z e = Some (rc path, out, e') \<and> (out = None \<longleftrightarrow> rc path \<noteq> zoo_rc_val z_ok)"
proof -
  have get: "\<exists>buf len s e'. zoo_get api (m_zh z) path w n e = (rc path, buf, len, s, e')
      \<and> (rc path = zoo_rc_val z_ok \<longrightarrow> 0 \<le> len)" for n e
    using assms unfolding answers_get_def by blast
  obtain buf len s e1 where 1: "zoo_get api (m_zh z) path w zoo_value_buf_len e = (rc path, buf, len, s, e1)"
    "rc path = zoo_rc_val z_ok \<Longrightarrow> 0 \<le> len"
    using get [of zoo_value_buf_len e] by blast
  obtain buf' len' s' e2 where 2: "zoo_get api (m_zh z) path w (nat (zs_dataLength s)) e1 = (rc path, buf', len', s', e2)"
    "rc path = zoo_rc_val z_ok \<Longrightarrow> 0 \<le> len'"
    using get [of "nat (zs_dataLength s)" e1] by blast
  show ?thesis
    using 1 2 by (cases "rc path = zoo_rc_val z_ok") (auto simp: get_node_def buffer_string_def Let_def)
qed

lemma zk_connect_result:
  "\<exists>e0. zk_connect api url z e = (zoo_rc_val z_ok,
     z\<lparr>m_url := url, m_zh := fst (zookeeper_init api url zoo_recv_time_out e0)\<rparr>, snd (zookeeper_init api url zoo_recv_time_out e0))"
  by (cases "m_zh z = 0") (auto simp: zk_connect_def zk_close_def Let_def case_prod_beta)

lemma rewatch_data_result:
  assumes "answers_get api (m_zh z) rc" "distinct (map fst kvs)"
  shows "\<exists>es e'. rewatch_data api kvs z e = Some (z\<lparr>m_data_event_map := es\<rparr>, e')
    \<and> map_of es = map_of (m_data_event_map z) ++ (map_of kvs |` {p. rc p = zoo_rc_val z_ok})"
  using assms
proof (induction kvs arbitrary: z e)
  case Nil
  show ?case by (intro exI [of _ "m_data_event_map z"]) (simp add: restrict_map_def)
next
  case (Cons kv kvs)
  obtain path h where kv: "kv = (path, h)" by fastforce
  obtain out e1 where g: "get_node api path True z e = Some (rc path, out, e1)"
    "out = None \<longleftrightarrow> rc path \<noteq> zoo_rc_val z_ok"
    using get_node_answer [OF Cons.prems(1)] by blast
  let ?ok = "{p. rc p = zoo_rc_val z_ok}"
  have new: "path \<notin> dom (map_of kvs)" using Cons.prems(2) by (simp add: kv dom_map_of_conv_image_fst)
  show ?case
  proof (cases out)
    case None
    obtain es e' where "rewatch_data api kvs z e1 = Some (z\<lparr>m_data_event_map := es\<rparr>, e')"
      "map_of es = map_of (m_data_event_map z) ++ (map_of kvs |` ?ok)"
      using Cons.IH [of z e1] Cons.prems by auto
    moreover have "map_of (kv # kvs) |` ?ok = map_of kvs |` ?ok"
      using None g(2) new by (auto simp: kv fun_eq_iff restrict_map_def)
    moreover have "rewatch_data api (kv # kvs) z e = rewatch_data api kvs z e1"
      using g None by (simp add: kv watch_data_change_def)
    ultimately show ?thesis by (intro exI [of _ es]) (simp del: map_of.simps)
  next
    case (Some vs)
    let ?z = "add_data_event_handler path h z"
    obtain es e' where "rewatch_data api kvs ?z e1 = Some (?z\<lparr>m_data_event_map := es\<rparr>, e')"
      "map_of es = map_of (m_data_event_map ?z) ++ (map_of kvs |` ?ok)"
      using Cons.IH [of ?z e1] Cons.prems by (auto simp: add_data_event_handler_def)
    moreover have "map_of (m_data_event_map ?z) ++ (map_of kvs |` ?ok) = map_of (m_data_event_map z) ++ (map_of (kv # kvs) |` ?ok)"
      using Some g(2) new
      by (auto simp: kv fun_eq_iff restrict_map_def map_add_def add_data_event_handler_def update_conv' split: option.splits)
    moreover have "rewatch_data api (kv # kvs) z e = rewatch_data api kvs ?z e1"
      using g Some by (cases vs) (simp add: kv watch_data_change_def)
    moreover have "?z\<lparr>m_data_event_map := es\<rparr> = z\<lparr>m_data_event_map := es\<rparr>"
      by (simp add: add_data_event_handler_def)
    ultimately show ?thesis by (intro exI [of _ es]) (simp del: map_of.simps)
  qed
qed

lemma rewatch_children_result:
  assumes "answers_children api (m_zh z) rc" "distinct (map fst kvs)"
  shows "\<exists>es e'. rewatch_children api kvs z e = (z\<lparr>m_child_event_map := es\<rparr>, e')
    \<and> map_of es = map_of (m_child_event_map z) ++ (map_of kvs |` {p. rc p = zoo_rc_val z_ok})"
  using assms
proof (induction kvs arbitrary: z e)
  case Nil
  show ?case by (intro exI [of _ "m_child_event_map z"]) (simp add: restrict_map_def)
next
  case (Cons kv kvs)
  obtain path h where kv: "kv = (path, h)" by fastforce
  obtain cs e1 where g: "zoo_get_children api (m_zh z) path True e = (rc path, cs, e1)"
    using Cons.prems(1) unfolding answers_children_def by (metis eq_fst_iff surj_pair)
  let ?ok = "{p. rc p = zoo_rc_val z_ok}"
  let ?z = "if rc path = zoo_rc_val z_ok then add_child_event_handler path h z else z"
  have new: "path \<notin> dom (map_of kvs)" using Cons.prems(2) by (simp add: kv dom_map_of_conv_image_fst)
  have "answers_children api (m_zh ?z) rc" "distinct (map fst kvs)"
    using Cons.prems by (simp_all add: add_child_event_handler_def)
  from Cons.IH [OF this] obtain es e' where "rewatch_children api kvs ?z e1 = (?z\<lparr>m_child_event_map := es\<rparr>, e')"
    "map_of es = map_of (m_child_event_map ?z) ++ (map_of kvs |` ?ok)" by blast
  moreover have "map_of (m_child_event_map ?z) ++ (map_of kvs |` ?ok) = map_of (m_child_event_map z) ++ (map_of (kv # kvs) |` ?ok)"
    using new
    by (auto simp: kv fun_eq_iff restrict_map_def map_add_def add_child_event_handler_def update_conv' split: option.splits)
  moreover have "?z\<lparr>m_child_event_map := es\<rparr> = z\<lparr>m_child_event_map := es\<rparr>" for es
    by (simp add: add_child_event_handler_def)
  moreover have "rewatch_children api (kv # kvs) z e = rewatch_children api kvs ?z e1"
    using g by (simp add: kv watch_children_event_def get_children_def Let_def)
  ultimately show ?case by (intro exI [of _ es]) (simp del: map_of.simps)
qed

lemma demo_api_value: "nodes p = Some v \<Longrightarrow> node_has_value (demo_api nodes) h p v UNIV"
  by (simp add: node_has_value_def demo_api_def)

lemma demo_api_answers:
  "answers_get (demo_api nodes) h (\<lambda>p. if nodes p = None then zoo_rc_val z_no_node else zoo_rc_val z_ok)"
  "answers_children (demo_api nodes) h (\<lambda>p. if nodes p = None then zoo_rc_val z_no_node else zoo_rc_val z_ok)"
  by (auto simp: answers_get_def answers_children_def demo_api_def split: option.splits)

section \<open>Properties\<close>

text \<open>\<open>get_node\<close> returns the whole value of a node that does not change meanwhile, also when it is longer than the
  stack buffer of 10240 bytes.\<close>

theorem zk_get_node_complete:
  assumes "node_has_value api (m_zh z) path v S" "e \<in> S"
  shows "\<exists>info e'. get_node api path watch z e = Some (zoo_rc_val z_ok, Some (v, info), e') \<and> e' \<in> S"
proof -
  obtain s e1 where 1: "e1 \<in> S" "zs_dataLength s = int (length v)"
    "zoo_get api (m_zh z) path watch zoo_value_buf_len e
       = (zoo_rc_val z_ok, take zoo_value_buf_len v, int (min zoo_value_buf_len (length v)), s, e1)"
    using assms unfolding node_has_value_def by blast
  obtain s' e2 where 2: "e2 \<in> S"
    "zoo_get api (m_zh z) path watch (length v) e1 = (zoo_rc_val z_ok, take (length v) v, int (min (length v) (length v)), s', e2)"
    using assms(1) 1(1) unfolding node_has_value_def by blast
  show ?thesis
    using 1 2 by (cases "length v \<le> zoo_value_buf_len") (auto simp: get_node_def buffer_string_def Let_def)
qed

theorem zk_get_node_complete_witness:
  "\<exists>v info. length v = 20000
     \<and> get_node (demo_api [''/a'' \<mapsto> v]) ''/a'' True (zk_new :: nat zk_cpp) () = Some (0, Some (v, info), ())"
proof -
  obtain v :: string where v: "length v = 20000" using Ex_list_of_length by blast
  have "\<exists>info e'. get_node (demo_api [''/a'' \<mapsto> v]) ''/a'' True (zk_new :: nat zk_cpp) ()
      = Some (zoo_rc_val z_ok, Some (v, info), e') \<and> e' \<in> UNIV"
    by (rule zk_get_node_complete, rule demo_api_value, simp_all)
  then obtain info where "get_node (demo_api [''/a'' \<mapsto> v]) ''/a'' True (zk_new :: nat zk_cpp) ()
      = Some (0, Some (v, info), ())"
    by auto
  with v show ?thesis by blast
qed

text \<open>C38: after a session has expired the wrapper is connected to the same servers with a new handle, and exactly the
  handlers whose nodes can be read at that moment are registered again; the others are dropped.\<close>

theorem zk_reconnect_rewatches:
  assumes "zk_inv z" "\<And>e. fst (zookeeper_init api (m_url z) zoo_recv_time_out e) = h"
    and "answers_get api h rc" "answers_children api h rc'"
  shows "\<exists>z' e'. on_session_expired api z e = Some (Call_none, z', e') \<and> m_zh z' = h \<and> m_url z' = m_url z
    \<and> (\<forall>p. get_data_event_handler p z' = (if rc p = zoo_rc_val z_ok then get_data_event_handler p z else None))
    \<and> (\<forall>p. get_child_event_handler p z' = (if rc' p = zoo_rc_val z_ok then get_child_event_handler p z else None))"
proof -
  let ?z = "z\<lparr>m_zh := h\<rparr>"
  obtain e1 where c: "zk_connect api (m_url z) z e = (zoo_rc_val z_ok, ?z, e1)"
    using zk_connect_result [of api "m_url z" z e] assms(2) by auto
  obtain ds e2 where d: "rewatch_data api (m_data_event_map z) (?z\<lparr>m_data_event_map := [], m_child_event_map := []\<rparr>) e1
      = Some (?z\<lparr>m_child_event_map := [], m_data_event_map := ds\<rparr>, e2)"
    "map_of ds = map_of (m_data_event_map z) |` {p. rc p = zoo_rc_val z_ok}"
    using rewatch_data_result [of api "?z\<lparr>m_data_event_map := [], m_child_event_map := []\<rparr>" rc "m_data_event_map z" e1]
      assms(1,3) by (auto simp: zk_inv_def)
  obtain cs e3 where k: "rewatch_children api (m_child_event_map z) (?z\<lparr>m_child_event_map := [], m_data_event_map := ds\<rparr>) e2
      = (?z\<lparr>m_child_event_map := [], m_data_event_map := ds, m_child_event_map := cs\<rparr>, e3)"
    "map_of cs = map_of (m_child_event_map z) |` {p. rc' p = zoo_rc_val z_ok}"
    using rewatch_children_result [of api "?z\<lparr>m_child_event_map := [], m_data_event_map := ds\<rparr>" rc' "m_child_event_map z" e2]
      assms(1,4) by (auto simp: zk_inv_def)
  show ?thesis
    using c d k by (simp add: on_session_expired_def zk_reconnect_def get_data_event_handler_def get_child_event_handler_def
        restrict_map_def Let_def)
qed

theorem zk_reconnect_rewatches_witness:
  "\<exists>z'. on_session_expired (demo_api [''/a'' \<mapsto> ''v''])
      \<lparr>m_zh = 3, m_url = ''127.0.0.1:2181'', m_data_event_map = [(''/a'', 1), (''/b'', 2 :: nat)], m_child_event_map = []\<rparr> ()
     = Some (Call_none, z', ()) \<and> m_zh z' = 7 \<and> get_data_event_handler ''/a'' z' = Some 1 \<and> get_data_event_handler ''/b'' z' = None"
proof -
  let ?z = "\<lparr>m_zh = 3, m_url = ''127.0.0.1:2181'', m_data_event_map = [(''/a'', 1), (''/b'', 2 :: nat)], m_child_event_map = []\<rparr>"
  have "zk_inv ?z" by (simp add: zk_inv_def)
  from zk_reconnect_rewatches [OF this, of "demo_api [''/a'' \<mapsto> ''v'']" 7, OF _ demo_api_answers, of "()"]
  show ?thesis by (auto simp: demo_api_def get_data_event_handler_def)
qed

end
