(* ===== verification/Rpc_Registry.thy ===== *)
theory Rpc_Registry
  imports Zk_Client
begin

text \<open>
  Service discovery: \<open>RpcRegistry\<close> (src/src/rpc_registry.h, src/src/rpc_registry.cpp). A server creates the node
  \<open>/service.method/ip:port\<close>; a client lists the children of \<open>/service.method\<close> once, keeps the list and picks an
  entry at random. The watch handler the registry installs only logs, so the type of handlers is \<open>unit\<close>.
\<close>

section \<open>Addresses\<close>

datatype stoi_error = Invalid_argument | Out_of_range

definition is_space :: "char \<Rightarrow> bool" where
  "is_space c \<longleftrightarrow> c \<in> {CHR '' '', CHR 0x09, CHR 0x0A, CHR 0x0B, CHR 0x0C, CHR 0x0D}"

definition is_digit :: "char \<Rightarrow> bool" where
  "is_digit c \<longleftrightarrow> 48 \<le> (of_char c :: nat) \<and> (of_char c :: nat) \<le> 57"

definition digits_val :: "string \<Rightarrow> nat" where
  "digits_val ds = foldl (\<lambda>n c. 10 * n + (of_char c - 48)) 0 ds"

text \<open>\<open>std::stoi\<close>: white space, a sign, the longest run of digits; what follows is ignored.\<close>

definition stoi_num :: "bool \<Rightarrow> string \<Rightarrow> stoi_error + int" where
  "stoi_num neg s =
     (let ds = takeWhile is_digit s; v = (if neg then - int (digits_val ds) else int (digits_val ds))
      in if ds = [] then Inl Invalid_argument
         else if v < - (2 ^ 31) \<or> 2 ^ 31 - 1 < v then Inl Out_of_range else Inr v)"

definition stoi :: "string \<Rightarrow> stoi_error + int" where
  "stoi s = (case dropWhile is_space s of
       [] \<Rightarrow> Inl Invalid_argument
     | c # cs \<Rightarrow> if c = CHR ''-'' then stoi_num True cs
                 else if c = CHR ''+'' then stoi_num False cs else stoi_num False (c # cs))"

record service_addr =
  sa_ip :: string
  sa_port :: int

definition no_addr :: service_addr where
  "no_addr = \<lparr>sa_ip = [], sa_port = 0\<rparr>"

definition ParseServiceAddr :: "string \<Rightarrow> stoi_error + service_addr" where
  "ParseServiceAddr path =
     (if CHR '':'' \<notin> set path then Inr no_addr
      else let ip = takeWhile (\<lambda>c. c \<noteq> CHR '':'') path
           in case stoi (drop (length ip + 1) path) of
                Inl err \<Rightarrow> Inl err
              | Inr port \<Rightarrow> Inr \<lparr>sa_ip = ip, sa_port = port\<rparr>)"

section \<open>The registry\<close>

record registry =
  rr_client :: "unit zk_cpp"
  rr_services :: "string \<rightharpoonup> string list"

definition RpcRegistry_new :: registry where
  "RpcRegistry_new = \<lparr>rr_client = zk_new, rr_services = Map.empty\<rparr>"

definition RpcRegistry_Connect :: "'e zoo_api \<Rightarrow> string \<Rightarrow> registry \<Rightarrow> 'e \<Rightarrow> int \<times> registry \<times> 'e" where
  "RpcRegistry_Connect api url r e =
     (let (ret, z, e) = zk_connect api url (rr_client r) e; r = r\<lparr>rr_client := z\<rparr>
      in if ret \<noteq> zoo_rc_val z_ok then (LLBC_FAILED, r, e) else (LLBC_OK, r, e))"

definition RegisterService :: "'e zoo_api \<Rightarrow> string \<Rightarrow> string \<Rightarrow> registry \<Rightarrow> 'e \<Rightarrow> int \<times> 'e" where
  "RegisterService api svc_md addr r e =
     (let acl = [create_world_acl zoo_perm_all]; path = ''/'' @ svc_md;
          (ret, e) = create_persistent_node api path '''' acl (rr_client r) e
      in if ret \<noteq> zoo_rc_val z_node_exists \<and> ret \<noteq> zoo_rc_val z_ok then (LLBC_FAILED, e)
         else let (ret, e) = create_ephemeral_node api (path @ ''/'' @ addr) '''' acl (rr_client r) e
              in if ret \<noteq> zoo_rc_val z_node_exists \<and> ret \<noteq> zoo_rc_val z_ok then (LLBC_FAILED, e) else (LLBC_OK, e))"

definition InitServices :: "'e zoo_api \<Rightarrow> string \<Rightarrow> registry \<Rightarrow> 'e \<Rightarrow> int \<times> registry \<times> 'e" where
  "InitServices api svc_md r e =
     (if rr_services r svc_md \<noteq> None then (LLBC_OK, r, e)
      else let path = ''/'' @ svc_md; (ret, children, e) = get_children api path [] False (rr_client r) e
           in if ret \<noteq> zoo_rc_val z_ok then (LLBC_FAILED, r, e)
              else let r = r\<lparr>rr_services := (rr_services r)(svc_md \<mapsto> children)\<rparr>;
                       (ret, out, z, e) = watch_children_event api path () (rr_client r) e;
                       r = r\<lparr>rr_client := z\<rparr>;
                       r = (case out of None \<Rightarrow> r | Some cs \<Rightarrow> r\<lparr>rr_services := (rr_services r)(svc_md \<mapsto> cs)\<rparr>)
                   in if ret \<noteq> zoo_rc_val z_ok then (LLBC_FAILED, r, e) else (LLBC_OK, r, e))"

text \<open>\<open>rnd\<close> is the value of \<open>rand()\<close>. \<open>services[svc_md]\<close> creates an empty list if there is none.\<close>

definition GetRandomService ::
    "'e zoo_api \<Rightarrow> nat \<Rightarrow> string \<Rightarrow> registry \<Rightarrow> 'e \<Rightarrow> (stoi_error + service_addr) \<times> registry \<times> 'e" where
  "GetRandomService api rnd svc_md r e =
     (case InitServices api svc_md r e of (ret, r, e) \<Rightarrow>
        if ret \<noteq> LLBC_OK then (Inr no_addr, r, e)
        else case rr_services r svc_md of
               None \<Rightarrow> (Inr no_addr, r\<lparr>rr_services := (rr_services r)(svc_md \<mapsto> [])\<rparr>, e)
             | Some addrs \<Rightarrow>
                 (if addrs = [] then (Inr no_addr, r, e)
                  else (ParseServiceAddr (addrs ! (rnd mod length addrs)), r, e)))"

text \<open>An event of the ZooKeeper client; the only handler there is does nothing to the registry.\<close>

definition registry_event :: "'e zoo_api \<Rightarrow> int \<Rightarrow> int \<Rightarrow> string \<Rightarrow> registry \<Rightarrow> 'e \<Rightarrow> (registry \<times> 'e) option" where
  "registry_event api type state path r e =
     map_option (\<lambda>(_, z, e). (r\<lparr>rr_client := z\<rparr>, e)) (zookeeper_watch_func api type state path (rr_client r) e)"

section \<open>What is used of ZooKeeper\<close>

text \<open>\<open>kids e p\<close> are the names of the children of the node \<open>p\<close>: creating \<open>p/c\<close> with success, or finding that it
  exists, makes \<open>c\<close> a child of \<open>p\<close>, adds no other child and removes none; listing the children of a node gives
  them and changes nothing.\<close>

definition zoo_tree :: "'e zoo_api \<Rightarrow> nat set \<Rightarrow> ('e \<Rightarrow> string \<Rightarrow> string set) \<Rightarrow> bool" where
  "zoo_tree api hs kids \<longleftrightarrow>
     (\<forall>h \<in> hs. \<forall>p c v a f n e rt out e'. zoo_create api h (p @ ''/'' @ c) v a f n e = (rt, out, e') \<longrightarrow> CHR ''/'' \<notin> set c \<longrightarrow>
        kids e' = (if rt = zoo_rc_val z_ok \<or> rt = zoo_rc_val z_node_exists then (kids e)(p := insert c (kids e p)) else kids e))
   \<and> (\<forall>h \<in> hs. \<forall>p w e rt cs e'. zoo_get_children api h p w e = (rt, cs, e') \<longrightarrow>
        kids e' = kids e \<and> (rt = zoo_rc_val z_ok \<longrightarrow> set cs = kids e p))"

text \<open>Runs of one registry: its operations, the events of its client, and changes others make in ZooKeeper.\<close>

inductive registry_step :: "'e zoo_api \<Rightarrow> registry \<times> 'e \<Rightarrow> registry \<times> 'e \<Rightarrow> bool" for api where
  reg_connect: "RpcRegistry_Connect api url r e = (ret, r', e') \<Longrightarrow> registry_step api (r, e) (r', e')"
| reg_register: "RegisterService api svc_md addr r e = (ret, e') \<Longrightarrow> registry_step api (r, e) (r, e')"
| reg_init: "InitServices api svc_md r e = (ret, r', e') \<Longrightarrow> registry_step api (r, e) (r', e')"
| reg_random: "GetRandomService api rnd svc_md r e = (a, r', e') \<Longrightarrow> registry_step api (r, e) (r', e')"
| reg_event: "registry_event api type state path r e = Some (r', e') \<Longrightarrow> registry_step api (r, e) (r', e')"
| reg_other: "registry_step api (r, e) (r, e')"

text \<open>A ZooKeeper service as a list of nodes, each with its parent and its name, for examples.\<close>

definition split_path :: "string \<Rightarrow> string \<times> string" where
  "split_path path = (rev (drop 1 (dropWhile (\<lambda>c. c \<noteq> CHR ''/'') (rev path))), rev (takeWhile (\<lambda>c. c \<noteq> CHR ''/'') (rev path)))"

definition has_node :: "(string \<times> string) list \<Rightarrow> string \<Rightarrow> bool" where
  "has_node e path \<longleftrightarrow> path = [] \<or> split_path path \<in> set e"

definition tree_api :: "(string \<times> string) list zoo_api" where
  "tree_api = \<lparr>zookeeper_init = (\<lambda>url t e. (7, e)), zookeeper_close = (\<lambda>h e. e),
     zoo_recv_timeout = (\<lambda>h e. 10000), zoo_state_of = (\<lambda>h e. 3), is_unrecoverable = (\<lambda>h e. 0),
     zoo_create = (\<lambda>h p v a f n e.
        if split_path p \<in> set e then (zoo_rc_val z_node_exists, [], e)
        else if has_node e (fst (split_path p)) then (zoo_rc_val z_ok, [], split_path p # e)
        else (zoo_rc_val z_no_node, [], e)),
     zoo_delete = (\<lambda>h p v e. (zoo_rc_val z_no_auth, e)),
     zoo_exists = (\<lambda>h p w e. (if has_node e p then zoo_rc_val z_ok else zoo_rc_val z_no_node, None, e)),
     zoo_get = (\<lambda>h p w n e. (if has_node e p then zoo_rc_val z_ok else zoo_rc_val z_no_node, [], 0,
        \<lparr>zs_ctime = 0, zs_mtime = 0, zs_version = 0, zs_dataLength = 0, zs_numChildren = 0\<rparr>, e)),
     zoo_set = (\<lambda>h p v ver e. (zoo_rc_val z_no_auth, e)),
     zoo_get_children = (\<lambda>h p w e.
        if has_node e p then (zoo_rc_val z_ok, map snd (filter (\<lambda>(q, c). q = p) e), e) else (zoo_rc_val z_no_node, [], e)),
     zoo_set_acl = (\<lambda>h p v a e. (zoo_rc_val z_no_auth, e)), zoo_get_acl = (\<lambda>h p e. (zoo_rc_val z_no_auth, [], e)),
     zoo_add_auth = (\<lambda>h s c e. (zoo_rc_val z_no_auth, e)), zoo_const = demo_consts\<rparr>"

definition tree_kids :: "(string \<times> string) list \<Rightarrow> string \<Rightarrow> string set" where
  "tree_kids e p = {c. (p, c) \<in> set e}"

section \<open>Lemmas\<close>

lemma of_char_digit: "d < 10 \<Longrightarrow> (of_char (digit_char d) :: nat) = 48 + d"
  by (simp add: digit_char_def)

lemma digits_val_snoc: "digits_val (ds @ [c]) = 10 * digits_val ds + (of_char c - 48)"
  by (simp add: digits_val_def)

lemma dec_str_digits: "list_all is_digit (dec_str n)"
proof (induction n rule: dec_str.induct)
  case (1 n)
  show ?case
  proof (cases "n < 10")
    case True
    then show ?thesis by (simp add: dec_str.simps [of n] is_digit_def of_char_digit)
  next
    case False
    moreover have "n mod 10 < 10" by simp
    ultimately show ?thesis using 1 by (simp add: dec_str.simps [of n] is_digit_def of_char_digit)
  qed
qed

lemma dec_str_val: "digits_val (dec_str n) = n"
proof (induction n rule: dec_str.induct)
  case (1 n)
  show ?case
  proof (cases "n < 10")
    case True
    then show ?thesis by (simp add: dec_str.simps [of n] digits_val_def of_char_digit)
  next
    case False
    moreover have "n mod 10 < 10" by simp
    ultimately show ?thesis using 1 by (simp add: dec_str.simps [of n] digits_val_snoc of_char_digit)
  qed
qed

lemma stoi_dec_str:
  assumes "n < 2 ^ 31"
  shows "stoi (dec_str n) = Inr (int n)"
proof -
  have all: "\<forall>c \<in> set (dec_str n). is_digit c" using dec_str_digits [of n] by (simp add: list_all_iff)
  obtain c cs where d: "dec_str n = c # cs" by (cases "dec_str n") (auto simp: dec_str.simps [of n] split: if_splits)
  then have "is_digit c" using all by simp
  then have "\<not> is_space c" "c \<noteq> CHR ''-''" "c \<noteq> CHR ''+''" by (auto simp: is_digit_def is_space_def)
  moreover have "takeWhile is_digit (dec_str n) = dec_str n" using all by (simp add: takeWhile_eq_all_conv)
  ultimately show ?thesis using d assms dec_str_val [of n] by (simp add: stoi_def stoi_num_def Let_def)
qed

lemma parse_addr:
  assumes "CHR '':'' \<notin> set ip" "port < 2 ^ 31"
  shows "ParseServiceAddr (ip @ '':'' @ dec_str port) = Inr \<lparr>sa_ip = ip, sa_port = int port\<rparr>"
proof -
  have "takeWhile (\<lambda>c. c \<noteq> CHR '':'') (ip @ '':'' @ dec_str port) = ip"
    using assms(1) by (simp add: takeWhile_until)
  then show ?thesis using stoi_dec_str [OF assms(2)] by (simp add: ParseServiceAddr_def Let_def)
qed

lemma dec_str_no_slash: "CHR ''/'' \<notin> set (dec_str n)"
  using dec_str_digits [of n] by (auto simp: list_all_iff is_digit_def)

lemma InitServices_cached: "rr_services r svc = Some xs \<Longrightarrow> InitServices api svc r e = (LLBC_OK, r, e)"
  by (simp add: InitServices_def)

text \<open>A successful first lookup asks ZooKeeper twice and keeps the second answer.\<close>

lemma InitServices_ok:
  assumes "InitServices api svc r e = (LLBC_OK, r', e')" "rr_services r svc = None"
  obtains cs e1 ds where "zoo_get_children api (m_zh (rr_client r)) (''/'' @ svc) False e = (zoo_rc_val z_ok, cs, e1)"
    "zoo_get_children api (m_zh (rr_client r)) (''/'' @ svc) True e1 = (zoo_rc_val z_ok, ds, e')"
    "rr_services r' svc = Some ds"
  using assms
  by (auto simp: InitServices_def get_children_def watch_children_event_def Let_def split: prod.splits if_splits)

lemma GetRandomService_some:
  assumes "InitServices api svc r e = (LLBC_OK, r', e')" "rr_services r' svc = Some xs" "xs \<noteq> []"
  shows "GetRandomService api rnd svc r e = (ParseServiceAddr (xs ! (rnd mod length xs)), r', e')"
  using assms by (simp add: GetRandomService_def)

lemma InitServices_keeps:
  assumes "InitServices api svc' r e = (ret, r', e')" "rr_services r svc = Some xs"
  shows "rr_services r' svc = Some xs"
  using assms by (cases "svc = svc'")
    (auto simp: InitServices_def get_children_def watch_children_event_def Let_def split: prod.splits if_splits option.splits)

lemma GetRandomService_keeps:
  assumes "GetRandomService api rnd svc' r e = (a, r', e')" "rr_services r svc = Some xs"
  shows "rr_services r' svc = Some xs"
proof -
  obtain ret r1 e1 where i: "InitServices api svc' r e = (ret, r1, e1)" by (metis surj_pair)
  note k = InitServices_keeps [OF i assms(2)]
  then have "rr_services r' = rr_services r1 \<or> svc' \<noteq> svc \<and> rr_services r' = (rr_services r1)(svc' \<mapsto> [])"
    using assms(1) i by (auto simp: GetRandomService_def split: if_splits option.splits)
  with k show ?thesis by auto
qed

lemma registry_step_keeps:
  assumes "registry_step api s t" "rr_services (fst s) svc = Some xs"
  shows "rr_services (fst t) svc = Some xs"
  using assms(1)
proof cases
  case (reg_connect url r e ret r' e')
  then show ?thesis using assms(2) by (auto simp: RpcRegistry_Connect_def Let_def split: prod.splits if_splits)
next
  case (reg_event type state path r e r' e')
  then show ?thesis using assms(2) by (auto simp: registry_event_def)
qed (use assms(2) in \<open>auto intro: InitServices_keeps GetRandomService_keeps\<close>)

interpretation registry_run: transition_invariant
    "\<lambda>s. rr_services (fst s) svc = Some xs" "registry_step api" "\<lambda>s. rr_services (fst s) svc = Some xs" for api svc xs
  by unfold_locales (auto intro: registry_step_keeps)

text \<open>Registration in terms of the tree.\<close>

lemma RegisterService_kids:
  assumes "zoo_tree api hs kids" "m_zh (rr_client r) \<in> hs" "RegisterService api svc addr r e = (LLBC_OK, e')"
    and "CHR ''/'' \<notin> set svc" "CHR ''/'' \<notin> set addr"
  shows "kids e' (''/'' @ svc) = insert addr (kids e (''/'' @ svc))"
    and "p \<noteq> [] \<Longrightarrow> p \<noteq> ''/'' @ svc \<Longrightarrow> kids e' p = kids e p"
proof -
  let ?h = "m_zh (rr_client r)" and ?acl = "[create_world_acl zoo_perm_all]"
  obtain rt o1 e1 where 1: "zoo_create api ?h ([] @ ''/'' @ svc) [] ?acl 0 0 e = (rt, o1, e1)"
    by (metis surj_pair)
  obtain rt' o2 e2 where 2: "zoo_create api ?h ((''/'' @ svc) @ ''/'' @ addr) [] ?acl (ZOO_EPHEMERAL (zoo_const api)) 0 e1 = (rt', o2, e2)"
    by (metis surj_pair)
  have ok: "e2 = e'" "rt \<in> {0, -110}" "rt' \<in> {0, -110}"
    using assms(3) 1 2
    by (auto simp: RegisterService_def create_persistent_node_def create_ephemeral_node_def create_node_def Let_def
        split: if_splits)
  have create: "kids e' = (if rt = zoo_rc_val z_ok \<or> rt = zoo_rc_val z_node_exists then (kids e)(p := insert c (kids e p)) else kids e)"
    if "zoo_create api ?h (p @ ''/'' @ c) v a f n e = (rt, out, e')" "CHR ''/'' \<notin> set c" for p c v a f n e rt out e'
    using assms(1,2) that unfolding zoo_tree_def by blast
  have "kids e1 = (kids e)([] := insert svc (kids e []))" using create [OF 1 assms(4)] ok(2) by auto
  moreover have "kids e2 = (kids e1)(''/'' @ svc := insert addr (kids e1 (''/'' @ svc)))" using create [OF 2 assms(5)] ok(3) by auto
  ultimately show "kids e' (''/'' @ svc) = insert addr (kids e (''/'' @ svc))" "p \<noteq> [] \<Longrightarrow> p \<noteq> ''/'' @ svc \<Longrightarrow> kids e' p = kids e p"
    using ok(1) by simp_all
qed

lemma split_path_append:
  assumes "CHR ''/'' \<notin> set c"
  shows "split_path (p @ ''/'' @ c) = (p, c)"
proof -
  have "CHR ''/'' \<notin> set (rev c)" using assms by simp
  then show ?thesis by (simp add: split_path_def takeWhile_until dropWhile_until)
qed

lemma tree_api_tree: "zoo_tree tree_api UNIV tree_kids"
  unfolding zoo_tree_def
proof (intro conjI ballI allI impI)
  fix h p c v a f n e rt out e'
  assume "zoo_create tree_api h (p @ ''/'' @ c) v a f n e = (rt, out, e')" "CHR ''/'' \<notin> set c"
  then show "tree_kids e' = (if rt = zoo_rc_val z_ok \<or> rt = zoo_rc_val z_node_exists
      then (tree_kids e)(p := insert c (tree_kids e p)) else tree_kids e)"
    using split_path_append [of c p] by (auto simp: tree_api_def tree_kids_def fun_eq_iff split: if_splits)
qed (auto simp: tree_api_def tree_kids_def image_iff split: if_splits)

text \<open>A first lookup sees the children that are there.\<close>

lemma lookup_registered:
  assumes "zoo_tree api hs kids" "m_zh (rr_client r) \<in> hs" "InitServices api svc r e = (LLBC_OK, r', e')"
    and "rr_services r svc = None" "kids e (''/'' @ svc) \<noteq> {}"
  obtains ds where "set ds = kids e (''/'' @ svc)" "rr_services r' svc = Some ds"
    "GetRandomService api rnd svc r e = (ParseServiceAddr (ds ! (rnd mod length ds)), r', e')"
proof -
  obtain cs e1 ds where q: "zoo_get_children api (m_zh (rr_client r)) (''/'' @ svc) False e = (zoo_rc_val z_ok, cs, e1)"
    "zoo_get_children api (m_zh (rr_client r)) (''/'' @ svc) True e1 = (zoo_rc_val z_ok, ds, e')" "rr_services r' svc = Some ds"
    using InitServices_ok [OF assms(3,4)] by metis
  have list: "kids e' = kids e \<and> (rt = zoo_rc_val z_ok \<longrightarrow> set cs = kids e p)"
    if "zoo_get_children api (m_zh (rr_client r)) p w e = (rt, cs, e')" for p w e rt cs e'
    using assms(1,2) that unfolding zoo_tree_def by blast
  have ds: "set ds = kids e (''/'' @ svc)" using list [OF q(1)] list [OF q(2)] by simp
  then have "ds \<noteq> []" using assms(5) by auto
  from that [OF ds q(3) GetRandomService_some [OF assms(3) q(3) this]] show ?thesis .
qed

section \<open>Properties\<close>



text \<open>The list of addresses found by the first lookup is used for every later one, whatever happens in ZooKeeper and
  whatever events arrive: servers that start later are never found and servers that have gone stay in the list.\<close>

theorem registry_cache_never_refreshed:
  assumes "reaches (registry_step api) (r, e) (r', e')" "rr_services r svc = Some xs" "xs \<noteq> []"
  shows "GetRandomService api rnd svc r' e' = (ParseServiceAddr (xs ! (rnd mod length xs)), r', e')"
proof -
  have "rr_services r' svc = Some xs"
    using registry_run.inv_reachable [of "(r, e)" svc xs api "(r', e')"] assms(1,2) by simp
  then show ?thesis by (intro GetRandomService_some InitServices_cached assms(3))
qed

theorem registry_cache_never_refreshed_witness:
  "GetRandomService tree_api 41 ''Echo'' (RpcRegistry_new\<lparr>rr_services := [''Echo'' \<mapsto> [''1.2.3.4:80'']]\<rparr>) [(''/Echo'', ''5.6.7.8:90''), ([], ''Echo'')]
     = (ParseServiceAddr ''1.2.3.4:80'', RpcRegistry_new\<lparr>rr_services := [''Echo'' \<mapsto> [''1.2.3.4:80'']]\<rparr>, [(''/Echo'', ''5.6.7.8:90''), ([], ''Echo'')])"
proof -
  let ?r = "RpcRegistry_new\<lparr>rr_services := [''Echo'' \<mapsto> [''1.2.3.4:80'']]\<rparr>"
  let ?e = "[(''/Echo'', ''5.6.7.8:90''), ([], ''Echo'')]"
  have "reaches (registry_step tree_api) (?r, []) (?r, ?e)" by (blast intro: reg_other)
  from registry_cache_never_refreshed [OF this, of "''Echo''" "[''1.2.3.4:80'']" 41] show ?thesis by simp
qed

text \<open>If the watch cannot be set, \<open>InitServices\<close> fails but has stored the list, so that the next call succeeds
  without a watch.\<close>

theorem registry_watch_failure_forgotten:
  assumes "rr_services r svc = None"
    and "zoo_get_children api (m_zh (rr_client r)) (''/'' @ svc) False e = (zoo_rc_val z_ok, cs, e1)"
    and "zoo_get_children api (m_zh (rr_client r)) (''/'' @ svc) True e1 = (rt, ds, e2)" "rt \<noteq> zoo_rc_val z_ok"
  shows "\<exists>r'. InitServices api svc r e = (LLBC_FAILED, r', e2) \<and> rr_client r' = rr_client r
    \<and> InitServices api svc r' e3 = (LLBC_OK, r', e3) \<and> rr_services r' svc = Some cs"
  using assms by (simp add: InitServices_def get_children_def watch_children_event_def Let_def)

theorem registry_watch_failure_forgotten_witness:
  "\<exists>api r'. InitServices api ''Echo'' RpcRegistry_new () = (LLBC_FAILED, r', ()) \<and> InitServices api ''Echo'' r' () = (LLBC_OK, r', ())"
proof -
  let ?api = "(demo_api Map.empty)\<lparr>zoo_get_children := \<lambda>h p w e. (if w then -4 else 0, [], e)\<rparr>"
  show ?thesis
    using registry_watch_failure_forgotten [of RpcRegistry_new "''Echo''" ?api "()" "[]" "()" "-4" "[]" "()" "()"]
    by (intro exI [of _ ?api]) (auto simp: RpcRegistry_new_def)
qed

text \<open>\<open>Connect\<close> reports success for every ZooKeeper library and server, also when \<open>zookeeper_init\<close> has returned
  \<open>NULL\<close>.\<close>

theorem registry_connect_always_ok:
  "fst (RpcRegistry_Connect api url r e) = LLBC_OK
    \<and> ((\<forall>t e. fst (zookeeper_init api url t e) = 0) \<longrightarrow> m_zh (rr_client (fst (snd (RpcRegistry_Connect api url r e)))) = 0)"
proof -
  obtain e0 where "zk_connect api url (rr_client r) e = (zoo_rc_val z_ok,
     (rr_client r)\<lparr>m_url := url, m_zh := fst (zookeeper_init api url zoo_recv_time_out e0)\<rparr>, snd (zookeeper_init api url zoo_recv_time_out e0))"
    using zk_connect_result [of api url "rr_client r" e] by blast
  then show ?thesis by (simp add: RpcRegistry_Connect_def Let_def)
qed

theorem registry_connect_always_ok_witness:
  "fst (RpcRegistry_Connect ((demo_api Map.empty)\<lparr>zookeeper_init := \<lambda>url t e. (0, e)\<rparr>) ''127.0.0.1:2181'' RpcRegistry_new ()) = LLBC_OK
    \<and> m_zh (rr_client (fst (snd (RpcRegistry_Connect ((demo_api Map.empty)\<lparr>zookeeper_init := \<lambda>url t e. (0, e)\<rparr>) ''127.0.0.1:2181'' RpcRegistry_new ())))) = 0"
  using registry_connect_always_ok [of "(demo_api Map.empty)\<lparr>zookeeper_init := \<lambda>url t e. (0, e)\<rparr>" "''127.0.0.1:2181''" RpcRegistry_new "()"]
  by simp

end
