(* ===== verification/Rpc_Service.thy ===== *)
theory Rpc_Service
  imports Rpc_Channel Rpc_Registry
begin

text \<open>
  \<open>RpcServiceMgr\<close> (src/src/rpc_service_mgr.h, src/src/rpc_service_mgr.cpp): the table of services, the channels, and the
  handlers of request and response packets. Application code and the protobuf runtime are the argument \<open>app\<close>:
  serialisation, prototypes, descriptors, the service implementations and what a resumed coroutine does.
  \<open>pool_ok\<close> says whether the object pool returns a packet.
\<close>

section \<open>State\<close>

record svc_info =
  si_service :: nat
  si_md :: method_desc

record ('m, 'e) svc_world = "'m msg_world" +
  sw_conn_mgr :: bool
  sw_registry :: "registry option"
  sw_methods :: "string \<rightharpoonup> (string \<rightharpoonup> svc_info)"
  sw_channels :: "string \<rightharpoonup> cint"
  sw_zoo :: 'e

text \<open>\<open>app_call s md ctrl req rsp run\<close> is \<open>service->CallMethod(md, controller, req, rsp, done)\<close>, where \<open>run\<close> is the
  effect of \<open>done->Run()\<close>.\<close>

record ('m, 'w) rpc_app =
  app_ser :: "'m \<Rightarrow> byte list"
  app_parse :: "'m \<Rightarrow> byte list \<Rightarrow> 'm option"
  app_name :: "nat \<Rightarrow> string"
  app_methods :: "nat \<Rightarrow> method_desc list"
  app_req_proto :: "nat \<Rightarrow> method_desc \<Rightarrow> 'm"
  app_rsp_proto :: "nat \<Rightarrow> method_desc \<Rightarrow> 'm"
  app_call :: "nat \<Rightarrow> method_desc \<Rightarrow> nat \<Rightarrow> nat \<Rightarrow> nat \<Rightarrow> ('w \<Rightarrow> 'w) \<Rightarrow> 'w \<Rightarrow> 'w"
  app_resume :: "nat \<Rightarrow> 'w \<Rightarrow> 'w"

section \<open>Objects\<close>

definition fault :: "'z coro_world_scheme \<Rightarrow> 'z coro_world_scheme" where
  "fault w = w\<lparr>cw_fault := True\<rparr>"

definition alloc_msg :: "'m \<Rightarrow> ('m, 'z) msg_world_scheme \<Rightarrow> nat \<times> ('m, 'z) msg_world_scheme" where
  "alloc_msg m w = (rw_next w, w\<lparr>mw_msgs := (mw_msgs w)(rw_next w \<mapsto> m), rw_next := rw_next w + 1\<rparr>)"

definition alloc_ctrl :: "controller \<Rightarrow> 'z rpc_world_scheme \<Rightarrow> nat \<times> 'z rpc_world_scheme" where
  "alloc_ctrl c w = (rw_next w, w\<lparr>cw_ctrl := (cw_ctrl w)(rw_next w \<mapsto> c), rw_next := rw_next w + 1\<rparr>)"

text \<open>\<open>delete\<close> of a null pointer does nothing, of a dead object is a fault.\<close>

definition delete_msg :: "nat \<Rightarrow> ('m, 'z) msg_world_scheme \<Rightarrow> ('m, 'z) msg_world_scheme" where
  "delete_msg a w = (if a = 0 then w else if mw_msgs w a = None then fault w
     else w\<lparr>mw_msgs := (mw_msgs w)(a := None)\<rparr>)"

definition delete_ctrl :: "nat \<Rightarrow> 'z coro_world_scheme \<Rightarrow> 'z coro_world_scheme" where
  "delete_ctrl a w = (if a = 0 then w else if cw_ctrl w a = None then fault w
     else w\<lparr>cw_ctrl := (cw_ctrl w)(a := None)\<rparr>)"

definition put_packet :: "nat \<Rightarrow> packet \<Rightarrow> 'z rpc_world_scheme \<Rightarrow> 'z rpc_world_scheme" where
  "put_packet a p w = w\<lparr>rw_packets := (rw_packets w)(a \<mapsto> p)\<rparr>"

section \<open>Services and channels\<close>

definition RpcServiceMgr_Init :: "'e zoo_api \<Rightarrow> bool \<Rightarrow> ('m, 'e, 'z) svc_world_scheme \<Rightarrow> int \<times> ('m, 'e, 'z) svc_world_scheme" where
  "RpcServiceMgr_Init api conn_mgr w =
     (let w = w\<lparr>sw_conn_mgr := conn_mgr\<rparr>;
          w = (if conn_mgr
               then snd (RpcConnMgr_Subscribe (opcode_val RpcRsp) Deleg_HandleRpcRsp
                      (snd (RpcConnMgr_Subscribe (opcode_val RpcReq) Deleg_HandleRpcReq w)))
               else w);
          (ret, r, e) = RpcRegistry_Connect api ''127.0.0.1:2181'' RpcRegistry_new (sw_zoo w)
      in (ret, w\<lparr>sw_registry := Some r, sw_zoo := e\<rparr>))"

definition set_method :: "string \<Rightarrow> string \<Rightarrow> svc_info \<Rightarrow> (string \<rightharpoonup> (string \<rightharpoonup> svc_info)) \<Rightarrow> (string \<rightharpoonup> (string \<rightharpoonup> svc_info))" where
  "set_method s m info t = t(s \<mapsto> (case t s of None \<Rightarrow> Map.empty | Some ms \<Rightarrow> ms)(m \<mapsto> info))"

fun add_methods :: "'e zoo_api \<Rightarrow> nat \<Rightarrow> string \<Rightarrow> method_desc list \<Rightarrow> ('m, 'e, 'z) svc_world_scheme \<Rightarrow> int \<times> ('m, 'e, 'z) svc_world_scheme" where
  "add_methods api service name [] w = (LLBC_OK, w)"
| "add_methods api service name (md # mds) w =
     (let w = w\<lparr>sw_methods := set_method name (md_name md) \<lparr>si_service = service, si_md = md\<rparr> (sw_methods w)\<rparr>
      in case sw_registry w of
           None \<Rightarrow> (LLBC_FAILED, fault w)
         | Some r \<Rightarrow>
             (if \<not> sw_conn_mgr w then (LLBC_FAILED, fault w)
              else let (ret, e) = RegisterService api (name @ ''.'' @ md_name md) (rw_ip w) r (sw_zoo w); w = w\<lparr>sw_zoo := e\<rparr>
                   in if ret \<noteq> LLBC_OK then (ret, w) else add_methods api service name mds w))"

definition AddService :: "('m, ('m, 'e, 'z) svc_world_scheme) rpc_app \<Rightarrow> 'e zoo_api \<Rightarrow> nat \<Rightarrow> ('m, 'e, 'z) svc_world_scheme \<Rightarrow> int \<times> ('m, 'e, 'z) svc_world_scheme" where
  "AddService app api service w = add_methods api service (app_name app service) (app_methods app service) w"

text \<open>\<open>std::to_string(int)\<close>.\<close>

definition int_str :: "int \<Rightarrow> string" where
  "int_str i = (if i < 0 then ''-'' @ dec_str (nat (- i)) else dec_str (nat i))"

text \<open>\<open>connected ip port\<close> is the session \<open>LLBC_Service::Connect\<close> returns, \<open>0\<close> on failure. The method is \<open>noexcept\<close>: the
  exception of \<open>stoi\<close>, the left value, ends the program.\<close>

definition RegisterRpcChannel ::
    "'e zoo_api \<Rightarrow> nat \<Rightarrow> (string \<Rightarrow> int \<Rightarrow> cint) \<Rightarrow> string \<Rightarrow> ('m, 'e, 'z) svc_world_scheme \<Rightarrow> (stoi_error + cint option) \<times> ('m, 'e, 'z) svc_world_scheme" where
  "RegisterRpcChannel api rnd connected svc_md w =
     (case sw_registry w of
        None \<Rightarrow> (Inr None, fault w)
      | Some r \<Rightarrow>
          (let (res, r, e) = GetRandomService api rnd svc_md r (sw_zoo w); w = w\<lparr>sw_registry := Some r, sw_zoo := e\<rparr>
           in case res of
                Inl err \<Rightarrow> (Inl err, w)
              | Inr addr \<Rightarrow>
                  (if sa_ip addr = [] \<or> sa_port addr = 0 then (Inr None, w)
                   else let key = sa_ip addr @ '':'' @ int_str (sa_port addr)
                        in case sw_channels w key of
                             Some ch \<Rightarrow> (Inr (Some ch), w)
                           | None \<Rightarrow>
                               (if \<not> sw_conn_mgr w then (Inr None, fault w)
                                else case RpcConnMgr_CreateRpcChannel (connected (sa_ip addr) (sa_port addr)) of
                                       Some ch \<Rightarrow> (Inr (Some ch), w\<lparr>sw_channels := (sw_channels w)(key \<mapsto> ch)\<rparr>)
                                     | None \<Rightarrow> (Inr None, w)))))"

section \<open>Requests\<close>

text \<open>\<open>OnRpcDone\<close>. A null controller is logged and then used. On the error paths and when the send queue is full the
  packet is neither queued nor recycled.\<close>

definition clean_up :: "nat \<Rightarrow> nat \<Rightarrow> nat \<Rightarrow> ('m, 'z) msg_world_scheme \<Rightarrow> ('m, 'z) msg_world_scheme" where
  "clean_up ca req rsp w = delete_ctrl ca (delete_msg rsp (delete_msg req w))"

definition OnRpcDone :: "('m \<Rightarrow> byte list) \<Rightarrow> bool \<Rightarrow> nat \<Rightarrow> nat \<Rightarrow> nat \<Rightarrow> ('m, 'z) msg_world_scheme \<Rightarrow> ('m, 'z) msg_world_scheme" where
  "OnRpcDone ser pool_ok ca req rsp w =
     (case cw_ctrl w ca of
        None \<Rightarrow> fault w
      | Some c \<Rightarrow>
          (if \<not> pool_ok then clean_up ca req rsp w
           else let (a, w) = alloc_packet Packet_from_pool w;
                    p = Packet_from_pool\<lparr>pk_opcode := opcode_val RpcRsp, pk_sessionId := rc_session_id c\<rparr>
                in case PkgHead_ToPacket (rc_pkg_head c) p of
                     None \<Rightarrow> fault w
                   | Some (ret, p) \<Rightarrow>
                       (if ret \<noteq> LLBC_OK then clean_up ca req rsp w
                        else let p = (if rc_isFailed c then p\<lparr>pk_status := -1\<rparr> else p)
                             in case mw_msgs w rsp of
                                  None \<Rightarrow> fault w
                                | Some m \<Rightarrow>
                                    (case Packet_Write_msg ser m p of
                                       None \<Rightarrow> fault w
                                     | Some (ret, p) \<Rightarrow>
                                         (if ret \<noteq> LLBC_OK then clean_up ca req rsp w
                                          else clean_up ca req rsp (snd (RpcConnMgr_SendPacket a (put_packet a p w))))))))"

definition HandleRpcReq ::
    "('m, ('m, 'e, 'z) svc_world_scheme) rpc_app \<Rightarrow> bool \<Rightarrow> nat \<Rightarrow> ('m, 'e, 'z) svc_world_scheme \<Rightarrow> ('m, 'e, 'z) svc_world_scheme" where
  "HandleRpcReq app pool_ok a w =
     (case rw_packets w a of
        None \<Rightarrow> fault w
      | Some packet \<Rightarrow>
          (case PkgHead_FromPacket packet of
             (Rd_undef, p) \<Rightarrow> fault w
           | (Rd_fail, p) \<Rightarrow> put_packet a p w
           | (Rd_ok pkg_head, p) \<Rightarrow>
               (let w = put_packet a p w
                in case Option.bind (sw_methods w (ph_service_name pkg_head)) (\<lambda>t. t (ph_method_name pkg_head)) of
                     None \<Rightarrow> w
                   | Some info \<Rightarrow>
                       (let service = si_service info; md = si_md info;
                            m0 = app_req_proto app service md;
                            (req, w) = alloc_msg m0 w
                        in case Packet_Read_msg (app_parse app m0) p of
                             (Rd_undef, p) \<Rightarrow> fault w
                           | (Rd_fail, p) \<Rightarrow> delete_msg req (put_packet a p w)
                           | (Rd_ok m, p) \<Rightarrow>
                               (let w = put_packet a p (w\<lparr>mw_msgs := (mw_msgs w)(req \<mapsto> m)\<rparr>);
                                    (rsp, w) = alloc_msg (app_rsp_proto app service md) w;
                                    (ca, w) = alloc_ctrl (RpcController_SetPkgHead pkg_head
                                        (RpcController_SetSessionID (pk_sessionId packet) (RpcController_new True))) w
                                in app_call app service md ca req rsp (OnRpcDone (app_ser app) pool_ok ca req rsp) w)))))"

section \<open>Responses\<close>

text \<open>The resumption and the log line after it, which asks the handle whether the coroutine is done.\<close>

definition resume_and_log :: "(nat \<Rightarrow> 'z coro_world_scheme \<Rightarrow> 'z coro_world_scheme) \<Rightarrow> coro_ctx \<Rightarrow> 'z coro_world_scheme \<Rightarrow> 'z coro_world_scheme" where
  "resume_and_log resume ctx w = handle_done ctx (handle_resume resume ctx w)"

definition HandleRpcRsp ::
    "('m, ('m, 'e, 'z) svc_world_scheme) rpc_app \<Rightarrow> nat \<Rightarrow> ('m, 'e, 'z) svc_world_scheme \<Rightarrow> ('m, 'e, 'z) svc_world_scheme" where
  "HandleRpcRsp app a w =
     (case rw_packets w a of
        None \<Rightarrow> fault w
      | Some packet \<Rightarrow>
          (case PkgHead_FromPacket packet of
             (Rd_undef, p) \<Rightarrow> fault w
           | (Rd_fail, p) \<Rightarrow> put_packet a p w
           | (Rd_ok pkg_head, p) \<Rightarrow>
               (let (ctx, w) = PopCoroContext (ph_seq pkg_head) (put_packet a p w)
                in if cx_handle ctx = 0 \<or> cx_controller ctx = 0 then w
                   else case cw_ctrl w (cx_controller ctx) of
                          None \<Rightarrow> fault w
                        | Some c \<Rightarrow>
                            (if \<not> rc_use_coro c then w
                             else if pk_status packet \<noteq> 0
                             then resume_and_log (app_resume app) ctx
                                    (with_ctrl (cx_controller ctx) (RpcController_SetFailed ''rpc failed'') w)
                             else if rc_isFailed c then resume_and_log (app_resume app) ctx w
                             else if cx_rsp ctx = 0 then resume_and_log (app_resume app) ctx w
                             else case mw_msgs w (cx_rsp ctx) of
                                    None \<Rightarrow> fault w
                                  | Some old \<Rightarrow>
                                      (case Packet_Read_msg (app_parse app old) p of
                                         (Rd_undef, p) \<Rightarrow> fault w
                                       | (Rd_fail, p) \<Rightarrow> KillCoro_ctx (app_resume app) ctx ''read rsp failed'' (put_packet a p w)
                                       | (Rd_ok m, p) \<Rightarrow>
                                           resume_and_log (app_resume app) ctx
                                             ((put_packet a p w)\<lparr>mw_msgs := (mw_msgs w)(cx_rsp ctx \<mapsto> m)\<rparr>))))))"

text \<open>The delegates of \<open>Tick\<close>.\<close>

definition dispatch ::
    "('m, ('m, 'e, 'z) svc_world_scheme) rpc_app \<Rightarrow> bool \<Rightarrow> (nat \<Rightarrow> nat \<Rightarrow> ('m, 'e, 'z) svc_world_scheme \<Rightarrow> ('m, 'e, 'z) svc_world_scheme) \<Rightarrow>
     deleg \<Rightarrow> nat \<Rightarrow> ('m, 'e, 'z) svc_world_scheme \<Rightarrow> ('m, 'e, 'z) svc_world_scheme" where
  "dispatch app pool_ok user d a w = (case d of
       Deleg_HandleRpcReq \<Rightarrow> HandleRpcReq app pool_ok a w
     | Deleg_HandleRpcRsp \<Rightarrow> HandleRpcRsp app a w
     | Deleg_user n \<Rightarrow> user n a w)"

section \<open>Specification\<close>

text \<open>The packet of a response.\<close>

definition is_response :: "('m \<Rightarrow> byte list) \<Rightarrow> cint \<Rightarrow> cint \<Rightarrow> pkg_head \<Rightarrow> 'm \<Rightarrow> packet \<Rightarrow> bool" where
  "is_response ser sid status h m p \<longleftrightarrow> pk_sessionId p = sid \<and> pk_opcode p = opcode_val RpcRsp \<and> pk_status p = status
     \<and> packet_repr p (head_enc h @ msg_enc ser m)"

text \<open>Addresses from \<open>rw_next\<close> on are unused, and \<open>0\<close> is no object.\<close>

definition heap_ok :: "('m, 'z) msg_world_scheme \<Rightarrow> bool" where
  "heap_ok w \<longleftrightarrow> 0 < rw_next w \<and> mw_msgs w 0 = None \<and> cw_ctrl w 0 = None
     \<and> (\<forall>a. rw_next w \<le> a \<longrightarrow> mw_msgs w a = None \<and> cw_ctrl w a = None)"

text \<open>A service implementation that answers at once: it computes the response from the request and runs \<open>done\<close>.\<close>

definition answers :: "('m, ('m, 'e, 'z) svc_world_scheme) rpc_app \<Rightarrow> svc_info \<Rightarrow> ('m \<Rightarrow> 'm) \<Rightarrow> bool" where
  "answers app info f \<longleftrightarrow> (\<forall>ca req rsp run w q. mw_msgs w req = Some q \<longrightarrow>
     app_call app (si_service info) (si_md info) ca req rsp run w = run (w\<lparr>mw_msgs := (mw_msgs w)(rsp \<mapsto> f q)\<rparr>))"

text \<open>An echo service, and a world with that service, one suspended coroutine and the packet \<open>p\<close> at address \<open>2\<close>.\<close>

definition echo_md :: method_desc where
  "echo_md = \<lparr>md_service = ''EchoService'', md_name = ''Echo''\<rparr>"

definition echo_app :: "(byte list, (byte list, 'e, 'z) svc_world_scheme) rpc_app" where
  "echo_app = \<lparr>app_ser = id, app_parse = (\<lambda>_. Some), app_name = (\<lambda>_. ''EchoService''), app_methods = (\<lambda>_. [echo_md]),
     app_req_proto = (\<lambda>_ _. []), app_rsp_proto = (\<lambda>_ _. []),
     app_call = (\<lambda>s md ca req rsp run w. run (w\<lparr>mw_msgs := (mw_msgs w)(rsp \<mapsto> the (mw_msgs w req))\<rparr>)),
     app_resume = (\<lambda>h w. w\<lparr>cw_frames := cw_frames w - {h}\<rparr>)\<rparr>"

definition echo_ctx :: coro_ctx where
  "echo_ctx = \<lparr>cx_uid = 1, cx_timeout = 10000, cx_handle = 8, cx_rsp = 7, cx_controller = 5\<rparr>"

definition echo_world :: "packet \<Rightarrow> 'e \<Rightarrow> (byte list, 'e) svc_world" where
  "echo_world p e = \<lparr>cw_suspended = [1 \<mapsto> echo_ctx],
     cw_heap = BinaryHeap_Insert contextCmp null_context echo_ctx (BinaryHeap_new null_context 256), cw_uid_generator = 1,
     cw_ctrl = [5 \<mapsto> (RpcController_new True)\<lparr>rc_coro_handle := 8\<rparr>], cw_frames = {8}, cw_log = [], cw_fault = False,
     rw_packets = [2 \<mapsto> p], rw_next = 10, rw_sendQueue = SPSC_new MAX_QUEUE_SIZE,
     rw_recvQueue = SPSC_new MAX_QUEUE_SIZE, rw_sent = [],
     rw_delegs = [opcode_val RpcReq \<mapsto> Deleg_HandleRpcReq, opcode_val RpcRsp \<mapsto> Deleg_HandleRpcRsp],
     rw_svc = True, rw_comp = True, rw_ip = ''127.0.0.1:6688'', rw_is_server = True, rw_server_sessionID = 1,
     mw_msgs = [7 \<mapsto> []], sw_conn_mgr = True, sw_registry = Some RpcRegistry_new,
     sw_methods = [''EchoService'' \<mapsto> [''Echo'' \<mapsto> \<lparr>si_service = 4, si_md = echo_md\<rparr>]], sw_channels = Map.empty, sw_zoo = e\<rparr>"

section \<open>Lemmas\<close>

lemma response_packet:
  assumes "head_ok h" "msg_ok ser m"
  shows "\<exists>p1 p2. PkgHead_ToPacket h (Packet_from_pool\<lparr>pk_opcode := opcode_val RpcRsp, pk_sessionId := sid\<rparr>) = Some (LLBC_OK, p1)
    \<and> Packet_Write_msg ser m (if failed then p1\<lparr>pk_status := -1\<rparr> else p1) = Some (LLBC_OK, p2)
    \<and> is_response ser sid (if failed then -1 else 0) h m p2"
proof -
  let ?p = "Packet_from_pool\<lparr>pk_opcode := opcode_val RpcRsp, pk_sessionId := sid\<rparr>"
  have "packet_repr ?p []" by (simp add: packet_repr_def Packet_from_pool_def Packet_new_def)
  from ToPacket_spec [OF this assms(1)] obtain b where 1: "PkgHead_ToPacket h ?p = Some (LLBC_OK, ?p\<lparr>pk_payload := Some b\<rparr>)"
    "mb_repr b (head_enc h)"
    by (auto simp: packet_writes_def)
  let ?p1 = "?p\<lparr>pk_payload := Some b\<rparr>"
  let ?p1' = "if failed then ?p1\<lparr>pk_status := -1\<rparr> else ?p1"
  have "packet_repr ?p1' (head_enc h)" using 1(2) by (simp add: packet_repr_def)
  from Packet_Write_msg_spec [OF this assms(2)] obtain b' where "Packet_Write_msg ser m ?p1' = Some (LLBC_OK, ?p1'\<lparr>pk_payload := Some b'\<rparr>)"
    "mb_repr b' (head_enc h @ msg_enc ser m)"
    by (auto simp: packet_writes_def)
  with 1(1) show ?thesis
    by (intro exI [of _ ?p1] exI [of _ "?p1'\<lparr>pk_payload := Some b'\<rparr>"])
       (simp add: is_response_def packet_repr_def Packet_from_pool_def Packet_new_def)
qed

lemma clean_up_ok:
  assumes "ca \<noteq> 0" "req \<noteq> 0" "rsp \<noteq> 0" "req \<noteq> rsp" "mw_msgs w req \<noteq> None" "mw_msgs w rsp \<noteq> None" "cw_ctrl w ca \<noteq> None"
  shows "clean_up ca req rsp w = w\<lparr>mw_msgs := (mw_msgs w)(req := None, rsp := None), cw_ctrl := (cw_ctrl w)(ca := None)\<rparr>"
  using assms by (auto simp: clean_up_def delete_msg_def delete_ctrl_def)

text \<open>The live objects of a request that is being answered.\<close>

definition in_progress :: "('m, 'z) msg_world_scheme \<Rightarrow> nat \<Rightarrow> controller \<Rightarrow> nat \<Rightarrow> nat \<Rightarrow> 'm \<Rightarrow> bool" where
  "in_progress w ca c req rsp m \<longleftrightarrow> ca \<noteq> 0 \<and> req \<noteq> 0 \<and> rsp \<noteq> 0 \<and> req \<noteq> rsp \<and> cw_ctrl w ca = Some c
     \<and> mw_msgs w req \<noteq> None \<and> mw_msgs w rsp = Some m"

definition rsp_status :: "controller \<Rightarrow> cint" where
  "rsp_status c = (if rc_isFailed c then -1 else 0)"

lemma OnRpcDone_room:
  assumes "conn_inv w" "length (send_list w) < MAX_QUEUE_SIZE - 1" "in_progress w ca c req rsp m"
    and "head_ok (rc_pkg_head c)" "msg_ok ser m"
  shows "\<exists>q p. OnRpcDone ser True ca req rsp w = w\<lparr>rw_next := rw_next w + 1,
      rw_packets := (rw_packets w)(rw_next w \<mapsto> p), rw_sendQueue := q,
      mw_msgs := (mw_msgs w)(req := None, rsp := None), cw_ctrl := (cw_ctrl w)(ca := None)\<rparr>
    \<and> spsc_inv MAX_QUEUE_SIZE q \<and> spsc_list MAX_QUEUE_SIZE q = send_list w @ [rw_next w]
    \<and> is_response ser (rc_session_id c) (rsp_status c) (rc_pkg_head c) m p"
proof -
  obtain p1 p2 where p: "PkgHead_ToPacket (rc_pkg_head c) (Packet_from_pool\<lparr>pk_opcode := opcode_val RpcRsp, pk_sessionId := rc_session_id c\<rparr>) = Some (LLBC_OK, p1)"
    "Packet_Write_msg ser m (if rc_isFailed c then p1\<lparr>pk_status := -1\<rparr> else p1) = Some (LLBC_OK, p2)"
    "is_response ser (rc_session_id c) (rsp_status c) (rc_pkg_head c) m p2"
    using response_packet [OF assms(4,5), of "rc_session_id c" "rc_isFailed c"] unfolding rsp_status_def by blast
  have "spsc_inv MAX_QUEUE_SIZE (rw_sendQueue w)" "rw_comp w" using assms(1) by (simp_all add: conn_inv_def)
  moreover obtain q where q: "SPSC_emplace MAX_QUEUE_SIZE (rw_next w) (rw_sendQueue w) = (True, q)"
    "spsc_inv MAX_QUEUE_SIZE q" "spsc_list MAX_QUEUE_SIZE q = send_list w @ [rw_next w]"
    using spsc.push_room [OF calculation(1) assms(2), of "rw_next w"] by blast
  ultimately have "OnRpcDone ser True ca req rsp w = clean_up ca req rsp (w\<lparr>rw_next := rw_next w + 1,
      rw_packets := (rw_packets w)(rw_next w \<mapsto> p2), rw_sendQueue := q\<rparr>)"
    using p assms(3) by (simp add: OnRpcDone_def alloc_packet_def RpcConnMgr_SendPacket_def PushSendPacket_def
        put_packet_def in_progress_def Let_def)
  also have "\<dots> = w\<lparr>rw_next := rw_next w + 1, rw_packets := (rw_packets w)(rw_next w \<mapsto> p2), rw_sendQueue := q,
      mw_msgs := (mw_msgs w)(req := None, rsp := None), cw_ctrl := (cw_ctrl w)(ca := None)\<rparr>"
    using assms(3) by (subst clean_up_ok) (auto simp: in_progress_def)
  finally show ?thesis using p(3) q(2,3) by blast
qed

lemma OnRpcDone_full:
  assumes "conn_inv w" "MAX_QUEUE_SIZE - 1 \<le> length (send_list w)" "in_progress w ca c req rsp m"
    and "head_ok (rc_pkg_head c)" "msg_ok ser m"
  shows "\<exists>p. OnRpcDone ser True ca req rsp w = w\<lparr>rw_next := rw_next w + 1,
      rw_packets := (rw_packets w)(rw_next w \<mapsto> p), mw_msgs := (mw_msgs w)(req := None, rsp := None), cw_ctrl := (cw_ctrl w)(ca := None)\<rparr>"
proof -
  obtain p1 p2 where p: "PkgHead_ToPacket (rc_pkg_head c) (Packet_from_pool\<lparr>pk_opcode := opcode_val RpcRsp, pk_sessionId := rc_session_id c\<rparr>) = Some (LLBC_OK, p1)"
    "Packet_Write_msg ser m (if rc_isFailed c then p1\<lparr>pk_status := -1\<rparr> else p1) = Some (LLBC_OK, p2)"
    using response_packet [OF assms(4,5), of "rc_session_id c" "rc_isFailed c"] by blast
  have w: "spsc_inv MAX_QUEUE_SIZE (rw_sendQueue w)" "rw_comp w" using assms(1) by (simp_all add: conn_inv_def)
  have "OnRpcDone ser True ca req rsp w = clean_up ca req rsp (w\<lparr>rw_next := rw_next w + 1, rw_packets := (rw_packets w)(rw_next w \<mapsto> p2)\<rparr>)"
    using p w assms(2,3) spsc.push_full [OF w(1), of "rw_next w"]
    by (simp add: OnRpcDone_def alloc_packet_def RpcConnMgr_SendPacket_def PushSendPacket_def
        put_packet_def in_progress_def Let_def)
  also have "\<dots> = w\<lparr>rw_next := rw_next w + 1, rw_packets := (rw_packets w)(rw_next w \<mapsto> p2),
      mw_msgs := (mw_msgs w)(req := None, rsp := None), cw_ctrl := (cw_ctrl w)(ca := None)\<rparr>"
    using assms(3) by (subst clean_up_ok) (auto simp: in_progress_def)
  finally show ?thesis by blast
qed

text \<open>What the handler of a request sees: the decoded request at \<open>n\<close>, a fresh response at \<open>n + 1\<close> and the controller
  with the head and session of the packet at \<open>n + 2\<close>.\<close>

definition req_ctrl :: "pkg_head \<Rightarrow> cint \<Rightarrow> controller" where
  "req_ctrl h sid = RpcController_SetPkgHead h (RpcController_SetSessionID sid (RpcController_new True))"

definition req_world :: "nat \<Rightarrow> packet \<Rightarrow> cint \<Rightarrow> pkg_head \<Rightarrow> 'm \<Rightarrow> 'm \<Rightarrow> ('m, 'z) msg_world_scheme \<Rightarrow> ('m, 'z) msg_world_scheme" where
  "req_world a p sid h q r w = w\<lparr>rw_packets := (rw_packets w)(a \<mapsto> p),
     mw_msgs := (mw_msgs w)(rw_next w \<mapsto> q, Suc (rw_next w) \<mapsto> r),
     cw_ctrl := (cw_ctrl w)(Suc (Suc (rw_next w)) \<mapsto> req_ctrl h sid),
     rw_next := Suc (Suc (Suc (rw_next w)))\<rparr>"

lemma HandleRpcReq_calls:
  fixes w :: "('m, 'e, 'z) svc_world_scheme"
  assumes "rw_packets w a = Some p" "packet_repr p (head_enc h @ msg_enc (app_ser app) q)" "head_ok h" "msg_ok (app_ser app) q"
    and "sw_methods w (ph_service_name h) = Some t" "t (ph_method_name h) = Some info"
    and "app_parse app (app_req_proto app (si_service info) (si_md info)) (app_ser app q) = Some q"
  shows "\<exists>p'. HandleRpcReq app pool_ok a w = app_call app (si_service info) (si_md info)
      (Suc (Suc (rw_next w))) (rw_next w) (Suc (rw_next w))
      (OnRpcDone (app_ser app) pool_ok (Suc (Suc (rw_next w))) (rw_next w) (Suc (rw_next w)))
      (req_world a p' (pk_sessionId p) h q (app_rsp_proto app (si_service info) (si_md info)) w)"
proof -
  let ?parse = "app_parse app (app_req_proto app (si_service info) (si_md info))"
  obtain p1 where "PkgHead_FromPacket p = (Rd_ok h, p1)" "fst (Packet_Read_msg ?parse p1) = Rd_ok q"
    using read_head_msg [of p h "app_ser app" q ?parse] assms(2-4,7) by blast
  then show ?thesis using assms(1,5,6)
    by (cases "Packet_Read_msg ?parse p1")
       (auto simp: HandleRpcReq_def Let_def alloc_msg_def alloc_ctrl_def put_packet_def req_world_def req_ctrl_def)
qed

lemma req_world_set_rsp:
  "(req_world a p sid h q r w)\<lparr>mw_msgs := (mw_msgs (req_world a p sid h q r w))(Suc (rw_next w) \<mapsto> r')\<rparr>
     = req_world a p sid h q r' w"
  by (intro msg_world.equality) (simp_all add: req_world_def)

lemma HandleRpcReq_answer:
  fixes w :: "('m, 'e, 'z) svc_world_scheme"
  assumes "conn_inv w" "heap_ok w" "length (send_list w) < MAX_QUEUE_SIZE - 1"
    and "rw_packets w a = Some p" "packet_repr p (head_enc h @ msg_enc (app_ser app) q)" "head_ok h" "msg_ok (app_ser app) q"
    and "sw_methods w (ph_service_name h) = Some t" "t (ph_method_name h) = Some info"
    and "app_parse app (app_req_proto app (si_service info) (si_md info)) (app_ser app q) = Some q"
    and "answers app info f" "msg_ok (app_ser app) (f q)"
  shows "\<exists>p' p'' s. HandleRpcReq app True a w = w\<lparr>rw_packets := (rw_packets w)(a \<mapsto> p'', rw_next w + 3 \<mapsto> p'),
      rw_next := rw_next w + 4, rw_sendQueue := s\<rparr>
    \<and> spsc_inv MAX_QUEUE_SIZE s \<and> spsc_list MAX_QUEUE_SIZE s = send_list w @ [rw_next w + 3]
    \<and> is_response (app_ser app) (pk_sessionId p) 0 h (f q) p'"
proof -
  let ?n = "rw_next w"
  obtain p'' where call: "HandleRpcReq app True a w = app_call app (si_service info) (si_md info) (Suc (Suc ?n)) ?n (Suc ?n)
      (OnRpcDone (app_ser app) True (Suc (Suc ?n)) ?n (Suc ?n))
      (req_world a p'' (pk_sessionId p) h q (app_rsp_proto app (si_service info) (si_md info)) w)"
    using HandleRpcReq_calls [OF assms(4-10)] by blast
  let ?W = "req_world a p'' (pk_sessionId p) h q (f q) w"
  have run: "HandleRpcReq app True a w = OnRpcDone (app_ser app) True (Suc (Suc ?n)) ?n (Suc ?n) ?W"
  proof -
    have "mw_msgs (req_world a p'' (pk_sessionId p) h q (app_rsp_proto app (si_service info) (si_md info)) w) ?n = Some q"
      by (simp add: req_world_def)
    with assms(11) call show ?thesis unfolding answers_def by (simp add: req_world_set_rsp)
  qed
  have inv: "conn_inv ?W" using assms(1,4) by (auto simp: conn_inv_def req_world_def)
  have live: "in_progress ?W (Suc (Suc ?n)) (req_ctrl h (pk_sessionId p)) ?n (Suc ?n) (f q)"
    using assms(2) by (simp add: in_progress_def req_world_def heap_ok_def)
  have head: "head_ok (rc_pkg_head (req_ctrl h (pk_sessionId p)))"
    using assms(6) by (simp add: req_ctrl_def RpcController_SetPkgHead_def)
  have room: "length (send_list ?W) < MAX_QUEUE_SIZE - 1" using assms(3) by (simp add: req_world_def)
  obtain s p' where fin: "OnRpcDone (app_ser app) True (Suc (Suc ?n)) ?n (Suc ?n) ?W = ?W\<lparr>rw_next := rw_next ?W + 1,
      rw_packets := (rw_packets ?W)(rw_next ?W \<mapsto> p'), rw_sendQueue := s,
      mw_msgs := (mw_msgs ?W)(?n := None, Suc ?n := None), cw_ctrl := (cw_ctrl ?W)(Suc (Suc ?n) := None)\<rparr>"
    "spsc_inv MAX_QUEUE_SIZE s" "spsc_list MAX_QUEUE_SIZE s = send_list ?W @ [rw_next ?W]"
    "is_response (app_ser app) (pk_sessionId p) 0 h (f q) p'"
    using OnRpcDone_room [OF inv room live head assms(12)]
    by (auto simp: req_ctrl_def RpcController_SetPkgHead_def RpcController_SetSessionID_def RpcController_new_def rsp_status_def)
  have "(mw_msgs ?W)(?n := None, Suc ?n := None) = mw_msgs w" "(cw_ctrl ?W)(Suc (Suc ?n) := None) = cw_ctrl w"
    using assms(2) by (auto simp: req_world_def heap_ok_def fun_eq_iff)
  then have "HandleRpcReq app True a w = w\<lparr>rw_packets := (rw_packets w)(a \<mapsto> p'', ?n + 3 \<mapsto> p'), rw_next := ?n + 4, rw_sendQueue := s\<rparr>"
    unfolding run fin(1) by (intro svc_world.equality) (simp_all add: req_world_def numeral_eq_Suc)
  moreover have "spsc_list MAX_QUEUE_SIZE s = send_list w @ [?n + 3]"
    using fin(3) by (simp add: req_world_def numeral_eq_Suc)
  ultimately show ?thesis using fin(2,4) by blast
qed

text \<open>The invariant of the coroutine manager only looks at its own fields.\<close>

lemma coro_inv_cong:
  assumes "coro_inv w" "cw_suspended w' = cw_suspended w" "cw_heap w' = cw_heap w" "cw_ctrl w' = cw_ctrl w"
  shows "coro_inv w'"
  using assms(1) unfolding coro_inv_def assms(2-4) .

lemma HandleRpcRsp_resumes:
  fixes w :: "('m, 'e, 'z) svc_world_scheme"
  assumes "rw_packets w a = Some p" "packet_repr p (head_enc h @ msg_enc (app_ser app) m)" "head_ok h" "msg_ok (app_ser app) m"
    and "pk_status p = 0" "cw_suspended w (ph_seq h) = Some ctx" "cx_handle ctx \<noteq> 0" "cx_controller ctx \<noteq> 0"
    and "cw_ctrl w (cx_controller ctx) = Some c" "rc_use_coro c" "\<not> rc_isFailed c"
    and "cx_rsp ctx \<noteq> 0" "mw_msgs w (cx_rsp ctx) = Some old" "app_parse app old (app_ser app m) = Some m"
  shows "\<exists>p'. HandleRpcRsp app a w = handle_done ctx (app_resume app (cx_handle ctx)
      (w\<lparr>cw_suspended := (cw_suspended w)(ph_seq h := None), rw_packets := (rw_packets w)(a \<mapsto> p'),
         mw_msgs := (mw_msgs w)(cx_rsp ctx \<mapsto> m), cw_log := cw_log w @ [(ctx, c)]\<rparr>))"
proof -
  obtain p1 where 1: "PkgHead_FromPacket p = (Rd_ok h, p1)" "fst (Packet_Read_msg (app_parse app old) p1) = Rd_ok m"
    using read_head_msg [of p h "app_ser app" m "app_parse app old"] assms(2-4,14) by blast
  then obtain p2 where 2: "Packet_Read_msg (app_parse app old) p1 = (Rd_ok m, p2)" by (metis prod.collapse)
  show ?thesis using assms 1(1) 2
    by (intro exI [of _ p2]) (simp add: HandleRpcRsp_def PopCoroContext_def put_packet_def resume_and_log_def handle_resume_def)
qed

lemma HandleRpcRsp_unknown:
  fixes w :: "('m, 'e, 'z) svc_world_scheme"
  assumes "rw_packets w a = Some p" "packet_repr p (head_enc h @ bs)" "head_ok h" "cw_suspended w (ph_seq h) = None"
  shows "\<exists>p'. HandleRpcRsp app a w = w\<lparr>rw_packets := (rw_packets w)(a \<mapsto> p')\<rparr>"
proof -
  have "head_read p (PkgHead_FromPacket p) (Rd_ok (h, bs))"
    using FromPacket_spec [OF assms(2)] head_codec.dec_enc [OF assms(3)] by simp
  then show ?thesis using assms(1,4)
    by (auto simp: head_read_def HandleRpcRsp_def PopCoroContext_def null_context_def put_packet_def)
qed

lemma add_methods_table:
  assumes "add_methods api s name mds w = (LLBC_OK, w')" "md \<in> set mds" "distinct (map md_name mds)"
  shows "\<exists>t. sw_methods w' name = Some t \<and> t (md_name md) = Some \<lparr>si_service = s, si_md = md\<rparr>"
proof -
  have keep: "\<exists>t'. sw_methods w' name = Some t' \<and> t' m = t m"
    if "add_methods api s name mds w = (LLBC_OK, w')" "sw_methods w name = Some t" "m \<notin> md_name ` set mds" for mds w w' t m
    using that
  proof (induction mds arbitrary: w t)
    case (Cons x mds)
    then show ?case
      by (fastforce simp: set_method_def Let_def split: option.splits if_splits prod.splits)
  qed auto
  show ?thesis using assms
  proof (induction mds arbitrary: w)
    case (Cons x mds)
    obtain w1 where w1: "add_methods api s name mds w1 = (LLBC_OK, w')"
      "sw_methods w1 = set_method name (md_name x) \<lparr>si_service = s, si_md = x\<rparr> (sw_methods w)"
      using Cons.prems(1) by (fastforce simp: Let_def split: option.splits if_splits prod.splits)
    show ?case
    proof (cases "md = x")
      case True
      have "md_name x \<notin> md_name ` set mds" using Cons.prems(3) by simp
      from keep [OF w1(1) _ this] w1(2) True show ?thesis by (auto simp: set_method_def)
    next
      case False
      then show ?thesis using Cons.IH [OF w1(1)] Cons.prems by simp
    qed
  qed simp
qed

lemma echo_world_inv: "conn_inv (echo_world p e)" "heap_ok (echo_world p e)" "send_list (echo_world p e) = []"
  by (simp_all add: conn_inv_def heap_ok_def echo_world_def SPSC_new_inv SPSC_new_list MAX_QUEUE_SIZE_pos)

lemma echo_head: "head_ok \<lparr>ph_seq = s, ph_service_name = ''EchoService'', ph_method_name = ''Echo''\<rparr>"
  by (simp add: head_ok_def echo_names)

lemma echo_answers: "answers echo_app info id"
  by (simp add: answers_def echo_app_def)

lemma echo_msg: "length bs < 2 ^ 20 \<Longrightarrow> msg_ok (app_ser echo_app) bs"
  by (simp add: msg_ok_def echo_app_def)

section \<open>Properties\<close>



text \<open>A request for a service or method the server does not have is dropped: nothing is sent back, so the caller
  learns of it only by its timeout.\<close>

theorem unknown_method_is_dropped:
  fixes w :: "('m, 'e, 'z) svc_world_scheme"
  assumes "rw_packets w a = Some p" "packet_repr p (head_enc h @ bs)" "head_ok h"
    and "\<And>t. sw_methods w (ph_service_name h) = Some t \<Longrightarrow> t (ph_method_name h) = None"
  shows "\<exists>p'. HandleRpcReq app pool_ok a w = w\<lparr>rw_packets := (rw_packets w)(a \<mapsto> p')\<rparr>"
proof -
  have "head_read p (PkgHead_FromPacket p) (Rd_ok (h, bs))"
    using FromPacket_spec [OF assms(2)] head_codec.dec_enc [OF assms(3)] by simp
  moreover have "Option.bind (sw_methods w (ph_service_name h)) (\<lambda>t. t (ph_method_name h)) = None"
    using assms(4) by (cases "sw_methods w (ph_service_name h)") auto
  ultimately show ?thesis using assms(1) by (auto simp: head_read_def HandleRpcReq_def put_packet_def)
qed

theorem unknown_method_is_dropped_witness:
  "\<exists>p p'. is_request id 3 \<lparr>md_service = ''EchoService'', md_name = ''Relay''\<rparr> 9 [1, 2] p
    \<and> HandleRpcReq echo_app True 2 (echo_world p ()) = (echo_world p ())\<lparr>rw_packets := [2 \<mapsto> p']\<rparr>"
proof -
  let ?md = "\<lparr>md_service = ''EchoService'', md_name = ''Relay''\<rparr>"
  have head: "head_ok (request_head ?md 9)" by (simp add: request_head_def head_ok_def string_ok_def)
  have "msg_ok id [1, 2 :: byte]" by (simp add: msg_ok_def)
  from request_packet [OF head this] obtain p where p: "is_request id 3 ?md 9 [1, 2] p" by blast
  then have "packet_repr p (head_enc (request_head ?md 9) @ msg_enc id [1, 2])" by (simp add: is_request_def)
  from unknown_method_is_dropped [OF _ this head, of "echo_world p ()" 2 echo_app True] p
  show ?thesis by (auto simp: echo_world_def request_head_def)
qed

text \<open>C21: a response with status \<open>0\<close> for a suspended call resumes exactly the coroutine of that call: its context is
  taken from the table first, the decoded message is in the response object of the caller, the controller is as the
  caller left it, and the resumption is the only one.\<close>

theorem response_resumes_caller:
  fixes w :: "('m, 'e, 'z) svc_world_scheme"
  assumes "rw_packets w a = Some p" "is_response (app_ser app) sid 0 h m p" "head_ok h" "msg_ok (app_ser app) m"
    and "coro_inv w" "cw_suspended w (ph_seq h) = Some ctx" "cx_controller ctx \<noteq> 0"
    and "cw_ctrl w (cx_controller ctx) = Some c" "rc_use_coro c" "\<not> rc_isFailed c"
    and "cx_rsp ctx \<noteq> 0" "mw_msgs w (cx_rsp ctx) = Some old" "app_parse app old (app_ser app m) = Some m"
  shows "\<exists>w1. HandleRpcRsp app a w = handle_done ctx (app_resume app (cx_handle ctx) w1)
    \<and> mw_msgs w1 = (mw_msgs w)(cx_rsp ctx \<mapsto> m) \<and> cw_log w1 = cw_log w @ [(ctx, c)]
    \<and> cw_suspended w1 = (cw_suspended w)(ph_seq h := None) \<and> cw_ctrl w1 = cw_ctrl w
    \<and> coro_inv w1 \<and> cw_fault w1 = cw_fault w"
proof -
  have h: "cx_handle ctx \<noteq> 0" using coro_invD(4) [OF assms(5,6)] by (simp add: ctx_live_def)
  have p: "packet_repr p (head_enc h @ msg_enc (app_ser app) m)" "pk_status p = 0"
    using assms(2) by (simp_all add: is_response_def)
  obtain p' where "HandleRpcRsp app a w = handle_done ctx (app_resume app (cx_handle ctx)
      (w\<lparr>cw_suspended := (cw_suspended w)(ph_seq h := None), rw_packets := (rw_packets w)(a \<mapsto> p'),
         mw_msgs := (mw_msgs w)(cx_rsp ctx \<mapsto> m), cw_log := cw_log w @ [(ctx, c)]\<rparr>))"
    using HandleRpcRsp_resumes [OF assms(1) p(1) assms(3,4) p(2) assms(6) h assms(7-13)] by blast
  moreover define w1 where "w1 = w\<lparr>cw_suspended := (cw_suspended w)(ph_seq h := None), rw_packets := (rw_packets w)(a \<mapsto> p'),
         mw_msgs := (mw_msgs w)(cx_rsp ctx \<mapsto> m), cw_log := cw_log w @ [(ctx, c)]\<rparr>"
  ultimately have r: "HandleRpcRsp app a w = handle_done ctx (app_resume app (cx_handle ctx) w1)" by simp
  have "coro_inv (w\<lparr>cw_suspended := (cw_suspended w)(ph_seq h := None)\<rparr>)"
    using PopCoroContext_inv [OF assms(5), of "ph_seq h"] assms(6) by (simp add: PopCoroContext_def)
  then have "coro_inv w1" by (rule coro_inv_cong) (simp_all add: w1_def)
  with r show ?thesis by (intro exI [of _ w1]) (simp add: w1_def)
qed

theorem response_resumes_caller_witness:
  "\<exists>p w1. is_response id 3 0 (request_head echo_md 1) [4, 5] p
    \<and> HandleRpcRsp echo_app 2 (echo_world p ()) = handle_done echo_ctx (app_resume echo_app 8 w1) \<and> mw_msgs w1 7 = Some [4, 5]"
proof -
  let ?app = "echo_app :: (byte list, (byte list, unit) svc_world) rpc_app"
  have head: "head_ok (request_head echo_md 1)" by (simp add: request_head_def echo_md_def echo_head)
  have msg: "msg_ok id [4, 5 :: byte]" by (simp add: msg_ok_def)
  obtain p where p: "is_response id 3 0 (request_head echo_md 1) [4, 5] p"
    using response_packet [OF head msg, of 3 False] by auto
  let ?w = "echo_world p ()"
  have w: "cw_suspended ?w (ph_seq (request_head echo_md 1)) = Some echo_ctx" "cw_ctrl ?w 5 = Some ((RpcController_new True)\<lparr>rc_coro_handle := 8\<rparr>)"
      "mw_msgs ?w 7 = Some []" "rw_packets ?w 2 = Some p"
    by (simp_all add: echo_world_def request_head_def)
  have "coro_inv ?w"
  proof -
    let ?w0 = "?w\<lparr>cw_suspended := Map.empty, cw_heap := BinaryHeap_new null_context 256\<rparr>"
    have "coro_inv ?w0" by (simp add: coro_inv_def BinaryHeap_new_inv BinaryHeap_new_content)
    from AddCoroContext_inv [OF this, of echo_ctx] have "coro_inv (snd (AddCoroContext echo_ctx ?w0))"
      by (auto simp: echo_ctx_def echo_world_def ctx_live_def BinaryHeap_new_content)
    then show ?thesis by (simp add: AddCoroContext_def echo_ctx_def echo_world_def)
  qed
  moreover have "is_response (app_ser ?app) 3 0 (request_head echo_md 1) [4, 5] p" "msg_ok (app_ser ?app) [4, 5]"
    using p msg by (simp_all add: echo_app_def)
  ultimately have "\<exists>w1. HandleRpcRsp ?app 2 ?w = handle_done echo_ctx (app_resume ?app (cx_handle echo_ctx) w1)
    \<and> mw_msgs w1 = (mw_msgs ?w)(cx_rsp echo_ctx \<mapsto> [4, 5])
    \<and> cw_log w1 = cw_log ?w @ [(echo_ctx, (RpcController_new True)\<lparr>rc_coro_handle := 8\<rparr>)]
    \<and> cw_suspended w1 = (cw_suspended ?w)(ph_seq (request_head echo_md 1) := None) \<and> cw_ctrl w1 = cw_ctrl ?w
    \<and> coro_inv w1 \<and> cw_fault w1 = cw_fault ?w"
    using w head by (intro response_resumes_caller) (simp_all add: echo_ctx_def RpcController_new_def echo_app_def)
  then obtain w1 where "HandleRpcRsp ?app 2 ?w = handle_done echo_ctx (app_resume ?app 8 w1)" "mw_msgs w1 7 = Some [4, 5]"
    by (auto simp: echo_ctx_def)
  with p show ?thesis by blast
qed

text \<open>A response for a call that is not suspended any more, because it was answered before or has timed out, resumes
  nothing and changes nothing but the read position of its own packet.\<close>

theorem late_response_is_ignored:
  fixes w :: "('m, 'e, 'z) svc_world_scheme"
  assumes "rw_packets w a = Some p" "is_response ser sid status h m p" "head_ok h" "cw_suspended w (ph_seq h) = None"
  shows "\<exists>p'. HandleRpcRsp app a w = w\<lparr>rw_packets := (rw_packets w)(a \<mapsto> p')\<rparr>"
  using HandleRpcRsp_unknown [OF assms(1) _ assms(3,4)] assms(2) by (auto simp: is_response_def)

theorem late_response_is_ignored_witness:
  "\<exists>p p'. is_response id 3 0 (request_head echo_md 2) [4, 5] p
    \<and> HandleRpcRsp echo_app 2 (echo_world p ()) = (echo_world p ())\<lparr>rw_packets := [2 \<mapsto> p']\<rparr>"
proof -
  have head: "head_ok (request_head echo_md 2)" by (simp add: request_head_def echo_md_def echo_head)
  obtain p where p: "is_response id 3 0 (request_head echo_md 2) [4, 5 :: byte] p"
    using response_packet [OF head, of id "[4, 5]" 3 False] by (auto simp: msg_ok_def)
  from late_response_is_ignored [OF _ this head, of "echo_world p ()" 2 echo_app] p
  show ?thesis by (auto simp: echo_world_def request_head_def)
qed

text \<open>If the resumed coroutine runs to its end, the log statement after the resumption uses its frame, which
  \<open>final_suspend\<close> has already destroyed.\<close>

theorem done_after_end_of_coroutine:
  fixes w :: "('m, 'e, 'z) svc_world_scheme"
  assumes "rw_packets w a = Some p" "is_response (app_ser app) sid 0 h m p" "head_ok h" "msg_ok (app_ser app) m"
    and "cw_suspended w (ph_seq h) = Some ctx" "cx_handle ctx \<noteq> 0" "cx_controller ctx \<noteq> 0"
    and "cw_ctrl w (cx_controller ctx) = Some c" "rc_use_coro c" "\<not> rc_isFailed c"
    and "cx_rsp ctx \<noteq> 0" "mw_msgs w (cx_rsp ctx) = Some old" "app_parse app old (app_ser app m) = Some m"
    and "\<And>w'. cx_handle ctx \<notin> cw_frames (app_resume app (cx_handle ctx) w')"
  shows "cw_fault (HandleRpcRsp app a w)"
  using HandleRpcRsp_resumes [of w a p h app m ctx c old] assms by (auto simp: is_response_def handle_done_def)

theorem done_after_end_of_coroutine_witness:
  "\<exists>p. cw_fault (HandleRpcRsp echo_app 2 (echo_world p ()))"
proof -
  let ?app = "echo_app :: (byte list, (byte list, unit) svc_world) rpc_app"
  have head: "head_ok (request_head echo_md 1)" by (simp add: request_head_def echo_md_def echo_head)
  obtain p where p: "is_response id 3 0 (request_head echo_md 1) [4, 5 :: byte] p"
    using response_packet [OF head, of id "[4, 5]" 3 False] by (auto simp: msg_ok_def)
  have "cw_fault (HandleRpcRsp ?app 2 (echo_world p ()))"
    by (rule done_after_end_of_coroutine [OF _ _ head, where p = p and m = "[4, 5]" and ctx = echo_ctx and old = "[]"
          and c = "(RpcController_new True)\<lparr>rc_coro_handle := 8\<rparr>"])
       (use p in \<open>simp_all add: echo_world_def request_head_def echo_ctx_def echo_app_def RpcController_new_def msg_ok_def\<close>)
  then show ?thesis by blast
qed

text \<open>When the send queue is full, the finished response is dropped: the packet is neither queued nor given back to
  the pool, and no one is told.\<close>

theorem full_queue_loses_response:
  fixes w :: "('m, 'z) msg_world_scheme"
  assumes "conn_inv w" "MAX_QUEUE_SIZE - 1 \<le> length (send_list w)" "in_progress w ca c req rsp m"
    and "head_ok (rc_pkg_head c)" "msg_ok ser m"
  shows "\<exists>p. let w' = OnRpcDone ser True ca req rsp w in
      rw_packets w' = (rw_packets w)(rw_next w \<mapsto> p) \<and> send_list w' = send_list w \<and> cw_fault w' = cw_fault w
    \<and> rw_next w \<notin> set (send_list w') \<and> mw_msgs w' rsp = None"
proof -
  obtain p where "OnRpcDone ser True ca req rsp w = w\<lparr>rw_next := rw_next w + 1,
      rw_packets := (rw_packets w)(rw_next w \<mapsto> p), mw_msgs := (mw_msgs w)(req := None, rsp := None), cw_ctrl := (cw_ctrl w)(ca := None)\<rparr>"
    using OnRpcDone_full [OF assms] by blast
  moreover have "rw_next w \<notin> set (send_list w)" using assms(1) by (auto simp: conn_inv_def)
  ultimately show ?thesis by (intro exI [of _ p]) (simp add: Let_def)
qed

theorem full_queue_loses_response_witness:
  "\<exists>p. let w = (full_world [1])\<lparr>mw_msgs := [7 \<mapsto> [1], 9 \<mapsto> [2]]\<rparr>; w' = OnRpcDone id True 5 9 7 w in
      rw_packets w' = (rw_packets w)(rw_next w \<mapsto> p) \<and> send_list w' = send_list w"
proof -
  let ?w = "(full_world [1 :: byte])\<lparr>mw_msgs := [7 \<mapsto> [1], 9 \<mapsto> [2]]\<rparr>"
  have "conn_inv ?w" using full_world_inv(1) by (simp add: conn_inv_def)
  moreover have "send_list ?w = [100 ..< 100 + (MAX_QUEUE_SIZE - 1)]" using full_world_inv(2) by simp
  moreover have "in_progress ?w 5 ((RpcController_new True)\<lparr>rc_coro_handle := 8\<rparr>) 9 7 [1]"
    by (simp add: in_progress_def full_world_def msg_world0_def)
  ultimately show ?thesis
    using full_queue_loses_response [of ?w 5 "(RpcController_new True)\<lparr>rc_coro_handle := 8\<rparr>" 9 7 "[1]" id]
    by (auto simp: RpcController_new_def head_ok_def string_ok_def msg_ok_def Let_def)
qed

end
