(* ===== verification/Llbc_Protocol.thy ===== *)
theory Llbc_Protocol
  imports Llbc_Packet
begin

text \<open>
  The framing of packets on a TCP connection: \<open>LLBC_PacketProtocol\<close> (3rd/llbc/llbc/src/comm/protocol/PacketProtocol.cpp)
  and \<open>LLBC_PacketHeaderAssembler\<close> (src/comm/PacketHeaderAssembler.cpp). A received block is the list of its
  readable bytes; \<open>ShiftReadPos(n)\<close> drops \<open>n\<close> of them. The abstract specification is \<open>frames\<close>, the
  parser of the whole byte stream; \<open>Recv\<close> is proved to implement it for every split of the stream into
  blocks.
\<close>

section \<open>Sending\<close>

definition llbc_headerLen :: nat where
  "llbc_headerLen = 28"

fun write_all :: "byte option list list \<Rightarrow> mblock option \<Rightarrow> mblock option" where
  "write_all [] b = b"
| "write_all (xs # xss) b = write_all xss (Option.bind b (\<lambda>b. map_option snd (MB_Write xs b)))"

definition PacketProtocol_Send :: "packet \<Rightarrow> mblock option" where
  "PacketProtocol_Send p =
     (let len = of_nat (llbc_headerLen + Packet_GetPayloadLength p) :: u32;
          status = ucast (pk_status p) :: 16 word;
          flags = ucast (pk_flags p) :: 16 word
      in write_all
           [map Some (obj_bytes (LLBC_Host2Net len)),
            map Some (obj_bytes (LLBC_Host2Net (pk_opcode p))),
            map Some (obj_bytes (LLBC_Host2Net status)),
            map Some (obj_bytes (LLBC_Host2Net (pk_senderSvcId p))),
            map Some (obj_bytes (LLBC_Host2Net (pk_recverSvcId p))),
            map Some (obj_bytes (LLBC_Host2Net flags)),
            map Some (obj_bytes (LLBC_Host2Net64 (pk_extData1 p))),
            take (Packet_GetPayloadLength p) (Packet_GetPayload p)]
           (Some (MB_new (unat len))))"

section \<open>Receiving\<close>

text \<open>\<open>Assemble\<close>: the header bytes received so far, the block, and how many bytes of it were used.\<close>

definition PacketHeaderAssembler_Assemble :: "byte list \<Rightarrow> byte list \<Rightarrow> bool \<times> nat \<times> byte list" where
  "PacketHeaderAssembler_Assemble header bs =
     (if length header = llbc_headerLen then (True, 0, header)
      else let needSize = llbc_headerLen - length header
           in if length bs \<ge> needSize then (True, needSize, header @ take needSize bs)
              else (False, length bs, header @ bs))"

definition PacketHeaderAssembler_SetToPacket :: "byte list \<Rightarrow> packet \<Rightarrow> packet" where
  "PacketHeaderAssembler_SetToPacket h p =
     (let len = LLBC_Net2Host (bytes_obj (take 4 h) :: u32);
          opcode = LLBC_Net2Host (bytes_obj (take 4 (drop 4 h)) :: cint);
          status = LLBC_Net2Host (bytes_obj (take 2 (drop 8 h)) :: 16 word);
          sender = LLBC_Net2Host (bytes_obj (take 4 (drop 10 h)) :: cint);
          recver = LLBC_Net2Host (bytes_obj (take 4 (drop 14 h)) :: cint);
          flags = LLBC_Net2Host (bytes_obj (take 2 (drop 18 h)) :: 16 word);
          ext = LLBC_Net2Host64 (bytes_obj (take 8 (drop 20 h)))
      in p\<lparr>pk_length := unat len, pk_opcode := opcode, pk_status := ucast status, pk_senderSvcId := sender,
           pk_recverSvcId := recver, pk_flags := ucast flags, pk_extData1 := ext\<rparr>)"

record proto =
  pp_header :: "byte list"
  pp_packet :: "packet option"
  pp_need :: nat
  pp_recved :: nat

record proto_cfg =
  cfg_max :: nat
  cfg_session :: cint
  cfg_accept :: cint

definition PacketProtocol_new :: proto where
  "PacketProtocol_new = \<lparr>pp_header = [], pp_packet = None, pp_need = 0, pp_recved = 0\<rparr>"

datatype recv_step = Recv_wait proto | Recv_error proto | Recv_packet packet "byte list" proto

text \<open>The return code of \<open>Write\<close> is ignored; the payload of a packet under construction is never an
  attached block, so its assertion does not fail.\<close>

definition payload_append :: "byte list \<Rightarrow> packet \<Rightarrow> packet" where
  "payload_append bs p = (case Packet_Write (map Some bs) p of Some (_, p') \<Rightarrow> p' | None \<Rightarrow> p)"

text \<open>The second half of the loop body: payload bytes for the packet \<open>p\<close>.\<close>

definition recv_content :: "byte list \<Rightarrow> packet \<Rightarrow> proto \<Rightarrow> recv_step" where
  "recv_content bs p st =
     (let contentNeedRecv = pp_need st - pp_recved st
      in if length bs < contentNeedRecv
         then Recv_wait (st\<lparr>pp_packet := Some (payload_append bs p), pp_recved := pp_recved st + length bs\<rparr>)
         else Recv_packet (payload_append (take contentNeedRecv bs) p) (drop contentNeedRecv bs)
                (st\<lparr>pp_packet := None, pp_recved := 0, pp_need := 0\<rparr>))"

definition new_packet :: "proto_cfg \<Rightarrow> byte list \<Rightarrow> packet" where
  "new_packet cfg h =
     (PacketHeaderAssembler_SetToPacket h Packet_from_pool)
       \<lparr>pk_sessionId := cfg_session cfg, pk_acceptSessionId := cfg_accept cfg\<rparr>"

definition recv_body :: "proto_cfg \<Rightarrow> byte list \<Rightarrow> proto \<Rightarrow> recv_step" where
  "recv_body cfg bs st =
     (case pp_packet st of
        Some p \<Rightarrow> recv_content bs p st
      | None \<Rightarrow>
          (case PacketHeaderAssembler_Assemble (pp_header st) bs of
             (False, _, header) \<Rightarrow> Recv_wait (st\<lparr>pp_header := header\<rparr>)
           | (True, headerUsed, header) \<Rightarrow>
               (let p = new_packet cfg header; packetLen = pk_length p
                in if packetLen < llbc_headerLen \<or> packetLen > cfg_max cfg
                   then Recv_error (st\<lparr>pp_header := [], pp_packet := None, pp_need := 0\<rparr>)
                   else recv_content (drop headerUsed bs) p
                          (st\<lparr>pp_header := [], pp_packet := Some p, pp_need := packetLen - llbc_headerLen\<rparr>))))"

lemma recv_content_shrinks:
  "recv_content bs p st = Recv_packet q bs' st' \<Longrightarrow>
     length bs' \<le> length bs \<and> pp_packet st' = None \<and> pp_header st' = pp_header st"
  by (auto simp: recv_content_def Let_def split: if_splits)

lemma recv_body_shrinks:
  assumes "recv_body cfg bs st = Recv_packet q bs' st'" "bs \<noteq> []"
  shows "2 * length bs' + (if pp_packet st' = None then 0 else 1) + length (pp_header st')
    < 2 * length bs + (if pp_packet st = None then 0 else 1) + length (pp_header st)"
  using assms
  by (auto simp: recv_body_def PacketHeaderAssembler_Assemble_def Let_def llbc_headerLen_def
      split: option.splits if_splits dest!: recv_content_shrinks)

text \<open>The whole loop; the packets completed in this call are collected in \<open>out\<close>, and an error drops them.
  The result is the return code, the flag \<open>removeSession\<close>, the packets and the protocol state.\<close>

function recv_loop :: "proto_cfg \<Rightarrow> byte list \<Rightarrow> proto \<Rightarrow> packet list \<Rightarrow> int \<times> bool \<times> packet list \<times> proto" where
  "recv_loop cfg bs st out =
     (if bs = [] then (LLBC_OK, False, out, st)
      else case recv_body cfg bs st of
             Recv_wait st' \<Rightarrow> (LLBC_OK, False, out, st')
           | Recv_error st' \<Rightarrow> (LLBC_FAILED, True, [], st')
           | Recv_packet p bs' st' \<Rightarrow> recv_loop cfg bs' st' (out @ [p]))"
  by pat_completeness auto
termination
  by (relation "measure (\<lambda>(cfg, bs, st, out).
        2 * length bs + (if pp_packet st = None then 0 else 1) + length (pp_header st))")
     (auto dest: recv_body_shrinks)

declare recv_loop.simps [simp del]

definition PacketProtocol_Recv :: "proto_cfg \<Rightarrow> byte list \<Rightarrow> proto \<Rightarrow> int \<times> bool \<times> packet list \<times> proto" where
  "PacketProtocol_Recv cfg block st = recv_loop cfg block st []"

text \<open>The blocks of a connection, one call of \<open>Recv\<close> each, until the session is removed.\<close>

fun recv_blocks :: "proto_cfg \<Rightarrow> byte list list \<Rightarrow> proto \<Rightarrow> bool \<times> packet list \<times> proto" where
  "recv_blocks cfg [] st = (False, [], st)"
| "recv_blocks cfg (b # bs) st =
     (case PacketProtocol_Recv cfg b st of
        (ret, True, ps, st') \<Rightarrow> (True, [], st')
      | (ret, False, ps, st') \<Rightarrow>
          (let (err, qs, st'') = recv_blocks cfg bs st' in (err, ps @ qs, st'')))"

section \<open>The specification of the byte stream\<close>

definition frame_len :: "byte list \<Rightarrow> nat" where
  "frame_len ws = unat (bytes_obj (rev (take 4 ws)) :: u32)"

datatype frame_result = Frame_wait | Frame_bad | Frame "byte list" "byte list" "byte list"

definition frame_split :: "nat \<Rightarrow> byte list \<Rightarrow> frame_result" where
  "frame_split mx ws =
     (if length ws < llbc_headerLen then Frame_wait
      else let n = frame_len ws
           in if n < llbc_headerLen \<or> n > mx then Frame_bad
              else if length ws < n then Frame_wait
              else Frame (take llbc_headerLen ws) (take (n - llbc_headerLen) (drop llbc_headerLen ws)) (drop n ws))"

text \<open>The frames of a byte stream as pairs of header and payload, the incomplete rest, and whether an
  invalid length was found.\<close>

function frames :: "nat \<Rightarrow> byte list \<Rightarrow> (byte list \<times> byte list) list \<times> byte list \<times> bool" where
  "frames mx ws =
     (case frame_split mx ws of
        Frame_wait \<Rightarrow> ([], ws, False)
      | Frame_bad \<Rightarrow> ([], ws, True)
      | Frame h pl rest \<Rightarrow> (let (fs, r, err) = frames mx rest in ((h, pl) # fs, r, err)))"
  by pat_completeness auto
termination
  by (relation "measure (\<lambda>(mx, ws). length ws)")
     (auto simp: frame_split_def Let_def llbc_headerLen_def split: if_splits)

declare frames.simps [simp del]

text \<open>What one frame carries for a packet with the unread payload \<open>bs\<close>.\<close>

definition frame_header :: "packet \<Rightarrow> byte list \<Rightarrow> byte list" where
  "frame_header p bs =
     word_enc (of_nat (llbc_headerLen + length bs) :: u32) @ word_enc (pk_opcode p)
       @ word_enc (ucast (pk_status p) :: 16 word) @ word_enc (pk_senderSvcId p) @ word_enc (pk_recverSvcId p)
       @ word_enc (ucast (pk_flags p) :: 16 word) @ obj_bytes (LLBC_Host2Net64 (pk_extData1 p))"

text \<open>The unread payload of a packet and the bytes a sent packet puts on the connection.\<close>

definition packet_bytes :: "packet \<Rightarrow> byte list" where
  "packet_bytes p = map the (take (Packet_GetPayloadLength p) (Packet_GetPayload p))"

definition packet_wf :: "packet \<Rightarrow> bool" where
  "packet_wf p \<longleftrightarrow> packet_repr p (packet_bytes p)"

definition sent_bytes :: "packet \<Rightarrow> byte list" where
  "sent_bytes p =
     (case PacketProtocol_Send p of
        None \<Rightarrow> []
      | Some b \<Rightarrow> map the (take (MB_GetReadableSize b) (MB_GetDataStartWithReadPos b)))"

text \<open>What arrives of a sent packet: opcode, service ids, external data and payload unchanged, status and
  flags cut to 16 bits, the session ids of the receiving side.\<close>

definition received_as :: "proto_cfg \<Rightarrow> packet \<Rightarrow> packet \<Rightarrow> bool" where
  "received_as cfg p q \<longleftrightarrow> pk_opcode q = pk_opcode p \<and> pk_status q = ucast (ucast (pk_status p) :: 16 word)
     \<and> pk_senderSvcId q = pk_senderSvcId p \<and> pk_recverSvcId q = pk_recverSvcId p
     \<and> pk_flags q = ucast (ucast (pk_flags p) :: 16 word) \<and> pk_extData1 q = pk_extData1 p
     \<and> pk_sessionId q = cfg_session cfg \<and> pk_acceptSessionId q = cfg_accept cfg
     \<and> packet_wf q \<and> packet_bytes q = packet_bytes p"

text \<open>The bytes \<open>c\<close> of the current frame are received and the frame is incomplete.\<close>

definition proto_state :: "proto_cfg \<Rightarrow> proto \<Rightarrow> byte list \<Rightarrow> bool" where
  "proto_state cfg st c \<longleftrightarrow> (case pp_packet st of
       None \<Rightarrow> c = pp_header st \<and> length c < llbc_headerLen \<and> pp_need st = 0 \<and> pp_recved st = 0
     | Some p \<Rightarrow> pp_header st = [] \<and> llbc_headerLen \<le> length c
         \<and> llbc_headerLen \<le> frame_len c \<and> frame_len c \<le> cfg_max cfg \<and> length c < frame_len c
         \<and> pp_need st = frame_len c - llbc_headerLen \<and> pp_recved st = length c - llbc_headerLen
         \<and> packet_repr p (drop llbc_headerLen c)
         \<and> (\<exists>x. p = (new_packet cfg (take llbc_headerLen c))\<lparr>pk_payload := x\<rparr>))"

definition frame_packet :: "proto_cfg \<Rightarrow> byte list \<times> byte list \<Rightarrow> packet \<Rightarrow> bool" where
  "frame_packet cfg f q \<longleftrightarrow>
     (\<exists>b. q = (new_packet cfg (fst f))\<lparr>pk_payload := Some b\<rparr> \<and> mb_repr b (snd f))"

section \<open>Receiving implements the specification\<close>

lemma payload_append_spec:
  assumes "packet_repr p pl"
  shows "\<exists>b. payload_append bs p = p\<lparr>pk_payload := Some b\<rparr> \<and> mb_repr b (pl @ bs)"
  using Packet_Write_spec [OF assms, of bs] by (auto simp: packet_writes_def payload_append_def)

lemma new_packet_length:
  assumes "4 \<le> length h"
  shows "pk_length (new_packet cfg h) = frame_len h"
proof -
  have "LLBC_Net2Host (bytes_obj (take 4 h) :: u32) = bytes_obj (rev (take 4 h))"
    using assms by (simp add: LLBC_Net2Host_def LLBC_MachineEndian_def ReverseBytes_rev obj_bytes_obj)
  then show ?thesis
    by (simp add: new_packet_def PacketHeaderAssembler_SetToPacket_def frame_len_def Let_def)
qed

lemma new_packet_payload [simp]: "pk_payload (new_packet cfg h) = None"
  by (simp add: new_packet_def PacketHeaderAssembler_SetToPacket_def Packet_from_pool_def Packet_new_def Let_def)

lemma frame_len_append: "4 \<le> length c \<Longrightarrow> frame_len (c @ bs) = frame_len c"
  by (simp add: frame_len_def)

text \<open>One loop body on a state that has received \<open>c\<close>: it finds in \<open>c\<close> and the block what \<open>frame_split\<close> finds.\<close>

definition body_ok :: "proto_cfg \<Rightarrow> byte list \<Rightarrow> recv_step \<Rightarrow> bool" where
  "body_ok cfg ws r \<longleftrightarrow> (case frame_split (cfg_max cfg) ws of
       Frame_wait \<Rightarrow> \<exists>st'. r = Recv_wait st' \<and> proto_state cfg st' ws
     | Frame_bad \<Rightarrow> \<exists>st'. r = Recv_error st' \<and> proto_state cfg st' []
     | Frame h pl rest \<Rightarrow> \<exists>q st'. r = Recv_packet q rest st' \<and> proto_state cfg st' []
         \<and> frame_packet cfg (h, pl) q)"

lemma recv_content_ok:
  assumes hdr: "llbc_headerLen \<le> length c" "llbc_headerLen \<le> frame_len c" "frame_len c \<le> cfg_max cfg"
      "length c \<le> frame_len c"
    and st: "pp_header st = []" "pp_need st = frame_len c - llbc_headerLen"
      "pp_recved st = length c - llbc_headerLen"
    and p: "packet_repr p (drop llbc_headerLen c)" "\<exists>x. p = (new_packet cfg (take llbc_headerLen c))\<lparr>pk_payload := x\<rparr>"
  shows "body_ok cfg (c @ bs) (recv_content bs p st)"
proof -
  let ?n = "frame_len c - length c"
  have len: "frame_len (c @ bs) = frame_len c" using hdr(1) by (simp add: frame_len_append llbc_headerLen_def)
  have need: "pp_need st - pp_recved st = ?n" using st(2,3) hdr(1,2) by simp
  have pay: "\<exists>b. payload_append xs p = (new_packet cfg (take llbc_headerLen c))\<lparr>pk_payload := Some b\<rparr>
      \<and> mb_repr b (drop llbc_headerLen c @ xs)" for xs
    using payload_append_spec [OF p(1), of xs] p(2) by auto
  show ?thesis
  proof (cases "length bs < ?n")
    case True
    have "packet_repr ((new_packet cfg (take llbc_headerLen c))\<lparr>pk_payload := Some b\<rparr>) xs = mb_repr b xs" for b xs
      by (simp add: packet_repr_def)
    with pay [of bs] True hdr st need len show ?thesis
      by (auto simp: body_ok_def frame_split_def recv_content_def proto_state_def Let_def)
  next
    case False
    then have "take (frame_len c - llbc_headerLen) (drop llbc_headerLen (c @ bs)) = drop llbc_headerLen c @ take ?n bs"
      "drop (frame_len c) (c @ bs) = drop ?n bs"
      using hdr by (simp_all add: take_append drop_append)
    with pay [of "take ?n bs"] False hdr st need len show ?thesis
      by (auto simp: body_ok_def frame_split_def recv_content_def proto_state_def frame_packet_def
          llbc_headerLen_def Let_def)
  qed
qed

lemma recv_body_ok:
  assumes "proto_state cfg st c"
  shows "body_ok cfg (c @ bs) (recv_body cfg bs st)"
proof (cases "pp_packet st")
  case (Some p)
  then show ?thesis
    using assms recv_content_ok [of c cfg st p bs] by (simp add: proto_state_def recv_body_def)
next
  case None
  then have c: "c = pp_header st" "length c < llbc_headerLen" "pp_need st = 0" "pp_recved st = 0"
    using assms by (auto simp: proto_state_def)
  show ?thesis
  proof (cases "length (c @ bs) < llbc_headerLen")
    case True
    then show ?thesis
      using None c by (auto simp: body_ok_def frame_split_def recv_body_def proto_state_def
          PacketHeaderAssembler_Assemble_def Let_def)
  next
    case False
    let ?k = "llbc_headerLen - length c"
    define h where "h = c @ take ?k bs"
    have h: "length h = llbc_headerLen" "h @ drop ?k bs = c @ bs" using False c(2) by (auto simp: h_def)
    have asm: "PacketHeaderAssembler_Assemble (pp_header st) bs = (True, ?k, h)"
      using False c by (auto simp: PacketHeaderAssembler_Assemble_def Let_def h_def)
    have len: "pk_length (new_packet cfg h) = frame_len h" "frame_len (c @ bs) = frame_len h"
      using h(1) frame_len_append [of h "drop ?k bs"] unfolding h(2)
      by (simp_all add: new_packet_length llbc_headerLen_def)
    let ?st = "st\<lparr>pp_header := [], pp_packet := Some (new_packet cfg h), pp_need := frame_len h - llbc_headerLen\<rparr>"
    show ?thesis
    proof (cases "frame_len h < llbc_headerLen \<or> frame_len h > cfg_max cfg")
      case True
      then show ?thesis
        using None False c asm len
        by (auto simp: body_ok_def frame_split_def recv_body_def proto_state_def llbc_headerLen_def Let_def)
    next
      case ok: False
      have "new_packet cfg h = (new_packet cfg (take llbc_headerLen h))\<lparr>pk_payload := None\<rparr>"
        using h(1) by simp
      then have ex: "\<exists>x. new_packet cfg h = (new_packet cfg (take llbc_headerLen h))\<lparr>pk_payload := x\<rparr>" ..
      have "body_ok cfg (h @ drop ?k bs) (recv_content (drop ?k bs) (new_packet cfg h) ?st)"
        using ok h(1) c(4) by (intro recv_content_ok ex) (simp_all add: packet_repr_def)
      then show ?thesis
        using ok None asm len h(2) by (simp add: recv_body_def Let_def)
    qed
  qed
qed

lemma recv_loop_ok:
  assumes "proto_state cfg st c"
  shows "case frames (cfg_max cfg) (c @ bs) of (fs, r, err) \<Rightarrow>
    if err then \<exists>st'. recv_loop cfg bs st out = (LLBC_FAILED, True, [], st') \<and> proto_state cfg st' []
    else \<exists>qs st'. recv_loop cfg bs st out = (LLBC_OK, False, out @ qs, st') \<and> proto_state cfg st' r
      \<and> list_all2 (frame_packet cfg) fs qs"
  using assms
proof (induction cfg bs st out arbitrary: c rule: recv_loop.induct)
  case (1 cfg bs st out)
  have wait: "frame_split (cfg_max cfg) c = Frame_wait" if "proto_state cfg st c"
    using that by (auto simp: proto_state_def frame_split_def Let_def split: option.splits)
  show ?case
  proof (cases "bs = []")
    case True
    then show ?thesis using "1.prems" wait by (auto simp: recv_loop.simps [of cfg "[]"] frames.simps [of _ c])
  next
    case False
    show ?thesis
    proof (cases "frame_split (cfg_max cfg) (c @ bs)")
      case (Frame h pl rest)
      then obtain q st' where q: "recv_body cfg bs st = Recv_packet q rest st'" "proto_state cfg st' []"
        "frame_packet cfg (h, pl) q"
        using recv_body_ok [OF "1.prems", of bs] by (auto simp: body_ok_def)
      from "1.IH" [OF False q(1) q(2)] q False Frame show ?thesis
        by (auto simp: recv_loop.simps [of cfg bs] frames.simps [of _ "c @ bs"] split: prod.splits)
    qed (use False recv_body_ok [OF "1.prems", of bs] in
        \<open>auto simp: body_ok_def recv_loop.simps [of cfg bs] frames.simps [of _ "c @ bs"]\<close>)
  qed
qed

lemma frames_append:
  assumes "frames mx ws = (fs, r, False)"
  shows "frames mx (ws @ ys) = (case frames mx (r @ ys) of (gs, r', err) \<Rightarrow> (fs @ gs, r', err))"
  using assms
proof (induction mx ws arbitrary: fs r rule: frames.induct)
  case (1 mx ws)
  show ?case
  proof (cases "frame_split mx ws")
    case (Frame h pl rest)
    then have "frame_split mx (ws @ ys) = Frame h pl (rest @ ys)"
      by (auto simp: frame_split_def Let_def frame_len_append llbc_headerLen_def split: if_splits)
    with "1.IH" [OF Frame] "1.prems" Frame show ?thesis
      by (auto simp: frames.simps [of mx ws] frames.simps [of mx "ws @ ys"] split: prod.splits)
  qed (use "1.prems" in \<open>auto simp: frames.simps [of mx ws] split: prod.splits\<close>)
qed

lemma frames_append_bad:
  "frames mx ws = (fs, r, True) \<Longrightarrow> \<exists>fs' r'. frames mx (ws @ ys) = (fs', r', True)"
proof (induction mx ws arbitrary: fs r rule: frames.induct)
  case (1 mx ws)
  show ?case
  proof (cases "frame_split mx ws")
    case (Frame h pl rest)
    then have "frame_split mx (ws @ ys) = Frame h pl (rest @ ys)"
      by (auto simp: frame_split_def Let_def frame_len_append llbc_headerLen_def split: if_splits)
    with "1.IH" [OF Frame] "1.prems" Frame show ?thesis
      by (auto simp: frames.simps [of mx ws] frames.simps [of mx "ws @ ys"] split: prod.splits)
  next
    case Frame_bad
    then have "frame_split mx (ws @ ys) = Frame_bad"
      by (auto simp: frame_split_def Let_def frame_len_append llbc_headerLen_def split: if_splits)
    then show ?thesis by (auto simp: frames.simps [of mx "ws @ ys"])
  qed (use "1.prems" in \<open>auto simp: frames.simps [of mx ws] split: prod.splits\<close>)
qed

lemma recv_blocks_ok:
  assumes "proto_state cfg st c" "frames (cfg_max cfg) (c @ concat bss) = (fs, r, False)"
  shows "\<exists>qs st'. recv_blocks cfg bss st = (False, qs, st') \<and> proto_state cfg st' r
    \<and> list_all2 (frame_packet cfg) fs qs"
  using assms
proof (induction bss arbitrary: st c fs)
  case Nil
  then have "frame_split (cfg_max cfg) c = Frame_wait"
    by (auto simp: proto_state_def frame_split_def Let_def split: option.splits)
  with Nil show ?case by (auto simp: frames.simps [of _ c])
next
  case (Cons b bss)
  have "\<not> snd (snd (frames (cfg_max cfg) (c @ b)))"
    using frames_append_bad [of "cfg_max cfg" "c @ b" _ _ "concat bss"] Cons.prems(2)
    by (cases "frames (cfg_max cfg) (c @ b)") auto
  then obtain gs r1 where b: "frames (cfg_max cfg) (c @ b) = (gs, r1, False)"
    by (cases "frames (cfg_max cfg) (c @ b)") auto
  obtain qs st1 where q: "PacketProtocol_Recv cfg b st = (LLBC_OK, False, qs, st1)" "proto_state cfg st1 r1"
    "list_all2 (frame_packet cfg) gs qs"
    using recv_loop_ok [OF Cons.prems(1), of b "[]"] b by (auto simp: PacketProtocol_Recv_def)
  obtain hs where hs: "frames (cfg_max cfg) (r1 @ concat bss) = (hs, r, False)" "fs = gs @ hs"
    using frames_append [OF b, of "concat bss"] Cons.prems(2)
    by (cases "frames (cfg_max cfg) (r1 @ concat bss)") auto
  from Cons.IH [OF q(2) hs(1)] q hs(2) show ?case
    by (auto intro: list_all2_appendI)
qed

section \<open>Sending and the round trip\<close>

lemma packet_bytes_repr: "packet_repr p bs \<Longrightarrow> packet_bytes p = bs \<and> packet_wf p"
  using packet_payload_cells [of p bs] by (simp add: packet_bytes_def packet_wf_def)

lemma write_all_repr:
  assumes "mb_repr b bs"
  shows "\<exists>b'. write_all (map (map Some) xss) (Some b) = Some b' \<and> mb_repr b' (bs @ concat xss)"
  using assms
proof (induction xss arbitrary: b bs)
  case (Cons xs xss)
  then obtain b1 where "MB_Write (map Some xs) b = Some (LLBC_OK, b1)" "mb_repr b1 (bs @ xs)"
    using MB_Write_repr by blast
  with Cons.IH [of b1 "bs @ xs"] show ?case by simp
qed simp

lemma Send_repr:
  assumes "packet_repr p bs"
  shows "\<exists>b. PacketProtocol_Send p = Some b \<and> mb_repr b (frame_header p bs @ bs)"
proof -
  let ?len = "of_nat (llbc_headerLen + length bs) :: u32"
  obtain b where "write_all (map (map Some)
      [word_enc ?len, word_enc (pk_opcode p), word_enc (ucast (pk_status p) :: 16 word),
       word_enc (pk_senderSvcId p), word_enc (pk_recverSvcId p), word_enc (ucast (pk_flags p) :: 16 word),
       obj_bytes (LLBC_Host2Net64 (pk_extData1 p)), bs]) (Some (MB_new (unat ?len))) = Some b"
    "mb_repr b (frame_header p bs @ bs)"
    using write_all_repr [OF MB_new_repr, of _ "unat ?len"] unfolding frame_header_def by fastforce
  then show ?thesis
    using packet_payload_length [OF assms] packet_payload_cells [OF assms]
    by (simp add: PacketProtocol_Send_def Let_def Host2Net_bytes word_enc_def)
qed

lemma sent_bytes_repr: "packet_repr p bs \<Longrightarrow> sent_bytes p = frame_header p bs @ bs"
  using Send_repr [of p bs] MB_readable_cells by (fastforce simp: sent_bytes_def)

lemma Net2Host_word_enc: "8 dvd LENGTH('w) \<Longrightarrow> LLBC_Net2Host (bytes_obj (word_enc v)) = (v :: 'w::len word)"
  by (simp add: word_enc_def LLBC_Net2Host_def LLBC_MachineEndian_def ReverseBytes_involutive
      flip: ReverseBytes_rev)

lemma length_frame_header: "length (frame_header p bs) = llbc_headerLen"
  by (simp add: frame_header_def length_obj_bytes llbc_headerLen_def)

lemma frame_len_header:
  assumes "llbc_headerLen + length bs < 2 ^ 32"
  shows "frame_len (frame_header p bs @ ws) = llbc_headerLen + length bs"
proof -
  have "take 4 (frame_header p bs @ ws) = word_enc (of_nat (llbc_headerLen + length bs) :: u32)"
    by (simp add: frame_header_def)
  moreover have "bytes_obj (rev (word_enc v)) = v" for v :: u32
    by (simp add: word_enc_def bytes_obj_bytes)
  ultimately show ?thesis
    using assms by (simp add: frame_len_def unat_of_nat del: of_nat_add take_append)
qed

lemma frames_sent:
  assumes "\<forall>(p, bs) \<in> set ps. llbc_headerLen + length bs \<le> mx \<and> llbc_headerLen + length bs < 2 ^ 32"
  shows "frames mx (concat (map (\<lambda>(p, bs). frame_header p bs @ bs) ps))
    = (map (\<lambda>(p, bs). (frame_header p bs, bs)) ps, [], False)"
  using assms
proof (induction ps)
  case Nil
  show ?case by (simp add: frames.simps [of mx "[]"] frame_split_def llbc_headerLen_def)
next
  case (Cons x ps)
  obtain p bs where x: "x = (p, bs)" by fastforce
  let ?w = "concat (map (\<lambda>(p, bs). frame_header p bs @ bs) ps)"
  have "frame_len (frame_header p bs @ bs @ ?w) = llbc_headerLen + length bs"
    using Cons.prems x by (intro frame_len_header) auto
  then have "frame_split mx (frame_header p bs @ bs @ ?w) = Frame (frame_header p bs) bs ?w"
    using Cons.prems x by (simp add: frame_split_def Let_def length_frame_header)
  with Cons x show ?case by (simp add: frames.simps [of mx "frame_header p bs @ bs @ ?w"])
qed

lemma frame_packet_received:
  assumes "frame_packet cfg (frame_header p bs, bs) q" "packet_repr p bs"
  shows "received_as cfg p q"
proof -
  obtain b where q: "q = (new_packet cfg (frame_header p bs))\<lparr>pk_payload := Some b\<rparr>" "mb_repr b bs"
    using assms(1) by (auto simp: frame_packet_def)
  have "packet_repr q bs" using q by (simp add: packet_repr_def)
  moreover have "bytes_obj (obj_bytes v) = v" for v :: u64 by (simp add: bytes_obj_bytes)
  ultimately show ?thesis
    using packet_bytes_repr [OF assms(2)] packet_bytes_repr [of q bs]
    by (simp add: q received_as_def new_packet_def PacketHeaderAssembler_SetToPacket_def Let_def
        frame_header_def length_obj_bytes Net2Host_word_enc Net2Host64_Host2Net64)
qed

lemma sent_packets_arrive:
  assumes "\<forall>p \<in> set ps. packet_wf p \<and> llbc_headerLen + length (packet_bytes p) \<le> cfg_max cfg
      \<and> llbc_headerLen + length (packet_bytes p) < 2 ^ 32"
    and "concat blocks = concat (map sent_bytes ps)"
  shows "\<exists>qs st. recv_blocks cfg blocks PacketProtocol_new = (False, qs, st) \<and> list_all2 (received_as cfg) ps qs"
proof -
  let ?ps = "map (\<lambda>p. (p, packet_bytes p)) ps"
  have wf: "packet_repr p (packet_bytes p)" if "p \<in> set ps" for p using assms(1) that by (auto simp: packet_wf_def)
  have sent: "map sent_bytes ps = map (\<lambda>(p, bs). frame_header p bs @ bs) ?ps"
    using wf by (simp add: sent_bytes_repr)
  have start: "proto_state cfg PacketProtocol_new []"
    by (simp add: proto_state_def PacketProtocol_new_def llbc_headerLen_def)
  have "frames (cfg_max cfg) ([] @ concat blocks) = (map (\<lambda>(p, bs). (frame_header p bs, bs)) ?ps, [], False)"
    unfolding append_Nil assms(2) sent using assms(1) by (intro frames_sent) auto
  from recv_blocks_ok [OF start this] obtain qs st where
    qs: "recv_blocks cfg blocks PacketProtocol_new = (False, qs, st)"
    "list_all2 (frame_packet cfg) (map (\<lambda>(p, bs). (frame_header p bs, bs)) ?ps) qs"
    by blast
  then have "list_all2 (received_as cfg) ps qs"
    using wf frame_packet_received
    by (auto simp: list_all2_conv_all_nth)
  with qs(1) show ?thesis by blast
qed

section \<open>Properties\<close>

text \<open>C5: packets that one side sends in order are received on the other side completely and in order,
  for every way the connection splits their bytes into blocks, as long as each frame fits the maximal
  packet size and the 32-bit length field.\<close>

theorem protocol_roundtrip:
  assumes "\<forall>p \<in> set ps. packet_wf p \<and> llbc_headerLen + length (packet_bytes p) \<le> cfg_max cfg
      \<and> llbc_headerLen + length (packet_bytes p) < 2 ^ 32"
    and "concat blocks = concat (map sent_bytes ps)"
  shows "\<exists>qs st. recv_blocks cfg blocks PacketProtocol_new = (False, qs, st) \<and> list_all2 (received_as cfg) ps qs"
  by (rule sent_packets_arrive [OF assms])

theorem protocol_roundtrip_witness:
  "\<exists>qs st. recv_blocks \<lparr>cfg_max = 100, cfg_session = 7, cfg_accept = 0\<rparr>
       [take 10 (sent_bytes Packet_from_pool), drop 10 (sent_bytes Packet_from_pool)] PacketProtocol_new
       = (False, qs, st)
     \<and> list_all2 (received_as \<lparr>cfg_max = 100, cfg_session = 7, cfg_accept = 0\<rparr>) [Packet_from_pool] qs"
  using packet_bytes_repr [OF Packet_pool_repr]
  by (intro protocol_roundtrip) (auto simp: llbc_headerLen_def)

text \<open>C26: \<open>Recv\<close> implements the stream specification \<open>frames\<close> from every state it can be in: it returns the
  packets of the frames that the bytes received so far and the new block complete, keeps the incomplete
  rest, and fails with \<open>removeSession\<close> exactly when a frame announces a length below the header size or
  above the maximum; then the packets completed in the same block are dropped.\<close>

theorem protocol_recv_refines:
  assumes "proto_state cfg st c"
  shows "case frames (cfg_max cfg) (c @ block) of (fs, r, err) \<Rightarrow>
    if err then \<exists>st'. PacketProtocol_Recv cfg block st = (LLBC_FAILED, True, [], st') \<and> proto_state cfg st' []
    else \<exists>qs st'. PacketProtocol_Recv cfg block st = (LLBC_OK, False, qs, st') \<and> proto_state cfg st' r
      \<and> list_all2 (frame_packet cfg) fs qs"
  using recv_loop_ok [OF assms, of block "[]"] unfolding PacketProtocol_Recv_def append_Nil .

theorem protocol_recv_refines_witness:
  "\<exists>st'. PacketProtocol_Recv \<lparr>cfg_max = 100, cfg_session = 7, cfg_accept = 0\<rparr> (replicate 28 0) PacketProtocol_new
     = (LLBC_FAILED, True, [], st')"
proof -
  let ?cfg = "\<lparr>cfg_max = 100, cfg_session = 7, cfg_accept = 0\<rparr>"
  have "proto_state ?cfg PacketProtocol_new []"
    by (simp add: proto_state_def PacketProtocol_new_def llbc_headerLen_def)
  moreover have "frame_len (replicate 28 0) = 0" by (simp add: frame_len_def bytes_obj_def eval_nat_numeral)
  then have "frames 100 (replicate 28 0) = ([], replicate 28 0, True)"
    by (simp add: frames.simps [of 100 "replicate 28 0"] frame_split_def llbc_headerLen_def)
  ultimately show ?thesis using protocol_recv_refines [of ?cfg PacketProtocol_new "[]" "replicate 28 0"] by auto
qed

end
