(* ===== verification/Rpc_Exchange.thy ===== *)
theory Rpc_Exchange
  imports Rpc_Service Llbc_Protocol
begin

text \<open>
  One remote call through all components: the client queues the request (\<open>RpcChannel::CallMethod\<close>), its network thread
  sends it (\<open>RpcConnComp::OnUpdate\<close>), the bytes cross the connection in arbitrary pieces, the server receives them
  (\<open>LLBC_PacketProtocol::Recv\<close>, \<open>RpcConnComp::OnRecvPacket\<close>) and serves the request in \<open>RpcConnMgr::Tick\<close>; the response
  takes the same way back and resumes the coroutine of the caller in the client's \<open>Tick\<close>.
\<close>

section \<open>The connection and the exchange\<close>

text \<open>What arrives of the packets \<open>ps\<close> when \<open>split\<close> cuts their bytes into the blocks that are read from the socket.\<close>

definition deliver :: "(byte list \<Rightarrow> byte list list) \<Rightarrow> proto_cfg \<Rightarrow> packet list \<Rightarrow> packet list" where
  "deliver split cfg ps = fst (snd (recv_blocks cfg (split (concat (map sent_bytes ps))) PacketProtocol_new))"

text \<open>The packets that the network thread sends during \<open>OnUpdate\<close>.\<close>

definition sent_in_update :: "'z rpc_world_scheme \<Rightarrow> packet list" where
  "sent_in_update w = drop (length (rw_sent w)) (rw_sent (RpcConnComp_OnUpdate w))"

text \<open>One direction: \<open>w\<close> sends what it has queued, \<open>v\<close> receives it and handles it in one \<open>Tick\<close>.\<close>

definition rpc_hop ::
    "(byte list \<Rightarrow> byte list list) \<Rightarrow> proto_cfg \<Rightarrow> ('m, ('m, 'e, 'z) svc_world_scheme) rpc_app \<Rightarrow>
     (nat \<Rightarrow> nat \<Rightarrow> ('m, 'e, 'z) svc_world_scheme \<Rightarrow> ('m, 'e, 'z) svc_world_scheme) \<Rightarrow> 'y rpc_world_scheme \<Rightarrow>
     ('m, 'e, 'z) svc_world_scheme \<Rightarrow> ('m, 'e, 'z) svc_world_scheme option" where
  "rpc_hop split cfg app user w v =
     RpcConnMgr_Tick (dispatch app True user) (fold RpcConnComp_OnRecvPacket (deliver split cfg (sent_in_update w)) v)"

section \<open>Lemmas\<close>

lemma Tick_one:
  assumes "recv_ready w" "recv_list w = [a]" "rw_packets w a = Some p" "rw_delegs w (pk_opcode p) = Some d"
    and "W = LLBC_Recycle a (call d a (pop_recv w))" "rw_recvQueue W = rw_recvQueue (pop_recv w)" "rw_comp W"
  shows "RpcConnMgr_Tick call w = Some W"
proof -
  note recv = RecvPacket_cons [OF assms(1,2)]
  have "recv_ready W" "recv_list W = []" using recv(2,3) assms(6,7) by (simp_all add: recv_ready_def)
  from RecvPacket_nil [OF this] have "RpcConnMgr_Tick call W = Some W"
    by (subst RpcConnMgr_Tick.simps) simp
  then show ?thesis
    using recv(1) assms(3-5) by (subst RpcConnMgr_Tick.simps) (simp add: pop_recv_def)
qed

lemma sent_in_update_one:
  assumes "conn_inv w" "send_list w = [a]" "rw_packets w a = Some p"
  shows "sent_in_update w = [p]"
  using OnUpdate_ok [OF assms(1)] assms(2,3) by (auto simp: sent_in_update_def)

lemma deliver_one:
  assumes "\<And>bs. concat (split bs) = bs" "packet_repr p bs" "llbc_headerLen + length bs \<le> cfg_max cfg" "llbc_headerLen + length bs < 2 ^ 32"
  shows "\<exists>q. deliver split cfg [p] = [q] \<and> received_as cfg p q"
proof -
  have p: "packet_wf p" "packet_bytes p = bs" using packet_bytes_repr [OF assms(2)] by simp_all
  have "\<exists>qs st. recv_blocks cfg (split (concat (map sent_bytes [p]))) PacketProtocol_new = (False, qs, st)
      \<and> list_all2 (received_as cfg) [p] qs"
    by (rule sent_packets_arrive) (use p assms in auto)
  then show ?thesis by (auto simp: deliver_def list_all2_Cons1)
qed

lemma received_repr: "received_as cfg p q \<Longrightarrow> packet_repr p bs \<Longrightarrow> packet_repr q bs"
  using packet_bytes_repr [of p bs] by (auto simp: received_as_def packet_wf_def)

text \<open>The state in which the handler of the only packet runs.\<close>

lemma hop_arrives:
  assumes "conn_inv w" "send_list w = [a]" "rw_packets w a = Some p" "packet_repr p bs"
    and "\<And>bs. concat (split bs) = bs" "llbc_headerLen + length bs \<le> cfg_max cfg" "llbc_headerLen + length bs < 2 ^ 32"
    and "conn_inv v" "recv_list v = []"
  shows "\<exists>p' q. fold RpcConnComp_OnRecvPacket (deliver split cfg (sent_in_update w)) v
      = v\<lparr>rw_packets := (rw_packets v)(rw_next v \<mapsto> p'), rw_next := rw_next v + 1, rw_recvQueue := q\<rparr>
    \<and> spsc_inv MAX_QUEUE_SIZE q \<and> spsc_list MAX_QUEUE_SIZE q = [rw_next v]
    \<and> packet_repr p' bs \<and> pk_opcode p' = pk_opcode p \<and> pk_status p' = 0 \<and> pk_sessionId p' = cfg_session cfg"
proof -
  obtain r where r: "deliver split cfg [p] = [r]" "received_as cfg p r"
    using deliver_one [OF assms(5,4,6,7)] by blast
  have room: "length (recv_list v) < MAX_QUEUE_SIZE - 1" using assms(9) by (simp add: MAX_QUEUE_SIZE_def)
  obtain q where q: "RpcConnComp_OnRecvPacket r v = v\<lparr>rw_packets := (rw_packets v)(rw_next v \<mapsto> recv_copy r),
      rw_next := rw_next v + 1, rw_recvQueue := q\<rparr>" "spsc_inv MAX_QUEUE_SIZE q" "spsc_list MAX_QUEUE_SIZE q = [rw_next v]"
    using OnRecvPacket_ok [OF assms(8) room, of r] assms(9) by auto
  have "packet_repr (recv_copy r) bs" "pk_opcode (recv_copy r) = pk_opcode p" "pk_status (recv_copy r) = 0"
      "pk_sessionId (recv_copy r) = cfg_session cfg"
    using received_repr [OF r(2) assms(4)] r(2) by (simp_all add: recv_copy_def packet_repr_def received_as_def)
  with q r(1) sent_in_update_one [OF assms(1-3)] show ?thesis by auto
qed

text \<open>A world \<open>v\<close> to which the packet \<open>p\<close> has been delivered and popped by \<open>Tick\<close>.\<close>

definition arrived :: "packet \<Rightarrow> nat spsc \<Rightarrow> 'z rpc_world_scheme \<Rightarrow> 'z rpc_world_scheme" where
  "arrived p q v = v\<lparr>rw_packets := (rw_packets v)(rw_next v \<mapsto> p), rw_next := rw_next v + 1, rw_recvQueue := q\<rparr>"

lemma arrived_simps [simp]:
  "rw_packets (arrived p q v) = (rw_packets v)(rw_next v \<mapsto> p)" "rw_next (arrived p q v) = Suc (rw_next v)"
  "rw_recvQueue (arrived p q v) = q" "rw_sendQueue (arrived p q v) = rw_sendQueue v" "rw_comp (arrived p q v) = rw_comp v"
  "rw_delegs (arrived p q v) = rw_delegs v" "cw_ctrl (arrived p q v) = cw_ctrl v" "cw_fault (arrived p q v) = cw_fault v"
  "cw_suspended (arrived p q v) = cw_suspended v" "cw_log (arrived p q v) = cw_log v"
  by (simp_all add: arrived_def)

lemma arrived_ext_simps [simp]:
  "mw_msgs (arrived p q u) = mw_msgs u" "sw_methods (arrived p q v) = sw_methods v"
  by (simp_all add: arrived_def)

lemma hop_dispatch:
  assumes "conn_inv w" "send_list w = [a]" "rw_packets w a = Some p" "packet_repr p bs"
    and "\<And>bs. concat (split bs) = bs" "llbc_headerLen + length bs \<le> cfg_max cfg" "llbc_headerLen + length bs < 2 ^ 32"
    and "conn_inv v" "recv_list v = []" "rw_delegs v (pk_opcode p) = Some d"
  shows "\<exists>p' q. packet_repr p' bs \<and> pk_opcode p' = pk_opcode p \<and> pk_status p' = 0 \<and> pk_sessionId p' = cfg_session cfg
    \<and> conn_inv (arrived p' q v) \<and> spsc_list MAX_QUEUE_SIZE q = []
    \<and> (\<forall>W. W = LLBC_Recycle (rw_next v) (dispatch app True user d (rw_next v) (arrived p' q v)) \<longrightarrow>
         rw_recvQueue W = q \<longrightarrow> rw_comp W \<longrightarrow> rpc_hop split cfg app user w v = Some W)"
proof -
  obtain p' q where q: "fold RpcConnComp_OnRecvPacket (deliver split cfg (sent_in_update w)) v = arrived p' q v"
    "spsc_inv MAX_QUEUE_SIZE q" "spsc_list MAX_QUEUE_SIZE q = [rw_next v]"
    "packet_repr p' bs" "pk_opcode p' = pk_opcode p" "pk_status p' = 0" "pk_sessionId p' = cfg_session cfg"
    using hop_arrives [OF assms(1-9)] unfolding arrived_def by blast
  let ?v = "arrived p' q v" and ?q = "snd (SPSC_pop MAX_QUEUE_SIZE q)"
  have ready: "recv_ready ?v" "recv_list ?v = [rw_next v]" using q(2,3) assms(8) by (simp_all add: recv_ready_def conn_inv_def)
  have pop: "pop_recv ?v = arrived p' ?q v" by (simp add: pop_recv_def arrived_def)
  from RecvPacket_cons(2,3) [OF ready] have q': "spsc_inv MAX_QUEUE_SIZE ?q" "spsc_list MAX_QUEUE_SIZE ?q = []"
    by (simp_all add: pop recv_ready_def)
  have "conn_inv (arrived p' ?q v)"
    using assms(8,9) q' by (auto simp: conn_inv_def less_Suc_eq)
  moreover have "rpc_hop split cfg app user w v = Some W"
    if "W = LLBC_Recycle (rw_next v) (dispatch app True user d (rw_next v) (arrived p' ?q v))" "rw_recvQueue W = ?q" "rw_comp W" for W
    unfolding rpc_hop_def q(1)
    by (rule Tick_one [OF ready, where p = p' and d = d]) (use that pop q(5) assms(10) in simp_all)
  ultimately show ?thesis using q(4-7) q'(2) by blast
qed

lemma server_hop:
  fixes v :: "('m, 'e, 'z) svc_world_scheme"
  assumes "conn_inv w" "send_list w = [a]" "rw_packets w a = Some p" "is_request (app_ser app) sid md seq x p"
    and "\<And>bs. concat (split bs) = bs"
    and "llbc_headerLen + length (head_enc (request_head md seq) @ msg_enc (app_ser app) x) \<le> min (cfg_max cfg) (2 ^ 32 - 1)"
    and "conn_inv v" "heap_ok v" "send_list v = []" "recv_list v = []"
    and "rw_delegs v (opcode_val RpcReq) = Some Deleg_HandleRpcReq"
    and "sw_methods v (md_service md) = Some t" "t (md_name md) = Some info"
    and "app_parse app (app_req_proto app (si_service info) (si_md info)) (app_ser app x) = Some x"
    and "answers app info f" "msg_ok (app_ser app) (f x)" "string_ok (md_service md)" "string_ok (md_name md)" "msg_ok (app_ser app) x"
  shows "\<exists>v' b r. rpc_hop split cfg app user w v = Some v' \<and> conn_inv v' \<and> send_list v' = [b] \<and> recv_list v' = []
    \<and> rw_packets v' = (rw_packets v)(b \<mapsto> r) \<and> is_response (app_ser app) (cfg_session cfg) 0 (request_head md seq) (f x) r
    \<and> mw_msgs v' = mw_msgs v \<and> cw_ctrl v' = cw_ctrl v \<and> cw_suspended v' = cw_suspended v \<and> cw_log v' = cw_log v
    \<and> cw_fault v' = cw_fault v"
proof -
  let ?bs = "head_enc (request_head md seq) @ msg_enc (app_ser app) x" and ?n = "rw_next v"
  have len: "llbc_headerLen + length ?bs \<le> cfg_max cfg" "llbc_headerLen + length ?bs < 2 ^ 32" using assms(6) by auto
  have p: "packet_repr p ?bs" "pk_opcode p = opcode_val RpcReq" using assms(4) by (simp_all add: is_request_def)
  have head: "head_ok (request_head md seq)" using assms(17,18) by (simp add: head_ok_def request_head_def)
  obtain p' q where h: "packet_repr p' ?bs" "pk_sessionId p' = cfg_session cfg" "conn_inv (arrived p' q v)"
    "spsc_list MAX_QUEUE_SIZE q = []"
    "\<And>W. W = LLBC_Recycle ?n (dispatch app True user Deleg_HandleRpcReq ?n (arrived p' q v)) \<Longrightarrow>
         rw_recvQueue W = q \<Longrightarrow> rw_comp W \<Longrightarrow> rpc_hop split cfg app user w v = Some W"
    using hop_dispatch [OF assms(1-3) p(1) assms(5) len assms(7,10), of Deleg_HandleRpcReq app user] p(2) assms(11) by auto
  let ?v = "arrived p' q v"
  have "heap_ok ?v" using assms(8) by (auto simp: heap_ok_def)
  moreover have "length (send_list ?v) < MAX_QUEUE_SIZE - 1" using assms(9) by (simp add: MAX_QUEUE_SIZE_def)
  ultimately have "\<exists>p'' r s. HandleRpcReq app True ?n ?v = ?v\<lparr>rw_packets := (rw_packets ?v)(?n \<mapsto> r, rw_next ?v + 3 \<mapsto> p''),
      rw_next := rw_next ?v + 4, rw_sendQueue := s\<rparr>
    \<and> spsc_inv MAX_QUEUE_SIZE s \<and> spsc_list MAX_QUEUE_SIZE s = send_list ?v @ [rw_next ?v + 3]
    \<and> is_response (app_ser app) (pk_sessionId p') 0 (request_head md seq) (f x) p''"
    by (intro HandleRpcReq_answer [OF h(3) _ _ _ h(1) head assms(19), where t = t and info = info]) (use assms in \<open>simp_all add: request_head_def\<close>)
  then obtain r p'' s where ans: "HandleRpcReq app True ?n ?v = ?v\<lparr>rw_packets := (rw_packets ?v)(?n \<mapsto> r, rw_next ?v + 3 \<mapsto> p''),
      rw_next := rw_next ?v + 4, rw_sendQueue := s\<rparr>"
    "spsc_inv MAX_QUEUE_SIZE s" "spsc_list MAX_QUEUE_SIZE s = [?n + 4]"
    "is_response (app_ser app) (cfg_session cfg) 0 (request_head md seq) (f x) p''"
    using assms(9) h(2) by auto
  define W where "W = ?v\<lparr>rw_packets := (rw_packets v)(?n + 4 \<mapsto> p''), rw_next := ?n + 5, rw_sendQueue := s\<rparr>"
  have fresh: "rw_packets v ?n = None" using assms(7) by (auto simp: conn_inv_def)
  then have "((rw_packets v)(?n \<mapsto> r, ?n + 4 \<mapsto> p''))(?n := None) = (rw_packets v)(?n + 4 \<mapsto> p'')"
    by (auto simp: fun_eq_iff)
  then have W: "W = LLBC_Recycle ?n (dispatch app True user Deleg_HandleRpcReq ?n ?v)"
    by (intro svc_world.equality) (simp_all add: dispatch_def ans(1) LLBC_Recycle_def W_def add.commute)
  have comp: "rw_comp v" using assms(7) by (simp add: conn_inv_def)
  have "rpc_hop split cfg app user w v = Some W" by (rule h(5) [OF W]) (simp_all add: W_def comp)
  moreover have "conn_inv W"
    using h(3,4) ans(2,3) assms(7,9,10) by (auto simp: conn_inv_def W_def less_Suc_eq)
  ultimately show ?thesis using ans(3,4) h(4) by (intro exI [of _ W] exI [of _ "?n + 4"] exI [of _ p'']) (simp add: W_def)
qed

lemma client_hop:
  fixes v :: "('m, 'e, 'z) svc_world_scheme"
  assumes "conn_inv w" "send_list w = [a]" "rw_packets w a = Some p" "is_response (app_ser app) sid status h m p"
    and "\<And>bs. concat (split bs) = bs"
    and "llbc_headerLen + length (head_enc h @ msg_enc (app_ser app) m) \<le> min (cfg_max cfg) (2 ^ 32 - 1)"
    and "conn_inv v" "recv_list v = []" "rw_delegs v (opcode_val RpcRsp) = Some Deleg_HandleRpcRsp"
    and "head_ok h" "msg_ok (app_ser app) m" "cw_suspended v (ph_seq h) = Some ctx" "cx_handle ctx \<noteq> 0" "cx_controller ctx \<noteq> 0"
    and "cw_ctrl v (cx_controller ctx) = Some c" "rc_use_coro c" "\<not> rc_isFailed c"
    and "cx_rsp ctx \<noteq> 0" "mw_msgs v (cx_rsp ctx) = Some old" "app_parse app old (app_ser app m) = Some m"
    and "\<And>u. rw_recvQueue (app_resume app (cx_handle ctx) u) = rw_recvQueue u \<and> rw_comp (app_resume app (cx_handle ctx) u) = rw_comp u"
  shows "\<exists>u. rpc_hop split cfg app user w v = Some (LLBC_Recycle (rw_next v) (handle_done ctx (app_resume app (cx_handle ctx) u)))
    \<and> mw_msgs u = (mw_msgs v)(cx_rsp ctx \<mapsto> m) \<and> cw_log u = cw_log v @ [(ctx, c)]
    \<and> cw_suspended u = (cw_suspended v)(ph_seq h := None) \<and> cw_ctrl u = cw_ctrl v \<and> cw_fault u = cw_fault v"
proof -
  let ?bs = "head_enc h @ msg_enc (app_ser app) m" and ?n = "rw_next v"
  have len: "llbc_headerLen + length ?bs \<le> cfg_max cfg" "llbc_headerLen + length ?bs < 2 ^ 32" using assms(6) by auto
  have p: "packet_repr p ?bs" "pk_opcode p = opcode_val RpcRsp" using assms(4) by (simp_all add: is_response_def)
  obtain p' q where h: "packet_repr p' ?bs" "pk_status p' = 0"
    "\<And>W. W = LLBC_Recycle ?n (dispatch app True user Deleg_HandleRpcRsp ?n (arrived p' q v)) \<Longrightarrow>
         rw_recvQueue W = q \<Longrightarrow> rw_comp W \<Longrightarrow> rpc_hop split cfg app user w v = Some W"
    using hop_dispatch [OF assms(1-3) p(1) assms(5) len assms(7,8), of Deleg_HandleRpcRsp app user] p(2) assms(9) by auto
  let ?v = "arrived p' q v"
  have "\<exists>p''. HandleRpcRsp app ?n ?v = handle_done ctx (app_resume app (cx_handle ctx)
      (?v\<lparr>cw_suspended := (cw_suspended ?v)(ph_seq h := None), rw_packets := (rw_packets ?v)(?n \<mapsto> p''),
         mw_msgs := (mw_msgs ?v)(cx_rsp ctx \<mapsto> m), cw_log := cw_log ?v @ [(ctx, c)]\<rparr>))"
    by (rule HandleRpcRsp_resumes [OF _ h(1) assms(10,11) h(2)]) (use assms in simp_all)
  then obtain p'' where "HandleRpcRsp app ?n ?v = handle_done ctx (app_resume app (cx_handle ctx)
      (?v\<lparr>cw_suspended := (cw_suspended ?v)(ph_seq h := None), rw_packets := (rw_packets ?v)(?n \<mapsto> p''),
         mw_msgs := (mw_msgs ?v)(cx_rsp ctx \<mapsto> m), cw_log := cw_log ?v @ [(ctx, c)]\<rparr>))"
    by blast
  moreover define u where "u = ?v\<lparr>cw_suspended := (cw_suspended ?v)(ph_seq h := None), rw_packets := (rw_packets ?v)(?n \<mapsto> p''),
         mw_msgs := (mw_msgs ?v)(cx_rsp ctx \<mapsto> m), cw_log := cw_log ?v @ [(ctx, c)]\<rparr>"
  ultimately have r: "HandleRpcRsp app ?n ?v = handle_done ctx (app_resume app (cx_handle ctx) u)" by simp
  have u: "rw_recvQueue u = q" "rw_comp u" using assms(7) by (simp_all add: u_def conn_inv_def)
  define W where "W = LLBC_Recycle ?n (handle_done ctx (app_resume app (cx_handle ctx) u))"
  have "rw_recvQueue W = q" "rw_comp W"
    using u assms(21) [of u] by (simp_all add: W_def LLBC_Recycle_def handle_done_def)
  then have "rpc_hop split cfg app user w v = Some W" by (intro h(3)) (simp_all add: W_def dispatch_def r)
  then show ?thesis unfolding W_def by (intro exI [of _ u]) (simp add: u_def)
qed

end
