(* ===== verification/Hash_Map.thy ===== *)
theory Hash_Map
  imports Prelude Complex_Main
begin

text \<open>
  \<open>HashMap\<close> (src/include/hashmap.h): an open-addressing table with linear probing. Erasing only clears the flag of an
  entry and leaves its key behind. The hash function is the argument \<open>h\<close>; \<open>k0\<close> and \<open>v0\<close> are the values of a default
  constructed key and value; the load factor is an exact rational. The probing loops are partial functions: \<open>None\<close>
  is a loop that does not end.
\<close>

section \<open>Data\<close>

record ('k, 'v) entry =
  en_key :: 'k
  en_value :: 'v
  en_occ :: bool

record ('k, 'v) hashmap =
  hm_table :: "('k, 'v) entry list option"
  hm_size :: nat
  hm_capacity :: nat
  hm_load_factor :: rat

datatype hm_error = Invalid_capacity | Key_not_found

definition entry_new :: "'k \<Rightarrow> 'v \<Rightarrow> ('k, 'v) entry" where
  "entry_new k0 v0 = \<lparr>en_key = k0, en_value = v0, en_occ = False\<rparr>"

definition entry_of :: "'k \<Rightarrow> 'v \<Rightarrow> ('k, 'v) entry" where
  "entry_of k v = \<lparr>en_key = k, en_value = v, en_occ = True\<rparr>"

section \<open>Construction\<close>

definition HM_new :: "'k \<Rightarrow> 'v \<Rightarrow> nat \<Rightarrow> rat \<Rightarrow> hm_error + ('k, 'v) hashmap" where
  "HM_new k0 v0 capacity lf =
     (if capacity = 0 then Inl Invalid_capacity
      else Inr \<lparr>hm_table = Some (replicate capacity (entry_new k0 v0)), hm_size = 0, hm_capacity = capacity, hm_load_factor = lf\<rparr>)"

text \<open>Copying allocates \<open>capacity_\<close> entries and copies as many; copying a moved-from map gives an empty table.\<close>

definition HM_copy :: "('k, 'v) hashmap \<Rightarrow> ('k, 'v) hashmap" where
  "HM_copy other = other\<lparr>hm_table := Some (case hm_table other of None \<Rightarrow> [] | Some t \<Rightarrow> take (hm_capacity other) t)\<rparr>"

definition HM_move :: "('k, 'v) hashmap \<Rightarrow> ('k, 'v) hashmap \<times> ('k, 'v) hashmap" where
  "HM_move other = (other, other\<lparr>hm_table := None, hm_size := 0, hm_capacity := 0\<rparr>)"

text \<open>The assignments, for two different objects.\<close>

definition HM_copy_assign :: "('k, 'v) hashmap \<Rightarrow> ('k, 'v) hashmap \<Rightarrow> ('k, 'v) hashmap" where
  "HM_copy_assign self other = self\<lparr>hm_size := hm_size other, hm_capacity := hm_capacity other,
     hm_load_factor := hm_load_factor other, hm_table := hm_table (HM_copy other)\<rparr>"

definition HM_move_assign :: "('k, 'v) hashmap \<Rightarrow> ('k, 'v) hashmap \<Rightarrow> ('k, 'v) hashmap \<times> ('k, 'v) hashmap" where
  "HM_move_assign self other =
     (self\<lparr>hm_size := hm_size other, hm_capacity := hm_capacity other, hm_load_factor := hm_load_factor other,
        hm_table := hm_table other\<rparr>,
      other\<lparr>hm_table := None, hm_size := 0, hm_capacity := 0\<rparr>)"

section \<open>Probing\<close>

partial_function (option) probe_free :: "('k, 'v) entry list \<Rightarrow> nat \<Rightarrow> nat \<Rightarrow> nat option" where
  "probe_free t n idx = (if en_occ (t ! idx) then probe_free t n ((idx + 1) mod n) else Some idx)"

text \<open>The loop of \<open>insert\<close>: the slot where it stops.\<close>

partial_function (option) probe_insert :: "('k, 'v) entry list \<Rightarrow> nat \<Rightarrow> 'k \<Rightarrow> nat \<Rightarrow> nat option" where
  "probe_insert t n key idx =
     (if en_occ (t ! idx) then (if en_key (t ! idx) = key then Some idx else probe_insert t n key ((idx + 1) mod n))
      else Some idx)"

text \<open>The loop of \<open>find_index\<close>: the first slot whose key is \<open>key\<close>, occupied or not.\<close>

partial_function (option) probe_key :: "('k, 'v) entry list \<Rightarrow> nat \<Rightarrow> 'k \<Rightarrow> nat \<Rightarrow> nat \<Rightarrow> nat option option" where
  "probe_key t n key start_idx idx =
     (if en_key (t ! idx) \<noteq> key
      then let idx = (idx + 1) mod n in if idx = start_idx then Some None else probe_key t n key start_idx idx
      else Some (Some idx))"

declare probe_free.simps [code] probe_insert.simps [code] probe_key.simps [code]

text \<open>A table of capacity \<open>0\<close>, which a copy of a moved-from map has, makes \<open>%\<close> undefined: \<open>None\<close>.\<close>

definition HM_find_index :: "('k \<Rightarrow> nat) \<Rightarrow> 'k \<Rightarrow> ('k, 'v) hashmap \<Rightarrow> nat option option" where
  "HM_find_index h key m =
     (case hm_table m of
        None \<Rightarrow> Some None
      | Some t \<Rightarrow>
          if hm_capacity m = 0 then None
          else (case probe_key t (hm_capacity m) key (h key mod hm_capacity m) (h key mod hm_capacity m) of
             None \<Rightarrow> None
           | Some None \<Rightarrow> Some None
           | Some (Some idx) \<Rightarrow> if en_occ (t ! idx) then Some (Some idx) else Some None))"

section \<open>Operations\<close>

definition HM_needs_rehash :: "('k, 'v) hashmap \<Rightarrow> bool" where
  "HM_needs_rehash m \<longleftrightarrow> of_nat (hm_size m) \<ge> of_nat (hm_capacity m) * hm_load_factor m"

fun rehash_loop :: "('k \<Rightarrow> nat) \<Rightarrow> nat \<Rightarrow> ('k, 'v) entry list \<Rightarrow> ('k, 'v) entry list \<Rightarrow> ('k, 'v) entry list option" where
  "rehash_loop h n [] nt = Some nt"
| "rehash_loop h n (e # es) nt =
     (if en_occ e
      then case probe_free nt n (h (en_key e) mod n) of
             None \<Rightarrow> None
           | Some idx \<Rightarrow> rehash_loop h n es (nt[idx := e])
      else rehash_loop h n es nt)"

definition HM_rehash :: "'k \<Rightarrow> 'v \<Rightarrow> ('k \<Rightarrow> nat) \<Rightarrow> ('k, 'v) hashmap \<Rightarrow> ('k, 'v) hashmap option" where
  "HM_rehash k0 v0 h m =
     (let n = (if hm_capacity m \<noteq> 0 then hm_capacity m * 2 else 16);
          old = (case hm_table m of None \<Rightarrow> [] | Some t \<Rightarrow> take (hm_capacity m) t)
      in case rehash_loop h n old (replicate n (entry_new k0 v0)) of
           None \<Rightarrow> None
         | Some nt \<Rightarrow> Some (m\<lparr>hm_table := Some nt, hm_capacity := n\<rparr>))"

definition HM_grow :: "'k \<Rightarrow> 'v \<Rightarrow> ('k \<Rightarrow> nat) \<Rightarrow> ('k, 'v) hashmap \<Rightarrow> ('k, 'v) hashmap option" where
  "HM_grow k0 v0 h m = (if HM_needs_rehash m then HM_rehash k0 v0 h m else Some m)"

text \<open>\<open>insert(Key &&, Value &&)\<close>. The overload for constant references names members that do not exist and cannot be
  instantiated.\<close>

definition HM_insert :: "'k \<Rightarrow> 'v \<Rightarrow> ('k \<Rightarrow> nat) \<Rightarrow> 'k \<Rightarrow> 'v \<Rightarrow> ('k, 'v) hashmap \<Rightarrow> ('k, 'v) hashmap option" where
  "HM_insert k0 v0 h key val m =
     (case HM_grow k0 v0 h m of
        None \<Rightarrow> None
      | Some m \<Rightarrow>
          (case hm_table m of
             None \<Rightarrow> None
           | Some t \<Rightarrow>
               (case probe_insert t (hm_capacity m) key (h key mod hm_capacity m) of
                  None \<Rightarrow> None
                | Some idx \<Rightarrow>
                    (if en_occ (t ! idx) then Some (m\<lparr>hm_table := Some (t[idx := (t ! idx)\<lparr>en_value := val\<rparr>])\<rparr>)
                     else Some (m\<lparr>hm_table := Some (t[idx := entry_of key val]), hm_size := hm_size m + 1\<rparr>)))))"

definition HM_erase :: "('k \<Rightarrow> nat) \<Rightarrow> 'k \<Rightarrow> ('k, 'v) hashmap \<Rightarrow> (hm_error + ('k, 'v) hashmap) option" where
  "HM_erase h key m =
     (case HM_find_index h key m of
        None \<Rightarrow> None
      | Some None \<Rightarrow> Some (Inl Key_not_found)
      | Some (Some idx) \<Rightarrow>
          Some (Inr (m\<lparr>hm_table := map_option (\<lambda>t. t[idx := (t ! idx)\<lparr>en_occ := False\<rparr>]) (hm_table m),
                       hm_size := hm_size m - 1\<rparr>)))"

definition HM_contains :: "('k \<Rightarrow> nat) \<Rightarrow> 'k \<Rightarrow> ('k, 'v) hashmap \<Rightarrow> bool option" where
  "HM_contains h key m = map_option (\<lambda>r. r \<noteq> None) (HM_find_index h key m)"

definition HM_empty :: "('k, 'v) hashmap \<Rightarrow> bool" where
  "HM_empty m \<longleftrightarrow> hm_size m = 0"

text \<open>\<open>operator[]\<close> gives the slot whose value the reference denotes.\<close>

definition HM_index :: "'k \<Rightarrow> 'v \<Rightarrow> ('k \<Rightarrow> nat) \<Rightarrow> 'k \<Rightarrow> ('k, 'v) hashmap \<Rightarrow> (nat \<times> ('k, 'v) hashmap) option" where
  "HM_index k0 v0 h key m =
     (case HM_find_index h key m of
        None \<Rightarrow> None
      | Some (Some idx) \<Rightarrow> Some (idx, m)
      | Some None \<Rightarrow>
          (case HM_grow k0 v0 h m of
             None \<Rightarrow> None
           | Some m \<Rightarrow>
               (case hm_table m of
                  None \<Rightarrow> None
                | Some t \<Rightarrow>
                    (case probe_free t (hm_capacity m) (h key mod hm_capacity m) of
                       None \<Rightarrow> None
                     | Some idx \<Rightarrow> Some (idx, m\<lparr>hm_table := Some (t[idx := entry_of key v0]), hm_size := hm_size m + 1\<rparr>)))))"

text \<open>\<open>m[key] = val\<close> and reading \<open>m[key]\<close>.\<close>

definition HM_assign :: "'k \<Rightarrow> 'v \<Rightarrow> ('k \<Rightarrow> nat) \<Rightarrow> 'k \<Rightarrow> 'v \<Rightarrow> ('k, 'v) hashmap \<Rightarrow> ('k, 'v) hashmap option" where
  "HM_assign k0 v0 h key val m =
     map_option (\<lambda>(idx, m). m\<lparr>hm_table := map_option (\<lambda>t. t[idx := (t ! idx)\<lparr>en_value := val\<rparr>]) (hm_table m)\<rparr>)
       (HM_index k0 v0 h key m)"

definition HM_read :: "'k \<Rightarrow> 'v \<Rightarrow> ('k \<Rightarrow> nat) \<Rightarrow> 'k \<Rightarrow> ('k, 'v) hashmap \<Rightarrow> ('v \<times> ('k, 'v) hashmap) option" where
  "HM_read k0 v0 h key m =
     (case HM_index k0 v0 h key m of
        None \<Rightarrow> None
      | Some (idx, m) \<Rightarrow> map_option (\<lambda>t. (en_value (t ! idx), m)) (hm_table m))"

section \<open>Invariant and abstraction\<close>

text \<open>The keys of occupied entries are different, and on the probe path of such a key no earlier slot has the same key,
  occupied or not.\<close>

definition on_path :: "('k \<Rightarrow> nat) \<Rightarrow> ('k, 'v) entry list \<Rightarrow> nat \<Rightarrow> bool" where
  "on_path h t p \<longleftrightarrow> (let k = en_key (t ! p); n = length t
     in \<exists>j < n. p = (h k + j) mod n \<and> (\<forall>i < j. en_key (t ! ((h k + i) mod n)) \<noteq> k))"

definition occupied :: "('k, 'v) entry list \<Rightarrow> nat set" where
  "occupied t = {p. p < length t \<and> en_occ (t ! p)}"

definition table_inv :: "('k \<Rightarrow> nat) \<Rightarrow> ('k, 'v) entry list \<Rightarrow> bool" where
  "table_inv h t \<longleftrightarrow> (\<forall>p \<in> occupied t. on_path h t p)"

definition table_abs :: "('k, 'v) entry list \<Rightarrow> 'k \<rightharpoonup> 'v" where
  "table_abs t k = map_option en_value (find (\<lambda>e. en_occ e \<and> en_key e = k) t)"

definition hm_inv :: "('k \<Rightarrow> nat) \<Rightarrow> ('k, 'v) hashmap \<Rightarrow> bool" where
  "hm_inv h m \<longleftrightarrow> hm_load_factor m \<le> 1
     \<and> (case hm_table m of
          None \<Rightarrow> hm_size m = 0 \<and> hm_capacity m = 0
        | Some t \<Rightarrow> length t = hm_capacity m \<and> t \<noteq> [] \<and> hm_size m = card (occupied t) \<and> table_inv h t)"

definition hm_abs :: "('k, 'v) hashmap \<Rightarrow> 'k \<rightharpoonup> 'v" where
  "hm_abs m = (case hm_table m of None \<Rightarrow> Map.empty | Some t \<Rightarrow> table_abs t)"

text \<open>Sequences of operations, what they answer, and what a finite map answers.\<close>

datatype ('k, 'v) map_cmd = Cmd_put 'k 'v | Cmd_del 'k | Cmd_has 'k

datatype map_obs = Obs_put | Obs_deleted | Obs_missing | Obs_has bool

fun map_run :: "('k \<Rightarrow> 'v \<Rightarrow> 'm \<Rightarrow> 'm option) \<Rightarrow> ('k \<Rightarrow> 'm \<Rightarrow> ('err + 'm) option) \<Rightarrow> ('k \<Rightarrow> 'm \<Rightarrow> bool option) \<Rightarrow>
    ('k, 'v) map_cmd list \<Rightarrow> 'm \<Rightarrow> (map_obs list \<times> 'm) option" where
  "map_run put del has [] m = Some ([], m)"
| "map_run put del has (Cmd_put k v # cs) m =
     Option.bind (put k v m) (\<lambda>m. map_option (\<lambda>(os, m). (Obs_put # os, m)) (map_run put del has cs m))"
| "map_run put del has (Cmd_del k # cs) m =
     Option.bind (del k m) (\<lambda>r. case r of
         Inl _ \<Rightarrow> map_option (\<lambda>(os, m). (Obs_missing # os, m)) (map_run put del has cs m)
       | Inr m \<Rightarrow> map_option (\<lambda>(os, m). (Obs_deleted # os, m)) (map_run put del has cs m))"
| "map_run put del has (Cmd_has k # cs) m =
     Option.bind (has k m) (\<lambda>b. map_option (\<lambda>(os, m). (Obs_has b # os, m)) (map_run put del has cs m))"

fun map_spec :: "('k, 'v) map_cmd list \<Rightarrow> ('k \<rightharpoonup> 'v) \<Rightarrow> map_obs list \<times> ('k \<rightharpoonup> 'v)" where
  "map_spec [] f = ([], f)"
| "map_spec (Cmd_put k v # cs) f = (let (os, f) = map_spec cs (f(k \<mapsto> v)) in (Obs_put # os, f))"
| "map_spec (Cmd_del k # cs) f =
     (let (os, f') = map_spec cs (f(k := None)) in ((if f k = None then Obs_missing else Obs_deleted) # os, f'))"
| "map_spec (Cmd_has k # cs) f = (let (os, f') = map_spec cs f in (Obs_has (f k \<noteq> None) # os, f'))"

locale map_impl =
  fixes inv :: "'m \<Rightarrow> bool" and abs :: "'m \<Rightarrow> 'k \<rightharpoonup> 'v"
    and put :: "'k \<Rightarrow> 'v \<Rightarrow> 'm \<Rightarrow> 'm option" and del :: "'k \<Rightarrow> 'm \<Rightarrow> ('err + 'm) option" and has :: "'k \<Rightarrow> 'm \<Rightarrow> bool option"
  assumes put_ok: "inv m \<Longrightarrow> \<exists>m'. put k v m = Some m' \<and> inv m' \<and> abs m' = (abs m)(k \<mapsto> v)"
    and del_missing: "inv m \<Longrightarrow> abs m k = None \<Longrightarrow> \<exists>e. del k m = Some (Inl e)"
    and del_ok: "inv m \<Longrightarrow> abs m k = Some v \<Longrightarrow> \<exists>m'. del k m = Some (Inr m') \<and> inv m' \<and> abs m' = (abs m)(k := None)"
    and has_ok: "inv m \<Longrightarrow> has k m = Some (abs m k \<noteq> None)"
begin

lemma run_refines:
  "inv m \<Longrightarrow> \<exists>m'. map_run put del has cs m = Some (fst (map_spec cs (abs m)), m') \<and> inv m' \<and> abs m' = snd (map_spec cs (abs m))"
proof (induction cs arbitrary: m)
  case (Cons c cs)
  show ?case
  proof (cases c)
    case (Cmd_put k v)
    then show ?thesis using put_ok [OF Cons.prems, of k v] Cons.IH by (fastforce simp: case_prod_beta)
  next
    case (Cmd_has k)
    then show ?thesis using has_ok [OF Cons.prems, of k] Cons.IH [OF Cons.prems] by (auto simp: case_prod_beta)
  next
    case (Cmd_del k)
    show ?thesis
    proof (cases "abs m k")
      case None
      then have "(abs m)(k := None) = abs m" by auto
      then show ?thesis using Cmd_del None del_missing [OF Cons.prems None] Cons.IH [OF Cons.prems] by (auto simp: case_prod_beta)
    next
      case (Some v)
      then show ?thesis using Cmd_del del_ok [OF Cons.prems Some] Cons.IH by (fastforce simp: case_prod_beta)
    qed
  qed
qed simp

end

section \<open>Lemmas\<close>

lemma probe_free_least:
  assumes "\<forall>i < j. en_occ (t ! ((s + i) mod n))" "\<not> en_occ (t ! ((s + j) mod n))"
  shows "probe_free t n (s mod n) = Some ((s + j) mod n)"
  using assms
proof (induction j arbitrary: s)
  case 0
  then show ?case by (subst probe_free.simps) simp
next
  case (Suc j)
  have "en_occ (t ! (s mod n))" using Suc.prems(1) by force
  moreover have "\<forall>i < j. en_occ (t ! ((Suc s + i) mod n))" using Suc.prems(1) by force
  then have "probe_free t n (Suc s mod n) = Some ((Suc s + j) mod n)" using Suc.prems(2) by (intro Suc.IH) simp_all
  ultimately show ?case by (subst probe_free.simps) (simp add: mod_Suc_eq)
qed

lemma probe_insert_least:
  assumes "\<forall>i < j. en_occ (t ! ((s + i) mod n)) \<and> en_key (t ! ((s + i) mod n)) \<noteq> k"
    and "en_occ (t ! ((s + j) mod n)) \<longrightarrow> en_key (t ! ((s + j) mod n)) = k"
  shows "probe_insert t n k (s mod n) = Some ((s + j) mod n)"
  using assms
proof (induction j arbitrary: s)
  case 0
  then show ?case by (subst probe_insert.simps) simp
next
  case (Suc j)
  have "en_occ (t ! (s mod n)) \<and> en_key (t ! (s mod n)) \<noteq> k" using Suc.prems(1) by force
  moreover have "\<forall>i < j. en_occ (t ! ((Suc s + i) mod n)) \<and> en_key (t ! ((Suc s + i) mod n)) \<noteq> k" using Suc.prems(1) by force
  then have "probe_insert t n k (Suc s mod n) = Some ((Suc s + j) mod n)" using Suc.prems(2) by (intro Suc.IH) simp_all
  ultimately show ?case by (subst probe_insert.simps) (simp add: mod_Suc_eq)
qed

lemma mod_add_eq_start: "0 < n \<Longrightarrow> (s + j) mod n = s mod n \<longleftrightarrow> n dvd (j :: nat)"
  by (metis add.right_neutral mod_add_left_eq mod_add_right_eq mod_eq_self_iff_div_eq_0 mod_0 add_diff_cancel_left' dvd_eq_mod_eq_0 le_add1 mod_eq_dvd_iff_nat)

lemma probe_key_step:
  assumes "0 < n" "i < n" "en_key (t ! ((s + i) mod n)) \<noteq> k"
  shows "probe_key t n k (s mod n) ((s + i) mod n)
    = (if Suc i = n then Some None else probe_key t n k (s mod n) ((s + Suc i) mod n))"
proof -
  have next_idx: "((s + i) mod n + 1) mod n = (s + Suc i) mod n" by (simp add: mod_Suc_eq)
  have "(s + Suc i) mod n = s mod n \<longleftrightarrow> Suc i = n"
    using mod_add_eq_start [OF assms(1), of s "Suc i"] assms(2) by (auto dest: dvd_imp_le)
  then show ?thesis using assms(3) next_idx by (subst probe_key.simps) (simp add: Let_def)
qed

lemma probe_key_found:
  assumes "0 < n" "i \<le> j" "j < n" "\<forall>l. i \<le> l \<longrightarrow> l < j \<longrightarrow> en_key (t ! ((s + l) mod n)) \<noteq> k" "en_key (t ! ((s + j) mod n)) = k"
  shows "probe_key t n k (s mod n) ((s + i) mod n) = Some (Some ((s + j) mod n))"
  using assms(2,4)
proof (induction "j - i" arbitrary: i)
  case 0
  then show ?case using assms(5) by (subst probe_key.simps) simp
next
  case (Suc d)
  then have i: "i < j" "d = j - Suc i" by simp_all
  have "probe_key t n k (s mod n) ((s + Suc i) mod n) = Some (Some ((s + j) mod n))"
    by (rule Suc.hyps(1)) (use i Suc.prems in auto)
  then show ?case using i Suc.prems probe_key_step [of n i t s k] assms(1,3) by simp
qed

lemma probe_key_none:
  assumes "0 < n" "i < n" "\<forall>l. i \<le> l \<longrightarrow> l < n \<longrightarrow> en_key (t ! ((s + l) mod n)) \<noteq> k"
  shows "probe_key t n k (s mod n) ((s + i) mod n) = Some None"
  using assms(2,3)
proof (induction "n - i" arbitrary: i)
  case (Suc d)
  show ?case
  proof (cases "Suc i = n")
    case False
    then have i: "d = n - Suc i" "Suc i < n" using Suc.hyps(2) Suc.prems(1) by simp_all
    have "probe_key t n k (s mod n) ((s + Suc i) mod n) = Some None"
      by (rule Suc.hyps(1)) (use i Suc.prems in auto)
    then show ?thesis using i Suc.prems probe_key_step [of n i t s k] assms(1) by simp
  qed (use Suc probe_key_step [of n i t s k] assms(1) in simp)
qed simp

text \<open>Every slot is on the path of every key, and the first slot with a given property exists if any does.\<close>

lemma slot_offset:
  assumes "p < n"
  shows "\<exists>j < n. p = (s + j) mod (n :: nat)"
proof -
  let ?j = "(p + (n - s mod n)) mod n"
  have "(s + ?j) mod n = (s mod n + (p + (n - s mod n))) mod n" by (metis mod_add_eq mod_mod_trivial)
  also have "s mod n + (p + (n - s mod n)) = p + n" using assms mod_less_divisor [of n s] by linarith
  finally show ?thesis using assms by (intro exI [of _ ?j]) simp
qed

lemma first_offset:
  assumes "p < n" "P p"
  shows "\<exists>j < n. P ((s + j) mod n) \<and> (\<forall>i < j. \<not> P ((s + i) mod (n :: nat)))"
proof -
  obtain j where j: "j < n" "p = (s + j) mod n" using slot_offset [OF assms(1)] by blast
  then have ex: "P ((s + j) mod n)" using assms(2) by simp
  let ?l = "LEAST j. P ((s + j) mod n)"
  have "P ((s + ?l) mod n)" "?l \<le> j" using LeastI [of "\<lambda>j. P ((s + j) mod n)" j] Least_le [of "\<lambda>j. P ((s + j) mod n)" j] ex by auto
  moreover have "\<forall>i < ?l. \<not> P ((s + i) mod n)" using not_less_Least by blast
  ultimately show ?thesis using j(1) by (intro exI [of _ ?l]) simp
qed

lemma occupied_unique:
  assumes "table_inv h t" "p \<in> occupied t" "q \<in> occupied t" "en_key (t ! p) = en_key (t ! q)"
  shows "p = q"
proof -
  obtain i where i: "p = (h (en_key (t ! p)) + i) mod length t" "\<forall>l < i. en_key (t ! ((h (en_key (t ! p)) + l) mod length t)) \<noteq> en_key (t ! p)"
    using assms(1,2) by (auto simp: table_inv_def on_path_def Let_def)
  obtain j where j: "q = (h (en_key (t ! q)) + j) mod length t" "\<forall>l < j. en_key (t ! ((h (en_key (t ! q)) + l) mod length t)) \<noteq> en_key (t ! q)"
    using assms(1,3) by (auto simp: table_inv_def on_path_def Let_def)
  have "i = j" using i j assms(4) by (metis linorder_neqE_nat)
  then show ?thesis using i(1) j(1) assms(4) by simp
qed

lemma table_abs_occupied:
  assumes "table_inv h t" "p \<in> occupied t"
  shows "table_abs t (en_key (t ! p)) = Some (en_value (t ! p))"
proof -
  obtain e where e: "find (\<lambda>e. en_occ e \<and> en_key e = en_key (t ! p)) t = Some e"
    using assms(2) by (cases "find (\<lambda>e. en_occ e \<and> en_key e = en_key (t ! p)) t")
      (auto simp: find_None_iff occupied_def in_set_conv_nth)
  then obtain q where "q < length t" "en_occ (t ! q)" "en_key (t ! q) = en_key (t ! p)" "e = t ! q"
    by (auto simp: find_Some_iff)
  then have "q = p" using occupied_unique [OF assms(1), of q p] assms(2) by (auto simp: occupied_def)
  then show ?thesis using e \<open>e = t ! q\<close> by (simp add: table_abs_def)
qed

lemma table_abs_None: "table_abs t k = None \<longleftrightarrow> (\<forall>p \<in> occupied t. en_key (t ! p) \<noteq> k)"
  by (auto simp: table_abs_def find_None_iff occupied_def in_set_conv_nth)

lemma table_abs_eqI:
  assumes "table_inv h t" "\<And>p. p \<in> occupied t \<Longrightarrow> f (en_key (t ! p)) = Some (en_value (t ! p))"
    and "\<And>k v. f k = Some v \<Longrightarrow> \<exists>p \<in> occupied t. en_key (t ! p) = k"
  shows "table_abs t = f"
proof
  fix k
  show "table_abs t k = f k"
  proof (cases "\<exists>p \<in> occupied t. en_key (t ! p) = k")
    case True
    then obtain p where "p \<in> occupied t" "en_key (t ! p) = k" by blast
    then show ?thesis using table_abs_occupied [OF assms(1), of p] assms(2) [of p] by simp
  next
    case False
    then show ?thesis using table_abs_None [of t k] assms(3) [of k] by (cases "f k") auto
  qed
qed

text \<open>Finding, placing, changing and freeing an entry.\<close>

lemma find_index_spec:
  assumes "table_inv h t" "t \<noteq> []" "hm_table m = Some t" "hm_capacity m = length t"
  shows "HM_find_index h k m = Some (if \<exists>p \<in> occupied t. en_key (t ! p) = k
    then Some (THE p. p \<in> occupied t \<and> en_key (t ! p) = k) else None)"
proof -
  let ?n = "length t"
  have n: "0 < ?n" using assms(2) by simp
  let ?look = "probe_key t ?n k (h k mod ?n) (h k mod ?n)"
  show ?thesis
  proof (cases "\<exists>p \<in> occupied t. en_key (t ! p) = k")
    case True
    then obtain p where p: "p \<in> occupied t" "en_key (t ! p) = k" by blast
    then obtain j where j: "j < ?n" "p = (h k + j) mod ?n" "\<forall>i < j. en_key (t ! ((h k + i) mod ?n)) \<noteq> k"
      using assms(1) by (auto simp: table_inv_def on_path_def Let_def)
    have "?look = Some (Some p)"
      using probe_key_found [of ?n 0 j t "h k" k] n j p(2) by simp
    moreover have "(THE p. p \<in> occupied t \<and> en_key (t ! p) = k) = p"
      using p occupied_unique [OF assms(1)] by (intro the_equality) auto
    ultimately show ?thesis using p n assms(3,4) by (auto simp: HM_find_index_def occupied_def)
  next
    case False
    have "?look = Some None \<or> (\<exists>q < ?n. ?look = Some (Some q) \<and> en_key (t ! q) = k)"
    proof (cases "\<exists>q < ?n. en_key (t ! q) = k")
      case True
      then obtain q where "q < ?n" "en_key (t ! q) = k" by blast
      from first_offset [of q ?n "\<lambda>q. en_key (t ! q) = k" "h k", OF this] obtain j where
        "j < ?n" "en_key (t ! ((h k + j) mod ?n)) = k" "\<forall>i < j. en_key (t ! ((h k + i) mod ?n)) \<noteq> k" by blast
      then show ?thesis using probe_key_found [of ?n 0 j t "h k" k] n by auto
    next
      case False
      then show ?thesis using probe_key_none [of ?n 0 t "h k" k] n by simp
    qed
    then show ?thesis using False n assms(3,4) by (auto simp: HM_find_index_def occupied_def)
  qed
qed

lemma free_slot:
  assumes "card (occupied t) < length t"
  shows "\<exists>j < length t. \<not> en_occ (t ! ((s + j) mod length t)) \<and> (\<forall>i < j. en_occ (t ! ((s + i) mod length t)))"
proof -
  have "\<exists>p < length t. \<not> en_occ (t ! p)"
  proof (rule ccontr)
    assume "\<not> ?thesis"
    then have "occupied t = {..< length t}" by (auto simp: occupied_def)
    then show False using assms by simp
  qed
  then show ?thesis using first_offset [of _ "length t" "\<lambda>p. \<not> en_occ (t ! p)" s] by blast
qed

lemma occupied_place: "p < length t \<Longrightarrow> occupied (t[p := entry_of k v]) = insert p (occupied t)"
  by (auto simp: occupied_def nth_list_update entry_of_def split: if_splits)

lemma occupied_free: "p < length t \<Longrightarrow> occupied (t[p := (t ! p)\<lparr>en_occ := False\<rparr>]) = occupied t - {p}"
  by (auto simp: occupied_def nth_list_update split: if_splits)

lemma occupied_set: "p \<in> occupied t \<Longrightarrow> occupied (t[p := (t ! p)\<lparr>en_value := v\<rparr>]) = occupied t"
  by (auto simp: occupied_def nth_list_update split: if_splits)

lemma finite_occupied [simp]: "finite (occupied t)"
  by (rule finite_subset [of _ "{..< length t}"]) (auto simp: occupied_def)

lemma place_spec:
  assumes "table_inv h t" "table_abs t k = None" "j < length t" "p = (h k + j) mod length t"
    and "\<not> en_occ (t ! p)" "\<forall>i < j. en_occ (t ! ((h k + i) mod length t))"
  shows "table_inv h (t[p := entry_of k v])" "table_abs (t[p := entry_of k v]) = (table_abs t)(k \<mapsto> v)"
proof -
  let ?n = "length t" and ?t = "t[p := entry_of k v]"
  have p: "p < ?n" using assms(3) unfolding assms(4) by (intro mod_less_divisor) linarith
  have absent: "\<forall>q \<in> occupied t. en_key (t ! q) \<noteq> k" using assms(2) by (simp add: table_abs_None)
  have slot: "(h k + i) mod ?n < ?n" for i using p by (intro mod_less_divisor) linarith
  have "on_path h ?t p"
  proof -
    have "en_key (?t ! ((h k + i) mod ?n)) \<noteq> k" if "i < j" for i
    proof -
      have "(h k + i) mod ?n \<in> occupied t" using assms(6) that slot by (simp add: occupied_def)
      moreover from this have "(h k + i) mod ?n \<noteq> p" using assms(5) by (auto simp: occupied_def)
      ultimately show ?thesis using absent by simp
    qed
    then show ?thesis using p assms(3,4) by (auto simp: on_path_def entry_of_def Let_def)
  qed
  moreover have "on_path h ?t q" if q: "q \<in> occupied t" "q \<noteq> p" for q
  proof -
    let ?k = "en_key (t ! q)"
    obtain i where "i < ?n" "q = (h ?k + i) mod ?n" "\<forall>l < i. en_key (t ! ((h ?k + l) mod ?n)) \<noteq> ?k"
      using assms(1) q(1) by (auto simp: table_inv_def on_path_def Let_def)
    moreover have "?k \<noteq> k" using absent q(1) by blast
    ultimately show ?thesis using q(2) p by (auto simp: on_path_def entry_of_def nth_list_update Let_def)
  qed
  ultimately show inv: "table_inv h ?t" using p by (auto simp: table_inv_def occupied_place)
  show "table_abs ?t = (table_abs t)(k \<mapsto> v)"
  proof (rule table_abs_eqI [OF inv])
    fix q assume "q \<in> occupied ?t"
    then have "q = p \<or> q \<noteq> p \<and> q \<in> occupied t" using occupied_place [OF p] by auto
    then show "((table_abs t)(k \<mapsto> v)) (en_key (?t ! q)) = Some (en_value (?t ! q))"
      using p absent table_abs_occupied [OF assms(1)] by (auto simp: entry_of_def)
  next
    fix k' v' assume "((table_abs t)(k \<mapsto> v)) k' = Some v'"
    then show "\<exists>q \<in> occupied ?t. en_key (?t ! q) = k'"
      using p assms(5) table_abs_None [of t k'] unfolding occupied_place [OF p]
      by (cases "k' = k") (auto simp: entry_of_def nth_list_update occupied_def)
  qed
qed

lemma set_value_spec:
  assumes "table_inv h t" "p \<in> occupied t"
  shows "table_inv h (t[p := (t ! p)\<lparr>en_value := v\<rparr>])"
    "table_abs (t[p := (t ! p)\<lparr>en_value := v\<rparr>]) = (table_abs t)(en_key (t ! p) \<mapsto> v)"
proof -
  let ?t = "t[p := (t ! p)\<lparr>en_value := v\<rparr>]"
  have p: "p < length t" using assms(2) by (simp add: occupied_def)
  have key: "en_key (?t ! q) = en_key (t ! q)" for q
    using p by (cases "q = p") simp_all
  show inv: "table_inv h ?t"
    using assms(1) by (simp add: table_inv_def on_path_def occupied_set [OF assms(2)] key Let_def)
  show "table_abs ?t = (table_abs t)(en_key (t ! p) \<mapsto> v)"
  proof (rule table_abs_eqI [OF inv])
    fix q assume q: "q \<in> occupied ?t"
    show "((table_abs t)(en_key (t ! p) \<mapsto> v)) (en_key (?t ! q)) = Some (en_value (?t ! q))"
    proof (cases "q = p")
      case False
      then have "en_key (t ! q) \<noteq> en_key (t ! p)"
        using occupied_unique [OF assms(1), of q p] q assms(2) by (auto simp: occupied_set)
      then show ?thesis using False q table_abs_occupied [OF assms(1), of q] assms(2) by (simp add: occupied_set)
    qed (use p in simp)
  next
    fix k' v' assume "((table_abs t)(en_key (t ! p) \<mapsto> v)) k' = Some v'"
    then show "\<exists>q \<in> occupied ?t. en_key (?t ! q) = k'"
      using assms(2) table_abs_None [of t k'] unfolding occupied_set [OF assms(2)] key
      by (cases "k' = en_key (t ! p)") auto
  qed
qed

lemma free_spec:
  assumes "table_inv h t" "p \<in> occupied t"
  shows "table_inv h (t[p := (t ! p)\<lparr>en_occ := False\<rparr>])"
    "table_abs (t[p := (t ! p)\<lparr>en_occ := False\<rparr>]) = (table_abs t)(en_key (t ! p) := None)"
proof -
  let ?t = "t[p := (t ! p)\<lparr>en_occ := False\<rparr>]"
  have p: "p < length t" using assms(2) by (simp add: occupied_def)
  have key: "en_key (?t ! q) = en_key (t ! q)" for q
    using p by (cases "q = p") simp_all
  show inv: "table_inv h ?t"
    using assms(1) by (simp add: table_inv_def on_path_def occupied_free [OF p] key Let_def)
  show "table_abs ?t = (table_abs t)(en_key (t ! p) := None)"
  proof (rule table_abs_eqI [OF inv])
    fix q assume "q \<in> occupied ?t"
    then have q: "q \<in> occupied t" "q \<noteq> p" using occupied_free [OF p] by auto
    then have "en_key (t ! q) \<noteq> en_key (t ! p)" using occupied_unique [OF assms(1), of q p] assms(2) by auto
    then show "((table_abs t)(en_key (t ! p) := None)) (en_key (?t ! q)) = Some (en_value (?t ! q))"
      using q table_abs_occupied [OF assms(1), of q] by simp
  next
    fix k' v' assume "((table_abs t)(en_key (t ! p) := None)) k' = Some v'"
    then show "\<exists>q \<in> occupied ?t. en_key (?t ! q) = k'"
      using table_abs_None [of t k'] by (auto simp: occupied_free [OF p] key split: if_splits)
  qed
qed

text \<open>Rehashing puts every occupied entry into the new table.\<close>

lemma rehash_loop_spec:
  assumes "table_inv h nt" "card (occupied nt) + length (filter en_occ es) < length nt"
    and "distinct (map en_key (filter en_occ es))" "\<forall>e \<in> set es. en_occ e \<longrightarrow> table_abs nt (en_key e) = None"
  shows "\<exists>t. rehash_loop h (length nt) es nt = Some t \<and> length t = length nt \<and> table_inv h t
    \<and> card (occupied t) = card (occupied nt) + length (filter en_occ es)
    \<and> table_abs t = table_abs nt ++ map_of (map (\<lambda>e. (en_key e, en_value e)) (filter en_occ es))"
  using assms
proof (induction es arbitrary: nt)
  case (Cons e es)
  show ?case
  proof (cases "en_occ e")
    case False
    then show ?thesis using Cons by simp
  next
    case True
    let ?k = "en_key e" and ?n = "length nt"
    obtain j where j: "j < ?n" "\<not> en_occ (nt ! ((h ?k + j) mod ?n))" "\<forall>i < j. en_occ (nt ! ((h ?k + i) mod ?n))"
      using free_slot [of nt "h ?k"] Cons.prems(2) True by auto
    let ?p = "(h ?k + j) mod ?n" and ?t = "nt[(h ?k + j) mod ?n := e]"
    have e: "e = entry_of ?k (en_value e)" using True by (simp add: entry_of_def)
    have p: "?p < ?n" using j(1) by (intro mod_less_divisor) linarith
    have absent: "table_abs nt ?k = None" using Cons.prems(4) True by simp
    note place = place_spec [OF Cons.prems(1) absent j(1) refl j(2,3), of "en_value e", folded e]
    have "?p \<notin> occupied nt" using j(2) by (simp add: occupied_def)
    then have card: "card (occupied ?t) = Suc (card (occupied nt))"
      using occupied_place [OF p, of ?k "en_value e", folded e] by simp
    have "\<exists>t. rehash_loop h (length ?t) es ?t = Some t \<and> length t = length ?t \<and> table_inv h t
        \<and> card (occupied t) = card (occupied ?t) + length (filter en_occ es)
        \<and> table_abs t = table_abs ?t ++ map_of (map (\<lambda>e. (en_key e, en_value e)) (filter en_occ es))"
    proof (rule Cons.IH [OF place(1)])
      have "?k \<notin> en_key ` set (filter en_occ es)" using Cons.prems(3) True by simp
      then have "en_key e' \<noteq> ?k" if "e' \<in> set es" "en_occ e'" for e' using that imageI [of e' "set (filter en_occ es)" en_key] by force
      then show "\<forall>e' \<in> set es. en_occ e' \<longrightarrow> table_abs ?t (en_key e') = None"
        using Cons.prems(4) by (simp add: place(2))
    qed (use Cons.prems True card in simp_all)
    moreover have "table_abs ?t ++ map_of (map (\<lambda>e. (en_key e, en_value e)) (filter en_occ es))
        = table_abs nt ++ map_of (map (\<lambda>e. (en_key e, en_value e)) (filter en_occ (e # es)))"
    proof -
      have "?k \<notin> dom (map_of (map (\<lambda>e. (en_key e, en_value e)) (filter en_occ es)))"
        using Cons.prems(3) True by (simp add: dom_map_of_conv_image_fst image_image comp_def)
      then show ?thesis using True by (simp add: place(2) map_add_upd_left)
    qed
    moreover have "probe_free nt ?n (h ?k mod ?n) = Some ?p" by (rule probe_free_least [OF j(3,2)])
    then have "rehash_loop h ?n (e # es) nt = rehash_loop h (length ?t) es ?t" using True by simp
    moreover have "card (occupied ?t) + length (filter en_occ es) = card (occupied nt) + length (filter en_occ (e # es))"
      "length ?t = ?n"
      using True card by simp_all
    ultimately show ?thesis by metis
  qed
qed simp

lemma occupied_entries:
  assumes "table_inv h t"
  shows "distinct (map en_key (filter en_occ t))" "length (filter en_occ t) = card (occupied t)"
    "map_of (map (\<lambda>e. (en_key e, en_value e)) (filter en_occ t)) = table_abs t"
proof -
  have idx: "filter en_occ t = map ((!) t) (filter (\<lambda>p. en_occ (t ! p)) [0 ..< length t])"
    by (induction t rule: rev_induct) (auto simp: nth_append intro!: arg_cong2 [where f = append] map_cong filter_cong)
  have occ: "set (filter (\<lambda>p. en_occ (t ! p)) [0 ..< length t]) = occupied t" by (auto simp: occupied_def)
  show "length (filter en_occ t) = card (occupied t)"
    unfolding idx occ [symmetric] by (simp add: distinct_card del: set_filter)
  show d: "distinct (map en_key (filter en_occ t))"
    unfolding idx map_map distinct_map occ using occupied_unique [OF assms]
    by (auto simp: inj_on_def occupied_def)
  show "map_of (map (\<lambda>e. (en_key e, en_value e)) (filter en_occ t)) = table_abs t"
  proof (rule table_abs_eqI [OF assms, symmetric])
    fix p assume "p \<in> occupied t"
    then have "(en_key (t ! p), en_value (t ! p)) \<in> set (map (\<lambda>e. (en_key e, en_value e)) (filter en_occ t))"
      by (auto simp: occupied_def)
    then show "map_of (map (\<lambda>e. (en_key e, en_value e)) (filter en_occ t)) (en_key (t ! p)) = Some (en_value (t ! p))"
      using d by (intro map_of_is_SomeI) (simp_all add: comp_def)
  next
    fix k v assume "map_of (map (\<lambda>e. (en_key e, en_value e)) (filter en_occ t)) k = Some v"
    from map_of_SomeD [OF this] show "\<exists>p \<in> occupied t. en_key (t ! p) = k"
      by (auto simp: occupied_def in_set_conv_nth)
  qed
qed

lemma empty_table:
  "occupied (replicate n (entry_new k0 v0)) = {}" "table_inv h (replicate n (entry_new k0 v0))"
  "table_abs (replicate n (entry_new k0 v0)) = Map.empty"
proof -
  show occ: "occupied (replicate n (entry_new k0 v0)) = {}" by (auto simp: occupied_def entry_new_def)
  then show "table_inv h (replicate n (entry_new k0 v0))" by (simp add: table_inv_def)
  show "table_abs (replicate n (entry_new k0 v0)) = Map.empty"
    using table_abs_None [of "replicate n (entry_new k0 v0)"] occ by auto
qed

lemma rehash_spec:
  assumes "hm_inv h m"
  shows "\<exists>m' t. HM_rehash k0 v0 h m = Some m' \<and> hm_inv h m' \<and> hm_abs m' = hm_abs m \<and> hm_table m' = Some t
    \<and> card (occupied t) < length t \<and> hm_load_factor m' = hm_load_factor m"
proof -
  let ?old = "case hm_table m of None \<Rightarrow> [] | Some t \<Rightarrow> take (hm_capacity m) t"
  let ?n = "if hm_capacity m \<noteq> 0 then hm_capacity m * 2 else 16"
  have old: "table_inv h ?old" "table_abs ?old = hm_abs m" "hm_size m = card (occupied ?old)" "length ?old = hm_capacity m"
    using assms by (auto simp: hm_inv_def hm_abs_def table_inv_def occupied_def table_abs_def split: option.splits)
  note en = occupied_entries [OF old(1)]
  have "card (occupied ?old) \<le> length ?old" using en(2) by (metis length_filter_le)
  then have less: "card (occupied ?old) < ?n" using old(4) by simp
  have "\<exists>t. rehash_loop h (length (replicate ?n (entry_new k0 v0))) ?old (replicate ?n (entry_new k0 v0)) = Some t
      \<and> length t = length (replicate ?n (entry_new k0 v0)) \<and> table_inv h t
      \<and> card (occupied t) = card (occupied (replicate ?n (entry_new k0 v0))) + length (filter en_occ ?old)
      \<and> table_abs t = table_abs (replicate ?n (entry_new k0 v0)) ++ map_of (map (\<lambda>e. (en_key e, en_value e)) (filter en_occ ?old))"
    by (rule rehash_loop_spec) (use en less in \<open>simp_all only: empty_table length_replicate card.empty add_0 simp_thms ball_triv\<close>)
  then obtain t where t: "rehash_loop h ?n ?old (replicate ?n (entry_new k0 v0)) = Some t" "length t = ?n" "table_inv h t"
    "card (occupied t) = card (occupied ?old)" "table_abs t = table_abs ?old"
    unfolding empty_table en(2,3) by auto
  let ?m = "m\<lparr>hm_table := Some t, hm_capacity := ?n\<rparr>"
  have "HM_rehash k0 v0 h m = Some ?m" using t(1) by (simp add: HM_rehash_def Let_def)
  moreover have "t \<noteq> []" using t(2) by (auto split: if_splits)
  then have "hm_inv h ?m" using assms t(2-4) old(3) by (auto simp: hm_inv_def)
  ultimately show ?thesis using t less old(2) by (intro exI [of _ ?m] exI [of _ t]) (simp add: hm_abs_def)
qed

lemma grow_spec:
  assumes "hm_inv h m"
  shows "\<exists>m' t. HM_grow k0 v0 h m = Some m' \<and> hm_inv h m' \<and> hm_abs m' = hm_abs m \<and> hm_table m' = Some t
    \<and> card (occupied t) < length t"
proof (cases "HM_needs_rehash m")
  case True
  then show ?thesis using rehash_spec [OF assms, of k0 v0] by (auto simp: HM_grow_def)
next
  case False
  then have less: "rat_of_nat (hm_size m) < of_nat (hm_capacity m) * hm_load_factor m" by (simp add: HM_needs_rehash_def)
  also have "\<dots> \<le> of_nat (hm_capacity m)" using assms by (simp add: hm_inv_def mult_left_le)
  finally have "hm_size m < hm_capacity m" by simp
  then show ?thesis using False assms by (auto simp: HM_grow_def hm_inv_def split: option.splits)
qed

text \<open>The operations on maps that are only extended by \<open>operator[]\<close>.\<close>

lemma find_index_hm:
  assumes "hm_inv h m"
  shows "case hm_abs m k of
      None \<Rightarrow> HM_find_index h k m = Some None
    | Some v \<Rightarrow> \<exists>t p. hm_table m = Some t \<and> HM_find_index h k m = Some (Some p) \<and> p \<in> occupied t
        \<and> en_key (t ! p) = k \<and> en_value (t ! p) = v"
proof (cases "hm_table m")
  case None
  then show ?thesis by (simp add: hm_abs_def HM_find_index_def)
next
  case (Some t)
  then have t: "table_inv h t" "t \<noteq> []" "hm_capacity m = length t" using assms by (simp_all add: hm_inv_def)
  note find = find_index_spec [OF t(1,2) Some t(3), of k]
  show ?thesis
  proof (cases "\<exists>p \<in> occupied t. en_key (t ! p) = k")
    case True
    then obtain p where p: "p \<in> occupied t" "en_key (t ! p) = k" by blast
    then have "(THE p. p \<in> occupied t \<and> en_key (t ! p) = k) = p"
      using occupied_unique [OF t(1)] by (intro the_equality) auto
    then show ?thesis using find True p Some table_abs_occupied [OF t(1) p(1)] by (auto simp: hm_abs_def)
  next
    case False
    then have "table_abs t k = None" by (simp add: table_abs_None)
    then show ?thesis using find False Some by (simp add: hm_abs_def)
  qed
qed

lemma index_spec:
  assumes "hm_inv h m"
  shows "\<exists>p m' t. HM_index k0 v0 h k m = Some (p, m') \<and> hm_inv h m' \<and> hm_table m' = Some t \<and> p \<in> occupied t
    \<and> en_key (t ! p) = k \<and> hm_abs m' = (case hm_abs m k of Some _ \<Rightarrow> hm_abs m | None \<Rightarrow> (hm_abs m)(k \<mapsto> v0))"
proof (cases "hm_abs m k")
  case (Some v)
  then show ?thesis using find_index_hm [OF assms, of k] assms by (auto simp: HM_index_def)
next
  case None
  obtain m1 t where m1: "HM_grow k0 v0 h m = Some m1" "hm_inv h m1" "hm_abs m1 = hm_abs m" "hm_table m1 = Some t"
    "card (occupied t) < length t"
    using grow_spec [OF assms, of k0 v0] by blast
  then have t: "table_inv h t" "length t = hm_capacity m1" "hm_size m1 = card (occupied t)" "table_abs t k = None"
    using None by (auto simp: hm_inv_def hm_abs_def)
  obtain j where j: "j < length t" "\<not> en_occ (t ! ((h k + j) mod length t))" "\<forall>i < j. en_occ (t ! ((h k + i) mod length t))"
    using free_slot [OF m1(5), of "h k"] by blast
  let ?p = "(h k + j) mod length t"
  let ?t = "t[?p := entry_of k v0]"
  let ?m = "m1\<lparr>hm_table := Some ?t, hm_size := hm_size m1 + 1\<rparr>"
  note place = place_spec [OF t(1,4) j(1) refl j(2,3), of v0]
  have p: "?p < length t" using j(1) by (intro mod_less_divisor) linarith
  have occ: "occupied ?t = insert ?p (occupied t)" "?p \<notin> occupied t"
    using occupied_place [OF p] j(2) by (simp_all add: occupied_def)
  have "HM_index k0 v0 h k m = Some (?p, ?m)"
    using find_index_hm [OF assms, of k] None m1(1,4) probe_free_least [OF j(3,2)] t(2) by (simp add: HM_index_def)
  moreover have "hm_inv h ?m" using m1(2) place(1) t(2,3) occ p by (auto simp: hm_inv_def)
  ultimately show ?thesis using None occ p place(2) m1(3,4)
    by (intro exI [of _ ?p] exI [of _ ?m] exI [of _ ?t]) (simp add: hm_abs_def entry_of_def)
qed

lemma assign_spec:
  assumes "hm_inv h m"
  shows "\<exists>m'. HM_assign k0 v0 h k v m = Some m' \<and> hm_inv h m' \<and> hm_abs m' = (hm_abs m)(k \<mapsto> v)"
proof -
  obtain p m1 t where i: "HM_index k0 v0 h k m = Some (p, m1)" "hm_inv h m1" "hm_table m1 = Some t" "p \<in> occupied t"
    "en_key (t ! p) = k" "hm_abs m1 = (case hm_abs m k of Some _ \<Rightarrow> hm_abs m | None \<Rightarrow> (hm_abs m)(k \<mapsto> v0))"
    using index_spec [OF assms] by blast
  have t: "table_inv h t" using i(2,3) by (simp add: hm_inv_def)
  note set = set_value_spec [OF t i(4), of v]
  let ?m = "m1\<lparr>hm_table := Some (t[p := (t ! p)\<lparr>en_value := v\<rparr>])\<rparr>"
  have "HM_assign k0 v0 h k v m = Some ?m" using i(1,3) by (simp add: HM_assign_def)
  moreover have "hm_inv h ?m" using i(2,3) set(1) occupied_set [OF i(4)] by (simp add: hm_inv_def)
  moreover have "hm_abs ?m = (hm_abs m)(k \<mapsto> v)"
    using set(2) i(3,5,6) by (auto simp: hm_abs_def split: option.splits)
  ultimately show ?thesis by blast
qed

lemma erase_spec:
  assumes "hm_inv h m"
  shows "case hm_abs m k of
      None \<Rightarrow> HM_erase h k m = Some (Inl Key_not_found)
    | Some v \<Rightarrow> \<exists>m'. HM_erase h k m = Some (Inr m') \<and> hm_inv h m' \<and> hm_abs m' = (hm_abs m)(k := None)"
proof (cases "hm_abs m k")
  case None
  then show ?thesis using find_index_hm [OF assms, of k] by (simp add: HM_erase_def)
next
  case (Some v)
  then obtain t p where p: "hm_table m = Some t" "HM_find_index h k m = Some (Some p)" "p \<in> occupied t" "en_key (t ! p) = k"
    using find_index_hm [OF assms, of k] by auto
  have t: "table_inv h t" "p < length t" using assms p(1,3) by (simp_all add: hm_inv_def occupied_def)
  note free = free_spec [OF t(1) p(3)]
  let ?m = "m\<lparr>hm_table := Some (t[p := (t ! p)\<lparr>en_occ := False\<rparr>]), hm_size := hm_size m - 1\<rparr>"
  have "HM_erase h k m = Some (Inr ?m)" using p(1,2) by (simp add: HM_erase_def)
  moreover have "hm_inv h ?m" using assms p(1,3) free(1) occupied_free [OF t(2)] by (auto simp: hm_inv_def)
  moreover have "hm_abs ?m = (hm_abs m)(k := None)" using free(2) p(1,4) by (simp add: hm_abs_def)
  ultimately show ?thesis using Some by auto
qed

lemma contains_spec: "hm_inv h m \<Longrightarrow> HM_contains h k m = Some (hm_abs m k \<noteq> None)"
  using find_index_hm [of h m k] by (cases "hm_abs m k") (auto simp: HM_contains_def)

lemma read_spec:
  assumes "hm_inv h m" "hm_abs m k = Some v"
  shows "HM_read k0 v0 h k m = Some (v, m)"
  using find_index_hm [OF assms(1), of k] assms(2) by (auto simp: HM_read_def HM_index_def)

interpretation hash_map: map_impl "hm_inv h" hm_abs "HM_assign k0 v0 h" "HM_erase h" "HM_contains h" for h k0 v0
proof
  fix m :: "('a, 'b) hashmap" and k v
  assume inv: "hm_inv h m"
  show "\<exists>m'. HM_assign k0 v0 h k v m = Some m' \<and> hm_inv h m' \<and> hm_abs m' = (hm_abs m)(k \<mapsto> v)" by (rule assign_spec [OF inv])
  show "\<exists>e. HM_erase h k m = Some (Inl e)" if "hm_abs m k = None" using erase_spec [OF inv, of k] that by simp
  show "\<exists>m'. HM_erase h k m = Some (Inr m') \<and> hm_inv h m' \<and> hm_abs m' = (hm_abs m)(k := None)" if "hm_abs m k = Some v"
    using erase_spec [OF inv, of k] that by simp
  show "HM_contains h k m = Some (hm_abs m k \<noteq> None)" by (rule contains_spec [OF inv])
qed

lemma HM_new_spec:
  assumes "0 < n" "lf \<le> 1"
  shows "\<exists>m. HM_new k0 v0 n lf = Inr m \<and> hm_inv h m \<and> hm_abs m = Map.empty"
  using assms by (auto simp: HM_new_def hm_inv_def hm_abs_def empty_table)

section \<open>Properties\<close>



text \<open>\<open>insert\<close> after \<open>erase\<close> can store a key twice: it takes the first free slot without looking further. Here the keys
  \<open>1\<close> and \<open>5\<close> share a slot; after erasing \<open>1\<close>, inserting \<open>5\<close> again makes a second entry, and after erasing \<open>5\<close> the map
  says that it has no key \<open>5\<close> although its size is \<open>1\<close>.\<close>

theorem hashmap_insert_duplicates:
  "Option.bind (HM_insert 0 0 id 1 10 (projr (HM_new (0 :: nat) (0 :: nat) 4 (3 / 4)))) (\<lambda>m1.
     Option.bind (HM_insert 0 0 id 5 20 m1) (\<lambda>m2.
     Option.bind (HM_erase id 1 m2) (\<lambda>m3.
     Option.bind (HM_insert 0 0 id 5 30 (projr m3)) (\<lambda>m4.
     Option.bind (HM_erase id 5 m4) (\<lambda>m5.
       Some (hm_size m2, hm_size m4, HM_contains id 5 m4, hm_size (projr m5), HM_contains id 5 (projr m5)))))))
   = Some (2, 2, Some True, 1, Some False)"
  by code_simp

end
