(* ===== verification/Mpmc_Queue.thy ===== *)
theory Mpmc_Queue
  imports Prelude
begin

text \<open>
  \<open>MPMCQueue<T, Capacity>\<close> (include/mpmc_queue.h): the ring buffer with one ticket counter per slot that any
  number of producers and consumers share. The atomic accesses of \<open>emplace\<close> and \<open>pop\<close> are one definition
  each; \<open>MPMC_emplace\<close> and \<open>MPMC_pop\<close> compose them for a single thread, and the step relation \<open>mpmc_step\<close>
  interleaves them for a set of threads of any size. A slot is \<open>Raw\<close> as allocated, \<open>Live v\<close> once an
  object is constructed, and \<open>Moved\<close> when \<open>pop\<close> has moved the value out of it (\<open>pop\<close> does not end the object's
  lifetime). The counters are \<open>size_t\<close>: every increment is taken modulo \<open>2 ^ 64\<close>.
\<close>

section \<open>The slots and the atomic accesses\<close>

datatype 'a mslot = Raw | Live 'a | Moved

record 'a mpmc =
  mq_data :: "'a mslot list"
  mq_ticket :: "nat list"
  mq_head :: nat
  mq_tail :: nat

definition MPMC_new :: "nat \<Rightarrow> 'a mpmc" where [queue_defs]:
  "MPMC_new cap = \<lparr>mq_data = replicate cap Raw, mq_ticket = replicate cap 0, mq_head = 0, mq_tail = 0\<rparr>"

definition mq_idx :: "nat \<Rightarrow> nat \<Rightarrow> nat" where
  "mq_idx cap i = i mod cap"

definition mq_turn :: "nat \<Rightarrow> nat \<Rightarrow> nat" where
  "mq_turn cap i = i div cap"

definition tail_fetch_add :: "'a mpmc \<Rightarrow> nat \<times> 'a mpmc" where [queue_defs]:
  "tail_fetch_add q = (mq_tail q, q\<lparr>mq_tail := (mq_tail q + 1) mod 2 ^ 64\<rparr>)"

definition head_fetch_add :: "'a mpmc \<Rightarrow> nat \<times> 'a mpmc" where [queue_defs]:
  "head_fetch_add q = (mq_head q, q\<lparr>mq_head := (mq_head q + 1) mod 2 ^ 64\<rparr>)"

text \<open>The conditions the two loops wait for.\<close>

definition may_construct :: "nat \<Rightarrow> nat \<Rightarrow> 'a mpmc \<Rightarrow> bool" where [queue_defs]:
  "may_construct cap tail q \<longleftrightarrow> (mq_turn cap tail * 2) mod 2 ^ 64 = mq_ticket q ! mq_idx cap tail"

definition may_move :: "nat \<Rightarrow> nat \<Rightarrow> 'a mpmc \<Rightarrow> bool" where [queue_defs]:
  "may_move cap head q \<longleftrightarrow> (mq_turn cap head * 2 + 1) mod 2 ^ 64 = mq_ticket q ! mq_idx cap head"

definition construct_slot :: "nat \<Rightarrow> nat \<Rightarrow> 'a \<Rightarrow> 'a mpmc \<Rightarrow> 'a mpmc" where [queue_defs]:
  "construct_slot cap tail x q = q\<lparr>mq_data := (mq_data q)[mq_idx cap tail := Live x]\<rparr>"

definition move_slot :: "nat \<Rightarrow> nat \<Rightarrow> 'a mpmc \<Rightarrow> 'a mslot \<times> 'a mpmc" where [queue_defs]:
  "move_slot cap head q =
     (mq_data q ! mq_idx cap head, q\<lparr>mq_data := (mq_data q)[mq_idx cap head := Moved]\<rparr>)"

definition publish_full :: "nat \<Rightarrow> nat \<Rightarrow> 'a mpmc \<Rightarrow> 'a mpmc" where [queue_defs]:
  "publish_full cap tail q =
     q\<lparr>mq_ticket := (mq_ticket q)[mq_idx cap tail := (mq_turn cap tail * 2 + 1) mod 2 ^ 64]\<rparr>"

definition publish_free :: "nat \<Rightarrow> nat \<Rightarrow> 'a mpmc \<Rightarrow> 'a mpmc" where [queue_defs]:
  "publish_free cap head q =
     q\<lparr>mq_ticket := (mq_ticket q)[mq_idx cap head := (mq_turn cap head * 2 + 2) mod 2 ^ 64]\<rparr>"

section \<open>The operations of one thread\<close>

text \<open>\<open>None\<close> is a call that spins until another thread acts.\<close>

definition MPMC_emplace :: "nat \<Rightarrow> 'a \<Rightarrow> 'a mpmc \<Rightarrow> 'a mpmc option" where
  "MPMC_emplace cap x q =
     (let (tail, q1) = tail_fetch_add q
      in if may_construct cap tail q1 then Some (publish_full cap tail (construct_slot cap tail x q1)) else None)"

definition MPMC_pop :: "nat \<Rightarrow> 'a mpmc \<Rightarrow> ('a mslot \<times> 'a mpmc) option" where
  "MPMC_pop cap q =
     (let (head, q1) = head_fetch_add q
      in if may_move cap head q1
         then let (v, q2) = move_slot cap head q1 in Some (v, publish_free cap head q2)
         else None)"

definition MPMC_size :: "'a mpmc \<Rightarrow> u64" where
  "MPMC_size q = of_nat (mq_tail q) - of_nat (mq_head q)"

definition MPMC_empty :: "'a mpmc \<Rightarrow> bool" where
  "MPMC_empty q \<longleftrightarrow> mq_head q = mq_tail q"

text \<open>The destructor runs \<open>~T\<close> on every slot; the result counts the slots that never held an object.\<close>

definition MPMC_delete :: "'a mpmc \<Rightarrow> nat" where
  "MPMC_delete q = length (filter (\<lambda>s. s = Raw) (mq_data q))"

section \<open>Interleaved threads\<close>

datatype enq_stage = E_wait | E_ready | E_built
datatype 'a deq_stage = D_wait | D_ready | D_moved "'a mslot"
datatype 'a mpmc_pc = M_idle | M_enq enq_stage 'a nat | M_deq "'a deq_stage" nat

text \<open>
  The shared queue, where each thread stands in its call, and two histories: the values of the
  \<open>emplace\<close> calls in the order they drew their tickets, and per \<open>pop\<close> ticket what the call returned.
\<close>

record ('t, 'a) mpmc_sys =
  ms_queue :: "'a mpmc"
  ms_pc :: "'t \<Rightarrow> 'a mpmc_pc"
  ms_in :: "'a list"
  ms_out :: "'a mslot option list"

inductive mpmc_step :: "nat \<Rightarrow> ('t, 'a) mpmc_sys \<Rightarrow> ('t, 'a) mpmc_sys \<Rightarrow> bool" for cap where
  e_take: "ms_pc s i = M_idle \<Longrightarrow> tail_fetch_add (ms_queue s) = (t, q) \<Longrightarrow>
     mpmc_step cap s (s\<lparr>ms_queue := q, ms_pc := (ms_pc s)(i := M_enq E_wait x t), ms_in := ms_in s @ [x]\<rparr>)"
| e_spin: "ms_pc s i = M_enq E_wait x t \<Longrightarrow> \<not> may_construct cap t (ms_queue s) \<Longrightarrow> mpmc_step cap s s"
| e_load: "ms_pc s i = M_enq E_wait x t \<Longrightarrow> may_construct cap t (ms_queue s) \<Longrightarrow>
     mpmc_step cap s (s\<lparr>ms_pc := (ms_pc s)(i := M_enq E_ready x t)\<rparr>)"
| e_construct: "ms_pc s i = M_enq E_ready x t \<Longrightarrow>
     mpmc_step cap s (s\<lparr>ms_queue := construct_slot cap t x (ms_queue s),
       ms_pc := (ms_pc s)(i := M_enq E_built x t)\<rparr>)"
| e_publish: "ms_pc s i = M_enq E_built x t \<Longrightarrow>
     mpmc_step cap s (s\<lparr>ms_queue := publish_full cap t (ms_queue s), ms_pc := (ms_pc s)(i := M_idle)\<rparr>)"
| d_take: "ms_pc s i = M_idle \<Longrightarrow> head_fetch_add (ms_queue s) = (h, q) \<Longrightarrow>
     mpmc_step cap s (s\<lparr>ms_queue := q, ms_pc := (ms_pc s)(i := M_deq D_wait h), ms_out := ms_out s @ [None]\<rparr>)"
| d_spin: "ms_pc s i = M_deq D_wait h \<Longrightarrow> \<not> may_move cap h (ms_queue s) \<Longrightarrow> mpmc_step cap s s"
| d_load: "ms_pc s i = M_deq D_wait h \<Longrightarrow> may_move cap h (ms_queue s) \<Longrightarrow>
     mpmc_step cap s (s\<lparr>ms_pc := (ms_pc s)(i := M_deq D_ready h)\<rparr>)"
| d_move: "ms_pc s i = M_deq D_ready h \<Longrightarrow> move_slot cap h (ms_queue s) = (v, q) \<Longrightarrow>
     mpmc_step cap s (s\<lparr>ms_queue := q, ms_pc := (ms_pc s)(i := M_deq (D_moved v) h)\<rparr>)"
| d_publish: "ms_pc s i = M_deq (D_moved v) h \<Longrightarrow>
     mpmc_step cap s (s\<lparr>ms_queue := publish_free cap h (ms_queue s), ms_pc := (ms_pc s)(i := M_idle),
       ms_out := (ms_out s)[h := Some v]\<rparr>)"

inductive_cases mpmc_stepE: "mpmc_step cap s t"

definition mpmc_sys0 :: "nat \<Rightarrow> ('t, 'a) mpmc_sys" where
  "mpmc_sys0 cap = \<lparr>ms_queue = MPMC_new cap, ms_pc = (\<lambda>_. M_idle), ms_in = [], ms_out = []\<rparr>"

definition mpmc_start :: "nat \<Rightarrow> ('t, 'a) mpmc_sys \<Rightarrow> bool" where
  "mpmc_start cap s \<longleftrightarrow> 0 < cap \<and> s = mpmc_sys0 cap"

section \<open>The invariant\<close>

text \<open>The ticket a thread holds, and on which side of the queue.\<close>

datatype side = Enq | Deq

fun ticket_of :: "'a mpmc_pc \<Rightarrow> (side \<times> nat) option" where
  "ticket_of M_idle = None"
| "ticket_of (M_enq st x t) = Some (Enq, t)"
| "ticket_of (M_deq st h) = Some (Deq, h)"

definition held :: "('t \<Rightarrow> 'a mpmc_pc) \<Rightarrow> side \<times> nat \<Rightarrow> bool" where
  "held pc k \<longleftrightarrow> (\<exists>i. ticket_of (pc i) = Some k)"

definition held_once :: "('t \<Rightarrow> 'a mpmc_pc) \<Rightarrow> bool" where
  "held_once pc \<longleftrightarrow> (\<forall>i j k. ticket_of (pc i) = Some k \<longrightarrow> ticket_of (pc j) = Some k \<longrightarrow> i = j)"

definition moved_by :: "('t \<Rightarrow> 'a mpmc_pc) \<Rightarrow> nat \<Rightarrow> bool" where
  "moved_by pc h \<longleftrightarrow> (\<exists>i v. pc i = M_deq (D_moved v) h)"

text \<open>The ticket counter of the slot that a ticket number belongs to.\<close>

definition slot_ticket :: "nat \<Rightarrow> 'a mpmc \<Rightarrow> nat \<Rightarrow> nat" where
  "slot_ticket cap q t = mq_ticket q ! mq_idx cap t"

definition slot_data :: "nat \<Rightarrow> 'a mpmc \<Rightarrow> nat \<Rightarrow> 'a mslot" where
  "slot_data cap q t = mq_data q ! mq_idx cap t"

text \<open>Shape of the state: the counters are the numbers of tickets drawn.\<close>

definition mpmc_shape :: "nat \<Rightarrow> ('t, 'a) mpmc_sys \<Rightarrow> bool" where
  "mpmc_shape cap s \<longleftrightarrow> 0 < cap \<and> length (mq_data (ms_queue s)) = cap \<and> length (mq_ticket (ms_queue s)) = cap
     \<and> mq_tail (ms_queue s) = length (ms_in s) \<and> mq_head (ms_queue s) = length (ms_out s)"

text \<open>A thread holds a ticket that was drawn, and its stage fits the slot.\<close>

fun thread_ok :: "nat \<Rightarrow> ('t, 'a) mpmc_sys \<Rightarrow> 'a mpmc_pc \<Rightarrow> bool" where
  "thread_ok cap s M_idle = True"
| "thread_ok cap s (M_enq st x t) \<longleftrightarrow> t < length (ms_in s) \<and> ms_in s ! t = x
     \<and> (st \<noteq> E_wait \<longrightarrow> slot_ticket cap (ms_queue s) t = mq_turn cap t * 2)
     \<and> (st = E_built \<longrightarrow> slot_data cap (ms_queue s) t = Live x)"
| "thread_ok cap s (M_deq st h) \<longleftrightarrow> h < length (ms_out s)
     \<and> (st \<noteq> D_wait \<longrightarrow> slot_ticket cap (ms_queue s) h = mq_turn cap h * 2 + 1)
     \<and> (\<forall>v. st = D_moved v \<longrightarrow> v = Live (ms_in s ! h) \<and> h < length (ms_in s))"

text \<open>The ticket counter tells which calls on the slot have returned and which are still to come.\<close>

definition mpmc_tickets :: "nat \<Rightarrow> ('t, 'a) mpmc_sys \<Rightarrow> bool" where
  "mpmc_tickets cap s \<longleftrightarrow>
     (\<forall>t. held (ms_pc s) (Enq, t) \<longleftrightarrow> t < length (ms_in s) \<and> slot_ticket cap (ms_queue s) t \<le> mq_turn cap t * 2)
   \<and> (\<forall>h. held (ms_pc s) (Deq, h) \<longleftrightarrow> h < length (ms_out s) \<and> slot_ticket cap (ms_queue s) h \<le> mq_turn cap h * 2 + 1)
   \<and> (\<forall>t. mq_turn cap t * 2 < slot_ticket cap (ms_queue s) t \<longrightarrow> t < length (ms_in s))
   \<and> (\<forall>h. mq_turn cap h * 2 + 1 < slot_ticket cap (ms_queue s) h \<longrightarrow> h < length (ms_out s))"

text \<open>An odd ticket counter is a slot with the value of that turn; a \<open>pop\<close> has returned that value.\<close>

definition mpmc_values :: "nat \<Rightarrow> ('t, 'a) mpmc_sys \<Rightarrow> bool" where
  "mpmc_values cap s \<longleftrightarrow>
     (\<forall>t. slot_ticket cap (ms_queue s) t = mq_turn cap t * 2 + 1 \<longrightarrow>
        slot_data cap (ms_queue s) t = Live (ms_in s ! t) \<or> moved_by (ms_pc s) t)
   \<and> (\<forall>h < length (ms_out s). ms_out s ! h =
        (if slot_ticket cap (ms_queue s) h \<le> mq_turn cap h * 2 + 1 then None else Some (Live (ms_in s ! h))))"

definition mpmc_good :: "nat \<Rightarrow> ('t, 'a) mpmc_sys \<Rightarrow> bool" where
  "mpmc_good cap s \<longleftrightarrow> mpmc_shape cap s \<and> (\<forall>i. thread_ok cap s (ms_pc s i)) \<and> held_once (ms_pc s)
     \<and> mpmc_tickets cap s \<and> mpmc_values cap s"

text \<open>Fewer than \<open>2 ^ 62\<close> tickets were drawn on each side, so that no \<open>size_t\<close> has wrapped.\<close>

definition mpmc_bounded :: "('t, 'a) mpmc_sys \<Rightarrow> bool" where
  "mpmc_bounded s \<longleftrightarrow> length (ms_in s) < 2 ^ 62 \<and> length (ms_out s) < 2 ^ 62"

definition mpmc_inv :: "nat \<Rightarrow> ('t, 'a) mpmc_sys \<Rightarrow> bool" where
  "mpmc_inv cap s \<longleftrightarrow> (mpmc_bounded s \<longrightarrow> mpmc_good cap s)"

text \<open>A thread past its waiting loop, and one inside it whose condition does not hold.\<close>

definition at_slot :: "'a mpmc_pc \<Rightarrow> nat \<Rightarrow> bool" where
  "at_slot p t \<longleftrightarrow> (\<exists>st x. p = M_enq st x t \<and> st \<noteq> E_wait) \<or> (\<exists>st. p = M_deq st t \<and> st \<noteq> D_wait)"

definition blocked :: "nat \<Rightarrow> 'a mpmc \<Rightarrow> 'a mpmc_pc \<Rightarrow> bool" where
  "blocked cap q p \<longleftrightarrow> (case p of M_enq E_wait x t \<Rightarrow> \<not> may_construct cap t q
     | M_deq D_wait h \<Rightarrow> \<not> may_move cap h q | _ \<Rightarrow> False)"

text \<open>Filling a queue from one thread.\<close>

fun emplace_all :: "nat \<Rightarrow> 'a list \<Rightarrow> 'a mpmc \<Rightarrow> 'a mpmc option" where
  "emplace_all cap [] q = Some q"
| "emplace_all cap (x # xs) q = Option.bind (MPMC_emplace cap x q) (emplace_all cap xs)"

section \<open>The invariant holds in every run\<close>

lemma mq_idx_less: "0 < cap \<Longrightarrow> mq_idx cap t < cap"
  by (simp add: mq_idx_def)

lemma mq_ticket_inj: "mq_idx cap t = mq_idx cap u \<Longrightarrow> mq_turn cap t = mq_turn cap u \<Longrightarrow> t = u"
  by (metis mq_idx_def mq_turn_def div_mult_mod_eq)

lemma mq_turn_bound:
  assumes "t < 2 ^ 62"
  shows "(mq_turn cap t * 2) mod 2 ^ 64 = mq_turn cap t * 2"
    "(mq_turn cap t * 2 + 1) mod 2 ^ 64 = mq_turn cap t * 2 + 1"
    "(mq_turn cap t * 2 + 2) mod 2 ^ 64 = mq_turn cap t * 2 + 2"
proof -
  have "mq_turn cap t < 2 ^ 62" unfolding mq_turn_def using assms div_le_dividend le_less_trans by blast
  then show "(mq_turn cap t * 2) mod 2 ^ 64 = mq_turn cap t * 2"
    "(mq_turn cap t * 2 + 1) mod 2 ^ 64 = mq_turn cap t * 2 + 1"
    "(mq_turn cap t * 2 + 2) mod 2 ^ 64 = mq_turn cap t * 2 + 2" by simp_all
qed

lemma held_upd:
  assumes "held_once pc"
  shows "held (pc(i := p)) k \<longleftrightarrow> ticket_of p = Some k \<or> held pc k \<and> ticket_of (pc i) \<noteq> Some k"
  using assms unfolding held_def held_once_def by (cases k) (auto split: if_splits)

lemma held_same: "ticket_of p = ticket_of (pc i) \<Longrightarrow> held (pc(i := p)) = held pc"
  by (auto simp: held_def fun_eq_iff)

lemma held_once_upd:
  assumes "held_once pc" "\<And>k. ticket_of p = Some k \<Longrightarrow> ticket_of (pc i) = Some k \<or> \<not> held pc k"
  shows "held_once (pc(i := p))"
  using assms by (auto simp: held_def held_once_def)

lemma moved_upd:
  assumes "\<And>v h. pc i \<noteq> M_deq (D_moved v) h"
  shows "moved_by (pc(i := p)) k \<longleftrightarrow> (\<exists>v. p = M_deq (D_moved v) k) \<or> moved_by pc k"
  using assms by (auto simp: moved_by_def) metis+

lemma mpmc_good_init: "0 < cap \<Longrightarrow> mpmc_good cap (mpmc_sys0 cap)"
  by (simp add: mpmc_good_def mpmc_shape_def mpmc_tickets_def mpmc_values_def mpmc_sys0_def
      MPMC_new_def slot_ticket_def slot_data_def mq_idx_def held_def held_once_def)

lemma good_thread: "mpmc_good cap s \<Longrightarrow> ms_pc s i = p \<Longrightarrow> thread_ok cap s p"
  by (auto simp: mpmc_good_def)

lemma slot_ticket_cong: "mq_idx cap u = mq_idx cap t \<Longrightarrow> slot_ticket cap q u = slot_ticket cap q t"
  by (simp add: slot_ticket_def)

lemma slot_simps [simp]:
  "slot_ticket cap (q\<lparr>mq_tail := n\<rparr>) = slot_ticket cap q" "slot_ticket cap (q\<lparr>mq_head := n\<rparr>) = slot_ticket cap q"
  "slot_ticket cap (q\<lparr>mq_data := d\<rparr>) = slot_ticket cap q"
  "slot_data cap (q\<lparr>mq_tail := n\<rparr>) = slot_data cap q" "slot_data cap (q\<lparr>mq_head := n\<rparr>) = slot_data cap q"
  "slot_data cap (q\<lparr>mq_ticket := c\<rparr>) = slot_data cap q"
  by (auto simp: slot_ticket_def slot_data_def fun_eq_iff)

lemma slot_ticket_upd:
  "0 < cap \<Longrightarrow> length (mq_ticket q) = cap \<Longrightarrow>
   slot_ticket cap (q\<lparr>mq_ticket := (mq_ticket q)[mq_idx cap t := n]\<rparr>) u =
     (if mq_idx cap u = mq_idx cap t then n else slot_ticket cap q u)"
  by (auto simp: slot_ticket_def mq_idx_less)

lemma slot_data_upd:
  "0 < cap \<Longrightarrow> length (mq_data q) = cap \<Longrightarrow>
   slot_data cap (q\<lparr>mq_data := (mq_data q)[mq_idx cap t := d]\<rparr>) u =
     (if mq_idx cap u = mq_idx cap t then d else slot_data cap q u)"
  by (auto simp: slot_data_def mq_idx_less)

lemma good_parts:
  assumes "mpmc_good cap s"
  shows "mpmc_shape cap s" "held_once (ms_pc s)" "mpmc_tickets cap s" "mpmc_values cap s"
  using assms by (auto simp: mpmc_good_def)

text \<open>Drawing a ticket.\<close>

lemma e_take_good:
  assumes g: "mpmc_good cap s" and i: "ms_pc s i = M_idle" and q: "tail_fetch_add (ms_queue s) = (t, q)"
    and b: "length (ms_in s) < 2 ^ 62"
  shows "mpmc_good cap (s\<lparr>ms_queue := q, ms_pc := (ms_pc s)(i := M_enq E_wait x t), ms_in := ms_in s @ [x]\<rparr>)"
    (is "mpmc_good cap ?s")
proof -
  note shape = good_parts(1) [OF g] and once = good_parts(2) [OF g] and tk = good_parts(3) [OF g]
  have t: "t = length (ms_in s)" and q: "q = (ms_queue s)\<lparr>mq_tail := length (ms_in s) + 1\<rparr>"
    using shape q b by (auto simp: tail_fetch_add_def mpmc_shape_def)
  have mine: "\<not> held (ms_pc s) (Enq, t)" using tk t by (auto simp: mpmc_tickets_def)
  show ?thesis unfolding mpmc_good_def
  proof (intro conjI allI)
    show "mpmc_shape cap ?s" using shape by (simp add: mpmc_shape_def q)
    show "thread_ok cap ?s (ms_pc ?s j)" for j
      using good_thread [OF g, of j] t q by (cases "ms_pc s j") (auto simp: nth_append)
    show "held_once (ms_pc ?s)" using held_once_upd [OF once, of "M_enq E_wait x t" i] mine by simp
    show "mpmc_tickets cap ?s"
      using tk t q by (auto simp: mpmc_tickets_def held_upd [OF once] i less_Suc_eq simp flip: not_less)
    show "mpmc_values cap ?s"
      using good_parts(4) [OF g] tk q by (auto simp: mpmc_values_def mpmc_tickets_def moved_upd i nth_append)
  qed
qed

lemma d_take_good:
  assumes g: "mpmc_good cap s" and i: "ms_pc s i = M_idle" and q: "head_fetch_add (ms_queue s) = (h, q)"
    and b: "length (ms_out s) < 2 ^ 62"
  shows "mpmc_good cap (s\<lparr>ms_queue := q, ms_pc := (ms_pc s)(i := M_deq D_wait h), ms_out := ms_out s @ [None]\<rparr>)"
    (is "mpmc_good cap ?s")
proof -
  note shape = good_parts(1) [OF g] and once = good_parts(2) [OF g] and tk = good_parts(3) [OF g]
  have h: "h = length (ms_out s)" and q: "q = (ms_queue s)\<lparr>mq_head := length (ms_out s) + 1\<rparr>"
    using shape q b by (auto simp: head_fetch_add_def mpmc_shape_def)
  have mine: "\<not> held (ms_pc s) (Deq, h)" using tk h by (auto simp: mpmc_tickets_def)
  show ?thesis unfolding mpmc_good_def
  proof (intro conjI allI)
    show "mpmc_shape cap ?s" using shape by (simp add: mpmc_shape_def q)
    show "thread_ok cap ?s (ms_pc ?s j)" for j
      using good_thread [OF g, of j] h q by (cases "ms_pc s j") auto
    show "held_once (ms_pc ?s)" using held_once_upd [OF once, of "M_deq D_wait h" i] mine by simp
    show "mpmc_tickets cap ?s"
      using tk h q by (auto simp: mpmc_tickets_def held_upd [OF once] i less_Suc_eq simp flip: not_less)
    show "mpmc_values cap ?s"
      using good_parts(4) [OF g] tk q by (auto simp: mpmc_values_def mpmc_tickets_def moved_upd i nth_append less_Suc_eq simp flip: not_less)
  qed
qed

text \<open>Leaving a waiting loop.\<close>

lemma e_load_good:
  assumes g: "mpmc_good cap s" and i: "ms_pc s i = M_enq E_wait x t" and m: "may_construct cap t (ms_queue s)"
    and b: "length (ms_in s) < 2 ^ 62"
  shows "mpmc_good cap (s\<lparr>ms_pc := (ms_pc s)(i := M_enq E_ready x t)\<rparr>)" (is "mpmc_good cap ?s")
proof -
  note once = good_parts(2) [OF g] and me = good_thread [OF g i]
  have t: "slot_ticket cap (ms_queue s) t = mq_turn cap t * 2"
    using m mq_turn_bound(1) [of t cap] me b by (simp add: may_construct_def slot_ticket_def)
  show ?thesis unfolding mpmc_good_def
  proof (intro conjI allI)
    show "thread_ok cap ?s (ms_pc ?s j)" for j
      using good_thread [OF g, of j] me t by (cases "ms_pc s j") auto
    show "held_once (ms_pc ?s)" using held_once_upd [OF once, of "M_enq E_ready x t" i] i by simp
  qed (use good_parts [OF g] in \<open>auto simp: mpmc_shape_def mpmc_tickets_def mpmc_values_def held_same moved_upd i t\<close>)
qed

lemma d_load_good:
  assumes g: "mpmc_good cap s" and i: "ms_pc s i = M_deq D_wait h" and m: "may_move cap h (ms_queue s)"
    and b: "length (ms_out s) < 2 ^ 62"
  shows "mpmc_good cap (s\<lparr>ms_pc := (ms_pc s)(i := M_deq D_ready h)\<rparr>)" (is "mpmc_good cap ?s")
proof -
  note once = good_parts(2) [OF g] and me = good_thread [OF g i]
  have h: "slot_ticket cap (ms_queue s) h = mq_turn cap h * 2 + 1"
    using m mq_turn_bound(2) [of h cap] me b by (simp add: may_move_def slot_ticket_def)
  show ?thesis unfolding mpmc_good_def
  proof (intro conjI allI)
    show "thread_ok cap ?s (ms_pc ?s j)" for j
      using good_thread [OF g, of j] me h by (cases "ms_pc s j") auto
    show "held_once (ms_pc ?s)" using held_once_upd [OF once, of "M_deq D_ready h" i] i by simp
  qed (use good_parts [OF g] in \<open>auto simp: mpmc_shape_def mpmc_tickets_def mpmc_values_def held_same moved_upd i h\<close>)
qed

text \<open>Constructing and moving. Two threads past their loops are at different slots.\<close>

lemma slots_apart:
  assumes g: "mpmc_good cap s" and "at_slot (ms_pc s i) t" "at_slot (ms_pc s j) u" "mq_idx cap t = mq_idx cap u"
  shows "i = j"
proof -
  have "ticket_of (ms_pc s i) = ticket_of (ms_pc s j)"
    using assms(2-4) good_thread [OF g, of i] good_thread [OF g, of j] slot_ticket_cong [OF assms(4), of "ms_queue s"]
      mq_ticket_inj [OF assms(4)]
    by (auto simp: at_slot_def)
  moreover have "ticket_of (ms_pc s i) \<noteq> None" using assms(2) by (auto simp: at_slot_def)
  ultimately show ?thesis using good_parts(2) [OF g] by (auto simp: held_once_def)
qed

lemma e_construct_good:
  assumes g: "mpmc_good cap s" and i: "ms_pc s i = M_enq E_ready x t"
  shows "mpmc_good cap (s\<lparr>ms_queue := construct_slot cap t x (ms_queue s),
    ms_pc := (ms_pc s)(i := M_enq E_built x t)\<rparr>)" (is "mpmc_good cap ?s")
proof -
  note once = good_parts(2) [OF g] and me = good_thread [OF g i] and shape = good_parts(1) [OF g]
  have data: "slot_data cap (construct_slot cap t x (ms_queue s)) u =
      (if mq_idx cap u = mq_idx cap t then Live x else slot_data cap (ms_queue s) u)"
    "slot_ticket cap (construct_slot cap t x (ms_queue s)) u = slot_ticket cap (ms_queue s) u" for u
    using shape by (simp_all add: construct_slot_def slot_data_upd mpmc_shape_def)
  have other: "\<not> (j \<noteq> i \<and> ms_pc s j = M_enq E_built y u \<and> mq_idx cap u = mq_idx cap t)" for j y u
    using slots_apart [OF g, of i t j u] i by (auto simp: at_slot_def)
  have even: "mq_idx cap u \<noteq> mq_idx cap t" if "slot_ticket cap (ms_queue s) u = mq_turn cap u * 2 + 1" for u
    using slot_ticket_cong [of cap u t "ms_queue s"] that me by auto presburger
  show ?thesis unfolding mpmc_good_def
  proof (intro conjI allI)
    show "mpmc_shape cap ?s" using shape by (simp add: mpmc_shape_def construct_slot_def)
    show "thread_ok cap ?s (ms_pc ?s j)" for j
      using good_thread [OF g, of j] me other [of j] by (cases "ms_pc s j") (auto simp: data)
    show "held_once (ms_pc ?s)" using held_once_upd [OF once, of "M_enq E_built x t" i] i by simp
    show "mpmc_tickets cap ?s"
      using good_parts(3) [OF g] by (auto simp: mpmc_tickets_def held_same i data)
    show "mpmc_values cap ?s"
      using good_parts(4) [OF g] even by (auto simp: mpmc_values_def moved_upd i data)
  qed
qed

lemma d_move_good:
  assumes g: "mpmc_good cap s" and i: "ms_pc s i = M_deq D_ready h" and m: "move_slot cap h (ms_queue s) = (v, q)"
  shows "mpmc_good cap (s\<lparr>ms_queue := q, ms_pc := (ms_pc s)(i := M_deq (D_moved v) h)\<rparr>)" (is "mpmc_good cap ?s")
proof -
  note once = good_parts(2) [OF g] and me = good_thread [OF g i] and shape = good_parts(1) [OF g]
  have h: "slot_ticket cap (ms_queue s) h = mq_turn cap h * 2 + 1" using me by simp
  have "\<not> moved_by (ms_pc s) h"
    using slots_apart [OF g, of i h _ h] i by (force simp: moved_by_def at_slot_def)
  then have v: "v = Live (ms_in s ! h)"
    using good_parts(4) [OF g] h m by (auto simp: mpmc_values_def move_slot_def slot_data_def)
  have data: "slot_data cap q u = (if mq_idx cap u = mq_idx cap h then Moved else slot_data cap (ms_queue s) u)"
    "slot_ticket cap q u = slot_ticket cap (ms_queue s) u" for u
    using shape m by (auto simp: move_slot_def slot_data_upd mpmc_shape_def)
  have other: "\<not> (j \<noteq> i \<and> ms_pc s j = M_enq E_built y u \<and> mq_idx cap u = mq_idx cap h)" for j y u
    using slots_apart [OF g, of i h j u] i by (auto simp: at_slot_def)
  have alone: "u = h" if "mq_idx cap u = mq_idx cap h" "slot_ticket cap (ms_queue s) u = mq_turn cap u * 2 + 1" for u
    using slot_ticket_cong [OF that(1), of "ms_queue s"] that h mq_ticket_inj [of cap u h] by simp
  show ?thesis unfolding mpmc_good_def
  proof (intro conjI allI)
    show "mpmc_shape cap ?s" using shape m by (auto simp: mpmc_shape_def move_slot_def)
    show "thread_ok cap ?s (ms_pc ?s j)" for j
      using good_thread [OF g, of j] me other [of j] v good_parts(3) [OF g] h i
      by (cases "ms_pc s j") (auto simp: data mpmc_tickets_def)
    show "held_once (ms_pc ?s)" using held_once_upd [OF once, of "M_deq (D_moved v) h" i] i by simp
    show "mpmc_tickets cap ?s"
      using good_parts(3) [OF g] h by (auto simp: mpmc_tickets_def held_same i data)
    show "mpmc_values cap ?s"
      using good_parts(4) [OF g] alone by (auto simp: mpmc_values_def moved_upd i data)
  qed
qed

text \<open>Publishing: the ticket counter advances and the call returns.\<close>

lemma e_publish_good:
  assumes g: "mpmc_good cap s" and i: "ms_pc s i = M_enq E_built x t" and b: "length (ms_in s) < 2 ^ 62"
  shows "mpmc_good cap (s\<lparr>ms_queue := publish_full cap t (ms_queue s), ms_pc := (ms_pc s)(i := M_idle)\<rparr>)"
    (is "mpmc_good cap ?s")
proof -
  note once = good_parts(2) [OF g] and me = good_thread [OF g i] and shape = good_parts(1) [OF g]
    and tk = good_parts(3) [OF g]
  have t: "slot_ticket cap (ms_queue s) t = mq_turn cap t * 2" "t < length (ms_in s)"
    "slot_data cap (ms_queue s) t = Live (ms_in s ! t)" using me by auto
  have q: "publish_full cap t (ms_queue s) = (ms_queue s)\<lparr>mq_ticket := (mq_ticket (ms_queue s))[mq_idx cap t := mq_turn cap t * 2 + 1]\<rparr>"
    using mq_turn_bound(2) [of t cap] t(2) b by (simp add: publish_full_def)
  have ticket: "slot_ticket cap (publish_full cap t (ms_queue s)) u =
      (if mq_idx cap u = mq_idx cap t then mq_turn cap t * 2 + 1 else slot_ticket cap (ms_queue s) u)"
    "slot_data cap (publish_full cap t (ms_queue s)) u = slot_data cap (ms_queue s) u" for u
    using shape by (simp_all add: q slot_ticket_upd mpmc_shape_def)
  have same: "slot_ticket cap (ms_queue s) u = mq_turn cap t * 2 \<and> (mq_turn cap u = mq_turn cap t \<longleftrightarrow> u = t)
      \<and> slot_data cap (ms_queue s) u = Live (ms_in s ! t)"
    if "mq_idx cap u = mq_idx cap t" for u
    using slot_ticket_cong [OF that, of "ms_queue s"] mq_ticket_inj [OF that] that t by (auto simp: slot_data_def)
  have other: "\<not> (j \<noteq> i \<and> at_slot (ms_pc s j) u \<and> mq_idx cap u = mq_idx cap t)" for j u
    using slots_apart [OF g, of i t j u] at_slot_def [of "ms_pc s i" t] i by auto
  show ?thesis unfolding mpmc_good_def
  proof (intro conjI allI)
    show "mpmc_shape cap ?s" using shape by (simp add: mpmc_shape_def q)
    show "thread_ok cap ?s (ms_pc ?s j)" for j
      using good_thread [OF g, of j] other [of j] by (cases "ms_pc s j") (auto simp: ticket at_slot_def)
    show "held_once (ms_pc ?s)" using held_once_upd [OF once, of M_idle i] by simp
    show "mpmc_tickets cap ?s" unfolding mpmc_tickets_def
    proof (intro conjI allI impI)
      show "held (ms_pc ?s) (Enq, u) = (u < length (ms_in ?s) \<and> slot_ticket cap (ms_queue ?s) u \<le> mq_turn cap u * 2)" for u
        using tk same [of u] by (auto simp: mpmc_tickets_def held_upd [OF once] i ticket)
      show "held (ms_pc ?s) (Deq, u) = (u < length (ms_out ?s) \<and> slot_ticket cap (ms_queue ?s) u \<le> mq_turn cap u * 2 + 1)" for u
        using tk same [of u] by (auto simp: mpmc_tickets_def held_upd [OF once] i ticket)
      show "u < length (ms_in ?s)" if "mq_turn cap u * 2 < slot_ticket cap (ms_queue ?s) u" for u
        using that tk same [of u] t(2) by (auto simp: mpmc_tickets_def ticket split: if_splits)
      show "u < length (ms_out ?s)" if "mq_turn cap u * 2 + 1 < slot_ticket cap (ms_queue ?s) u" for u
        using that tk same [of u] by (auto simp: mpmc_tickets_def ticket split: if_splits)
    qed
    show "mpmc_values cap ?s" unfolding mpmc_values_def
    proof (intro conjI allI impI)
      show "slot_data cap (ms_queue ?s) u = Live (ms_in ?s ! u) \<or> moved_by (ms_pc ?s) u"
        if "slot_ticket cap (ms_queue ?s) u = mq_turn cap u * 2 + 1" for u
        using that good_parts(4) [OF g] same [of u] by (auto simp: mpmc_values_def ticket moved_upd i split: if_splits)
      show "ms_out ?s ! u = (if slot_ticket cap (ms_queue ?s) u \<le> mq_turn cap u * 2 + 1 then None else Some (Live (ms_in ?s ! u)))"
        if "u < length (ms_out ?s)" for u
        using that good_parts(4) [OF g] same [of u] by (auto simp: mpmc_values_def ticket)
    qed
  qed
qed

lemma d_publish_good:
  assumes g: "mpmc_good cap s" and i: "ms_pc s i = M_deq (D_moved v) h" and b: "length (ms_out s) < 2 ^ 62"
  shows "mpmc_good cap (s\<lparr>ms_queue := publish_free cap h (ms_queue s), ms_pc := (ms_pc s)(i := M_idle),
    ms_out := (ms_out s)[h := Some v]\<rparr>)" (is "mpmc_good cap ?s")
proof -
  note once = good_parts(2) [OF g] and me = good_thread [OF g i] and shape = good_parts(1) [OF g]
    and tk = good_parts(3) [OF g]
  have h: "slot_ticket cap (ms_queue s) h = mq_turn cap h * 2 + 1" "h < length (ms_out s)"
    "v = Live (ms_in s ! h)" "h < length (ms_in s)" using me by auto
  have q: "publish_free cap h (ms_queue s) = (ms_queue s)\<lparr>mq_ticket := (mq_ticket (ms_queue s))[mq_idx cap h := mq_turn cap h * 2 + 2]\<rparr>"
    using mq_turn_bound(3) [of h cap] h(2) b by (simp add: publish_free_def)
  have ticket: "slot_ticket cap (publish_free cap h (ms_queue s)) u =
      (if mq_idx cap u = mq_idx cap h then mq_turn cap h * 2 + 2 else slot_ticket cap (ms_queue s) u)"
    "slot_data cap (publish_free cap h (ms_queue s)) u = slot_data cap (ms_queue s) u" for u
    using shape by (simp_all add: q slot_ticket_upd mpmc_shape_def)
  have same: "slot_ticket cap (ms_queue s) u = mq_turn cap h * 2 + 1 \<and> (mq_turn cap u = mq_turn cap h \<longleftrightarrow> u = h)"
    if "mq_idx cap u = mq_idx cap h" for u
    using slot_ticket_cong [OF that, of "ms_queue s"] mq_ticket_inj [OF that] that h by auto
  have other: "\<not> (j \<noteq> i \<and> at_slot (ms_pc s j) u \<and> mq_idx cap u = mq_idx cap h)" for j u
    using slots_apart [OF g, of i h j u] at_slot_def [of "ms_pc s i" h] i by auto
  have moved: "moved_by (ms_pc ?s) u" if "moved_by (ms_pc s) u" "u \<noteq> h" for u
    using that i by (auto simp: moved_by_def) (metis mpmc_pc.inject(2))
  show ?thesis unfolding mpmc_good_def
  proof (intro conjI allI)
    show "mpmc_shape cap ?s" using shape by (simp add: mpmc_shape_def q)
    show "thread_ok cap ?s (ms_pc ?s j)" for j
      using good_thread [OF g, of j] other [of j] by (cases "ms_pc s j") (auto simp: ticket at_slot_def)
    show "held_once (ms_pc ?s)" using held_once_upd [OF once, of M_idle i] by simp
    show "mpmc_tickets cap ?s" unfolding mpmc_tickets_def
    proof (intro conjI allI impI)
      show "held (ms_pc ?s) (Enq, u) = (u < length (ms_in ?s) \<and> slot_ticket cap (ms_queue ?s) u \<le> mq_turn cap u * 2)" for u
        using tk same [of u] by (auto simp: mpmc_tickets_def held_upd [OF once] i ticket)
      show "held (ms_pc ?s) (Deq, u) = (u < length (ms_out ?s) \<and> slot_ticket cap (ms_queue ?s) u \<le> mq_turn cap u * 2 + 1)" for u
        using tk same [of u] by (auto simp: mpmc_tickets_def held_upd [OF once] i ticket)
      show "u < length (ms_in ?s)" if "mq_turn cap u * 2 < slot_ticket cap (ms_queue ?s) u" for u
        using that tk same [of u] by (auto simp: mpmc_tickets_def ticket split: if_splits)
      show "u < length (ms_out ?s)" if "mq_turn cap u * 2 + 1 < slot_ticket cap (ms_queue ?s) u" for u
        using that tk same [of u] h(2) by (auto simp: mpmc_tickets_def ticket split: if_splits)
    qed
    show "mpmc_values cap ?s" unfolding mpmc_values_def
    proof (intro conjI allI impI)
      show "slot_data cap (ms_queue ?s) u = Live (ms_in ?s ! u) \<or> moved_by (ms_pc ?s) u"
        if "slot_ticket cap (ms_queue ?s) u = mq_turn cap u * 2 + 1" for u
      proof -
        have "mq_idx cap u \<noteq> mq_idx cap h" using that by (auto simp: ticket) presburger
        then have "u \<noteq> h" "slot_ticket cap (ms_queue s) u = mq_turn cap u * 2 + 1" using that by (auto simp: ticket)
        then show ?thesis using good_parts(4) [OF g] moved [of u] by (auto simp: mpmc_values_def ticket)
      qed
      show "ms_out ?s ! u = (if slot_ticket cap (ms_queue ?s) u \<le> mq_turn cap u * 2 + 1 then None else Some (Live (ms_in ?s ! u)))"
        if "u < length (ms_out ?s)" for u
        using that good_parts(4) [OF g] same [of u] h by (auto simp: mpmc_values_def ticket nth_list_update)
    qed
  qed
qed

interpretation mpmc_run: transition_invariant "mpmc_start cap :: ('t, 'a) mpmc_sys \<Rightarrow> bool" "mpmc_step cap" "mpmc_inv cap"
  for cap :: nat
proof unfold_locales
  fix s t :: "('t, 'a) mpmc_sys"
  show "mpmc_start cap s \<Longrightarrow> mpmc_inv cap s"
    by (auto simp: mpmc_start_def mpmc_inv_def intro: mpmc_good_init)
  assume inv: "mpmc_inv cap s" and st: "mpmc_step cap s t"
  from st have "mpmc_bounded t \<Longrightarrow> mpmc_bounded s" by cases (auto simp: mpmc_bounded_def)
  with inv have g: "mpmc_bounded t \<Longrightarrow> mpmc_good cap s \<and> mpmc_bounded s" by (auto simp: mpmc_inv_def)
  from st show "mpmc_inv cap t" unfolding mpmc_inv_def
    by cases (use g in \<open>auto simp: mpmc_bounded_def
      intro: e_take_good e_load_good e_construct_good e_publish_good d_take_good d_load_good d_move_good d_publish_good\<close>)
qed

section \<open>Waiting threads\<close>

lemma mq_parts: "mq_turn cap t * cap + mq_idx cap t = t"
  by (simp add: mq_turn_def mq_idx_def)

lemma mq_at:
  assumes "0 < cap"
  shows "mq_idx cap (r * cap + mq_idx cap t) = mq_idx cap t" "mq_turn cap (r * cap + mq_idx cap t) = r"
  using assms by (auto simp: mq_idx_def mq_turn_def)

lemma may_construct_bounded:
  "t < 2 ^ 62 \<Longrightarrow> may_construct cap t q \<longleftrightarrow> slot_ticket cap q t = mq_turn cap t * 2"
  using mq_turn_bound(1) [of t cap] by (auto simp: may_construct_def slot_ticket_def)

lemma may_move_bounded:
  "h < 2 ^ 62 \<Longrightarrow> may_move cap h q \<longleftrightarrow> slot_ticket cap q h = mq_turn cap h * 2 + 1"
  using mq_turn_bound(2) [of h cap] by (auto simp: may_move_def slot_ticket_def)

text \<open>If every thread is idle or blocked, the ticket that a slot serves next has not been drawn.\<close>

lemma blocked_slot:
  assumes g: "mpmc_good cap s" and b: "mpmc_bounded s"
    and all: "\<And>i. ms_pc s i = M_idle \<or> blocked cap (ms_queue s) (ms_pc s i)"
  shows "slot_ticket cap (ms_queue s) u = mq_turn cap u * 2 \<Longrightarrow> length (ms_in s) \<le> u"
    "slot_ticket cap (ms_queue s) u = mq_turn cap u * 2 + 1 \<Longrightarrow> length (ms_out s) \<le> u"
proof -
  note tk = good_parts(3) [OF g]
  show "length (ms_in s) \<le> u" if "slot_ticket cap (ms_queue s) u = mq_turn cap u * 2"
  proof (rule ccontr)
    assume "\<not> length (ms_in s) \<le> u"
    then have "held (ms_pc s) (Enq, u)" using tk that by (simp add: mpmc_tickets_def)
    then obtain i where "ticket_of (ms_pc s i) = Some (Enq, u)" by (auto simp: held_def)
    then obtain st x where i: "ms_pc s i = M_enq st x u" by (cases "ms_pc s i") auto
    have "u < 2 ^ 62" using good_thread [OF g i] b by (simp add: mpmc_bounded_def)
    then show False using all [of i] i that may_construct_bounded [of u cap "ms_queue s"]
      by (auto simp: blocked_def split: enq_stage.splits)
  qed
  show "length (ms_out s) \<le> u" if "slot_ticket cap (ms_queue s) u = mq_turn cap u * 2 + 1"
  proof (rule ccontr)
    assume "\<not> length (ms_out s) \<le> u"
    then have "held (ms_pc s) (Deq, u)" using tk that by (simp add: mpmc_tickets_def)
    then obtain i where "ticket_of (ms_pc s i) = Some (Deq, u)" by (auto simp: held_def)
    then obtain st where i: "ms_pc s i = M_deq st u" by (cases "ms_pc s i") auto
    have "u < 2 ^ 62" using good_thread [OF g i] b by (simp add: mpmc_bounded_def)
    then show False using all [of i] i that may_move_bounded [of u cap "ms_queue s"]
      by (auto simp: blocked_def split: deq_stage.splits)
  qed
qed

lemma blocked_tickets:
  assumes g: "mpmc_good cap s" and b: "mpmc_bounded s"
    and all: "\<And>i. ms_pc s i = M_idle \<or> blocked cap (ms_queue s) (ms_pc s i)"
  shows "ms_pc s i = M_enq st x t \<Longrightarrow> length (ms_out s) + cap \<le> t"
    "ms_pc s i = M_deq sd h \<Longrightarrow> length (ms_in s) \<le> h"
proof -
  have cap: "0 < cap" using good_parts(1) [OF g] by (simp add: mpmc_shape_def)
  note tk = good_parts(3) [OF g]
  define next_ticket where "next_ticket u = slot_ticket cap (ms_queue s) u div 2 * cap + mq_idx cap u" for u
  have slot: "slot_ticket cap (ms_queue s) (next_ticket u) = slot_ticket cap (ms_queue s) u"
    "mq_turn cap (next_ticket u) = slot_ticket cap (ms_queue s) u div 2" for u
    using cap by (simp_all add: next_ticket_def mq_at slot_ticket_def)
  have next_undrawn: "if even (slot_ticket cap (ms_queue s) u) then length (ms_in s) \<le> next_ticket u
      else length (ms_out s) \<le> next_ticket u" for u
    using blocked_slot [OF g b all, of "next_ticket u"] slot [of u] by (auto elim!: oddE)
  show "length (ms_out s) + cap \<le> t" if i: "ms_pc s i = M_enq st x t"
  proof -
    have t: "t < length (ms_in s)" using good_thread [OF g i] by simp
    have "held (ms_pc s) (Enq, t)" unfolding held_def using i by (metis ticket_of.simps(2))
    then have le: "slot_ticket cap (ms_queue s) t \<le> mq_turn cap t * 2" using tk by (auto simp: mpmc_tickets_def)
    have "next_ticket t \<le> t"
      using le mq_parts [of cap t] mult_le_mono1 [of "slot_ticket cap (ms_queue s) t div 2" "mq_turn cap t" cap]
      unfolding next_ticket_def by linarith
    then have odd: "odd (slot_ticket cap (ms_queue s) t)" using next_undrawn [of t] t by (auto split: if_splits)
    then have "Suc (slot_ticket cap (ms_queue s) t div 2) \<le> mq_turn cap t" using le by (auto elim!: oddE)
    then have "next_ticket t + cap \<le> t"
      using mq_parts [of cap t] mult_le_mono1 [of "Suc (slot_ticket cap (ms_queue s) t div 2)" "mq_turn cap t" cap]
      unfolding next_ticket_def by simp
    then show ?thesis using next_undrawn [of t] odd by simp
  qed
  show "length (ms_in s) \<le> h" if i: "ms_pc s i = M_deq sd h"
  proof -
    have h: "h < length (ms_out s)" using good_thread [OF g i] by simp
    have "held (ms_pc s) (Deq, h)" unfolding held_def using i by (metis ticket_of.simps(3))
    then have le: "slot_ticket cap (ms_queue s) h \<le> mq_turn cap h * 2 + 1" using tk by (auto simp: mpmc_tickets_def)
    then have "slot_ticket cap (ms_queue s) h div 2 \<le> mq_turn cap h" by linarith
    then have "next_ticket h \<le> h"
      using mq_parts [of cap h] mult_le_mono1 [of "slot_ticket cap (ms_queue s) h div 2" "mq_turn cap h" cap]
      unfolding next_ticket_def by linarith
    then show ?thesis using next_undrawn [of h] h by (auto split: if_splits)
  qed
qed

section \<open>Whole calls\<close>

text \<open>A call that one thread makes while no other thread is at its slot is a run of the step relation.\<close>

lemma emplace_run:
  assumes i: "ms_pc s i = M_idle" and q: "MPMC_emplace cap x (ms_queue s) = Some q"
  shows "reaches (mpmc_step cap) s (s\<lparr>ms_queue := q, ms_in := ms_in s @ [x]\<rparr>)"
proof -
  obtain t q1 where t: "tail_fetch_add (ms_queue s) = (t, q1)" by fastforce
  have m: "may_construct cap t q1" and q: "q = publish_full cap t (construct_slot cap t x q1)"
    using q t by (auto simp: MPMC_emplace_def split: if_splits)
  let ?s1 = "s\<lparr>ms_queue := q1, ms_pc := (ms_pc s)(i := M_enq E_wait x t), ms_in := ms_in s @ [x]\<rparr>"
  let ?s2 = "?s1\<lparr>ms_pc := (ms_pc s)(i := M_enq E_ready x t)\<rparr>"
  let ?s3 = "?s2\<lparr>ms_queue := construct_slot cap t x q1, ms_pc := (ms_pc s)(i := M_enq E_built x t)\<rparr>"
  let ?s4 = "?s3\<lparr>ms_queue := q, ms_pc := (ms_pc s)(i := M_idle)\<rparr>"
  have "mpmc_step cap s ?s1" by (rule e_take [OF i t])
  moreover have "mpmc_step cap ?s1 ?s2" using e_load [of ?s1 i x t cap] m by simp
  moreover have "mpmc_step cap ?s2 ?s3" using e_construct [of ?s2 i x t cap] by simp
  moreover have "mpmc_step cap ?s3 ?s4" using e_publish [of ?s3 i x t cap] q by simp
  ultimately have "reaches (mpmc_step cap) s ?s4" by (meson reaches_refl reaches_step)
  moreover have "?s4 = s\<lparr>ms_queue := q, ms_in := ms_in s @ [x]\<rparr>" using i by (auto simp: fun_eq_iff)
  ultimately show ?thesis by simp
qed

lemma pop_run:
  assumes i: "ms_pc s i = M_idle" and q: "MPMC_pop cap (ms_queue s) = Some (v, q)"
  shows "reaches (mpmc_step cap) s (s\<lparr>ms_queue := q, ms_out := (ms_out s @ [None])[mq_head (ms_queue s) := Some v]\<rparr>)"
proof -
  obtain h q1 where h: "head_fetch_add (ms_queue s) = (h, q1)" by fastforce
  obtain q2 where m: "may_move cap h q1" "move_slot cap h q1 = (v, q2)" and q: "q = publish_free cap h q2"
    using q h by (auto simp: MPMC_pop_def split: if_splits prod.splits)
  let ?s1 = "s\<lparr>ms_queue := q1, ms_pc := (ms_pc s)(i := M_deq D_wait h), ms_out := ms_out s @ [None]\<rparr>"
  let ?s2 = "?s1\<lparr>ms_pc := (ms_pc s)(i := M_deq D_ready h)\<rparr>"
  let ?s3 = "?s2\<lparr>ms_queue := q2, ms_pc := (ms_pc s)(i := M_deq (D_moved v) h)\<rparr>"
  let ?s4 = "?s3\<lparr>ms_queue := q, ms_pc := (ms_pc s)(i := M_idle), ms_out := (ms_out s @ [None])[h := Some v]\<rparr>"
  have "mpmc_step cap s ?s1" by (rule d_take [OF i h])
  moreover have "mpmc_step cap ?s1 ?s2" using d_load [of ?s1 i h cap] m by simp
  moreover have "mpmc_step cap ?s2 ?s3" using d_move [of ?s2 i h cap v q2] m by simp
  moreover have "mpmc_step cap ?s3 ?s4" using d_publish [of ?s3 i v h cap] q by simp
  ultimately have "reaches (mpmc_step cap) s ?s4" by (meson reaches_refl reaches_step)
  moreover have "h = mq_head (ms_queue s)" using h by (auto simp: head_fetch_add_def)
  moreover have "?s4 = s\<lparr>ms_queue := q, ms_out := (ms_out s @ [None])[h := Some v]\<rparr>" using i by (auto simp: fun_eq_iff)
  ultimately show ?thesis by simp
qed

lemma replicate_two: "replicate 2 x = [x, x]"
  by (simp add: numeral_2_eq_2)

lemmas mpmc_ops = MPMC_emplace_def MPMC_pop_def queue_defs mq_idx_def mq_turn_def

text \<open>A run of one thread: it emplaces \<open>True\<close> and pops it.\<close>

lemma mpmc_demo_run:
  "\<exists>t. reaches (mpmc_step 2) (mpmc_sys0 2) t \<and> ms_pc t = (\<lambda>_ :: unit. M_idle) \<and> ms_in t = [True] \<and> ms_out t = [Some (Live True)]"
proof -
  let ?q1 = "\<lparr>mq_data = [Live True, Raw], mq_ticket = [1, 0], mq_head = 0, mq_tail = 1\<rparr>"
  let ?q2 = "\<lparr>mq_data = [Moved, Raw], mq_ticket = [2, 0], mq_head = 1, mq_tail = 1\<rparr>"
  let ?s1 = "(mpmc_sys0 2)\<lparr>ms_queue := ?q1, ms_in := [True]\<rparr> :: (unit, bool) mpmc_sys"
  have "MPMC_emplace 2 True (MPMC_new 2) = Some ?q1" by (simp add: mpmc_ops replicate_two)
  then have 1: "reaches (mpmc_step 2) (mpmc_sys0 2) ?s1"
    using emplace_run [of "mpmc_sys0 2" "()" 2 True ?q1] by (simp add: mpmc_sys0_def)
  have "MPMC_pop 2 ?q1 = Some (Live True, ?q2)" by (simp add: mpmc_ops)
  then have "reaches (mpmc_step 2) ?s1 (?s1\<lparr>ms_queue := ?q2, ms_out := [Some (Live True)]\<rparr>)"
    using pop_run [of ?s1 "()" 2 "Live True" ?q2] by (simp add: mpmc_sys0_def)
  from reaches_trans [OF 1 this] show ?thesis by (intro exI conjI) (auto simp: mpmc_sys0_def)
qed

section \<open>Properties\<close>

text \<open>C7: with any number of producers and consumers in any interleaving, a \<open>pop\<close> call that returned has
  the value of the \<open>emplace\<close> call with the same ticket number, and once no call is under way the popped
  values are exactly the first emplaced ones in ticket order: nothing is lost, duplicated or reordered,
  as long as fewer than \<open>2 ^ 62\<close> tickets were drawn.\<close>

theorem mpmc_fifo:
  assumes "mpmc_start cap s" "reaches (mpmc_step cap) s t" "mpmc_bounded t"
  shows "(\<forall>h < length (ms_out t). ms_out t ! h = None \<or>
        (h < length (ms_in t) \<and> ms_out t ! h = Some (Live (ms_in t ! h))))
    \<and> ((\<forall>i. ms_pc t i = M_idle) \<longrightarrow>
        length (ms_out t) \<le> length (ms_in t) \<and> ms_out t = map (Some \<circ> Live) (take (length (ms_out t)) (ms_in t)))"
proof -
  have g: "mpmc_good cap t" using mpmc_run.inv_reachable [OF assms(1,2)] assms(3) by (simp add: mpmc_inv_def)
  have ret: "h < length (ms_in t) \<and> ms_out t ! h = Some (Live (ms_in t ! h))"
    if "h < length (ms_out t)" "\<not> held (ms_pc t) (Deq, h)" for h
    using good_parts(3,4) [OF g] that by (auto simp: mpmc_tickets_def mpmc_values_def)
  have done1: "ms_out t ! h = None \<or> \<not> held (ms_pc t) (Deq, h)" if "h < length (ms_out t)" for h
    using good_parts(3,4) [OF g] that by (auto simp: mpmc_tickets_def mpmc_values_def)
  have idle: "\<not> held (ms_pc t) k" if "\<forall>i. ms_pc t i = M_idle" for k using that by (simp add: held_def)
  have len: "length (ms_out t) \<le> length (ms_in t)" if "\<forall>i. ms_pc t i = M_idle"
    using ret [of "length (ms_out t) - 1"] idle [OF that] by (cases "ms_out t") auto
  show ?thesis
    using ret done1 idle len by (intro conjI allI impI) (blast, blast, auto intro!: nth_equalityI)
qed

theorem mpmc_fifo_witness:
  "\<exists>t. reaches (mpmc_step 2) (mpmc_sys0 2) t \<and> (\<forall>i :: unit. ms_pc t i = M_idle) \<and> length (ms_out t) = 1
     \<and> ms_out t = map (Some \<circ> Live) (take 1 (ms_in t)) \<and> ms_in t = [True]"
proof -
  obtain t where t: "reaches (mpmc_step 2) (mpmc_sys0 2) t" "ms_pc t = (\<lambda>_ :: unit. M_idle)" "ms_in t = [True]"
    "ms_out t = [Some (Live True)]" using mpmc_demo_run by blast
  moreover have "mpmc_start 2 (mpmc_sys0 2 :: (unit, bool) mpmc_sys)" by (simp add: mpmc_start_def)
  moreover have "mpmc_bounded t" using t by (simp add: mpmc_bounded_def)
  ultimately show ?thesis using mpmc_fifo [of 2 "mpmc_sys0 2" t] by (intro exI [of _ t]) auto
qed

text \<open>C30: two calls that have left their waiting loops never work on the same slot, and a \<open>pop\<close> about to
  move finds the constructed value of its ticket there.\<close>

theorem mpmc_exclusive:
  assumes "mpmc_start cap s" "reaches (mpmc_step cap) s t" "mpmc_bounded t"
  shows "(\<forall>i j u w. at_slot (ms_pc t i) u \<longrightarrow> at_slot (ms_pc t j) w \<longrightarrow> mq_idx cap u = mq_idx cap w \<longrightarrow> i = j)
    \<and> (\<forall>i h. ms_pc t i = M_deq D_ready h \<longrightarrow> fst (move_slot cap h (ms_queue t)) = Live (ms_in t ! h))"
proof -
  have g: "mpmc_good cap t" using mpmc_run.inv_reachable [OF assms(1,2)] assms(3) by (simp add: mpmc_inv_def)
  have "fst (move_slot cap h (ms_queue t)) = Live (ms_in t ! h)" if i: "ms_pc t i = M_deq D_ready h" for i h
    using d_move_good [OF g i, of "fst (move_slot cap h (ms_queue t))" "snd (move_slot cap h (ms_queue t))"]
      good_thread [of cap _ i] by fastforce
  then show ?thesis using slots_apart [OF g] by blast
qed

theorem mpmc_exclusive_witness:
  "\<exists>t. reaches (mpmc_step 2) (mpmc_sys0 2) t \<and> ms_in t = [True] \<and>
    (\<forall>i j u w. at_slot (ms_pc t (i :: unit)) u \<longrightarrow> at_slot (ms_pc t j) w \<longrightarrow> mq_idx 2 u = mq_idx 2 w \<longrightarrow> i = j)"
proof -
  obtain t where t: "reaches (mpmc_step 2) (mpmc_sys0 2) t" "ms_in t = [True]"
    "ms_out t = [Some (Live True)]" "ms_pc t = (\<lambda>_ :: unit. M_idle)" using mpmc_demo_run by blast
  moreover have "mpmc_start 2 (mpmc_sys0 2 :: (unit, bool) mpmc_sys)" by (simp add: mpmc_start_def)
  moreover have "mpmc_bounded t" using t by (simp add: mpmc_bounded_def)
  ultimately show ?thesis using mpmc_exclusive [of 2 "mpmc_sys0 2" t] by (intro exI [of _ t]) blast
qed

text \<open>C28: the queue cannot deadlock. When no thread can take a step other than spinning or starting a new call, the
  waiting threads are all producers that found the ring full or all consumers that found it empty: each
  waiting producer is at least \<open>Capacity\<close> tickets ahead of the consumers, each waiting consumer holds a
  ticket no producer has drawn, and there are not both.\<close>

theorem mpmc_no_deadlock:
  assumes "mpmc_start cap s" "reaches (mpmc_step cap) s t" "mpmc_bounded t"
    and "\<And>i. ms_pc t i = M_idle \<or> blocked cap (ms_queue t) (ms_pc t i)"
  shows "(\<forall>i x u. ms_pc t i = M_enq E_wait x u \<longrightarrow> length (ms_out t) + cap \<le> u \<and> u < length (ms_in t))
    \<and> (\<forall>i h. ms_pc t i = M_deq D_wait h \<longrightarrow> length (ms_in t) \<le> h \<and> h < length (ms_out t))
    \<and> \<not> (\<exists>i j x u h. ms_pc t i = M_enq E_wait x u \<and> ms_pc t j = M_deq D_wait h)"
proof -
  have g: "mpmc_good cap t" using mpmc_run.inv_reachable [OF assms(1,2)] assms(3) by (simp add: mpmc_inv_def)
  note enq = blocked_tickets(1) [OF g assms(3,4)] and deq = blocked_tickets(2) [OF g assms(3,4)]
  have e: "length (ms_out t) + cap \<le> u \<and> u < length (ms_in t)" if "ms_pc t i = M_enq E_wait x u" for i x u
    using enq [OF that] good_thread [OF g that] by simp
  have d: "length (ms_in t) \<le> h \<and> h < length (ms_out t)" if "ms_pc t i = M_deq D_wait h" for i h
    using deq [OF that] good_thread [OF g that] by simp
  have "False" if "ms_pc t i = M_enq E_wait x u" "ms_pc t j = M_deq D_wait h" for i j x u h
    using e [OF that(1)] d [OF that(2)] by linarith
  then show ?thesis using e d by blast
qed

theorem mpmc_no_deadlock_witness:
  "\<exists>t. reaches (mpmc_step 2) (mpmc_sys0 2 :: (unit, bool) mpmc_sys) t \<and> ms_pc t () = M_deq D_wait 0 \<and> length (ms_in t) \<le> 0"
proof -
  let ?t = "(mpmc_sys0 2)\<lparr>ms_queue := (MPMC_new 2)\<lparr>mq_head := 1\<rparr>, ms_pc := (\<lambda>_. M_idle)(() := M_deq D_wait 0), ms_out := [None]\<rparr>
    :: (unit, bool) mpmc_sys"
  have "mpmc_step 2 (mpmc_sys0 2) ?t"
    using d_take [of "mpmc_sys0 2" "()" 0 "(MPMC_new 2)\<lparr>mq_head := 1\<rparr>" 2]
    by (simp add: mpmc_sys0_def queue_defs)
  then have r: "reaches (mpmc_step 2) (mpmc_sys0 2) ?t" by blast
  have "mpmc_start 2 (mpmc_sys0 2 :: (unit, bool) mpmc_sys)" by (simp add: mpmc_start_def)
  moreover have "mpmc_bounded ?t" by (simp add: mpmc_bounded_def mpmc_sys0_def)
  moreover have "blocked 2 (ms_queue ?t) (ms_pc ?t i)" for i
    by (simp add: blocked_def may_move_def mq_idx_def mq_turn_def MPMC_new_def)
  ultimately show ?thesis using mpmc_no_deadlock [OF _ r] r by (intro exI [of _ ?t]) auto
qed

lemma emplace_all_snoc: "emplace_all cap (xs @ [x]) q = Option.bind (emplace_all cap xs q) (MPMC_emplace cap x)"
  by (induction xs arbitrary: q) (auto split: bind_splits)

lemma emplace_all_new:
  assumes "length xs \<le> cap" "cap < 2 ^ 62"
  shows "emplace_all cap xs (MPMC_new cap) =
    Some \<lparr>mq_data = map Live xs @ replicate (cap - length xs) Raw,
      mq_ticket = replicate (length xs) 1 @ replicate (cap - length xs) 0, mq_head = 0, mq_tail = length xs\<rparr>"
  using assms(1)
proof (induction xs rule: rev_induct)
  case Nil
  show ?case by (simp add: MPMC_new_def)
next
  case (snoc x xs)
  have "Suc (length xs) < 2 ^ 64" "length xs < cap" "0 < cap" using snoc.prems assms(2) by auto
  moreover obtain n where "cap - length xs = Suc n" "cap - Suc (length xs) = n"
    using snoc.prems by (cases "cap - length xs") auto
  ultimately show ?case using snoc.IH
    by (simp add: emplace_all_snoc MPMC_emplace_def queue_defs mq_idx_def mq_turn_def nth_append list_update_append
        replicate_append_same)
qed

text \<open>A new queue takes \<open>Capacity\<close> values without waiting and the next \<open>emplace\<close> waits. The destructor runs
  \<open>~T\<close> on all \<open>Capacity\<close> slots, also on those that never held an object: after \<open>n\<close> values it destroys
  \<open>Capacity - n\<close> objects that were never constructed.\<close>

theorem mpmc_fill_and_delete:
  assumes "length xs \<le> cap" "0 < cap" "cap < 2 ^ 62"
  shows "\<exists>q. emplace_all cap xs (MPMC_new cap) = Some q \<and> MPMC_delete q = cap - length xs
    \<and> (MPMC_emplace cap x q = None \<longleftrightarrow> length xs = cap)"
proof -
  let ?q = "\<lparr>mq_data = map Live xs @ replicate (cap - length xs) Raw,
      mq_ticket = replicate (length xs) 1 @ replicate (cap - length xs) 0, mq_head = 0, mq_tail = length xs\<rparr>"
  have "MPMC_delete ?q = cap - length xs" by (simp add: MPMC_delete_def filter_map o_def)
  moreover have "MPMC_emplace cap x ?q \<noteq> None" if "length xs < cap"
    using that by (simp add: mpmc_ops nth_append)
  moreover have "MPMC_emplace cap x ?q = None" if "length xs = cap"
    using that assms(2) by (simp add: mpmc_ops)
  ultimately show ?thesis using assms(1) emplace_all_new [OF assms(1,3)] by (metis le_neq_implies_less)
qed

theorem mpmc_fill_and_delete_witness:
  "\<exists>q. emplace_all 3 [True] (MPMC_new 3) = Some q \<and> MPMC_delete q = 3 - 1 \<and> MPMC_emplace 3 False q \<noteq> None"
  using mpmc_fill_and_delete [of "[True]" 3 False] by auto

end
