(* ===== verification/Thread_Pool.thy ===== *)
theory Thread_Pool
  imports Prelude
begin

text \<open>
  The task schedulers and the thread pool (include/scheduler.h, include/thread_pool.h). A scheduler is its task
  container and the stop flag; every operation is one critical section under the scheduler's mutex. A
  condition variable wait whose predicate is false is the outcome \<open>Sched_wait\<close>. A task is an abstract value;
  the packaged task around it catches what the task throws, so a worker survives every task. The
  interface \<open>scheduler\<close> is what \<open>ThreadPool<T>\<close> uses of its parameter \<open>T\<close>; the FIFO and the LIFO scheduler
  interpret it. The step relation \<open>pool_step\<close> interleaves clients, workers, timer workers and the clock.
\<close>

section \<open>Schedulers\<close>

datatype sched_error = Add_on_stopped | Double_add

record 'a sched =
  sc_tasks :: "'a list"
  sc_stop :: bool

datatype ('a, 's) sched_outcome = Sched_wait | Sched_exit | Sched_task 'a 's

definition FIFO_new :: "'a sched" where
  "FIFO_new = \<lparr>sc_tasks = [], sc_stop = False\<rparr>"

definition FIFO_add :: "'a \<Rightarrow> 'a sched \<Rightarrow> sched_error + 'a sched" where
  "FIFO_add task s = (if sc_stop s then Inl Add_on_stopped else Inr (s\<lparr>sc_tasks := sc_tasks s @ [task]\<rparr>))"

definition FIFO_execute :: "'a sched \<Rightarrow> ('a, 'a sched) sched_outcome" where
  "FIFO_execute s =
     (if \<not> (sc_stop s \<or> sc_tasks s \<noteq> []) then Sched_wait
      else if sc_stop s \<and> sc_tasks s = [] then Sched_exit
      else Sched_task (hd (sc_tasks s)) (s\<lparr>sc_tasks := tl (sc_tasks s)\<rparr>))"

definition FIFO_stop :: "'a sched \<Rightarrow> 'a sched" where
  "FIFO_stop s = s\<lparr>sc_stop := True\<rparr>"

text \<open>The top of the stack is the last element.\<close>

definition LIFO_new :: "'a sched" where
  "LIFO_new = \<lparr>sc_tasks = [], sc_stop = False\<rparr>"

definition LIFO_add :: "'a \<Rightarrow> 'a sched \<Rightarrow> sched_error + 'a sched" where
  "LIFO_add task s = (if sc_stop s then Inl Add_on_stopped else Inr (s\<lparr>sc_tasks := sc_tasks s @ [task]\<rparr>))"

definition LIFO_execute :: "'a sched \<Rightarrow> ('a, 'a sched) sched_outcome" where
  "LIFO_execute s =
     (if \<not> (sc_stop s \<or> sc_tasks s \<noteq> []) then Sched_wait
      else if sc_stop s \<and> sc_tasks s = [] then Sched_exit
      else Sched_task (last (sc_tasks s)) (s\<lparr>sc_tasks := butlast (sc_tasks s)\<rparr>))"

definition LIFO_stop :: "'a sched \<Rightarrow> 'a sched" where
  "LIFO_stop s = s\<lparr>sc_stop := True\<rparr>"

section \<open>Timer events\<close>

record 'a timer_event =
  te_id :: nat
  te_callback :: 'a
  te_trigger :: nat

text \<open>\<open>TimerEvent::operator<\<close>, the order of the set.\<close>

definition event_less :: "'a timer_event \<Rightarrow> 'a timer_event \<Rightarrow> bool" where
  "event_less e f \<longleftrightarrow> te_trigger e < te_trigger f"

text \<open>
  The set \<open>tasks_\<close> is the list of its elements in order. An iterator into it is the trigger time of its
  element, which no other element of the set has.
\<close>

record 'a timer =
  tm_tasks :: "'a timer_event list"
  tm_index :: "nat \<rightharpoonup> nat"
  tm_ID :: nat
  tm_stop :: bool

definition Timer_new :: "'a timer" where
  "Timer_new = \<lparr>tm_tasks = [], tm_index = Map.empty, tm_ID = 0, tm_stop = False\<rparr>"

text \<open>\<open>std::set::insert\<close>: no change and \<open>False\<close> when an equivalent element is present.\<close>

fun set_insert :: "'a timer_event \<Rightarrow> 'a timer_event list \<Rightarrow> bool \<times> 'a timer_event list" where
  "set_insert e [] = (True, [e])"
| "set_insert e (f # fs) =
     (if event_less e f then (True, e # f # fs)
      else if event_less f e then (case set_insert e fs of (b, gs) \<Rightarrow> (b, f # gs))
      else (False, f # fs))"

definition Timer_add :: "nat \<Rightarrow> nat \<Rightarrow> 'a \<Rightarrow> 'a timer \<Rightarrow> (sched_error + nat) \<times> 'a timer" where
  "Timer_add now delay f s =
     (let i = tm_ID s;
          s1 = s\<lparr>tm_ID := (i + 1) mod 2 ^ 64\<rparr>;
          event = \<lparr>te_id = i, te_callback = f, te_trigger = now + delay\<rparr>
      in if tm_stop s1 then (Inl Add_on_stopped, s1)
         else case set_insert event (tm_tasks s1) of
           (False, _) \<Rightarrow> (Inl Double_add, s1)
         | (True, ts) \<Rightarrow> (Inr i, s1\<lparr>tm_tasks := ts, tm_index := (tm_index s1)(i \<mapsto> te_trigger event)\<rparr>))"

text \<open>\<open>execute\<close> up to \<open>lock.unlock()\<close>; the sleep and the callback are steps of the worker.\<close>

definition Timer_take :: "'a timer \<Rightarrow> ('a timer_event, 'a timer) sched_outcome" where
  "Timer_take s =
     (if \<not> (tm_stop s \<or> tm_tasks s \<noteq> []) then Sched_wait
      else if tm_stop s \<and> tm_tasks s = [] then Sched_exit
      else let task = hd (tm_tasks s)
           in Sched_task task (s\<lparr>tm_tasks := tl (tm_tasks s), tm_index := (tm_index s)(te_id task := None)\<rparr>))"

definition Timer_cancel :: "nat \<Rightarrow> 'a timer \<Rightarrow> 'a timer" where
  "Timer_cancel i s =
     (case tm_index s i of None \<Rightarrow> s
      | Some it \<Rightarrow> s\<lparr>tm_tasks := filter (\<lambda>e. te_trigger e \<noteq> it) (tm_tasks s), tm_index := (tm_index s)(i := None)\<rparr>)"

definition Timer_stop :: "'a timer \<Rightarrow> 'a timer" where
  "Timer_stop s = s\<lparr>tm_stop := True\<rparr>"

section \<open>The thread pool\<close>

datatype 'a worker = W_loop | W_busy 'a | W_done

text \<open>
  The pool of a scheduler with state \<open>'s\<close>: the threads of the first loop of the constructor, those of the second,
  the clock, and the histories of accepted, fetched and executed
  tasks and timer events and the number of event ids drawn.
\<close>

record ('s, 'a) pool =
  tp_sched :: 's
  tp_timer :: "'a timer"
  tp_workers :: "'a worker list"
  tp_timers :: "'a timer_event worker list"
  tp_now :: nat
  tp_added :: "'a list"
  tp_taken :: "'a list"
  tp_ran :: "'a list"
  tp_events :: "'a timer_event list"
  tp_cancelled :: "'a timer_event list"
  tp_fired :: "('a timer_event \<times> nat) list"
  tp_draws :: nat

definition ThreadPool_new :: "'s \<Rightarrow> nat \<Rightarrow> ('s, 'a) pool" where
  "ThreadPool_new s threads = \<lparr>tp_sched = s, tp_timer = Timer_new, tp_workers = replicate threads W_loop,
     tp_timers = replicate threads W_loop, tp_now = 0, tp_added = [], tp_taken = [], tp_ran = [],
     tp_events = [], tp_cancelled = [], tp_fired = [], tp_draws = 0\<rparr>"

definition ThreadPool_add :: "('a \<Rightarrow> 's \<Rightarrow> sched_error + 's) \<Rightarrow> 'a \<Rightarrow> ('s, 'a) pool \<Rightarrow> sched_error + ('s, 'a) pool" where
  "ThreadPool_add sadd f p =
     (case sadd f (tp_sched p) of Inl e \<Rightarrow> Inl e
      | Inr s \<Rightarrow> Inr (p\<lparr>tp_sched := s, tp_added := tp_added p @ [f]\<rparr>))"

definition ThreadPool_add_delayed :: "nat \<Rightarrow> 'a \<Rightarrow> ('s, 'a) pool \<Rightarrow> (sched_error + nat) \<times> ('s, 'a) pool" where
  "ThreadPool_add_delayed delay f p =
     (case Timer_add (tp_now p) delay f (tp_timer p) of
        (Inl e, t) \<Rightarrow> (Inl e, p\<lparr>tp_timer := t, tp_draws := tp_draws p + 1\<rparr>)
      | (Inr i, t) \<Rightarrow> (Inr i, p\<lparr>tp_timer := t,
          tp_events := tp_events p @ [\<lparr>te_id = i, te_callback = f, te_trigger = tp_now p + delay\<rparr>], tp_draws := tp_draws p + 1\<rparr>))"

definition ThreadPool_cancel_delayed :: "nat \<Rightarrow> ('s, 'a) pool \<Rightarrow> ('s, 'a) pool" where
  "ThreadPool_cancel_delayed i p = p\<lparr>tp_timer := Timer_cancel i (tp_timer p),
     tp_cancelled := tp_cancelled p @ filter (\<lambda>e. te_id e = i) (tm_tasks (tp_timer p))\<rparr>"

text \<open>The destructor up to the loop that joins the threads, and its exit condition.\<close>

definition ThreadPool_stop :: "('s \<Rightarrow> 's) \<Rightarrow> ('s, 'a) pool \<Rightarrow> ('s, 'a) pool" where
  "ThreadPool_stop sstop p = p\<lparr>tp_sched := sstop (tp_sched p), tp_timer := Timer_stop (tp_timer p)\<rparr>"

definition ThreadPool_joined :: "('s, 'a) pool \<Rightarrow> bool" where
  "ThreadPool_joined p \<longleftrightarrow> (\<forall>w \<in> set (tp_workers p). w = W_done) \<and> (\<forall>w \<in> set (tp_timers p). w = W_done)"

text \<open>One step of worker \<open>i\<close> and of timer worker \<open>i\<close>: \<open>None\<close> when it waits, sleeps or has ended.\<close>

definition worker_step :: "('s \<Rightarrow> ('a, 's) sched_outcome) \<Rightarrow> nat \<Rightarrow> ('s, 'a) pool \<Rightarrow> ('s, 'a) pool option" where
  "worker_step sexec i p =
     (case tp_workers p ! i of
        W_loop \<Rightarrow> (case sexec (tp_sched p) of Sched_wait \<Rightarrow> None
          | Sched_exit \<Rightarrow> Some (p\<lparr>tp_workers := (tp_workers p)[i := W_done]\<rparr>)
          | Sched_task x s \<Rightarrow> Some (p\<lparr>tp_sched := s, tp_workers := (tp_workers p)[i := W_busy x],
              tp_taken := tp_taken p @ [x]\<rparr>))
      | W_busy x \<Rightarrow> Some (p\<lparr>tp_workers := (tp_workers p)[i := W_loop], tp_ran := tp_ran p @ [x]\<rparr>)
      | W_done \<Rightarrow> None)"

definition timer_step :: "nat \<Rightarrow> ('s, 'a) pool \<Rightarrow> ('s, 'a) pool option" where
  "timer_step i p =
     (case tp_timers p ! i of
        W_loop \<Rightarrow> (case Timer_take (tp_timer p) of Sched_wait \<Rightarrow> None
          | Sched_exit \<Rightarrow> Some (p\<lparr>tp_timers := (tp_timers p)[i := W_done]\<rparr>)
          | Sched_task e t \<Rightarrow> Some (p\<lparr>tp_timer := t, tp_timers := (tp_timers p)[i := W_busy e]\<rparr>))
      | W_busy e \<Rightarrow> if te_trigger e > tp_now p then None
          else Some (p\<lparr>tp_timers := (tp_timers p)[i := W_loop], tp_fired := tp_fired p @ [(e, tp_now p)]\<rparr>)
      | W_done \<Rightarrow> None)"

inductive pool_step :: "('a \<Rightarrow> 's \<Rightarrow> sched_error + 's) \<Rightarrow> ('s \<Rightarrow> ('a, 's) sched_outcome) \<Rightarrow> ('s \<Rightarrow> 's) \<Rightarrow>
    ('s, 'a) pool \<Rightarrow> ('s, 'a) pool \<Rightarrow> bool" for sadd sexec sstop where
  pool_add: "ThreadPool_add sadd f p = Inr q \<Longrightarrow> pool_step sadd sexec sstop p q"
| pool_delay: "ThreadPool_add_delayed d f p = (r, q) \<Longrightarrow> pool_step sadd sexec sstop p q"
| pool_cancel: "pool_step sadd sexec sstop p (ThreadPool_cancel_delayed k p)"
| pool_stop: "pool_step sadd sexec sstop p (ThreadPool_stop sstop p)"
| pool_worker: "i < length (tp_workers p) \<Longrightarrow> worker_step sexec i p = Some q \<Longrightarrow> pool_step sadd sexec sstop p q"
| pool_timer: "i < length (tp_timers p) \<Longrightarrow> timer_step i p = Some q \<Longrightarrow> pool_step sadd sexec sstop p q"
| pool_clock: "tp_now p \<le> n \<Longrightarrow> pool_step sadd sexec sstop p (p\<lparr>tp_now := n\<rparr>)"

section \<open>What the pool keeps\<close>

fun busy1 :: "'a worker \<Rightarrow> 'a multiset" where
  "busy1 (W_busy x) = {#x#}"
| "busy1 _ = {#}"

fun busy :: "'a worker list \<Rightarrow> 'a multiset" where
  "busy [] = {#}"
| "busy (w # ws) = busy1 w + busy ws"

definition tasks_kept :: "('s \<Rightarrow> 'a multiset) \<Rightarrow> ('s \<Rightarrow> bool) \<Rightarrow> ('s, 'a) pool \<Rightarrow> bool" where
  "tasks_kept content stopped p \<longleftrightarrow> mset (tp_added p) = mset (tp_taken p) + content (tp_sched p)
     \<and> mset (tp_taken p) = mset (tp_ran p) + busy (tp_workers p)
     \<and> (W_done \<in> set (tp_workers p) \<longrightarrow> stopped (tp_sched p) \<and> content (tp_sched p) = {#})"

definition timer_inv :: "'a timer \<Rightarrow> bool" where
  "timer_inv s \<longleftrightarrow> sorted_wrt event_less (tm_tasks s) \<and> distinct (map te_id (tm_tasks s))
     \<and> tm_index s = map_of (map (\<lambda>e. (te_id e, te_trigger e)) (tm_tasks s))"

definition events_kept :: "('s, 'a) pool \<Rightarrow> bool" where
  "events_kept p \<longleftrightarrow> timer_inv (tp_timer p) \<and> tm_ID (tp_timer p) = tp_draws p
     \<and> mset (tp_events p) = mset (tm_tasks (tp_timer p)) + mset (tp_cancelled p) + busy (tp_timers p) + mset (map fst (tp_fired p))
     \<and> distinct (map te_id (tp_events p)) \<and> (\<forall>e \<in> set (tp_events p). te_id e < tp_draws p)
     \<and> (\<forall>(e, n) \<in> set (tp_fired p). te_trigger e \<le> n)
     \<and> (W_done \<in> set (tp_timers p) \<longrightarrow> tm_stop (tp_timer p) \<and> tm_tasks (tp_timer p) = [])"

definition pool_inv :: "('s \<Rightarrow> 'a multiset) \<Rightarrow> ('s \<Rightarrow> bool) \<Rightarrow> ('s, 'a) pool \<Rightarrow> bool" where
  "pool_inv content stopped p \<longleftrightarrow> tasks_kept content stopped p \<and> (tp_draws p < 2 ^ 64 \<longrightarrow> events_kept p)"

definition pool_start :: "'s \<Rightarrow> ('s, 'a) pool \<Rightarrow> bool" where
  "pool_start s0 p \<longleftrightarrow> (\<exists>n. p = ThreadPool_new s0 n)"

text \<open>The steps of the workers and the timer workers alone, with the clock running: \<open>n\<close> of them.\<close>

inductive pool_turns :: "('s \<Rightarrow> ('a, 's) sched_outcome) \<Rightarrow> nat \<Rightarrow> ('s, 'a) pool \<Rightarrow> ('s, 'a) pool \<Rightarrow> bool" for sexec where
  turns_none: "pool_turns sexec 0 p p"
| turns_worker: "pool_turns sexec n p q \<Longrightarrow> i < length (tp_workers q) \<Longrightarrow> worker_step sexec i q = Some r \<Longrightarrow>
    pool_turns sexec (Suc n) p r"
| turns_timer: "pool_turns sexec n p q \<Longrightarrow> i < length (tp_timers q) \<Longrightarrow> timer_step i q = Some r \<Longrightarrow>
    pool_turns sexec (Suc n) p r"
| turns_clock: "pool_turns sexec n p q \<Longrightarrow> tp_now q \<le> k \<Longrightarrow> pool_turns sexec n p (q\<lparr>tp_now := k\<rparr>)"

text \<open>A bound on the steps left: three for each pending task, two for a running one, one for a worker in its loop.\<close>

fun weight :: "'a worker \<Rightarrow> nat" where
  "weight W_loop = 1"
| "weight (W_busy x) = 2"
| "weight W_done = 0"

definition pool_work :: "('s \<Rightarrow> 'a multiset) \<Rightarrow> ('s, 'a) pool \<Rightarrow> nat" where
  "pool_work content p = 3 * size (content (tp_sched p)) + sum_list (map weight (tp_workers p))
     + 3 * length (tm_tasks (tp_timer p)) + sum_list (map weight (tp_timers p))"

section \<open>Timers\<close>

lemma busy_update: "i < length ws \<Longrightarrow> busy (ws[i := w]) + busy1 (ws ! i) = busy ws + busy1 w"
proof (induction ws arbitrary: i)
  case (Cons v ws)
  then show ?case by (cases i) (auto simp: ac_simps)
qed simp

lemma busy_idle: "busy (replicate n W_loop) = {#}"
  by (induction n) auto

lemma set_insert_spec:
  assumes "sorted_wrt event_less ts" "set_insert e ts = (b, us)"
  shows "b \<longleftrightarrow> te_trigger e \<notin> te_trigger ` set ts"
    "mset us = (if b then add_mset e (mset ts) else mset ts)" "sorted_wrt event_less us"
proof -
  have "(b \<longleftrightarrow> te_trigger e \<notin> te_trigger ` set ts) \<and> mset us = (if b then add_mset e (mset ts) else mset ts)
    \<and> sorted_wrt event_less us"
    using assms
  proof (induction ts arbitrary: b us)
    case (Cons f fs)
    obtain c gs where r: "set_insert e fs = (c, gs)" by fastforce
    note IH = Cons.IH [OF _ r]
    have "set gs = (if c then insert e (set fs) else set fs)"
      using IH Cons.prems(1) by (metis set_mset_add_mset_insert set_mset_mset sorted_wrt.simps(2))
    then show ?case
      using IH Cons.prems r by (auto simp: event_less_def split: if_splits) (meson less_trans)
  qed auto
  then show "b \<longleftrightarrow> te_trigger e \<notin> te_trigger ` set ts"
    "mset us = (if b then add_mset e (mset ts) else mset ts)" "sorted_wrt event_less us" by auto
qed

lemma index_lookup:
  assumes "timer_inv s"
  shows "tm_index s i = Some k \<longleftrightarrow> (\<exists>e \<in> set (tm_tasks s). te_id e = i \<and> te_trigger e = k)"
  using assms by (auto simp: timer_inv_def map_of_eq_Some_iff comp_def)

lemma triggers_distinct: "sorted_wrt event_less ts \<Longrightarrow> distinct (map te_trigger ts)"
  by (induction ts) (auto simp: event_less_def)

lemma trigger_unique:
  assumes "timer_inv s" "e \<in> set (tm_tasks s)" "f \<in> set (tm_tasks s)" "te_trigger e = te_trigger f"
  shows "e = f"
  using triggers_distinct [of "tm_tasks s"] assms by (auto simp: timer_inv_def distinct_map dest: inj_onD)

lemma index_eqI:
  assumes "distinct (map te_id ts)"
    and "\<And>i k. m i = Some k \<longleftrightarrow> (\<exists>e \<in> set ts. te_id e = i \<and> te_trigger e = k)"
  shows "m = map_of (map (\<lambda>e. (te_id e, te_trigger e)) ts)"
proof
  fix i
  have "map_of (map (\<lambda>e. (te_id e, te_trigger e)) ts) i = Some k \<longleftrightarrow> m i = Some k" for k
    using assms by (auto simp: map_of_eq_Some_iff comp_def)
  then show "m i = map_of (map (\<lambda>e. (te_id e, te_trigger e)) ts) i" by (metis not_Some_eq)
qed

lemma Timer_take_spec:
  assumes "timer_inv s" "Timer_take s = Sched_task e t"
  shows "timer_inv t" "tm_tasks s = e # tm_tasks t" "tm_ID t = tm_ID s" "tm_stop t = tm_stop s"
proof -
  obtain ts where ts: "tm_tasks s = e # ts" and t: "t = s\<lparr>tm_tasks := ts, tm_index := (tm_index s)(te_id e := None)\<rparr>"
    using assms(2) by (cases "tm_tasks s") (auto simp: Timer_take_def Let_def split: if_splits)
  have "(tm_index s)(te_id e := None) = map_of (map (\<lambda>e. (te_id e, te_trigger e)) ts)"
    using assms(1) ts map_of_eq_None_iff [of "map (\<lambda>e. (te_id e, te_trigger e)) ts" "te_id e"]
    by (auto simp: timer_inv_def fun_eq_iff image_image)
  then show "timer_inv t" using assms(1) ts t by (simp add: timer_inv_def)
qed (use assms in \<open>auto simp: Timer_take_def Let_def split: if_splits\<close>)

lemma Timer_cancel_spec:
  assumes "timer_inv s"
  shows "timer_inv (Timer_cancel i s)" "tm_tasks (Timer_cancel i s) = filter (\<lambda>e. te_id e \<noteq> i) (tm_tasks s)"
    "tm_ID (Timer_cancel i s) = tm_ID s" "tm_stop (Timer_cancel i s) = tm_stop s"
proof -
  show tasks: "tm_tasks (Timer_cancel i s) = filter (\<lambda>e. te_id e \<noteq> i) (tm_tasks s)"
  proof (cases "tm_index s i")
    case None
    then have "te_id e \<noteq> i" if "e \<in> set (tm_tasks s)" for e
      using index_lookup [OF assms, of i "te_trigger e"] that by auto
    then show ?thesis using None by (auto simp: Timer_cancel_def intro!: filter_True [symmetric])
  next
    case (Some it)
    then obtain e where e: "e \<in> set (tm_tasks s)" "te_id e = i" "te_trigger e = it" using index_lookup [OF assms] by blast
    have "te_trigger f = it \<longleftrightarrow> te_id f = i" if "f \<in> set (tm_tasks s)" for f
      using trigger_unique [OF assms that e(1)] e that assms
      by (auto simp: timer_inv_def distinct_map dest: inj_onD)
    then show ?thesis using Some by (auto simp: Timer_cancel_def intro: filter_cong)
  qed
  have "tm_index (Timer_cancel i s) = (tm_index s)(i := None)"
    by (auto simp: Timer_cancel_def split: option.split)
  moreover have "(tm_index s)(i := None) = map_of (map (\<lambda>e. (te_id e, te_trigger e)) (filter (\<lambda>e. te_id e \<noteq> i) (tm_tasks s)))"
    using assms index_lookup [OF assms] by (intro index_eqI) (auto simp: timer_inv_def distinct_map_filter)
  ultimately show "timer_inv (Timer_cancel i s)"
    using assms tasks by (auto simp: timer_inv_def sorted_wrt_filter distinct_map_filter)
qed (auto simp: Timer_cancel_def split: option.split)

lemma Timer_add_spec:
  assumes "timer_inv s" "tm_ID s + 1 < 2 ^ 64" "\<And>e. e \<in> set (tm_tasks s) \<Longrightarrow> te_id e < tm_ID s"
    and r: "Timer_add now d f s = (r, t)"
  shows "timer_inv t" "tm_ID t = tm_ID s + 1" "tm_stop t = tm_stop s"
    "r = (if tm_stop s then Inl Add_on_stopped
          else if now + d \<in> te_trigger ` set (tm_tasks s) then Inl Double_add else Inr (tm_ID s))"
    "mset (tm_tasks t) = (case r of Inl _ \<Rightarrow> mset (tm_tasks s)
       | Inr i \<Rightarrow> add_mset \<lparr>te_id = i, te_callback = f, te_trigger = now + d\<rparr> (mset (tm_tasks s)))"
proof -
  let ?e = "\<lparr>te_id = tm_ID s, te_callback = f, te_trigger = now + d\<rparr>"
  obtain b us where ins: "set_insert ?e (tm_tasks s) = (b, us)" by fastforce
  have sorted: "sorted_wrt event_less (tm_tasks s)" using assms(1) by (simp add: timer_inv_def)
  note spec = set_insert_spec [OF sorted ins]
  have "timer_inv (s\<lparr>tm_ID := n, tm_tasks := us, tm_index := (tm_index s)(tm_ID s \<mapsto> now + d)\<rparr>)" if b for n
  proof -
    have m: "mset us = mset (?e # tm_tasks s)" using spec(2) that by simp
    have fresh: "tm_ID s \<notin> te_id ` set (tm_tasks s)" using assms(3) by force
    have "mset (map te_id us) = mset (map te_id (?e # tm_tasks s))" using m by simp
    from mset_eq_imp_distinct_iff [OF this] have d: "distinct (map te_id us)"
      using assms(1) fresh by (simp add: timer_inv_def)
    have u: "set us = insert ?e (set (tm_tasks s))" using mset_eq_setD [OF m] by simp
    have "(tm_index s)(tm_ID s \<mapsto> now + d) = map_of (map (\<lambda>e. (te_id e, te_trigger e)) us)"
      using index_lookup [OF assms(1)] fresh u by (intro index_eqI [OF d]) (auto, metis image_eqI)
    then show ?thesis using spec(3) d by (simp add: timer_inv_def)
  qed
  then show "timer_inv t" "tm_ID t = tm_ID s + 1" "tm_stop t = tm_stop s"
    "r = (if tm_stop s then Inl Add_on_stopped
          else if now + d \<in> te_trigger ` set (tm_tasks s) then Inl Double_add else Inr (tm_ID s))"
    "mset (tm_tasks t) = (case r of Inl _ \<Rightarrow> mset (tm_tasks s)
       | Inr i \<Rightarrow> add_mset \<lparr>te_id = i, te_callback = f, te_trigger = now + d\<rparr> (mset (tm_tasks s)))"
    using r ins spec(1,2) assms(1,2)
    by (auto simp: Timer_add_def Let_def timer_inv_def split: if_splits bool.splits)
qed

section \<open>Timer events of the pool\<close>

lemma timer_step_kept:
  assumes kept: "events_kept p" and i: "i < length (tp_timers p)" "timer_step i p = Some q"
  shows "events_kept q"
proof (cases "tp_timers p ! i")
  case W_loop
  have inv: "timer_inv (tp_timer p)" using kept by (simp add: events_kept_def)
  show ?thesis
  proof (cases "Timer_take (tp_timer p)")
    case (Sched_task e t)
    then show ?thesis
      using W_loop i kept busy_update [OF i(1), of "W_busy e"] Timer_take_spec [OF inv Sched_task]
        set_update_subset_insert [of "tp_timers p" i "W_busy e"]
      by (auto simp: timer_step_def events_kept_def)
  next
    case Sched_exit
    then show ?thesis
      using W_loop i kept busy_update [OF i(1), of W_done]
      by (auto simp: timer_step_def events_kept_def Timer_take_def Let_def split: if_splits)
  qed (use W_loop i in \<open>simp add: timer_step_def\<close>)
next
  case (W_busy e)
  then show ?thesis
    using i kept busy_update [OF i(1), of W_loop] set_update_subset_insert [of "tp_timers p" i W_loop]
    by (auto simp: timer_step_def events_kept_def split: if_splits)
qed (use i in \<open>simp add: timer_step_def\<close>)

lemma cancel_kept:
  assumes kept: "events_kept p"
  shows "events_kept (ThreadPool_cancel_delayed k p)"
proof -
  have inv: "timer_inv (tp_timer p)" using kept by (simp add: events_kept_def)
  have "mset (filter (\<lambda>e. te_id e \<noteq> k) ts) + mset (filter (\<lambda>e. te_id e = k) ts) = mset ts" for ts :: "'b timer_event list"
    by (induction ts) auto
  then show ?thesis
    using kept Timer_cancel_spec [OF inv, of k] by (auto simp: events_kept_def ThreadPool_cancel_delayed_def ac_simps)
qed

lemma delay_kept:
  assumes kept: "events_kept p" and r: "ThreadPool_add_delayed d f p = (r, q)" and b: "tp_draws q < 2 ^ 64"
  shows "events_kept q"
proof -
  have inv: "timer_inv (tp_timer p)" and m: "set (tm_tasks (tp_timer p)) \<subseteq> set (tp_events p)"
    using kept by (auto simp: events_kept_def dest!: mset_eq_setD arg_cong [of _ _ set_mset])
  obtain r' t where t: "Timer_add (tp_now p) d f (tp_timer p) = (r', t)" by fastforce
  have "tm_ID (tp_timer p) + 1 < 2 ^ 64" using kept r b t
    by (auto simp: events_kept_def ThreadPool_add_delayed_def split: sum.splits)
  moreover have "te_id e < tm_ID (tp_timer p)" if "e \<in> set (tm_tasks (tp_timer p))" for e
    using that m kept by (auto simp: events_kept_def)
  ultimately have spec: "timer_inv t" "tm_ID t = tm_ID (tp_timer p) + 1" "tm_stop t = tm_stop (tp_timer p)"
    "r' = (if tm_stop (tp_timer p) then Inl Add_on_stopped
          else if tp_now p + d \<in> te_trigger ` set (tm_tasks (tp_timer p)) then Inl Double_add
          else Inr (tm_ID (tp_timer p)))"
    "mset (tm_tasks t) = (case r' of Inl _ \<Rightarrow> mset (tm_tasks (tp_timer p))
       | Inr i \<Rightarrow> add_mset \<lparr>te_id = i, te_callback = f, te_trigger = tp_now p + d\<rparr> (mset (tm_tasks (tp_timer p))))"
    using Timer_add_spec [OF inv _ _ t] by blast+
  have "te_id e < Suc (tp_draws p) \<and> te_id e \<noteq> tp_draws p" if "e \<in> set (tp_events p)" for e
    using kept that by (force simp: events_kept_def)
  then show ?thesis
    using kept r t spec
    by (auto simp: events_kept_def ThreadPool_add_delayed_def split: sum.splits if_splits) blast
qed

lemma weight_update:
  assumes "i < length ws"
  shows "sum_list (map weight (ws[i := w])) + weight (ws ! i) = sum_list (map weight ws) + weight w"
proof -
  have "weight (ws ! i) \<le> sum_list (map weight ws)"
    using assms member_le_sum_list [of "weight (ws ! i)" "map weight ws"] by simp
  then show ?thesis using assms by (simp add: map_update sum_list_update)
qed

lemma all_done_busy: "(\<forall>w \<in> set ws. w = W_done) \<Longrightarrow> busy ws = {#}"
  by (induction ws) auto

lemma timer_step_work:
  assumes "i < length (tp_timers p)" "timer_step i p = Some q"
  shows "pool_work content q < pool_work content p"
proof (cases "tp_timers p ! i")
  case W_loop
  then show ?thesis
    using assms weight_update [OF assms(1), of W_done] weight_update [OF assms(1), of "W_busy (hd (tm_tasks (tp_timer p)))"]
    by (cases "tm_tasks (tp_timer p)")
      (auto simp: timer_step_def Timer_take_def Let_def pool_work_def split: if_splits)
next
  case (W_busy e)
  then show ?thesis
    using assms weight_update [OF assms(1), of W_loop] by (auto simp: timer_step_def pool_work_def split: if_splits)
qed (use assms in \<open>simp add: timer_step_def\<close>)

section \<open>The scheduler interface\<close>

text \<open>
  What the pool relies on: \<open>add\<close> fails exactly when the scheduler is stopped and otherwise adds the task; a worker
  waits exactly when there is no task and no stop, is told to exit exactly when there is no task and a
  stop, and otherwise gets one of the pending tasks.
\<close>

locale scheduler =
  fixes sadd :: "'a \<Rightarrow> 's \<Rightarrow> sched_error + 's" and sexec :: "'s \<Rightarrow> ('a, 's) sched_outcome" and sstop :: "'s \<Rightarrow> 's"
    and content :: "'s \<Rightarrow> 'a multiset" and stopped :: "'s \<Rightarrow> bool" and s0 :: 's
  assumes start: "content s0 = {#}" "\<not> stopped s0"
    and add_stopped: "stopped s \<Longrightarrow> sadd x s = Inl Add_on_stopped"
    and add_task: "\<not> stopped s \<Longrightarrow> \<exists>t. sadd x s = Inr t \<and> content t = add_mset x (content s) \<and> \<not> stopped t"
    and exec_empty: "content s = {#} \<Longrightarrow> sexec s = (if stopped s then Sched_exit else Sched_wait)"
    and exec_task: "content s \<noteq> {#} \<Longrightarrow>
      \<exists>x t. sexec s = Sched_task x t \<and> content s = add_mset x (content t) \<and> (stopped t \<longleftrightarrow> stopped s)"
    and stop_sched: "content (sstop s) = content s" "stopped (sstop s)"
begin

lemma add_outcome:
  assumes "sadd x s = Inr t"
  shows "content t = add_mset x (content s)" "\<not> stopped t" "\<not> stopped s"
  using assms add_stopped [of s x] add_task [of s x] by (cases "stopped s"; auto)+

lemma exec_outcome:
  shows "sexec s = Sched_exit \<longleftrightarrow> content s = {#} \<and> stopped s"
    "sexec s = Sched_wait \<longleftrightarrow> content s = {#} \<and> \<not> stopped s"
    "sexec s = Sched_task x t \<Longrightarrow> content s = add_mset x (content t) \<and> (stopped t \<longleftrightarrow> stopped s)"
  using exec_empty [of s] exec_task [of s] by (cases "content s = {#}"; force split: if_splits)+

lemma worker_step_kept:
  assumes kept: "tasks_kept content stopped p" and i: "i < length (tp_workers p)" "worker_step sexec i p = Some q"
  shows "tasks_kept content stopped q"
proof (cases "tp_workers p ! i")
  case W_loop
  show ?thesis
  proof (cases "sexec (tp_sched p)")
    case (Sched_task x t)
    then show ?thesis
      using W_loop i kept busy_update [OF i(1), of "W_busy x"] exec_outcome(3) [OF Sched_task]
        set_update_subset_insert [of "tp_workers p" i "W_busy x"]
      by (auto simp: worker_step_def tasks_kept_def)
  next
    case Sched_exit
    then show ?thesis
      using W_loop i kept busy_update [OF i(1), of W_done] exec_outcome(1) [of "tp_sched p"]
      by (auto simp: worker_step_def tasks_kept_def)
  qed (use W_loop i in \<open>simp add: worker_step_def\<close>)
next
  case (W_busy x)
  then show ?thesis
    using i kept busy_update [OF i(1), of W_loop] set_update_subset_insert [of "tp_workers p" i W_loop]
    by (auto simp: worker_step_def tasks_kept_def)
qed (use i in \<open>simp add: worker_step_def\<close>)

lemma pool_step_inv:
  assumes inv: "pool_inv content stopped p" and st: "pool_step sadd sexec sstop p q"
  shows "pool_inv content stopped q"
proof -
  have t: "tasks_kept content stopped p" and e: "tp_draws p < 2 ^ 64 \<Longrightarrow> events_kept p"
    using inv by (auto simp: pool_inv_def)
  from st show ?thesis
  proof cases
    case (pool_add f)
    then show ?thesis using t e add_outcome [of f "tp_sched p"]
      by (auto simp: pool_inv_def tasks_kept_def ThreadPool_add_def events_kept_def split: sum.splits)
  next
    case (pool_delay d f r)
    then have "tp_draws q = tp_draws p + 1" "tasks_kept content stopped q"
      using t by (auto simp: ThreadPool_add_delayed_def tasks_kept_def split: prod.splits sum.splits)
    then show ?thesis using e delay_kept [OF _ pool_delay] by (auto simp: pool_inv_def)
  next
    case (pool_cancel k)
    then show ?thesis using t e cancel_kept [of p k]
      by (auto simp: pool_inv_def tasks_kept_def ThreadPool_cancel_delayed_def)
  next
    case pool_stop
    then show ?thesis using t e stop_sched [of "tp_sched p"]
      by (auto simp: pool_inv_def tasks_kept_def events_kept_def ThreadPool_stop_def Timer_stop_def timer_inv_def)
  next
    case (pool_worker i)
    have "events_kept q = events_kept p" "tp_draws q = tp_draws p"
      using pool_worker by (auto simp: worker_step_def events_kept_def split: worker.splits sched_outcome.splits)
    then show ?thesis using e worker_step_kept [OF t pool_worker] by (simp add: pool_inv_def)
  next
    case (pool_timer i)
    have "tasks_kept content stopped q = tasks_kept content stopped p" "tp_draws q = tp_draws p"
      using pool_timer by (auto simp: timer_step_def tasks_kept_def split: worker.splits sched_outcome.splits if_splits)
    then show ?thesis using t e timer_step_kept [OF _ pool_timer] by (simp add: pool_inv_def)
  next
    case (pool_clock n)
    then show ?thesis using t e by (auto simp: pool_inv_def tasks_kept_def events_kept_def)
  qed
qed

lemma pool_start_inv: "pool_start s0 p \<Longrightarrow> pool_inv content stopped p"
  using start by (auto simp: pool_start_def pool_inv_def tasks_kept_def events_kept_def ThreadPool_new_def busy_idle
      Timer_new_def timer_inv_def)

lemma worker_step_work:
  assumes "i < length (tp_workers p)" "worker_step sexec i p = Some q"
  shows "pool_work content q < pool_work content p"
proof (cases "tp_workers p ! i")
  case W_loop
  show ?thesis
  proof (cases "sexec (tp_sched p)")
    case (Sched_task x t)
    then show ?thesis
      using W_loop assms weight_update [OF assms(1), of "W_busy x"] exec_outcome(3) [OF Sched_task]
      by (auto simp: worker_step_def pool_work_def)
  qed (use W_loop assms weight_update [OF assms(1), of W_done] in \<open>auto simp: worker_step_def pool_work_def\<close>)
next
  case (W_busy x)
  then show ?thesis
    using assms weight_update [OF assms(1), of W_loop] by (auto simp: worker_step_def pool_work_def)
qed (use assms in \<open>simp add: worker_step_def\<close>)

lemma turns_work: "pool_turns sexec n p q \<Longrightarrow> n + pool_work content q \<le> pool_work content p"
proof (induction rule: pool_turns.induct)
  case (turns_worker n p q i r)
  then show ?case using worker_step_work [OF turns_worker.hyps(2,3)] by simp
next
  case (turns_timer n p q i r)
  then show ?case using timer_step_work [OF turns_timer.hyps(2,3), of content] by simp
qed (auto simp: pool_work_def)

text \<open>In a stopped pool some thread can go on until all have ended.\<close>

lemma stopped_progress:
  assumes st: "stopped (tp_sched p)" "tm_stop (tp_timer p)" and nj: "\<not> ThreadPool_joined p"
    and due: "\<And>e. W_busy e \<in> set (tp_timers p) \<Longrightarrow> te_trigger e \<le> tp_now p"
  shows "\<exists>i q. i < length (tp_workers p) \<and> worker_step sexec i p = Some q \<or>
    i < length (tp_timers p) \<and> timer_step i p = Some q"
proof -
  have "worker_step sexec i p \<noteq> None" if "tp_workers p ! i \<noteq> W_done" for i
    using that st exec_outcome(2) [of "tp_sched p"] by (auto simp: worker_step_def split: worker.splits sched_outcome.splits)
  moreover have "timer_step i p \<noteq> None" if "i < length (tp_timers p)" "tp_timers p ! i \<noteq> W_done" for i
    using that st due nth_mem [OF that(1)]
    by (cases "tp_timers p ! i") (auto simp: timer_step_def Timer_take_def Let_def not_less)
  ultimately show ?thesis using nj by (force simp: ThreadPool_joined_def in_set_conv_nth)
qed

lemma step_stop_kept:
  "worker_step sexec i p = Some q \<Longrightarrow> stopped (tp_sched q) = stopped (tp_sched p) \<and> tp_timer q = tp_timer p"
  "timer_step i p = Some q \<Longrightarrow> tp_sched q = tp_sched p \<and> tm_stop (tp_timer q) = tm_stop (tp_timer p)"
  using exec_outcome(3) [of "tp_sched p"]
  by (auto simp: worker_step_def timer_step_def Timer_take_def Let_def split: worker.splits sched_outcome.splits if_splits)

lemma turns_trans: "pool_turns sexec m q r \<Longrightarrow> pool_turns sexec n p q \<Longrightarrow> pool_turns sexec (n + m) p r"
  by (induction rule: pool_turns.induct) (auto intro: pool_turns.intros)

lemma stopped_joins:
  assumes "stopped (tp_sched p)" "tm_stop (tp_timer p)"
  shows "\<exists>n q. pool_turns sexec n p q \<and> ThreadPool_joined q"
  using assms
proof (induction "pool_work content p" arbitrary: p rule: less_induct)
  case less
  define now where "now = tp_now p + sum_list (map (\<lambda>w. case w of W_busy e \<Rightarrow> te_trigger e | _ \<Rightarrow> 0) (tp_timers p))"
  let ?p = "p\<lparr>tp_now := now\<rparr>"
  have clock: "pool_turns sexec 0 p ?p" by (rule turns_clock [OF turns_none]) (simp add: now_def)
  have due: "te_trigger e \<le> now" if "W_busy e \<in> set (tp_timers p)" for e
    using that member_le_sum_list [of "te_trigger e" "map (\<lambda>w. case w of W_busy e \<Rightarrow> te_trigger e | _ \<Rightarrow> 0) (tp_timers p)"]
    unfolding now_def by (force intro: trans_le_add2)
  have step: "\<exists>n r. pool_turns sexec n p r \<and> ThreadPool_joined r"
    if "pool_turns sexec 1 p q" "stopped (tp_sched q)" "tm_stop (tp_timer q)" for q
    using less.hyps [OF _ that(2,3)] turns_work [OF that(1)] turns_trans [OF _ that(1)] by fastforce
  show ?case
  proof (cases "ThreadPool_joined p")
    case False
    then have "\<not> ThreadPool_joined ?p" by (simp add: ThreadPool_joined_def)
    from stopped_progress [OF _ _ this] less.prems due obtain i q where
      "i < length (tp_workers ?p) \<and> worker_step sexec i ?p = Some q \<or> i < length (tp_timers ?p) \<and> timer_step i ?p = Some q"
      by auto
    then show ?thesis
      using step [of q] turns_worker [OF clock, of i q] turns_timer [OF clock, of i q] step_stop_kept [of i ?p q] less.prems
      by auto
  qed (auto intro: turns_none)
qed

lemma turns_reaches: "pool_turns sexec n p q \<Longrightarrow> reaches (pool_step sadd sexec sstop) p q"
  by (induction rule: pool_turns.induct) (auto intro: pool_step.intros)

lemma turns_added: "pool_turns sexec n p q \<Longrightarrow> tp_added q = tp_added p"
  by (induction rule: pool_turns.induct)
    (auto simp: worker_step_def timer_step_def split: worker.splits sched_outcome.splits if_splits)

text \<open>A pool that is given one task and stopped.\<close>

lemma one_task_run:
  "\<exists>p. reaches (pool_step sadd sexec sstop) (ThreadPool_new s0 1) p \<and> ThreadPool_joined p \<and> tp_added p = [x]"
proof -
  let ?p0 = "ThreadPool_new s0 1"
  obtain t where "sadd x s0 = Inr t" using add_task [OF start(2), of x] by blast
  then have "ThreadPool_add sadd x ?p0 = Inr (?p0\<lparr>tp_sched := t, tp_added := [x]\<rparr>)" (is "_ = Inr ?p1")
    by (simp add: ThreadPool_add_def ThreadPool_new_def)
  then have 1: "reaches (pool_step sadd sexec sstop) ?p0 (ThreadPool_stop sstop ?p1)"
    by (blast intro: pool_add pool_stop)
  have "stopped (tp_sched (ThreadPool_stop sstop ?p1))" "tm_stop (tp_timer (ThreadPool_stop sstop ?p1))"
    using stop_sched by (auto simp: ThreadPool_stop_def Timer_stop_def)
  from stopped_joins [OF this] obtain n q where
    q: "pool_turns sexec n (ThreadPool_stop sstop ?p1) q" "ThreadPool_joined q" by blast
  have "tp_added q = [x]" using turns_added [OF q(1)] by (simp add: ThreadPool_stop_def)
  then show ?thesis using reaches_trans [OF 1 turns_reaches [OF q(1)]] q(2) by blast
qed

lemma joined_result:
  assumes "pool_inv content stopped p" "ThreadPool_joined p" "tp_workers p \<noteq> []" "tp_timers p \<noteq> []"
  shows "mset (tp_ran p) = mset (tp_added p)"
    "tp_draws p < 2 ^ 64 \<Longrightarrow> mset (tp_events p) = mset (tp_cancelled p) + mset (map fst (tp_fired p))"
proof -
  have "busy (tp_workers p) = {#}" "busy (tp_timers p) = {#}"
    using assms(2) by (auto simp: ThreadPool_joined_def intro: all_done_busy)
  moreover have "W_done \<in> set (tp_workers p)" "W_done \<in> set (tp_timers p)"
    using assms(2) hd_in_set [OF assms(3)] hd_in_set [OF assms(4)] by (auto simp: ThreadPool_joined_def)
  ultimately show "mset (tp_ran p) = mset (tp_added p)"
    "tp_draws p < 2 ^ 64 \<Longrightarrow> mset (tp_events p) = mset (tp_cancelled p) + mset (map fst (tp_fired p))"
    using assms(1) by (auto simp: pool_inv_def tasks_kept_def events_kept_def)
qed

lemma reaches_lengths:
  "reaches (pool_step sadd sexec sstop) p q \<Longrightarrow>
   length (tp_workers q) = length (tp_workers p) \<and> length (tp_timers q) = length (tp_timers p)"
proof (induction rule: reaches.induct)
  case (reaches_step s t u)
  from reaches_step.hyps(2) have "length (tp_workers u) = length (tp_workers t) \<and> length (tp_timers u) = length (tp_timers t)"
    by cases (auto simp: ThreadPool_add_def ThreadPool_add_delayed_def ThreadPool_cancel_delayed_def ThreadPool_stop_def
        worker_step_def timer_step_def split: sum.splits prod.splits worker.splits sched_outcome.splits if_splits)
  then show ?case using reaches_step.IH by simp
qed simp

end

sublocale scheduler \<subseteq> pool_run: transition_invariant "pool_start s0" "pool_step sadd sexec sstop" "pool_inv content stopped"
  by unfold_locales (auto intro: pool_start_inv pool_step_inv)

section \<open>The two schedulers\<close>

interpretation fifo: scheduler FIFO_add FIFO_execute FIFO_stop "\<lambda>s. mset (sc_tasks s)" sc_stop FIFO_new
proof unfold_locales
  fix s :: "'a sched" and x :: 'a
  show "mset (sc_tasks s) \<noteq> {#} \<Longrightarrow> \<exists>x t. FIFO_execute s = Sched_task x t \<and> mset (sc_tasks s) = add_mset x (mset (sc_tasks t))
      \<and> sc_stop t = sc_stop s"
    by (cases "sc_tasks s") (auto simp: FIFO_execute_def)
qed (auto simp: FIFO_new_def FIFO_add_def FIFO_execute_def FIFO_stop_def)

interpretation lifo: scheduler LIFO_add LIFO_execute LIFO_stop "\<lambda>s. mset (sc_tasks s)" sc_stop LIFO_new
proof unfold_locales
  fix s :: "'a sched" and x :: 'a
  show "mset (sc_tasks s) \<noteq> {#} \<Longrightarrow> \<exists>x t. LIFO_execute s = Sched_task x t \<and> mset (sc_tasks s) = add_mset x (mset (sc_tasks t))
      \<and> sc_stop t = sc_stop s"
    by (cases "sc_tasks s" rule: rev_cases) (auto simp: LIFO_execute_def)
qed (auto simp: LIFO_new_def LIFO_add_def LIFO_execute_def LIFO_stop_def)

definition fifo_taken :: "('a sched, 'a) pool \<Rightarrow> bool" where
  "fifo_taken p \<longleftrightarrow> tp_added p = tp_taken p @ sc_tasks (tp_sched p)"

interpretation fifo_order: transition_invariant "pool_start FIFO_new" "pool_step FIFO_add FIFO_execute FIFO_stop" fifo_taken
proof unfold_locales
  show "pool_start FIFO_new p \<Longrightarrow> fifo_taken p" for p :: "('a sched, 'a) pool"
    by (auto simp: pool_start_def fifo_taken_def ThreadPool_new_def FIFO_new_def)
  fix p q :: "('a sched, 'a) pool"
  assume inv: "fifo_taken p" and st: "pool_step FIFO_add FIFO_execute FIFO_stop p q"
  from st show "fifo_taken q"
    by cases (use inv in \<open>auto simp: fifo_taken_def FIFO_add_def FIFO_execute_def FIFO_stop_def ThreadPool_add_def
      ThreadPool_add_delayed_def ThreadPool_cancel_delayed_def ThreadPool_stop_def worker_step_def timer_step_def
      split: sum.splits prod.splits worker.splits sched_outcome.splits if_splits\<close>)
qed

section \<open>Properties\<close>

text \<open>C11: when the destructor of a pool with at least one thread has joined all threads, every accepted task has
  been executed exactly once, for the FIFO and for the LIFO scheduler, and every accepted timer event was
  either cancelled before a thread fetched it or executed exactly once, not before its trigger time
  (as long as fewer than \<open>2 ^ 64\<close> event ids were drawn).\<close>

theorem pool_runs_every_task:
  assumes "0 < threads" "ThreadPool_joined p"
    and "reaches (pool_step FIFO_add FIFO_execute FIFO_stop) (ThreadPool_new FIFO_new threads) p
      \<or> reaches (pool_step LIFO_add LIFO_execute LIFO_stop) (ThreadPool_new LIFO_new threads) p"
  shows "mset (tp_ran p) = mset (tp_added p)
    \<and> (tp_draws p < 2 ^ 64 \<longrightarrow> mset (tp_events p) = mset (tp_cancelled p) + mset (map fst (tp_fired p))
       \<and> distinct (map te_id (tp_events p)) \<and> (\<forall>(e, n) \<in> set (tp_fired p). te_trigger e \<le> n))"
proof -
  let ?inv = "pool_inv (\<lambda>s. mset (sc_tasks s)) sc_stop"
  have start: "pool_start s (ThreadPool_new s threads)" for s :: "'a sched" by (auto simp: pool_start_def)
  have inv: "?inv p" using assms(3) start fifo.pool_run.inv_reachable lifo.pool_run.inv_reachable by blast
  have "length (tp_workers p) = threads" "length (tp_timers p) = threads"
    using assms(3) fifo.reaches_lengths lifo.reaches_lengths by (fastforce simp: ThreadPool_new_def)+
  then have "tp_workers p \<noteq> []" "tp_timers p \<noteq> []" using assms(1) by auto
  note fifo.joined_result [OF inv assms(2) this]
  then show ?thesis using inv by (auto simp: pool_inv_def events_kept_def)
qed

theorem pool_runs_every_task_witness:
  "\<exists>p. reaches (pool_step FIFO_add FIFO_execute FIFO_stop) (ThreadPool_new FIFO_new 1) p \<and> ThreadPool_joined p
    \<and> tp_added p = [True] \<and> mset (tp_ran p) = {#True#}"
proof -
  obtain p :: "(bool sched, bool) pool" where p: "reaches (pool_step FIFO_add FIFO_execute FIFO_stop) (ThreadPool_new FIFO_new 1) p"
    "ThreadPool_joined p" "tp_added p = [True]" using fifo.one_task_run [of True] by blast
  then show ?thesis using pool_runs_every_task [of 1 p] by (intro exI [of _ p]) auto
qed

text \<open>The FIFO scheduler hands tasks to the workers in the order they were accepted: the tasks fetched so far are a
  prefix of the tasks added, and the rest is queued in order.\<close>

theorem fifo_pool_order:
  assumes "reaches (pool_step FIFO_add FIFO_execute FIFO_stop) (ThreadPool_new FIFO_new threads) p"
  shows "tp_added p = tp_taken p @ sc_tasks (tp_sched p)"
  using fifo_order.inv_reachable [OF _ assms] by (auto simp: pool_start_def fifo_taken_def)

theorem fifo_pool_order_witness:
  "\<exists>p. reaches (pool_step FIFO_add FIFO_execute FIFO_stop) (ThreadPool_new FIFO_new 1) p
    \<and> [True] = tp_taken p @ sc_tasks (tp_sched p)"
proof -
  obtain p :: "(bool sched, bool) pool" where p: "reaches (pool_step FIFO_add FIFO_execute FIFO_stop) (ThreadPool_new FIFO_new 1) p"
    "tp_added p = [True]" using fifo.one_task_run [of True] by blast
  then show ?thesis using fifo_pool_order [OF p(1)] by auto
qed



text \<open>The set of timer events is ordered by trigger time alone, so a delayed task whose trigger time equals that of a
  pending one is refused with \<open>double add\<close>, although it has a new id; its id is used up and nothing is queued.\<close>

theorem timer_rejects_same_time:
  assumes "reaches (pool_step FIFO_add FIFO_execute FIFO_stop) (ThreadPool_new FIFO_new threads) p"
    and "tp_draws p + 1 < 2 ^ 64" "\<not> tm_stop (tp_timer p)"
    and "e \<in> set (tm_tasks (tp_timer p))" "te_trigger e = tp_now p + delay"
  shows "\<exists>q. ThreadPool_add_delayed delay f p = (Inl Double_add, q)
    \<and> mset (tm_tasks (tp_timer q)) = mset (tm_tasks (tp_timer p)) \<and> tm_ID (tp_timer q) = tm_ID (tp_timer p) + 1"
proof -
  have "pool_inv (\<lambda>s. mset (sc_tasks s)) sc_stop p"
    using fifo.pool_run.inv_reachable [OF _ assms(1)] by (auto simp: pool_start_def)
  then have ev: "events_kept p" using assms(2) by (simp add: pool_inv_def)
  obtain r t where t: "Timer_add (tp_now p) delay f (tp_timer p) = (r, t)" by fastforce
  have ids: "te_id e < tm_ID (tp_timer p)" if "e \<in> set (tm_tasks (tp_timer p))" for e
    using that ev mset_eq_setD by (fastforce simp: events_kept_def dest!: arg_cong [of _ _ set_mset])
  have "r = Inl Double_add" "mset (tm_tasks t) = mset (tm_tasks (tp_timer p))" "tm_ID t = tm_ID (tp_timer p) + 1"
    using Timer_add_spec [OF _ _ ids t] ev assms(2-5) by (force simp: events_kept_def)+
  then show ?thesis using t by (simp add: ThreadPool_add_delayed_def)
qed

theorem timer_rejects_same_time_witness:
  "\<exists>q. ThreadPool_add_delayed 5 False
      (snd (ThreadPool_add_delayed 5 True (ThreadPool_new FIFO_new 1 :: (bool sched, bool) pool))) = (Inl Double_add, q)"
proof -
  let ?p0 = "ThreadPool_new FIFO_new 1 :: (bool sched, bool) pool"
  let ?e = "\<lparr>te_id = 0, te_callback = True, te_trigger = 5\<rparr>"
  let ?t = "\<lparr>tm_tasks = [?e], tm_index = [0 \<mapsto> 5], tm_ID = 1, tm_stop = False\<rparr>"
  let ?p1 = "?p0\<lparr>tp_timer := ?t, tp_events := [?e], tp_draws := 1\<rparr>"
  have p1: "ThreadPool_add_delayed 5 True ?p0 = (Inr 0, ?p1)"
    by (simp add: ThreadPool_add_delayed_def ThreadPool_new_def Timer_add_def Timer_new_def)
  then have "reaches (pool_step FIFO_add FIFO_execute FIFO_stop) ?p0 ?p1" by (blast intro: pool_delay)
  from timer_rejects_same_time [OF this, of ?e 5 False] show ?thesis
    unfolding p1 by (auto simp: ThreadPool_new_def)
qed

end
