(* ===== verification/Rpc_Deque.thy ===== *)
theory Rpc_Deque
  imports Prelude
begin

text \<open>
  \<open>Deque<T, CHUNK_SIZE>\<close> (include/deque.h): a map of pointers to chunks of \<open>CHUNK_SIZE\<close> elements and two
  iterators. Chunks live in an explicit store, because a moved-from deque keeps its iterators into the
  chunks of the new owner. A slot of a chunk is \<open>Some v\<close> while it holds an object and \<open>None\<close> otherwise. A pointer
  into a chunk is the chunk and an offset; a pointer into the map is an index. Map pointers are 8 bytes
  wide and \<open>size_t\<close> has 64 bits, so adding a \<open>size_t\<close> to a map pointer is addition of indices modulo \<open>2 ^ 61\<close>.
  Undefined behaviour is a visible outcome: \<open>Bad_node\<close> is a read of a map entry that does not exist or was
  never written, \<open>Bad_slot\<close> an access to a chunk or object that does not exist. Every operation takes
  the chunk size first.
\<close>

section \<open>Chunks\<close>

datatype dq_error = Bad_node | Bad_slot | Bad_free | Out_of_range

record 'a dheap =
  dh_chunks :: "nat \<Rightarrow> 'a option list option"
  dh_next :: nat

definition chunk_allocate :: "nat \<Rightarrow> 'a dheap \<Rightarrow> nat \<times> 'a dheap" where [deque_defs]:
  "chunk_allocate C h = (dh_next h, h\<lparr>dh_chunks := (dh_chunks h)(dh_next h := Some (replicate C None)), dh_next := dh_next h + 1\<rparr>)"

definition chunk_deallocate :: "nat \<Rightarrow> 'a dheap \<Rightarrow> dq_error + 'a dheap" where [deque_defs]:
  "chunk_deallocate c h = (case dh_chunks h c of None \<Rightarrow> Inl Bad_free | Some _ \<Rightarrow> Inr (h\<lparr>dh_chunks := (dh_chunks h)(c := None)\<rparr>))"

text \<open>\<open>construct_at\<close>, \<open>destroy_at\<close>, the assignment to an object and the read of an object.\<close>

definition construct_at :: "nat \<Rightarrow> nat \<Rightarrow> 'a \<Rightarrow> 'a dheap \<Rightarrow> dq_error + 'a dheap" where [deque_defs]:
  "construct_at c i v h = (case dh_chunks h c of None \<Rightarrow> Inl Bad_slot
     | Some ys \<Rightarrow> if i < length ys then Inr (h\<lparr>dh_chunks := (dh_chunks h)(c := Some (ys[i := Some v]))\<rparr>) else Inl Bad_slot)"

definition read_at :: "nat \<Rightarrow> nat \<Rightarrow> 'a dheap \<Rightarrow> dq_error + 'a" where [deque_defs]:
  "read_at c i h = (case dh_chunks h c of None \<Rightarrow> Inl Bad_slot
     | Some ys \<Rightarrow> if i < length ys then (case ys ! i of None \<Rightarrow> Inl Bad_slot | Some v \<Rightarrow> Inr v) else Inl Bad_slot)"

definition destroy_at :: "nat \<Rightarrow> nat \<Rightarrow> 'a dheap \<Rightarrow> dq_error + 'a dheap" where [deque_defs]:
  "destroy_at c i h = ebind (read_at c i h)
     (\<lambda>_. Inr (h\<lparr>dh_chunks := (dh_chunks h)(c := Some ((the (dh_chunks h c))[i := None]))\<rparr>))"

definition assign_at :: "nat \<Rightarrow> nat \<Rightarrow> 'a \<Rightarrow> 'a dheap \<Rightarrow> dq_error + 'a dheap" where [deque_defs]:
  "assign_at c i v h = ebind (read_at c i h) (\<lambda>_. construct_at c i v h)"

text \<open>\<open>uninitialized_copy\<close>, \<open>uninitialized_fill\<close> and \<open>destroy\<close> on a range of one chunk.\<close>

fun construct_range :: "nat \<Rightarrow> nat \<Rightarrow> 'a list \<Rightarrow> 'a dheap \<Rightarrow> dq_error + 'a dheap" where
  "construct_range c i [] h = Inr h"
| "construct_range c i (v # vs) h = ebind (construct_at c i v h) (construct_range c (i + 1) vs)"

fun read_range :: "nat \<Rightarrow> nat \<Rightarrow> nat \<Rightarrow> 'a dheap \<Rightarrow> dq_error + 'a list" where
  "read_range c i 0 h = Inr []"
| "read_range c i (Suc n) h = ebind (read_at c i h) (\<lambda>v. ebind (read_range c (i + 1) n h) (\<lambda>vs. Inr (v # vs)))"

fun destroy_range :: "nat \<Rightarrow> nat \<Rightarrow> nat \<Rightarrow> 'a dheap \<Rightarrow> dq_error + 'a dheap" where
  "destroy_range c i 0 h = Inr h"
| "destroy_range c i (Suc n) h = ebind (destroy_at c i h) (destroy_range c (i + 1) n)"

section \<open>Iterators\<close>

text \<open>\<open>first_\<close> is offset \<open>0\<close> of \<open>it_chunk\<close>, \<open>last_\<close> is offset \<open>CHUNK_SIZE\<close> and \<open>cur_\<close> is offset \<open>it_cur\<close>.\<close>

record dq_iter =
  it_chunk :: nat
  it_cur :: nat
  it_node :: nat

type_synonym dq_nodes = "nat option list option"

definition node_add :: "nat \<Rightarrow> nat \<Rightarrow> nat" where
  "node_add n k = (n + k) mod 2 ^ 61"

definition iter_set_node :: "dq_nodes \<Rightarrow> nat \<Rightarrow> dq_iter \<Rightarrow> dq_error + dq_iter" where [deque_defs]:
  "iter_set_node m n it = (case m of None \<Rightarrow> Inl Bad_node
     | Some ns \<Rightarrow> if n < length ns then (case ns ! n of None \<Rightarrow> Inl Bad_node
          | Some c \<Rightarrow> Inr (it\<lparr>it_node := n, it_chunk := c\<rparr>)) else Inl Bad_node)"

definition iter_inc :: "nat \<Rightarrow> dq_nodes \<Rightarrow> dq_iter \<Rightarrow> dq_error + dq_iter" where [deque_defs]:
  "iter_inc C m it =
     (let it1 = it\<lparr>it_cur := it_cur it + 1\<rparr>
      in if it_cur it1 = C then ebind (iter_set_node m (node_add (it_node it1) 1) it1) (\<lambda>it2. Inr (it2\<lparr>it_cur := 0\<rparr>))
         else Inr it1)"

definition iter_dec :: "nat \<Rightarrow> dq_nodes \<Rightarrow> dq_iter \<Rightarrow> dq_error + dq_iter" where [deque_defs]:
  "iter_dec C m it =
     ebind (if it_cur it = 0
            then ebind (iter_set_node m (node_add (it_node it) (2 ^ 61 - 1)) it) (\<lambda>it1. Inr (it1\<lparr>it_cur := C\<rparr>))
            else Inr it)
       (\<lambda>it2. Inr (it2\<lparr>it_cur := it_cur it2 - 1\<rparr>))"

text \<open>
  \<open>operator+=\<close>. \<open>offset\<close> is unsigned: the test \<open>offset >= 0\<close> always holds, and an offset that is not below
  \<open>CHUNK_SIZE\<close> is positive, so the alternative for a negative offset is never taken.
\<close>

definition iter_add :: "nat \<Rightarrow> dq_nodes \<Rightarrow> nat \<Rightarrow> dq_iter \<Rightarrow> dq_error + dq_iter" where [deque_defs]:
  "iter_add C m n it =
     (let offset = (n + it_cur it) mod 2 ^ 64
      in if offset < C then Inr (it\<lparr>it_cur := offset\<rparr>)
         else let node_offset = offset div C
              in ebind (iter_set_node m (node_add (it_node it) node_offset) it)
                   (\<lambda>it1. Inr (it1\<lparr>it_cur := offset - node_offset * C\<rparr>)))"

definition iter_sub :: "nat \<Rightarrow> dq_nodes \<Rightarrow> nat \<Rightarrow> dq_iter \<Rightarrow> dq_error + dq_iter" where [deque_defs]:
  "iter_sub C m n it = iter_add C m ((2 ^ 64 - n) mod 2 ^ 64) it"

definition iter_eq :: "dq_iter \<Rightarrow> dq_iter \<Rightarrow> bool" where
  "iter_eq a b \<longleftrightarrow> it_chunk a = it_chunk b \<and> it_cur a = it_cur b"

definition deref :: "'a dheap \<Rightarrow> dq_iter \<Rightarrow> dq_error + 'a" where [deque_defs]:
  "deref h it = read_at (it_chunk it) (it_cur it) h"

section \<open>The deque\<close>

text \<open>\<open>map_size_\<close> is the length of the map; \<open>None\<close> is a null \<open>map_\<close>.\<close>

record deque =
  dq_map :: dq_nodes
  dq_start :: dq_iter
  dq_finish :: dq_iter

fun alloc_chunks :: "nat \<Rightarrow> nat \<Rightarrow> 'a dheap \<Rightarrow> nat list \<times> 'a dheap" where
  "alloc_chunks C 0 h = ([], h)"
| "alloc_chunks C (Suc k) h = (let (c, h1) = chunk_allocate C h; (cs, h2) = alloc_chunks C k h1 in (c # cs, h2))"

text \<open>The loop of the constructor over the chunks before the last.\<close>

fun fill_chunks :: "nat \<Rightarrow> 'a \<Rightarrow> nat list \<Rightarrow> 'a dheap \<Rightarrow> dq_error + 'a dheap" where
  "fill_chunks C v [] h = Inr h"
| "fill_chunks C v (c # cs) h = ebind (construct_range c 0 (replicate C v) h) (fill_chunks C v cs)"

definition Deque_new :: "nat \<Rightarrow> nat \<Rightarrow> 'a \<Rightarrow> 'a dheap \<Rightarrow> dq_error + ('a dheap \<times> deque)" where [deque_defs]:
  "Deque_new C n val h =
     (let num_chunks = n div C + 1;
          map_size = num_chunks + 2;
          map_start = (map_size - num_chunks) div 2;
          map_finish = map_start + num_chunks - 1;
          (cs, h1) = alloc_chunks C num_chunks h;
          start = \<lparr>it_chunk = hd cs, it_cur = 0, it_node = map_start\<rparr>;
          finish = \<lparr>it_chunk = last cs, it_cur = n mod C, it_node = map_finish\<rparr>
      in ebind (fill_chunks C val (butlast cs) h1)
           (\<lambda>h2. ebind (construct_range (last cs) 0 (replicate (n mod C) val) h2)
             (\<lambda>h3. Inr (h3, \<lparr>dq_map = Some (replicate map_start None @ map Some cs
                 @ replicate (map_size - map_start - num_chunks) None), dq_start = start, dq_finish = finish\<rparr>))))"

definition reallocate_map :: "nat \<Rightarrow> deque \<Rightarrow> dq_error + deque" where [deque_defs]:
  "reallocate_map new_size d =
     (case dq_map d of None \<Rightarrow> Inl Bad_node
      | Some ns \<Rightarrow>
          let n = it_node (dq_finish d) - it_node (dq_start d);
              new_start = (new_size - n) div 2;
              new_finish = new_start + n;
              nodes = take (n + 1) (drop (it_node (dq_start d)) ns);
              new_map = Some (replicate new_start None @ nodes @ replicate (new_size - new_start - length nodes) None)
          in ebind (iter_set_node new_map new_start (dq_start d))
               (\<lambda>s. ebind (iter_set_node new_map new_finish (dq_finish d))
                 (\<lambda>f. Inr \<lparr>dq_map = new_map, dq_start = s, dq_finish = f\<rparr>)))"

text \<open>The store of a chunk pointer through a map pointer.\<close>

definition set_entry :: "nat \<Rightarrow> nat \<Rightarrow> deque \<Rightarrow> dq_error + deque" where [deque_defs]:
  "set_entry n c d = (case dq_map d of None \<Rightarrow> Inl Bad_node
     | Some ns \<Rightarrow> if n < length ns then Inr (d\<lparr>dq_map := Some (ns[n := Some c])\<rparr>) else Inl Bad_node)"

definition map_size :: "deque \<Rightarrow> nat" where
  "map_size d = (case dq_map d of None \<Rightarrow> 0 | Some ns \<Rightarrow> length ns)"

definition add_front_capacity :: "nat \<Rightarrow> 'a dheap \<Rightarrow> deque \<Rightarrow> dq_error + ('a dheap \<times> deque)" where [deque_defs]:
  "add_front_capacity C h d =
     ebind (if it_node (dq_start d) = 0 then reallocate_map (map_size d * 2) d else Inr d)
       (\<lambda>d1. let (c, h1) = chunk_allocate C h
             in ebind (set_entry (node_add (it_node (dq_start d1)) (2 ^ 61 - 1)) c d1) (\<lambda>d2. Inr (h1, d2)))"

definition add_back_capacity :: "nat \<Rightarrow> 'a dheap \<Rightarrow> deque \<Rightarrow> dq_error + ('a dheap \<times> deque)" where [deque_defs]:
  "add_back_capacity C h d =
     ebind (if it_node (dq_finish d) + 1 = map_size d then reallocate_map (map_size d * 2) d else Inr d)
       (\<lambda>d1. let (c, h1) = chunk_allocate C h
             in ebind (set_entry (node_add (it_node (dq_finish d1)) 1) c d1) (\<lambda>d2. Inr (h1, d2)))"

definition Deque_push_back :: "nat \<Rightarrow> 'a \<Rightarrow> 'a dheap \<Rightarrow> deque \<Rightarrow> dq_error + ('a dheap \<times> deque)" where [deque_defs]:
  "Deque_push_back C v h d =
     ebind (construct_at (it_chunk (dq_finish d)) (it_cur (dq_finish d)) v h)
       (\<lambda>h1. ebind (if it_cur (dq_finish d) + 1 = C then add_back_capacity C h1 d else Inr (h1, d))
         (\<lambda>(h2, d2). ebind (iter_inc C (dq_map d2) (dq_finish d2)) (\<lambda>f. Inr (h2, d2\<lparr>dq_finish := f\<rparr>))))"

definition Deque_push_front :: "nat \<Rightarrow> 'a \<Rightarrow> 'a dheap \<Rightarrow> deque \<Rightarrow> dq_error + ('a dheap \<times> deque)" where [deque_defs]:
  "Deque_push_front C v h d =
     ebind (if it_cur (dq_start d) = 0 then add_front_capacity C h d else Inr (h, d))
       (\<lambda>(h1, d1). ebind (iter_dec C (dq_map d1) (dq_start d1))
         (\<lambda>s. ebind (construct_at (it_chunk s) (it_cur s) v h1) (\<lambda>h2. Inr (h2, d1\<lparr>dq_start := s\<rparr>))))"

definition Deque_pop_back :: "nat \<Rightarrow> 'a dheap \<Rightarrow> deque \<Rightarrow> dq_error + ('a dheap \<times> deque)" where [deque_defs]:
  "Deque_pop_back C h d =
     ebind (if it_cur (dq_finish d) = 0 then chunk_deallocate (it_chunk (dq_finish d)) h else Inr h)
       (\<lambda>h1. ebind (iter_dec C (dq_map d) (dq_finish d))
         (\<lambda>f. ebind (destroy_at (it_chunk f) (it_cur f) h1) (\<lambda>h2. Inr (h2, d\<lparr>dq_finish := f\<rparr>))))"

definition Deque_pop_front :: "nat \<Rightarrow> 'a dheap \<Rightarrow> deque \<Rightarrow> dq_error + ('a dheap \<times> deque)" where [deque_defs]:
  "Deque_pop_front C h d =
     ebind (destroy_at (it_chunk (dq_start d)) (it_cur (dq_start d)) h)
       (\<lambda>h1. ebind (if it_cur (dq_start d) + 1 = C then chunk_deallocate (it_chunk (dq_start d)) h1 else Inr h1)
         (\<lambda>h2. ebind (iter_inc C (dq_map d) (dq_start d)) (\<lambda>s. Inr (h2, d\<lparr>dq_start := s\<rparr>))))"

definition Deque_size :: "nat \<Rightarrow> deque \<Rightarrow> nat" where [deque_defs]:
  "Deque_size C d =
     (if dq_map d = None then 0
      else nat ((int C * (int (it_node (dq_finish d)) - int (it_node (dq_start d)))
             + int (it_cur (dq_finish d)) - int (it_cur (dq_start d))) mod 2 ^ 64))"

definition Deque_empty :: "nat \<Rightarrow> deque \<Rightarrow> bool" where
  "Deque_empty C d \<longleftrightarrow> Deque_size C d = 0"

definition Deque_front :: "'a dheap \<Rightarrow> deque \<Rightarrow> dq_error + 'a" where
  "Deque_front h d = deref h (dq_start d)"

definition Deque_back :: "nat \<Rightarrow> 'a dheap \<Rightarrow> deque \<Rightarrow> dq_error + 'a" where
  "Deque_back C h d = ebind (iter_sub C (dq_map d) 1 (dq_finish d)) (deref h)"

text \<open>\<open>operator[]\<close> returns a reference, here the iterator it is taken from.\<close>

definition Deque_index :: "nat \<Rightarrow> nat \<Rightarrow> deque \<Rightarrow> dq_error + dq_iter" where [deque_defs]:
  "Deque_index C n d = (if Deque_size C d \<le> n then Inl Out_of_range else iter_add C (dq_map d) n (dq_start d))"

text \<open>
  \<open>std::move(first, last, d)\<close> and \<open>std::move_backward(first, last, d)\<close>: element by element with the operators
  of the iterators; \<open>fuel\<close> bounds the number of elements and \<open>None\<close> is a loop that did not end within it.
\<close>

fun std_move :: "nat \<Rightarrow> nat \<Rightarrow> dq_nodes \<Rightarrow> dq_iter \<Rightarrow> dq_iter \<Rightarrow> dq_iter \<Rightarrow> 'a dheap \<Rightarrow> (dq_error + 'a dheap) option" where
  "std_move fuel C m frm stop d h =
     (if iter_eq frm stop then Some (Inr h)
      else case fuel of 0 \<Rightarrow> None
        | Suc n \<Rightarrow>
            (case ebind (deref h frm) (\<lambda>v. ebind (assign_at (it_chunk d) (it_cur d) v h)
               (\<lambda>h1. ebind (iter_inc C m frm) (\<lambda>frm1. ebind (iter_inc C m d) (\<lambda>d1. Inr (h1, frm1, d1))))) of
               Inl e \<Rightarrow> Some (Inl e)
             | Inr (h1, frm1, d1) \<Rightarrow> std_move n C m frm1 stop d1 h1))"

fun std_move_backward :: "nat \<Rightarrow> nat \<Rightarrow> dq_nodes \<Rightarrow> dq_iter \<Rightarrow> dq_iter \<Rightarrow> dq_iter \<Rightarrow> 'a dheap \<Rightarrow> (dq_error + 'a dheap) option" where
  "std_move_backward fuel C m frm stop d h =
     (if iter_eq frm stop then Some (Inr h)
      else case fuel of 0 \<Rightarrow> None
        | Suc n \<Rightarrow>
            (case ebind (iter_dec C m stop) (\<lambda>stop1. ebind (iter_dec C m d)
               (\<lambda>d1. ebind (deref h stop1) (\<lambda>v. ebind (assign_at (it_chunk d1) (it_cur d1) v h)
                 (\<lambda>h1. Inr (h1, stop1, d1))))) of
               Inl e \<Rightarrow> Some (Inl e)
             | Inr (h1, stop1, d1) \<Rightarrow> std_move_backward n C m frm stop1 d1 h1))"

declare std_move.simps [simp del] std_move_backward.simps [simp del]

text \<open>\<open>erase(int pos)\<close>; the comparison with \<open>size()\<close> converts a non-negative \<open>pos\<close> to \<open>size_t\<close>.\<close>

definition Deque_erase :: "nat \<Rightarrow> int \<Rightarrow> 'a dheap \<Rightarrow> deque \<Rightarrow> (dq_error + ('a dheap \<times> deque)) option" where
  "Deque_erase C pos h d =
     (if pos < 0 \<or> Deque_size C d \<le> nat pos then Some (Inl Out_of_range)
      else let n = Deque_size C d
        in case iter_add C (dq_map d) (nat pos) (dq_start d) of Inl e \<Rightarrow> Some (Inl e)
         | Inr it \<Rightarrow>
            (case iter_add C (dq_map d) 1 it of Inl e \<Rightarrow> Some (Inl e)
             | Inr it1 \<Rightarrow>
                if nat pos < n div 2
                then map_option (\<lambda>r. ebind r (\<lambda>h1. Deque_pop_front C h1 d))
                       (std_move_backward n C (dq_map d) (dq_start d) it it1 h)
                else map_option (\<lambda>r. ebind r (\<lambda>h1. Deque_pop_back C h1 d))
                       (std_move n C (dq_map d) it1 (dq_finish d) it h)))"

text \<open>The copy of the elements, chunk by chunk, shared by the copy constructor and the copy assignment.\<close>

fun copy_middle :: "nat \<Rightarrow> (nat \<times> nat) list \<Rightarrow> 'a dheap \<Rightarrow> dq_error + 'a dheap" where
  "copy_middle C [] h = Inr h"
| "copy_middle C ((src, dst) # ps) h =
     ebind (read_range src 0 C h) (\<lambda>vs. ebind (construct_range dst 0 vs h) (copy_middle C ps))"

definition copy_elements :: "nat \<Rightarrow> nat list \<Rightarrow> nat list \<Rightarrow> deque \<Rightarrow> 'a dheap \<Rightarrow> dq_error + 'a dheap" where [deque_defs]:
  "copy_elements C srcs dsts other h =
     (let sc = it_cur (dq_start other); fc = it_cur (dq_finish other)
      in ebind (copy_middle C (butlast (tl (zip srcs dsts))) h)
           (\<lambda>h1. if length dsts = 1
                 then ebind (read_range (hd srcs) sc (fc - sc) h1) (\<lambda>vs. construct_range (hd dsts) sc vs h1)
                 else ebind (read_range (hd srcs) sc (C - sc) h1)
                   (\<lambda>vs. ebind (construct_range (hd dsts) sc vs h1)
                     (\<lambda>h2. ebind (read_range (last srcs) 0 fc h2) (\<lambda>us. construct_range (last dsts) 0 us h2)))))"

text \<open>The chunks the map entries from \<open>start_\<close> to \<open>finish_\<close> point to.\<close>

definition used_nodes :: "deque \<Rightarrow> dq_error + nat list" where [deque_defs]:
  "used_nodes d = (case dq_map d of None \<Rightarrow> Inl Bad_node
     | Some ns \<Rightarrow> (case those (take (it_node (dq_finish d) + 1 - it_node (dq_start d)) (drop (it_node (dq_start d)) ns)) of
         None \<Rightarrow> Inl Bad_node | Some cs \<Rightarrow> Inr cs))"

definition Deque_copy :: "nat \<Rightarrow> deque \<Rightarrow> 'a dheap \<Rightarrow> dq_error + ('a dheap \<times> deque)" where [deque_defs]:
  "Deque_copy C other h =
     ebind (used_nodes other)
       (\<lambda>srcs. let (dsts, h1) = alloc_chunks C (length srcs) h;
                  sn = it_node (dq_start other);
                  ns = Some (replicate sn None @ map Some dsts @ replicate (map_size other - sn - length dsts) None);
                  start = \<lparr>it_chunk = hd dsts, it_cur = it_cur (dq_start other), it_node = sn\<rparr>;
                  finish = \<lparr>it_chunk = last dsts, it_cur = it_cur (dq_finish other), it_node = it_node (dq_finish other)\<rparr>
              in ebind (copy_elements C srcs dsts other h1)
                   (\<lambda>h2. Inr (h2, \<lparr>dq_map = ns, dq_start = start, dq_finish = finish\<rparr>)))"

definition Deque_move :: "deque \<Rightarrow> deque \<times> deque" where
  "Deque_move other = (other, other\<lparr>dq_map := None\<rparr>)"

fun delete_middle :: "nat \<Rightarrow> nat list \<Rightarrow> 'a dheap \<Rightarrow> dq_error + 'a dheap" where
  "delete_middle C [] h = Inr h"
| "delete_middle C (c # cs) h =
     ebind (destroy_range c 0 C h) (\<lambda>h1. ebind (chunk_deallocate c h1) (delete_middle C cs))"

definition Deque_delete :: "nat \<Rightarrow> deque \<Rightarrow> 'a dheap \<Rightarrow> dq_error + ('a dheap \<times> deque)" where [deque_defs]:
  "Deque_delete C d h =
     (if dq_map d = None then Inr (h, d)
      else let s = dq_start d; f = dq_finish d; gone = d\<lparr>dq_map := None\<rparr>
        in if it_node s = it_node f
           then ebind (destroy_range (it_chunk s) (it_cur s) (it_cur f - it_cur s) h)
                  (\<lambda>h1. ebind (chunk_deallocate (it_chunk s) h1) (\<lambda>h2. Inr (h2, gone)))
           else ebind (used_nodes d)
             (\<lambda>cs. ebind (delete_middle C (butlast (tl cs)) h)
               (\<lambda>h1. ebind (destroy_range (it_chunk s) (it_cur s) (C - it_cur s) h1)
                 (\<lambda>h2. ebind (chunk_deallocate (it_chunk s) h2)
                   (\<lambda>h3. ebind (destroy_range (it_chunk f) 0 (it_cur f) h3)
                     (\<lambda>h4. ebind (chunk_deallocate (it_chunk f) h4) (\<lambda>h5. Inr (h5, gone))))))))"

text \<open>The two assignments, for two different deques.\<close>

definition Deque_copy_assign :: "nat \<Rightarrow> deque \<Rightarrow> deque \<Rightarrow> 'a dheap \<Rightarrow> dq_error + ('a dheap \<times> deque)" where [deque_defs]:
  "Deque_copy_assign C this other h =
     ebind (Deque_delete C this h)
       (\<lambda>(h1, d). if dq_map other = None then Inr (h1, d) else Deque_copy C other h1)"

definition Deque_move_assign :: "nat \<Rightarrow> deque \<Rightarrow> deque \<Rightarrow> 'a dheap \<Rightarrow> dq_error + ('a dheap \<times> deque \<times> deque)" where [deque_defs]:
  "Deque_move_assign C this other h =
     ebind (Deque_delete C this h) (\<lambda>(h1, d). Inr (h1, other, other\<lparr>dq_map := None\<rparr>))"

section \<open>The sequence a deque holds\<close>

text \<open>The slots of a list of chunks, one after the other.\<close>

definition cells :: "'a dheap \<Rightarrow> nat list \<Rightarrow> 'a option list" where
  "cells h cs = concat (map (\<lambda>c. the (dh_chunks h c)) cs)"

text \<open>The chunks of the deque exist, have the chunk size and are distinct; chunk numbers not yet handed out are unused.\<close>

definition chunks_ok :: "nat \<Rightarrow> 'a dheap \<Rightarrow> nat list \<Rightarrow> bool" where
  "chunks_ok C h cs \<longleftrightarrow> distinct cs \<and> (\<forall>c \<in> set cs. \<exists>ys. dh_chunks h c = Some ys \<and> length ys = C)
     \<and> (\<forall>c. dh_next h \<le> c \<longrightarrow> dh_chunks h c = None)"

text \<open>
  The map has free entries \<open>pre\<close> before and \<open>post\<close> after the used ones. \<open>A\<close> bounds the number of chunks ever
  added; it bounds the size of the map, which only grows.
\<close>

definition map_room :: "nat \<Rightarrow> nat \<Rightarrow> nat \<Rightarrow> nat \<Rightarrow> bool" where
  "map_room A p k q \<longleftrightarrow> 2 \<le> p + k + q \<and> p + k + q \<le> 4 * A + 4 * min p q \<and> p + k + q \<le> 8 * A + 3"

definition deque_shape :: "nat \<Rightarrow> nat \<Rightarrow> deque \<Rightarrow> nat list \<Rightarrow> bool" where
  "deque_shape C A d cs \<longleftrightarrow> (\<exists>pre post. dq_map d = Some (pre @ map Some cs @ post) \<and> cs \<noteq> []
     \<and> map_room A (length pre) (length cs) (length post)
     \<and> it_node (dq_start d) = length pre \<and> it_chunk (dq_start d) = hd cs \<and> it_cur (dq_start d) < C
     \<and> it_node (dq_finish d) + 1 = length pre + length cs \<and> it_chunk (dq_finish d) = last cs \<and> it_cur (dq_finish d) < C)"

definition deque_repr :: "nat \<Rightarrow> nat \<Rightarrow> 'a dheap \<Rightarrow> deque \<Rightarrow> 'a list \<Rightarrow> bool" where
  "deque_repr C A h d xs \<longleftrightarrow> (\<exists>cs. deque_shape C A d cs \<and> chunks_ok C h cs
     \<and> cells h cs = replicate (it_cur (dq_start d)) None @ map Some xs @ replicate (C - it_cur (dq_finish d)) None)"

section \<open>Slots\<close>

definition poke :: "nat \<Rightarrow> nat \<Rightarrow> 'a option \<Rightarrow> 'a dheap \<Rightarrow> 'a dheap" where
  "poke c i w h = h\<lparr>dh_chunks := (dh_chunks h)(c := Some ((the (dh_chunks h c))[i := w]))\<rparr>"

lemma chunk_of:
  assumes "chunks_ok C h cs" "j < length cs"
  obtains ys where "dh_chunks h (cs ! j) = Some ys" "length ys = C"
  using assms nth_mem [OF assms(2)] unfolding chunks_ok_def by blast

lemma length_cells: "chunks_ok C h cs \<Longrightarrow> length (cells h cs) = length cs * C"
  by (induction cs) (auto simp: cells_def chunks_ok_def)

lemma chunks_ok_append: "chunks_ok C h (as @ bs) \<longleftrightarrow> chunks_ok C h as \<and> chunks_ok C h bs \<and> set as \<inter> set bs = {}"
  by (auto simp: chunks_ok_def)

lemma cells_append [simp]: "cells h (as @ bs) = cells h as @ cells h bs"
  by (simp add: cells_def)

lemma cells_Nil [simp]: "cells h [] = []"
  by (simp add: cells_def)

lemma cells_Cons: "cells h (c # cs) = the (dh_chunks h c) @ cells h cs"
  by (simp add: cells_def)

lemma cells_cong: "(\<And>c. c \<in> set cs \<Longrightarrow> dh_chunks h c = dh_chunks k c) \<Longrightarrow> cells h cs = cells k cs"
  by (auto simp: cells_def intro: arg_cong [of _ _ concat])

lemma split_at:
  assumes "j < length cs"
  obtains as bs where "cs = as @ cs ! j # bs" "length as = j"
  using assms id_take_nth_drop [OF assms] that [of "take j cs" "drop (Suc j) cs"] by auto

lemma cells_nth:
  assumes "chunks_ok C h cs" "j < length cs" "i < C"
  shows "cells h cs ! (j * C + i) = the (dh_chunks h (cs ! j)) ! i"
proof -
  obtain as bs where s: "cs = as @ cs ! j # bs" "length as = j" using split_at [OF assms(2)] .
  obtain ys where ys: "dh_chunks h (cs ! j) = Some ys" "length ys = C" using chunk_of [OF assms(1,2)] .
  have "chunks_ok C h (as @ cs ! j # bs)" using assms(1) s(1) by simp
  then have "length (cells h as) = j * C" using s(2) length_cells [of C h as] by (simp add: chunks_ok_append)
  then have "cells h (as @ cs ! j # bs) ! (j * C + i) = ys ! i"
    using ys assms(3) by (simp add: cells_Cons nth_append)
  then show ?thesis using s(1) ys by simp
qed

lemma poke_ok:
  assumes "chunks_ok C h cs" "j < length cs" "i < C"
  shows "chunks_ok C (poke (cs ! j) i w h) cs" "cells (poke (cs ! j) i w h) cs = (cells h cs)[j * C + i := w]"
proof -
  obtain as bs where s: "cs = as @ cs ! j # bs" "length as = j" using split_at [OF assms(2)] .
  obtain ys where ys: "dh_chunks h (cs ! j) = Some ys" "length ys = C" using chunk_of [OF assms(1,2)] .
  show "chunks_ok C (poke (cs ! j) i w h) cs" using assms(1) ys by (auto simp: chunks_ok_def poke_def)
  let ?k = "poke (cs ! j) i w h"
  have ok: "chunks_ok C h (as @ cs ! j # bs)" using assms(1) s(1) by simp
  have "cs ! j \<notin> set as" "cs ! j \<notin> set bs" using ok by (auto simp: chunks_ok_def)
  then have "cells ?k as = cells h as" "cells ?k bs = cells h bs" by (auto simp: poke_def intro!: cells_cong)
  moreover have "length (cells h as) = j * C" using ok s(2) length_cells [of C h as] by (simp add: chunks_ok_append)
  ultimately have "cells ?k (as @ cs ! j # bs) = (cells h (as @ cs ! j # bs))[j * C + i := w]"
    using ys assms(3) by (simp add: cells_Cons poke_def list_update_append)
  then show "cells ?k cs = (cells h cs)[j * C + i := w]" using s(1) by simp
qed

lemma construct_at_ok:
  assumes "chunks_ok C h cs" "j < length cs" "i < C"
  shows "construct_at (cs ! j) i v h = Inr (poke (cs ! j) i (Some v) h)"
proof -
  obtain ys where "dh_chunks h (cs ! j) = Some ys" "length ys = C" using chunk_of [OF assms(1,2)] .
  then show ?thesis using assms(3) by (simp add: construct_at_def poke_def)
qed

lemma read_at_ok:
  assumes "chunks_ok C h cs" "j < length cs" "i < C"
  shows "read_at (cs ! j) i h = (case cells h cs ! (j * C + i) of None \<Rightarrow> Inl Bad_slot | Some v \<Rightarrow> Inr v)"
proof -
  obtain ys where "dh_chunks h (cs ! j) = Some ys" "length ys = C" using chunk_of [OF assms(1,2)] .
  then show ?thesis using assms(3) cells_nth [OF assms] by (simp add: read_at_def)
qed

lemma destroy_at_ok:
  assumes "chunks_ok C h cs" "j < length cs" "i < C" "cells h cs ! (j * C + i) = Some v"
  shows "destroy_at (cs ! j) i h = Inr (poke (cs ! j) i None h)"
  using read_at_ok [OF assms(1-3)] assms(4) by (simp add: destroy_at_def poke_def)

lemma assign_at_ok:
  assumes "chunks_ok C h cs" "j < length cs" "i < C" "cells h cs ! (j * C + i) = Some u"
  shows "assign_at (cs ! j) i v h = Inr (poke (cs ! j) i (Some v) h)"
  using read_at_ok [OF assms(1-3)] construct_at_ok [OF assms(1-3)] assms(4) by (simp add: assign_at_def)

lemma allocate_ok:
  assumes "chunks_ok C h cs" "chunk_allocate C h = (c, k)"
  shows "chunks_ok C k (cs @ [c])" "chunks_ok C k (c # cs)" "cells k cs = cells h cs" "cells k [c] = replicate C None"
proof -
  have c: "c = dh_next h" "k = h\<lparr>dh_chunks := (dh_chunks h)(c := Some (replicate C None)), dh_next := c + 1\<rparr>"
    using assms(2) by (auto simp: chunk_allocate_def)
  have "c \<notin> set cs" using assms(1) c(1) by (force simp: chunks_ok_def)
  then show "chunks_ok C k (cs @ [c])" "chunks_ok C k (c # cs)" "cells k cs = cells h cs" "cells k [c] = replicate C None"
    using assms(1) c by (auto simp: chunks_ok_def cells_Cons intro!: cells_cong)
qed

lemma deallocate_ok:
  assumes "chunks_ok C h (as @ [c] @ bs)"
  shows "\<exists>k. chunk_deallocate c h = Inr k \<and> chunks_ok C k (as @ bs) \<and> cells k (as @ bs) = cells h (as @ bs)"
proof -
  let ?k = "h\<lparr>dh_chunks := (dh_chunks h)(c := None)\<rparr>"
  have c: "c \<notin> set (as @ bs)" "dh_chunks h c \<noteq> None" using assms by (auto simp: chunks_ok_def)
  then have "chunk_deallocate c h = Inr ?k" by (auto simp: chunk_deallocate_def)
  moreover have "chunks_ok C ?k (as @ bs)" using assms c(1) by (auto simp: chunks_ok_def)
  moreover have "cells ?k (as @ bs) = cells h (as @ bs)" using c(1) by (intro cells_cong) auto
  ultimately show ?thesis by blast
qed

section \<open>The map\<close>

lemma node_add_small:
  "n + k < 2 ^ 61 \<Longrightarrow> node_add n k = n + k" "0 < n \<Longrightarrow> n < 2 ^ 61 \<Longrightarrow> node_add n (2 ^ 61 - 1) = n - 1"
proof -
  show "n + k < 2 ^ 61 \<Longrightarrow> node_add n k = n + k" by (simp add: node_add_def)
  assume "0 < n" "n < 2 ^ 61"
  then have "n + (2 ^ 61 - 1) = 2 ^ 61 + (n - 1)" by simp
  moreover have "(2 ^ 61 + (n - 1)) mod 2 ^ 61 = n - 1" using \<open>n < 2 ^ 61\<close>
    by (metis mod_add_self1 mod_less less_imp_diff_less)
  ultimately show "node_add n (2 ^ 61 - 1) = n - 1" unfolding node_add_def by presburger
qed

lemma map_room_bound: "map_room A p k q \<Longrightarrow> A < 2 ^ 50 \<Longrightarrow> p + k + q < 2 ^ 61"
  by (simp add: map_room_def)

lemma map_room_steps:
  "map_room A p k q \<Longrightarrow> map_room (A + 1) p k q"
  "map_room A p k q \<Longrightarrow> 0 < q \<Longrightarrow> map_room (A + 1) p (k + 1) (q - 1)"
  "map_room A p k q \<Longrightarrow> 0 < p \<Longrightarrow> map_room (A + 1) (p - 1) (k + 1) q"
  "map_room A p (k + 1) q \<Longrightarrow> map_room A (p + 1) k q"
  "map_room A p (k + 1) q \<Longrightarrow> map_room A p k (q + 1)"
  by (auto simp: map_room_def min_def split: if_splits)

lemma map_room_double:
  assumes "map_room A p k q" "p = 0 \<or> q = 0" "0 < k"
  defines "m \<equiv> p + k + q"
  defines "a \<equiv> (m * 2 - (k - 1)) div 2"
  shows "map_room A a k (m * 2 - a - k)" "0 < a" "a + k < m * 2"
proof -
  have m: "2 \<le> m" "m \<le> 4 * A" "k \<le> m" using assms(1,2) by (auto simp: map_room_def m_def)
  have a: "m + 1 \<le> 2 * a + 1" "2 * a \<le> 2 * m - (k - 1)" unfolding a_def using m by linarith+
  then show "0 < a" "a + k < m * 2" using m assms(3) by linarith+
  then have "m \<le> 4 * a" "m \<le> 4 * (m * 2 - a - k)" using a m assms(3) by linarith+
  then show "map_room A a k (m * 2 - a - k)" using m \<open>a + k < m * 2\<close> by (auto simp: map_room_def)
qed

lemma iter_set_node_ok:
  assumes "j < length cs"
  shows "iter_set_node (Some (pre @ map Some cs @ post)) (length pre + j) it = Inr (it\<lparr>it_node := length pre + j, it_chunk := cs ! j\<rparr>)"
  using assms by (simp add: iter_set_node_def nth_append)

lemma shapeE:
  assumes "deque_shape C A d cs"
  obtains pre post where "dq_map d = Some (pre @ map Some cs @ post)" "cs \<noteq> []"
    "map_room A (length pre) (length cs) (length post)"
    "it_node (dq_start d) = length pre" "it_chunk (dq_start d) = hd cs" "it_cur (dq_start d) < C"
    "it_node (dq_finish d) = length pre + (length cs - 1)" "it_chunk (dq_finish d) = last cs" "it_cur (dq_finish d) < C"
proof -
  obtain pre post where s: "dq_map d = Some (pre @ map Some cs @ post)" "cs \<noteq> []"
    "map_room A (length pre) (length cs) (length post)"
    "it_node (dq_start d) = length pre" "it_chunk (dq_start d) = hd cs" "it_cur (dq_start d) < C"
    "it_node (dq_finish d) + 1 = length pre + length cs" "it_chunk (dq_finish d) = last cs" "it_cur (dq_finish d) < C"
    using assms unfolding deque_shape_def by blast
  have "it_node (dq_finish d) = length pre + (length cs - 1)" using s(2,7) by (cases cs) auto
  then show thesis using that s by blast
qed

lemma shapeI:
  assumes "dq_map d = Some (pre @ map Some cs @ post)" "cs \<noteq> []" "map_room A (length pre) (length cs) (length post)"
    "it_node (dq_start d) = length pre" "it_chunk (dq_start d) = hd cs" "it_cur (dq_start d) < C"
    "it_node (dq_finish d) = length pre + (length cs - 1)" "it_chunk (dq_finish d) = last cs" "it_cur (dq_finish d) < C"
  shows "deque_shape C A d cs"
  using assms unfolding deque_shape_def by (intro exI [of _ pre] exI [of _ post]) (cases cs, auto)

text \<open>A full map is doubled; the used entries move to its middle.\<close>

lemma reallocate_ok:
  assumes s: "deque_shape C A d cs" and full: "it_node (dq_start d) = 0 \<or> it_node (dq_finish d) + 1 = map_size d"
  shows "\<exists>e. reallocate_map (map_size d * 2) d = Inr e \<and> deque_shape C A e cs
    \<and> it_cur (dq_start e) = it_cur (dq_start d) \<and> it_cur (dq_finish e) = it_cur (dq_finish d)
    \<and> 0 < it_node (dq_start e) \<and> it_node (dq_finish e) + 1 < map_size e"
proof -
  obtain pre post where d: "dq_map d = Some (pre @ map Some cs @ post)" "cs \<noteq> []"
    "map_room A (length pre) (length cs) (length post)"
    "it_node (dq_start d) = length pre" "it_chunk (dq_start d) = hd cs" "it_cur (dq_start d) < C"
    "it_node (dq_finish d) = length pre + (length cs - 1)" "it_chunk (dq_finish d) = last cs" "it_cur (dq_finish d) < C"
    using shapeE [OF s] .
  obtain n where n: "length cs = Suc n" using d(2) by (cases cs) auto
  define m where "m = length pre + length cs + length post"
  define a where "a = (m * 2 - n) div 2"
  define b where "b = m * 2 - Suc (a + n)"
  have size: "map_size d = m" by (simp add: map_size_def d(1) m_def)
  have edge: "length pre = 0 \<or> length post = 0" using full d(4,7) size n by (auto simp: m_def)
  have room: "map_room A a (Suc n) b" "0 < a" "a + Suc n < m * 2"
    using map_room_double [OF d(3) edge] n by (simp_all add: a_def b_def m_def)
  let ?new = "Some (replicate a None @ map Some cs @ replicate b None)"
  let ?s = "(dq_start d)\<lparr>it_node := a, it_chunk := hd cs\<rparr>"
  let ?f = "(dq_finish d)\<lparr>it_node := a + n, it_chunk := last cs\<rparr>"
  have nodes: "take (Suc n) (drop (length pre) (pre @ map Some cs @ post)) = map Some cs" using n by simp
  have "iter_set_node ?new a (dq_start d) = Inr ?s"
    using iter_set_node_ok [of 0 cs "replicate a None" "replicate b None" "dq_start d"] d(2) by (simp add: hd_conv_nth)
  moreover have "iter_set_node ?new (a + n) (dq_finish d) = Inr ?f"
    using iter_set_node_ok [of n cs "replicate a None" "replicate b None" "dq_finish d"] d(2) n by (simp add: last_conv_nth)
  ultimately have r: "reallocate_map (map_size d * 2) d = Inr \<lparr>dq_map = ?new, dq_start = ?s, dq_finish = ?f\<rparr>"
    unfolding reallocate_map_def size d(1) d(4) d(7) Let_def option.case n
    by (simp add: nodes n flip: a_def b_def)
  have "deque_shape C A \<lparr>dq_map = ?new, dq_start = ?s, dq_finish = ?f\<rparr> cs"
    by (rule shapeI [of _ "replicate a None" cs "replicate b None"]) (use d room n in auto)
  then show ?thesis using r room n by (auto simp: map_size_def b_def)
qed

text \<open>The two ends of the map after a chunk was added there.\<close>

lemma add_back_ok:
  assumes s: "deque_shape C A d cs" and A: "A < 2 ^ 50" and h: "chunk_allocate C h = (c, k)"
  shows "\<exists>e pre post. add_back_capacity C h d = Inr (k, e) \<and> dq_map e = Some (pre @ map Some (cs @ [c]) @ post)
    \<and> map_room (A + 1) (length pre) (length cs + 1) (length post)
    \<and> it_node (dq_start e) = length pre \<and> it_chunk (dq_start e) = hd cs \<and> it_cur (dq_start e) = it_cur (dq_start d)
    \<and> it_node (dq_finish e) + 1 = length pre + length cs \<and> it_cur (dq_finish e) = it_cur (dq_finish d)"
proof -
  obtain e where e: "(if it_node (dq_finish d) + 1 = map_size d then reallocate_map (map_size d * 2) d else Inr d) = Inr e"
    "deque_shape C A e cs" "it_cur (dq_start e) = it_cur (dq_start d)" "it_cur (dq_finish e) = it_cur (dq_finish d)"
    "it_node (dq_finish e) + 1 < map_size e"
  proof (cases "it_node (dq_finish d) + 1 = map_size d")
    case True
    then show thesis using that reallocate_ok [OF s] by force
  next
    case False
    obtain pre post where "dq_map d = Some (pre @ map Some cs @ post)" "cs \<noteq> []"
      "it_node (dq_finish d) = length pre + (length cs - 1)" using shapeE [OF s] by metis
    then have "it_node (dq_finish d) + 1 \<le> map_size d" by (cases cs) (auto simp: map_size_def)
    then show thesis using that [of d] False s by simp
  qed
  obtain pre post where m: "dq_map e = Some (pre @ map Some cs @ post)" "cs \<noteq> []"
    "map_room A (length pre) (length cs) (length post)"
    "it_node (dq_start e) = length pre" "it_chunk (dq_start e) = hd cs"
    "it_node (dq_finish e) = length pre + (length cs - 1)" using shapeE [OF e(2)] by metis
  obtain n where n: "length cs = Suc n" using m(2) by (cases cs) auto
  obtain y post' where post: "post = y # post'" using e(5) m(1,6) n by (cases post) (auto simp: map_size_def)
  have node: "node_add (it_node (dq_finish e)) 1 = length pre + length cs"
    using node_add_small(1) [of "it_node (dq_finish e)" 1] map_room_bound [OF m(3) A] m(6) n by simp
  have "set_entry (length pre + length cs) c e = Inr (e\<lparr>dq_map := Some (pre @ map Some (cs @ [c]) @ post')\<rparr>)"
    by (simp add: set_entry_def m(1) post list_update_append)
  then have "add_back_capacity C h d = Inr (k, e\<lparr>dq_map := Some (pre @ map Some (cs @ [c]) @ post')\<rparr>)"
    using h e(1) node by (simp add: add_back_capacity_def)
  then show ?thesis
    using m e(3,4) n map_room_steps(2) [OF m(3)] post
    by (intro exI [of _ "e\<lparr>dq_map := Some (pre @ map Some (cs @ [c]) @ post')\<rparr>"] exI [of _ pre] exI [of _ post']) simp
qed

lemma add_front_ok:
  assumes s: "deque_shape C A d cs" and A: "A < 2 ^ 50" and h: "chunk_allocate C h = (c, k)"
  shows "\<exists>e pre post. add_front_capacity C h d = Inr (k, e) \<and> dq_map e = Some (pre @ map Some (c # cs) @ post)
    \<and> map_room (A + 1) (length pre) (length cs + 1) (length post)
    \<and> it_node (dq_start e) = length pre + 1 \<and> it_cur (dq_start e) = it_cur (dq_start d)
    \<and> it_node (dq_finish e) = length pre + length cs \<and> it_chunk (dq_finish e) = last cs
    \<and> it_cur (dq_finish e) = it_cur (dq_finish d)"
proof -
  obtain e where e: "(if it_node (dq_start d) = 0 then reallocate_map (map_size d * 2) d else Inr d) = Inr e"
    "deque_shape C A e cs" "it_cur (dq_start e) = it_cur (dq_start d)" "it_cur (dq_finish e) = it_cur (dq_finish d)"
    "0 < it_node (dq_start e)"
    using reallocate_ok [OF s] s by (cases "it_node (dq_start d) = 0") force+
  obtain pre post where m: "dq_map e = Some (pre @ map Some cs @ post)" "cs \<noteq> []"
    "map_room A (length pre) (length cs) (length post)"
    "it_node (dq_start e) = length pre" "it_node (dq_finish e) = length pre + (length cs - 1)"
    "it_chunk (dq_finish e) = last cs" using shapeE [OF e(2)] by metis
  obtain n where n: "length cs = Suc n" using m(2) by (cases cs) auto
  obtain pre' y where pre: "pre = pre' @ [y]" using e(5) m(4) by (cases pre rule: rev_cases) auto
  have node: "node_add (it_node (dq_start e)) (2 ^ 61 - 1) = length pre'"
    using node_add_small(2) [of "it_node (dq_start e)"] map_room_bound [OF m(3) A] m(4) pre by simp
  have "set_entry (length pre') c e = Inr (e\<lparr>dq_map := Some (pre' @ map Some (c # cs) @ post)\<rparr>)"
    by (simp add: set_entry_def m(1) pre list_update_append)
  then have "add_front_capacity C h d = Inr (k, e\<lparr>dq_map := Some (pre' @ map Some (c # cs) @ post)\<rparr>)"
    using h e(1) node by (simp add: add_front_capacity_def)
  then show ?thesis
    using m e(3,4) n map_room_steps(3) [OF m(3)] pre
    by (intro exI [of _ "e\<lparr>dq_map := Some (pre' @ map Some (c # cs) @ post)\<rparr>"] exI [of _ pre'] exI [of _ post]) simp
qed

section \<open>The operations on the sequence\<close>

lemma reprE:
  assumes "deque_repr C A h d xs"
  obtains cs where "deque_shape C A d cs" "chunks_ok C h cs"
    "cells h cs = replicate (it_cur (dq_start d)) None @ map Some xs @ replicate (C - it_cur (dq_finish d)) None"
    "(length cs - 1) * C + it_cur (dq_finish d) = it_cur (dq_start d) + length xs"
    "it_chunk (dq_start d) = cs ! 0" "it_chunk (dq_finish d) = cs ! (length cs - 1)" "cs \<noteq> []"
    "it_cur (dq_start d) < C" "it_cur (dq_finish d) < C"
proof -
  obtain cs where cs: "deque_shape C A d cs" "chunks_ok C h cs"
    "cells h cs = replicate (it_cur (dq_start d)) None @ map Some xs @ replicate (C - it_cur (dq_finish d)) None"
    using assms unfolding deque_repr_def by blast
  have d: "cs \<noteq> []" "it_chunk (dq_start d) = hd cs" "it_cur (dq_start d) < C" "it_chunk (dq_finish d) = last cs"
    "it_cur (dq_finish d) < C" using shapeE [OF cs(1)] by metis+
  have "length cs * C = it_cur (dq_start d) + (length xs + (C - it_cur (dq_finish d)))"
    using length_cells [OF cs(2)] cs(3) by simp
  moreover obtain n where "length cs = Suc n" using d(1) by (cases cs) auto
  ultimately have "(length cs - 1) * C + it_cur (dq_finish d) = it_cur (dq_start d) + length xs" using d(5) by simp
  then show thesis using that [OF cs] d by (simp add: hd_conv_nth last_conv_nth)
qed

lemma append_slot: "(replicate a None @ map Some xs @ replicate (Suc b) None)[a + length xs := Some x]
    = replicate a None @ map Some (xs @ [x]) @ replicate b None"
  by (simp add: list_update_append)

lemma push_back_repr:
  assumes r: "deque_repr C A h d xs" and A: "A < 2 ^ 50"
  shows "\<exists>k e. Deque_push_back C x h d = Inr (k, e) \<and> deque_repr C (A + 1) k e (xs @ [x])"
proof -
  obtain cs where cs: "deque_shape C A d cs" "chunks_ok C h cs"
    "cells h cs = replicate (it_cur (dq_start d)) None @ map Some xs @ replicate (C - it_cur (dq_finish d)) None"
    "(length cs - 1) * C + it_cur (dq_finish d) = it_cur (dq_start d) + length xs"
    "it_chunk (dq_start d) = cs ! 0" "it_chunk (dq_finish d) = cs ! (length cs - 1)" "cs \<noteq> []"
    "it_cur (dq_start d) < C" "it_cur (dq_finish d) < C" using reprE [OF r] by metis
  let ?f = "dq_finish d"
  obtain b where b: "C - it_cur ?f = Suc b" using cs(9) by (cases "C - it_cur ?f") auto
  let ?h1 = "poke (cs ! (length cs - 1)) (it_cur ?f) (Some x) h"
  have last: "length cs - 1 < length cs" using cs(7) by simp
  have con: "construct_at (it_chunk ?f) (it_cur ?f) x h = Inr ?h1"
    using construct_at_ok [OF cs(2) last cs(9)] cs(6) by simp
  have h1: "chunks_ok C ?h1 cs" "cells ?h1 cs = replicate (it_cur (dq_start d)) None @ map Some (xs @ [x]) @ replicate b None"
    using poke_ok [OF cs(2) last cs(9)] cs(3,4) b append_slot [of "it_cur (dq_start d)" xs b x] by auto
  obtain pre post where m: "dq_map d = Some (pre @ map Some cs @ post)"
    "map_room A (length pre) (length cs) (length post)" "it_node (dq_start d) = length pre"
    "it_node ?f = length pre + (length cs - 1)" using shapeE [OF cs(1)] by metis
  show ?thesis
  proof (cases "it_cur ?f + 1 = C")
    case False
    let ?e = "d\<lparr>dq_finish := ?f\<lparr>it_cur := it_cur ?f + 1\<rparr>\<rparr>"
    have "Deque_push_back C x h d = Inr (?h1, ?e)"
      using con False by (simp add: Deque_push_back_def iter_inc_def)
    moreover have "deque_shape C (A + 1) ?e cs"
      by (rule shapeI [of _ pre cs post])
        (use m cs False map_room_steps(1) [OF m(2)] in \<open>auto simp: hd_conv_nth last_conv_nth\<close>)
    moreover have "C - Suc (it_cur ?f) = b" using b by simp
    ultimately show ?thesis using h1 unfolding deque_repr_def by (intro exI conjI) auto
  next
    case True
    obtain c k where al: "chunk_allocate C ?h1 = (c, k)" by fastforce
    obtain e pre post where e: "add_back_capacity C ?h1 d = Inr (k, e)" "dq_map e = Some (pre @ map Some (cs @ [c]) @ post)"
      "map_room (A + 1) (length pre) (length cs + 1) (length post)"
      "it_node (dq_start e) = length pre" "it_chunk (dq_start e) = hd cs" "it_cur (dq_start e) = it_cur (dq_start d)"
      "it_node (dq_finish e) + 1 = length pre + length cs" "it_cur (dq_finish e) = it_cur ?f"
      using add_back_ok [OF cs(1) A al] by metis
    have "A + 1 < 2 ^ 51" using A by simp
    then have node: "node_add (it_node (dq_finish e)) 1 = length pre + length cs"
      using e(3,7) by (simp add: node_add_def map_room_def)
    let ?g = "(dq_finish e)\<lparr>it_cur := 0, it_node := length pre + length cs, it_chunk := c\<rparr>"
    have "iter_inc C (dq_map e) (dq_finish e) = Inr ?g"
      using True iter_set_node_ok [of "length cs" "cs @ [c]" pre post] node e(8)
      by (simp add: iter_inc_def e(2))
    then have push: "Deque_push_back C x h d = Inr (k, e\<lparr>dq_finish := ?g\<rparr>)"
      using con True e(1) by (simp add: Deque_push_back_def)
    have shape: "deque_shape C (A + 1) (e\<lparr>dq_finish := ?g\<rparr>) (cs @ [c])"
      by (rule shapeI [of _ pre "cs @ [c]" post]) (use e cs in auto)
    have "b = 0" using b True by simp
    then have "cells k (cs @ [c]) = replicate (it_cur (dq_start d)) None @ map Some (xs @ [x]) @ replicate C None"
      using allocate_ok [OF h1(1) al] h1(2) by simp
    then show ?thesis using push shape allocate_ok(1) [OF h1(1) al] e(6) unfolding deque_repr_def by auto
  qed
qed

lemma prepend_slot: "(replicate (Suc a) None @ ys)[a := Some x] = replicate a None @ Some x # ys"
  by (induction a) auto

lemma push_front_repr:
  assumes r: "deque_repr C A h d xs" and A: "A < 2 ^ 50"
  shows "\<exists>k e. Deque_push_front C x h d = Inr (k, e) \<and> deque_repr C (A + 1) k e (x # xs)"
proof -
  obtain cs where cs: "deque_shape C A d cs" "chunks_ok C h cs"
    "cells h cs = replicate (it_cur (dq_start d)) None @ map Some xs @ replicate (C - it_cur (dq_finish d)) None"
    "it_chunk (dq_start d) = cs ! 0" "it_chunk (dq_finish d) = cs ! (length cs - 1)" "cs \<noteq> []"
    "it_cur (dq_start d) < C" "it_cur (dq_finish d) < C" using reprE [OF r] by metis
  let ?s = "dq_start d"
  obtain pre post where m: "dq_map d = Some (pre @ map Some cs @ post)"
    "map_room A (length pre) (length cs) (length post)" "it_node (dq_start d) = length pre"
    "it_node (dq_finish d) = length pre + (length cs - 1)" using shapeE [OF cs(1)] by metis
  show ?thesis
  proof (cases "it_cur ?s")
    case (Suc a)
    let ?e = "d\<lparr>dq_start := ?s\<lparr>it_cur := a\<rparr>\<rparr>"
    let ?k = "poke (cs ! 0) a (Some x) h"
    have a: "0 < length cs" "a < C" using cs(6,7) Suc by auto
    have "Deque_push_front C x h d = Inr (?k, ?e)"
      using construct_at_ok [OF cs(2) a] cs(4) Suc by (simp add: Deque_push_front_def iter_dec_def)
    moreover have "deque_shape C (A + 1) ?e cs"
      by (rule shapeI [of _ pre cs post])
        (use m cs a map_room_steps(1) [OF m(2)] in \<open>auto simp: hd_conv_nth last_conv_nth Suc_le_eq\<close>)
    moreover have "cells ?k cs = replicate a None @ map Some (x # xs) @ replicate (C - it_cur (dq_finish d)) None"
      using poke_ok(2) [OF cs(2) a] cs(3) Suc prepend_slot [of a "map Some xs @ replicate (C - it_cur (dq_finish d)) None" x]
      by simp
    ultimately show ?thesis using poke_ok(1) [OF cs(2) a] unfolding deque_repr_def by (intro exI conjI) auto
  next
    case 0
    obtain c h1 where al: "chunk_allocate C h = (c, h1)" by fastforce
    obtain e pre post where e: "add_front_capacity C h d = Inr (h1, e)" "dq_map e = Some (pre @ map Some (c # cs) @ post)"
      "map_room (A + 1) (length pre) (length cs + 1) (length post)"
      "it_node (dq_start e) = length pre + 1" "it_cur (dq_start e) = it_cur ?s"
      "it_node (dq_finish e) = length pre + length cs" "it_chunk (dq_finish e) = last cs"
      "it_cur (dq_finish e) = it_cur (dq_finish d)"
      using add_front_ok [OF cs(1) A al] by metis
    have "A + 1 < 2 ^ 51" using A by simp
    then have node: "node_add (it_node (dq_start e)) (2 ^ 61 - 1) = length pre"
      using node_add_small(2) [of "length pre + 1"] e(3,4) by (simp add: map_room_def)
    let ?g = "(dq_start e)\<lparr>it_node := length pre, it_chunk := c, it_cur := C - 1\<rparr>"
    have "iter_dec C (dq_map e) (dq_start e) = Inr ?g"
      using 0 iter_set_node_ok [of 0 "c # cs" pre post] node e(5) by (simp add: iter_dec_def e(2))
    moreover have a: "0 < length (c # cs)" "C - 1 < C" using cs(7) by auto
    note ok = allocate_ok [OF cs(2) al]
    ultimately have push: "Deque_push_front C x h d = Inr (poke c (C - 1) (Some x) h1, e\<lparr>dq_start := ?g\<rparr>)"
      using 0 e(1) construct_at_ok [OF ok(2) a] by (simp add: Deque_push_front_def)
    have shape: "deque_shape C (A + 1) (e\<lparr>dq_start := ?g\<rparr>) (c # cs)"
      by (rule shapeI [of _ pre "c # cs" post]) (use e cs in auto)
    have "cells h1 (c # cs) = replicate C None @ map Some xs @ replicate (C - it_cur (dq_finish d)) None"
      using ok(3,4) cs(3) 0 by (simp add: cells_Cons)
    then have "cells (poke c (C - 1) (Some x) h1) (c # cs) =
        replicate (C - 1) None @ map Some (x # xs) @ replicate (C - it_cur (dq_finish d)) None"
      using poke_ok(2) [OF ok(2) a] prepend_slot [of "C - 1" "map Some xs @ replicate (C - it_cur (dq_finish d)) None" x] a(2)
      by simp
    then show ?thesis
      using push shape poke_ok(1) [OF ok(2) a] e(8) unfolding deque_repr_def by (intro exI conjI) auto
  qed
qed

lemma drop_last_slot: "(replicate a None @ map Some (ys @ [y]) @ zs)[a + length ys := None] = replicate a None @ map Some ys @ None # zs"
  by (simp add: list_update_append)

lemma pop_back_repr:
  assumes r: "deque_repr C A h d (xs @ [x])" and A: "A < 2 ^ 50"
  shows "\<exists>k e. Deque_pop_back C h d = Inr (k, e) \<and> deque_repr C A k e xs"
proof -
  obtain cs where cs: "deque_shape C A d cs" "chunks_ok C h cs"
    "cells h cs = replicate (it_cur (dq_start d)) None @ map Some (xs @ [x]) @ replicate (C - it_cur (dq_finish d)) None"
    "(length cs - 1) * C + it_cur (dq_finish d) = it_cur (dq_start d) + length (xs @ [x])"
    "it_chunk (dq_start d) = cs ! 0" "it_chunk (dq_finish d) = cs ! (length cs - 1)" "cs \<noteq> []"
    "it_cur (dq_start d) < C" "it_cur (dq_finish d) < C" using reprE [OF r] by metis
  let ?f = "dq_finish d"
  obtain pre post where m: "dq_map d = Some (pre @ map Some cs @ post)"
    "map_room A (length pre) (length cs) (length post)" "it_node (dq_start d) = length pre"
    "it_node ?f = length pre + (length cs - 1)" using shapeE [OF cs(1)] by metis
  show ?thesis
  proof (cases "it_cur ?f")
    case (Suc b)
    let ?e = "d\<lparr>dq_finish := ?f\<lparr>it_cur := b\<rparr>\<rparr>"
    let ?k = "poke (cs ! (length cs - 1)) b None h"
    have a: "length cs - 1 < length cs" "b < C" using cs(7,9) Suc by auto
    have pos: "(length cs - 1) * C + b = it_cur (dq_start d) + length xs" using cs(4) Suc by simp
    have "cells h cs ! ((length cs - 1) * C + b) = Some x" unfolding pos using cs(3) by (simp add: nth_append)
    from destroy_at_ok [OF cs(2) a this] have "Deque_pop_back C h d = Inr (?k, ?e)"
      using cs(6) Suc by (simp add: Deque_pop_back_def iter_dec_def)
    moreover have "deque_shape C A ?e cs"
      by (rule shapeI [of _ pre cs post]) (use m cs a in \<open>auto simp: hd_conv_nth last_conv_nth Suc_le_eq\<close>)
    moreover have "cells ?k cs = replicate (it_cur (dq_start d)) None @ map Some xs @ replicate (C - b) None"
      using poke_ok(2) [OF cs(2) a, of None] cs(3) pos drop_last_slot [of "it_cur (dq_start d)" xs x] Suc cs(9)
      by (simp flip: replicate_Suc add: Suc_diff_Suc)
    ultimately show ?thesis using poke_ok(1) [OF cs(2) a] unfolding deque_repr_def by (intro exI conjI) auto
  next
    case 0
    have "length cs - 1 \<noteq> 0" using cs(4) 0 by (intro notI) simp
    then obtain cs' c where c: "cs = cs' @ [c]" "cs' \<noteq> []" by (cases cs rule: rev_cases) auto
    obtain h1 where h1: "chunk_deallocate c h = Inr h1" "chunks_ok C h1 cs'" "cells h1 cs' = cells h cs'"
      using deallocate_ok [of C h cs' c "[]"] cs(2) c(1) by auto
    have "length (cells h [c]) = C" using length_cells [of C h "[c]"] cs(2) c(1) by (simp add: chunks_ok_append)
    then have cells: "cells h1 cs' = replicate (it_cur (dq_start d)) None @ map Some (xs @ [x])"
      using cs(3) 0 c(1) h1(3) by (auto simp: append_eq_append_conv simp flip: append_assoc)
    obtain n where n: "length cs' = Suc n" using c(2) by (cases cs') auto
    have node: "node_add (it_node ?f) (2 ^ 61 - 1) = length pre + n"
      using node_add_small(2) [of "it_node ?f"] map_room_bound [OF m(2) A] m(4) c(1) n by simp
    let ?g = "?f\<lparr>it_node := length pre + n, it_chunk := last cs', it_cur := C - 1\<rparr>"
    have map: "dq_map d = Some (pre @ map Some cs' @ Some c # post)" using m(1) c(1) by simp
    have dec: "iter_dec C (dq_map d) ?f = Inr ?g"
      using 0 iter_set_node_ok [of n cs' pre "Some c # post"] node n c(2) by (simp add: iter_dec_def map last_conv_nth)
    have a: "n < length cs'" "C - 1 < C" using n cs(9) by auto
    have pos: "n * C + (C - 1) = it_cur (dq_start d) + length xs"
      using length_cells [OF h1(2)] cells n cs(9) by simp
    have "cells h1 cs' ! (n * C + (C - 1)) = Some x" unfolding pos using cells by (simp add: nth_append)
    from destroy_at_ok [OF h1(2) a this] have pop: "Deque_pop_back C h d = Inr (poke (cs' ! n) (C - 1) None h1, d\<lparr>dq_finish := ?g\<rparr>)"
      using 0 h1(1) dec c n cs(6) by (simp add: Deque_pop_back_def last_conv_nth nth_append)
    have shape: "deque_shape C A (d\<lparr>dq_finish := ?g\<rparr>) cs'"
      by (rule shapeI [of _ pre cs' "Some c # post"])
        (use map m cs c n map_room_steps(5) [of A "length pre" "length cs'" "length post"] in \<open>auto simp: hd_conv_nth nth_append\<close>)
    have "cells (poke (cs' ! n) (C - 1) None h1) cs' = replicate (it_cur (dq_start d)) None @ map Some xs @ replicate (C - (C - 1)) None"
      using poke_ok(2) [OF h1(2) a, of None] cells pos drop_last_slot [of "it_cur (dq_start d)" xs x "[]"] cs(9) by simp
    then show ?thesis using pop shape poke_ok(1) [OF h1(2) a] unfolding deque_repr_def by (intro exI conjI) auto
  qed
qed

lemma pop_front_repr:
  assumes r: "deque_repr C A h d (x # xs)" and A: "A < 2 ^ 50"
  shows "\<exists>k e. Deque_pop_front C h d = Inr (k, e) \<and> deque_repr C A k e xs"
proof -
  obtain cs where cs: "deque_shape C A d cs" "chunks_ok C h cs"
    "cells h cs = replicate (it_cur (dq_start d)) None @ map Some (x # xs) @ replicate (C - it_cur (dq_finish d)) None"
    "(length cs - 1) * C + it_cur (dq_finish d) = it_cur (dq_start d) + length (x # xs)"
    "it_chunk (dq_start d) = cs ! 0" "it_chunk (dq_finish d) = cs ! (length cs - 1)" "cs \<noteq> []"
    "it_cur (dq_start d) < C" "it_cur (dq_finish d) < C" using reprE [OF r] by metis
  let ?s = "dq_start d" and ?rest = "map Some xs @ replicate (C - it_cur (dq_finish d)) None"
  obtain pre post where m: "dq_map d = Some (pre @ map Some cs @ post)"
    "map_room A (length pre) (length cs) (length post)" "it_node (dq_start d) = length pre"
    "it_node (dq_finish d) = length pre + (length cs - 1)" using shapeE [OF cs(1)] by metis
  let ?h1 = "poke (cs ! 0) (it_cur ?s) None h"
  have a: "0 < length cs" using cs(7) by simp
  have "cells h cs ! (0 * C + it_cur ?s) = Some x" using cs(3) by (simp add: nth_append)
  from destroy_at_ok [OF cs(2) a cs(8) this] have des: "destroy_at (it_chunk ?s) (it_cur ?s) h = Inr ?h1" using cs(5) by simp
  have h1: "chunks_ok C ?h1 cs" "cells ?h1 cs = replicate (it_cur ?s + 1) None @ ?rest"
    using poke_ok [OF cs(2) a cs(8), of None] cs(3) by (auto simp: list_update_append replicate_append_same)
  show ?thesis
  proof (cases "it_cur ?s + 1 = C")
    case False
    let ?e = "d\<lparr>dq_start := ?s\<lparr>it_cur := it_cur ?s + 1\<rparr>\<rparr>"
    have "Deque_pop_front C h d = Inr (?h1, ?e)" using des False by (simp add: Deque_pop_front_def iter_inc_def)
    moreover have "deque_shape C A ?e cs"
      by (rule shapeI [of _ pre cs post]) (use m cs False in \<open>auto simp: hd_conv_nth last_conv_nth Suc_le_eq\<close>)
    ultimately show ?thesis using h1 unfolding deque_repr_def by (intro exI conjI) auto
  next
    case True
    have "length cs - 1 \<noteq> 0" using cs(4,9) True by (intro notI) simp
    then obtain c cs' where c: "cs = c # cs'" "cs' \<noteq> []" by (cases cs) auto
    obtain h2 where h2: "chunk_deallocate c ?h1 = Inr h2" "chunks_ok C h2 cs'" "cells h2 cs' = cells ?h1 cs'"
      using deallocate_ok [of C ?h1 "[]" c cs'] h1(1) c(1) by auto
    have "length (cells ?h1 [c]) = C"
      using length_cells [of C ?h1 "[c]"] h1(1) chunks_ok_append [of C ?h1 "[c]" cs'] c(1) by simp
    then have cells: "cells h2 cs' = ?rest"
      using h1(2) True c(1) h2(3) by (auto simp: cells_Cons append_eq_append_conv simp del: replicate_Suc)
    have node: "node_add (it_node ?s) 1 = length pre + 1"
      using node_add_small(1) [of "it_node ?s" 1] map_room_bound [OF m(2) A] m(3) c by (cases cs') auto
    let ?g = "?s\<lparr>it_cur := 0, it_node := length pre + 1, it_chunk := hd cs'\<rparr>"
    have map: "dq_map d = Some ((pre @ [Some c]) @ map Some cs' @ post)" using m(1) c(1) by simp
    have inc: "iter_inc C (dq_map d) ?s = Inr ?g"
      using True iter_set_node_ok [of 0 cs' "pre @ [Some c]" post] node c(2)
      unfolding map by (simp add: iter_inc_def hd_conv_nth)
    have pop: "Deque_pop_front C h d = Inr (h2, d\<lparr>dq_start := ?g\<rparr>)"
      using des True h2(1) inc cs(5) c(1) by (simp add: Deque_pop_front_def)
    have "deque_shape C A (d\<lparr>dq_start := ?g\<rparr>) cs'"
      by (rule shapeI [of _ "pre @ [Some c]" cs' post])
        (use map m cs c map_room_steps(4) [of A "length pre" "length cs'" "length post"] in \<open>auto simp: last_conv_nth Suc_le_eq\<close>)
    then show ?thesis using pop h2(2) cells unfolding deque_repr_def by (intro exI conjI) auto
  qed
qed

section \<open>Positions\<close>

text \<open>The iterator at position \<open>p\<close> of the slots of the deque.\<close>

definition iter_at :: "nat \<Rightarrow> nat \<Rightarrow> nat list \<Rightarrow> nat \<Rightarrow> dq_iter" where
  "iter_at C n0 cs p = \<lparr>it_chunk = cs ! (p div C), it_cur = p mod C, it_node = n0 + p div C\<rparr>"

lemma iter_eqI: "it_chunk a = it_chunk b \<Longrightarrow> it_cur a = it_cur b \<Longrightarrow> it_node a = it_node b \<Longrightarrow> a = (b :: dq_iter)"
  by (rule dq_iter.equality) auto

lemma div_lt: "p < k * C \<Longrightarrow> p div C < (k :: nat)"
  by (simp add: less_mult_imp_div_less)

lemma iter_add_at:
  assumes m: "m = Some (pre @ map Some cs @ post)" "length pre + length cs < 2 ^ 61"
    and p: "p + n < length cs * C" "p + n < 2 ^ 63" "0 < C"
  shows "iter_add C m n (iter_at C (length pre) cs p) = Inr (iter_at C (length pre) cs (p + n))"
proof -
  have "p + n < 2 ^ 64" using p(2) by simp
  then have "n + p mod C < 2 ^ 64" using mod_less_eq_dividend [of p C] by linarith
  then have off: "(n + p mod C) mod 2 ^ 64 = p mod C + n" by simp
  have dv: "(p + n) div C = p div C + (p mod C + n) div C" and md: "(p + n) mod C = (p mod C + n) mod C"
    using div_mult_mod_eq [of p C] p(3) by (metis add.assoc add.commute div_mult_self3 less_not_refl2, simp add: mod_simps)
  show ?thesis
  proof (cases "p mod C + n < C")
    case True
    then show ?thesis using dv md off by (simp add: iter_add_def iter_at_def)
  next
    case False
    have j: "(p + n) div C < length cs" using div_lt [OF p(1)] .
    have "node_add (length pre + p div C) ((p mod C + n) div C) = length pre + (p + n) div C"
      using j m(2) dv by (subst node_add_small(1)) auto
    then have "iter_set_node m (node_add (length pre + p div C) ((p mod C + n) div C)) (iter_at C (length pre) cs p)
      = Inr ((iter_at C (length pre) cs p)\<lparr>it_node := length pre + (p + n) div C, it_chunk := cs ! ((p + n) div C)\<rparr>)"
      using iter_set_node_ok [OF j, of pre post] m(1) by simp
    then show ?thesis
      using False off md by (simp add: iter_add_def iter_at_def Let_def minus_div_mult_eq_mod)
  qed
qed

lemma iter_inc_at:
  assumes m: "m = Some (pre @ map Some cs @ post)" "length pre + length cs < 2 ^ 61"
    and p: "p + 1 < length cs * C" "0 < C"
  shows "iter_inc C m (iter_at C (length pre) cs p) = Inr (iter_at C (length pre) cs (p + 1))"
proof (cases "p mod C + 1 = C")
  case True
  then have d: "(p + 1) div C = p div C + 1" "(p + 1) mod C = 0" by (auto simp: mod_Suc div_Suc)
  have j: "(p + 1) div C < length cs" using div_lt [OF p(1)] .
  have "node_add (length pre + p div C) 1 = length pre + (p + 1) div C" using j m(2) d by (subst node_add_small(1)) auto
  then show ?thesis
    using True iter_set_node_ok [OF j, of pre post] m(1) d by (simp add: iter_inc_def iter_at_def)
next
  case False
  then have "(p + 1) div C = p div C" "(p + 1) mod C = p mod C + 1" using p(2) by (auto simp: mod_Suc div_Suc)
  then show ?thesis using False by (simp add: iter_inc_def iter_at_def)
qed

lemma iter_dec_at:
  assumes m: "m = Some (pre @ map Some cs @ post)" "length pre + length cs < 2 ^ 61"
    and p: "p + 1 < length cs * C" "0 < C"
  shows "iter_dec C m (iter_at C (length pre) cs (p + 1)) = Inr (iter_at C (length pre) cs p)"
proof (cases "p mod C + 1 = C")
  case True
  then have d: "(p + 1) div C = p div C + 1" "(p + 1) mod C = 0" by (auto simp: mod_Suc div_Suc)
  have j: "p div C < length cs" using div_lt [of p "length cs" C] p(1) by simp
  have "node_add (length pre + (p + 1) div C) (2 ^ 61 - 1) = length pre + p div C"
    using j m(2) d by (subst node_add_small(2)) auto
  then show ?thesis
    using True iter_set_node_ok [OF j, of pre post] m(1) d by (simp add: iter_dec_def iter_at_def)
next
  case False
  then have "(p + 1) div C = p div C" "(p + 1) mod C = p mod C + 1" using p(2) by (auto simp: mod_Suc div_Suc)
  then show ?thesis using False by (simp add: iter_dec_def iter_at_def)
qed

lemma iter_eq_at:
  assumes "distinct cs" "p < length cs * C" "q < length cs * C"
  shows "iter_eq (iter_at C n0 cs p) (iter_at C n0 cs q) \<longleftrightarrow> p = q"
proof -
  have "cs ! (p div C) = cs ! (q div C) \<longleftrightarrow> p div C = q div C"
    using assms(1) div_lt [OF assms(2)] div_lt [OF assms(3)] nth_eq_iff_index_eq by metis
  then show ?thesis unfolding iter_eq_def iter_at_def using div_mult_mod_eq [of p C] div_mult_mod_eq [of q C] by (metis dq_iter.select_convs(1,2))
qed

lemma slot_at:
  assumes "chunks_ok C h cs" "p < length cs * C" "0 < C"
  shows "deref h (iter_at C n0 cs p) = (case cells h cs ! p of None \<Rightarrow> Inl Bad_slot | Some v \<Rightarrow> Inr v)"
    "cells h cs ! p = Some u \<Longrightarrow> assign_at (it_chunk (iter_at C n0 cs p)) (it_cur (iter_at C n0 cs p)) v h
       = Inr (poke (cs ! (p div C)) (p mod C) (Some v) h)"
    "chunks_ok C (poke (cs ! (p div C)) (p mod C) w h) cs"
    "cells (poke (cs ! (p div C)) (p mod C) w h) cs = (cells h cs)[p := w]"
proof -
  have j: "p div C < length cs" "p mod C < C" using div_lt [OF assms(2)] assms(3) by auto
  have pos: "p div C * C + p mod C = p" by simp
  show "deref h (iter_at C n0 cs p) = (case cells h cs ! p of None \<Rightarrow> Inl Bad_slot | Some v \<Rightarrow> Inr v)"
    using read_at_ok [OF assms(1) j] unfolding pos by (simp add: deref_def iter_at_def)
  show "cells h cs ! p = Some u \<Longrightarrow> assign_at (it_chunk (iter_at C n0 cs p)) (it_cur (iter_at C n0 cs p)) v h
       = Inr (poke (cs ! (p div C)) (p mod C) (Some v) h)"
    using assign_at_ok [OF assms(1) j] unfolding pos by (simp add: iter_at_def)
  show "chunks_ok C (poke (cs ! (p div C)) (p mod C) w h) cs"
    "cells (poke (cs ! (p div C)) (p mod C) w h) cs = (cells h cs)[p := w]"
    using poke_ok [OF assms(1) j, of w] unfolding pos by auto
qed

text \<open>A deque with its iterators as positions.\<close>

lemma repr_positions:
  assumes "deque_repr C A h d xs"
  obtains pre cs post where "dq_map d = Some (pre @ map Some cs @ post)"
    "map_room A (length pre) (length cs) (length post)" "chunks_ok C h cs"
    "dq_start d = iter_at C (length pre) cs (it_cur (dq_start d))"
    "dq_finish d = iter_at C (length pre) cs (it_cur (dq_start d) + length xs)"
    "cells h cs = replicate (it_cur (dq_start d)) None @ map Some xs @ replicate (C - it_cur (dq_finish d)) None"
    "it_cur (dq_start d) + length xs < length cs * C" "0 < C" "it_cur (dq_start d) < C" "deque_shape C A d cs"
proof -
  obtain cs where cs: "deque_shape C A d cs" "chunks_ok C h cs"
    "cells h cs = replicate (it_cur (dq_start d)) None @ map Some xs @ replicate (C - it_cur (dq_finish d)) None"
    "(length cs - 1) * C + it_cur (dq_finish d) = it_cur (dq_start d) + length xs"
    "it_chunk (dq_start d) = cs ! 0" "it_chunk (dq_finish d) = cs ! (length cs - 1)" "cs \<noteq> []"
    "it_cur (dq_start d) < C" "it_cur (dq_finish d) < C" using reprE [OF assms] by metis
  obtain pre post where m: "dq_map d = Some (pre @ map Some cs @ post)"
    "map_room A (length pre) (length cs) (length post)" "it_node (dq_start d) = length pre"
    "it_node (dq_finish d) = length pre + (length cs - 1)" using shapeE [OF cs(1)] by metis
  have C: "0 < C" using cs(8) by simp
  have dv: "(it_cur (dq_start d) + length xs) div C = length cs - 1" "(it_cur (dq_start d) + length xs) mod C = it_cur (dq_finish d)"
    using cs(9) C unfolding cs(4) [symmetric] by auto
  have "dq_start d = iter_at C (length pre) cs (it_cur (dq_start d))"
    using cs(5,8) m(3) by (intro iter_eqI) (auto simp: iter_at_def)
  moreover have "dq_finish d = iter_at C (length pre) cs (it_cur (dq_start d) + length xs)"
    using cs(6) m(4) dv by (intro iter_eqI) (auto simp: iter_at_def)
  moreover have "it_cur (dq_start d) + length xs < length cs * C"
    unfolding cs(4) [symmetric] using cs(7,9) by (cases cs) auto
  ultimately show thesis using that m(1,2) cs(1,2,3,8) C by blast
qed

section \<open>Observers\<close>

lemma size_repr:
  assumes "deque_repr C A h d xs" "length xs < 2 ^ 63"
  shows "Deque_size C d = length xs"
proof -
  obtain cs where cs: "deque_shape C A d cs" "(length cs - 1) * C + it_cur (dq_finish d) = it_cur (dq_start d) + length xs"
    using reprE [OF assms(1)] by metis
  obtain pre post where m: "dq_map d = Some (pre @ map Some cs @ post)" "it_node (dq_start d) = length pre"
    "it_node (dq_finish d) = length pre + (length cs - 1)" using shapeE [OF cs(1)] by metis
  have "int ((length cs - 1) * C + it_cur (dq_finish d)) = int (it_cur (dq_start d) + length xs)" using cs(2) by simp
  then have "int C * (int (it_node (dq_finish d)) - int (it_node (dq_start d))) + int (it_cur (dq_finish d))
      - int (it_cur (dq_start d)) = int (length xs)"
    unfolding m(2,3) of_nat_add of_nat_mult by (simp add: algebra_simps)
  then show ?thesis using assms(2) m(1) by (simp add: Deque_size_def)
qed

lemma slot_live:
  assumes "cells h cs = replicate a None @ map Some xs @ zs" "i < length xs"
  shows "cells h cs ! (a + i) = Some (xs ! i)"
  using assms by (simp add: nth_append)

lemma index_repr:
  assumes r: "deque_repr C A h d xs" and b: "A < 2 ^ 50" "C < 2 ^ 32" "length xs < 2 ^ 62" and n: "n < length xs"
  shows "\<exists>it. Deque_index C n d = Inr it \<and> deref h it = Inr (xs ! n)
    \<and> (\<forall>v. \<exists>k. assign_at (it_chunk it) (it_cur it) v h = Inr k \<and> deque_repr C A k d (xs[n := v]))"
proof -
  obtain pre cs post where p: "dq_map d = Some (pre @ map Some cs @ post)"
    "map_room A (length pre) (length cs) (length post)" "chunks_ok C h cs"
    "dq_start d = iter_at C (length pre) cs (it_cur (dq_start d))"
    "cells h cs = replicate (it_cur (dq_start d)) None @ map Some xs @ replicate (C - it_cur (dq_finish d)) None"
    "it_cur (dq_start d) + length xs < length cs * C" "0 < C" "it_cur (dq_start d) < C" "deque_shape C A d cs"
    using repr_positions [OF r] by metis
  let ?p = "it_cur (dq_start d) + n"
  let ?it = "iter_at C (length pre) cs ?p"
  have lt: "?p < length cs * C" "?p < 2 ^ 63" using n p(6,8) b(2,3) by auto
  have "length pre + length cs < 2 ^ 61" using map_room_bound [OF p(2) b(1)] by simp
  from iter_add_at [OF p(1) this lt p(7)] have "iter_add C (dq_map d) n (dq_start d) = Inr ?it"
    by (subst p(4)) simp
  then have "Deque_index C n d = Inr ?it" using size_repr [OF r] b(3) n by (simp add: Deque_index_def)
  moreover note live = slot_live [OF p(5) n]
  moreover have "deref h ?it = Inr (xs ! n)" using slot_at(1) [OF p(3) lt(1) p(7)] live by simp
  moreover have "deque_repr C A (poke (cs ! (?p div C)) (?p mod C) (Some v) h) d (xs[n := v])" for v
  proof -
    have "(cells h cs)[?p := Some v] = replicate (it_cur (dq_start d)) None @ map Some (xs[n := v])
        @ replicate (C - it_cur (dq_finish d)) None"
      using p(5) n by (simp add: list_update_append map_update)
    then show ?thesis using slot_at(3,4) [OF p(3) lt(1) p(7), of "Some v"] p(9) unfolding deque_repr_def by auto
  qed
  ultimately show ?thesis using slot_at(2) [OF p(3) lt(1) p(7) live] by blast
qed

lemma front_repr: "deque_repr C A h d (x # xs) \<Longrightarrow> Deque_front h d = Inr x"
proof -
  assume r: "deque_repr C A h d (x # xs)"
  obtain pre :: "nat option list" and cs where p: "chunks_ok C h cs" "dq_start d = iter_at C (length pre) cs (it_cur (dq_start d))"
    "cells h cs = replicate (it_cur (dq_start d)) None @ map Some (x # xs) @ replicate (C - it_cur (dq_finish d)) None"
    "it_cur (dq_start d) + length (x # xs) < length cs * C" "0 < C" using repr_positions [OF r] by metis
  have lt: "it_cur (dq_start d) < length cs * C" using p(4) by simp
  have "deref h (iter_at C (length pre) cs (it_cur (dq_start d))) = Inr x"
    using slot_at(1) [OF p(1) lt p(5)] slot_live [OF p(3), of 0] by simp
  then show ?thesis unfolding Deque_front_def using p(2) by metis
qed

text \<open>
  \<open>back()\<close> goes one step back with \<open>operator-\<close>. Within a chunk this is right. At the start of a chunk the
  negative distance is divided as an unsigned number; the quotient is the map pointer one entry back
  only if \<open>CHUNK_SIZE\<close> divides the pointer size.
\<close>

lemma back_inside:
  assumes r: "deque_repr C A h d (xs @ [x])" and f: "0 < it_cur (dq_finish d)" and C: "C < 2 ^ 32"
  shows "Deque_back C h d = Inr x"
proof -
  obtain cs where cs: "chunks_ok C h cs"
    "cells h cs = replicate (it_cur (dq_start d)) None @ map Some (xs @ [x]) @ replicate (C - it_cur (dq_finish d)) None"
    "(length cs - 1) * C + it_cur (dq_finish d) = it_cur (dq_start d) + length (xs @ [x])"
    "it_chunk (dq_finish d) = cs ! (length cs - 1)" "cs \<noteq> []" "it_cur (dq_finish d) < C" using reprE [OF r] by metis
  obtain b where b: "it_cur (dq_finish d) = Suc b" using f by (cases "it_cur (dq_finish d)") auto
  have "(2 ^ 64 - 1 + Suc b) mod 2 ^ 64 = b"
  proof -
    have "2 ^ 64 - 1 + Suc b = 2 ^ 64 + b" by simp
    moreover have "b < 2 ^ 64" using b cs(6) C by simp
    then have "(2 ^ 64 + b) mod 2 ^ 64 = b" by (metis mod_add_self1 mod_less)
    ultimately show ?thesis by presburger
  qed
  then have it: "iter_sub C (dq_map d) 1 (dq_finish d) = Inr ((dq_finish d)\<lparr>it_cur := b\<rparr>)"
    using b cs(6) by (simp add: iter_sub_def iter_add_def)
  have j: "length cs - 1 < length cs" "b < C" using cs(5,6) b by auto
  have pos: "(length cs - 1) * C + b = it_cur (dq_start d) + length xs" using cs(3) b by simp
  have "cells h cs ! ((length cs - 1) * C + b) = Some x" unfolding pos using slot_live [OF cs(2), of "length xs"] by simp
  then show ?thesis using it read_at_ok [OF cs(1) j] cs(4) by (simp add: Deque_back_def deref_def)
qed

lemma back_small_chunks:
  assumes r: "deque_repr C A h d (xs @ [x])" and f: "it_cur (dq_finish d) = 0" and C: "C dvd 8" and A: "A < 2 ^ 50"
  shows "Deque_back C h d = Inr x"
proof -
  obtain pre cs post where p: "dq_map d = Some (pre @ map Some cs @ post)"
    "map_room A (length pre) (length cs) (length post)" "chunks_ok C h cs"
    "dq_finish d = iter_at C (length pre) cs (it_cur (dq_start d) + length (xs @ [x]))"
    "cells h cs = replicate (it_cur (dq_start d)) None @ map Some (xs @ [x]) @ replicate (C - it_cur (dq_finish d)) None"
    "it_cur (dq_start d) + length (xs @ [x]) < length cs * C" "0 < C"
    using repr_positions [OF r] by metis
  let ?q = "it_cur (dq_start d) + length xs"
  have m61: "length pre + length cs < 2 ^ 61" using map_room_bound [OF p(2) A] by simp
  have q: "?q + 1 < length cs * C" using p(6) by simp
  have fin: "dq_finish d = iter_at C (length pre) cs (?q + 1)" using p(4) by simp
  have z: "(?q + 1) mod C = 0" using f fin by (simp add: iter_at_def)
  then have dm: "?q mod C = C - 1" "(?q + 1) div C = ?q div C + 1" using p(7) by (auto simp: mod_Suc div_Suc split: if_splits)
  have j: "?q div C < length cs" using div_lt [of ?q "length cs" C] q by simp
  have "C = 1 \<or> C = 2 \<or> C = 3 \<or> C = 4 \<or> C = 5 \<or> C = 6 \<or> C = 7 \<or> C = 8"
    using dvd_imp_le [OF C] p(7) by arith
  then have "C \<in> {1, 2, 4, 8}" using C by (elim disjE) auto
  then have num: "C \<le> 2 ^ 64 - 1" "(2 ^ 64 - 1) - (2 ^ 64 - 1) div C * C = C - 1"
    "(2 ^ 64 - 1) div C mod 2 ^ 61 = 2 ^ 61 - 1" by auto
  have "node_add (length pre + (?q + 1) div C) ((2 ^ 64 - 1) div C) = node_add (length pre + (?q + 1) div C) (2 ^ 61 - 1)"
    unfolding node_add_def by (metis num(3) mod_add_right_eq mod_mod_trivial)
  also have "\<dots> = length pre + ?q div C" using j m61 dm(2) by (subst node_add_small(2)) auto
  finally have node: "node_add (length pre + (?q + 1) div C) ((2 ^ 64 - 1) div C) = length pre + ?q div C" .
  have "iter_sub C (dq_map d) 1 (dq_finish d) = Inr (iter_at C (length pre) cs ?q)"
    unfolding fin p(1) iter_sub_def iter_add_def
    using num(1,2) node z iter_set_node_ok [OF j, of pre post] dm by (simp add: iter_at_def Let_def)
  moreover have "deref h (iter_at C (length pre) cs ?q) = Inr x"
    using slot_at(1) [OF p(3) _ p(7), of ?q] q slot_live [OF p(5), of "length xs"] by simp
  ultimately show ?thesis by (simp add: Deque_back_def)
qed

lemma back_at_chunk_start:
  assumes r: "deque_repr 128 A h d xs" and f: "it_cur (dq_finish d) = 0" and A: "A < 2 ^ 50"
  shows "Deque_back 128 h d = Inl Bad_node"
proof -
  obtain cs where "deque_shape 128 A d cs" using reprE [OF r] by metis
  then obtain pre post where m: "dq_map d = Some (pre @ map Some cs @ post)" "map_room A (length pre) (length cs) (length post)"
    "it_node (dq_finish d) = length pre + (length cs - 1)" by (metis shapeE)
  have "length pre + length cs + length post \<le> 8 * 2 ^ 50 + 3" using m(2) A by (simp add: map_room_def)
  then have "iter_set_node (dq_map d) (node_add (it_node (dq_finish d)) (2 ^ 57 - 1)) it = Inl Bad_node" for it
    using m(1,3) by (simp add: iter_set_node_def node_add_def)
  then show ?thesis using f by (simp add: Deque_back_def iter_sub_def iter_add_def)
qed

section \<open>Erasing\<close>

text \<open>Moving the elements from position \<open>a + 1\<close> to \<open>b\<close> one position down, and those from \<open>a\<close> to \<open>b\<close> one position up.\<close>

lemma std_move_ok:
  assumes m: "m = Some (pre @ map Some cs @ post)" "length pre + length cs < 2 ^ 61" and C: "0 < C"
    and h: "chunks_ok C h cs" "cells h cs = us @ map Some (v # vs) @ zs" "zs \<noteq> []" and fuel: "length vs \<le> fuel"
  shows "\<exists>k. std_move fuel C m (iter_at C (length pre) cs (length us + 1)) (iter_at C (length pre) cs (length us + 1 + length vs))
      (iter_at C (length pre) cs (length us)) h = Some (Inr k)
    \<and> chunks_ok C k cs \<and> cells k cs = us @ map Some (vs @ [last (v # vs)]) @ zs"
  using h fuel
proof (induction vs arbitrary: us v h fuel)
  case Nil
  then show ?case by (auto simp: std_move.simps iter_eq_def)
next
  case (Cons w vs)
  obtain n where n: "fuel = Suc n" using Cons.prems(4) by (cases fuel) auto
  let ?a = "length us" and ?b = "length us + 1 + length (w # vs)"
  have len: "length cs * C = ?b + length zs" using length_cells [OF Cons.prems(1)] Cons.prems(2) by simp
  then have lt: "?a < length cs * C" "?a + 1 < length cs * C" "?a + 1 + 1 < length cs * C" "?b < length cs * C"
    using Cons.prems(3) by (cases zs; simp)+
  have ne: "\<not> iter_eq (iter_at C (length pre) cs (?a + 1)) (iter_at C (length pre) cs ?b)"
    using iter_eq_at [OF _ lt(2,4)] Cons.prems(1) by (auto simp: chunks_ok_def)
  have live: "cells h cs ! ?a = Some v" "cells h cs ! (?a + 1) = Some w" using Cons.prems(2) by (auto simp: nth_append)
  let ?k = "poke (cs ! (?a div C)) (?a mod C) (Some w) h"
  note k = slot_at(3,4) [OF Cons.prems(1) lt(1) C, of "Some w"]
  have "cells ?k cs = (us @ [Some w]) @ map Some (w # vs) @ zs" using k(2) Cons.prems(2) by (simp add: list_update_append)
  from Cons.IH [OF k(1) this Cons.prems(3), of n] obtain k' where IH:
    "std_move n C m (iter_at C (length pre) cs (?a + 1 + 1)) (iter_at C (length pre) cs ?b)
      (iter_at C (length pre) cs (?a + 1)) ?k = Some (Inr k')"
    "chunks_ok C k' cs" "cells k' cs = (us @ [Some w]) @ map Some (vs @ [last (w # vs)]) @ zs"
    using n Cons.prems(4) by auto
  have "std_move fuel C m (iter_at C (length pre) cs (?a + 1)) (iter_at C (length pre) cs ?b) (iter_at C (length pre) cs ?a) h
      = std_move n C m (iter_at C (length pre) cs (?a + 1 + 1)) (iter_at C (length pre) cs ?b) (iter_at C (length pre) cs (?a + 1)) ?k"
    using ne live slot_at(1) [OF Cons.prems(1) lt(2) C, of "length pre"] slot_at(2) [OF Cons.prems(1) lt(1) C live(1), of "length pre" w]
      iter_inc_at [OF m lt(2) C] iter_inc_at [OF m lt(3) C]
    by (subst std_move.simps) (simp add: n)
  then show ?case using IH by simp
qed

lemma std_move_backward_ok:
  assumes m: "m = Some (pre @ map Some cs @ post)" "length pre + length cs < 2 ^ 61" and C: "0 < C"
    and h: "chunks_ok C h cs" "cells h cs = us @ map Some (vs @ [v]) @ zs" "zs \<noteq> []" and fuel: "length vs \<le> fuel"
  shows "\<exists>k. std_move_backward fuel C m (iter_at C (length pre) cs (length us)) (iter_at C (length pre) cs (length us + length vs))
      (iter_at C (length pre) cs (length us + length vs + 1)) h = Some (Inr k)
    \<and> chunks_ok C k cs \<and> cells k cs = us @ map Some (hd (vs @ [v]) # vs) @ zs"
  using h fuel
proof (induction vs arbitrary: v zs h fuel rule: rev_induct)
  case Nil
  then show ?case by (auto simp: std_move_backward.simps iter_eq_def)
next
  case (snoc w vs)
  obtain n where n: "fuel = Suc n" using snoc.prems(4) by (cases fuel) auto
  let ?a = "length us" and ?b = "length us + length vs"
  have len: "length cs * C = ?b + 2 + length zs" using length_cells [OF snoc.prems(1)] snoc.prems(2) by simp
  then have lt: "?a < length cs * C" "?b < length cs * C" "?b + 1 < length cs * C" "?b + 1 + 1 < length cs * C"
    using snoc.prems(3) by (cases zs; simp)+
  have ne: "\<not> iter_eq (iter_at C (length pre) cs ?a) (iter_at C (length pre) cs (?b + 1))"
    using iter_eq_at [OF _ lt(1,3)] snoc.prems(1) by (auto simp: chunks_ok_def)
  have live: "cells h cs ! ?b = Some w" "cells h cs ! (?b + 1) = Some v" using snoc.prems(2) by (auto simp: nth_append)
  let ?k = "poke (cs ! ((?b + 1) div C)) ((?b + 1) mod C) (Some w) h"
  note k = slot_at(3,4) [OF snoc.prems(1) lt(3) C, of "Some w"]
  have "cells ?k cs = us @ map Some (vs @ [w]) @ Some w # zs"
    using k(2) snoc.prems(2) by (simp add: list_update_append)
  from snoc.IH [OF k(1) this, of n] obtain k' where IH:
    "std_move_backward n C m (iter_at C (length pre) cs ?a) (iter_at C (length pre) cs ?b)
      (iter_at C (length pre) cs (?b + 1)) ?k = Some (Inr k')"
    "chunks_ok C k' cs" "cells k' cs = us @ map Some (hd (vs @ [w]) # vs) @ Some w # zs"
    using n snoc.prems(4) by auto
  have "std_move_backward fuel C m (iter_at C (length pre) cs ?a) (iter_at C (length pre) cs (?b + 1))
        (iter_at C (length pre) cs (?b + 1 + 1)) h
      = std_move_backward n C m (iter_at C (length pre) cs ?a) (iter_at C (length pre) cs ?b) (iter_at C (length pre) cs (?b + 1)) ?k"
    using ne live slot_at(1) [OF snoc.prems(1) lt(2) C, of "length pre"] slot_at(2) [OF snoc.prems(1) lt(3) C live(2), of "length pre" w]
      iter_dec_at [OF m lt(3) C] iter_dec_at [OF m lt(4) C]
    by (subst std_move_backward.simps) (simp add: n)
  then show ?case using IH by (cases vs) simp_all
qed

lemma erase_repr:
  assumes r: "deque_repr C A h d xs" and b: "A < 2 ^ 50" "C < 2 ^ 32" "length xs < 2 ^ 62" and n: "n < length xs"
  shows "\<exists>k e. Deque_erase C (int n) h d = Some (Inr (k, e)) \<and> deque_repr C A k e (take n xs @ drop (n + 1) xs)"
proof -
  obtain pre cs post where p: "dq_map d = Some (pre @ map Some cs @ post)"
    "map_room A (length pre) (length cs) (length post)" "chunks_ok C h cs"
    "dq_start d = iter_at C (length pre) cs (it_cur (dq_start d))"
    "dq_finish d = iter_at C (length pre) cs (it_cur (dq_start d) + length xs)"
    "cells h cs = replicate (it_cur (dq_start d)) None @ map Some xs @ replicate (C - it_cur (dq_finish d)) None"
    "it_cur (dq_start d) + length xs < length cs * C" "0 < C" "it_cur (dq_start d) < C" "deque_shape C A d cs"
    using repr_positions [OF r] by metis
  have m61: "length pre + length cs < 2 ^ 61" using map_room_bound [OF p(2) b(1)] by simp
  have size: "Deque_size C d = length xs" using size_repr [OF r] b(3) by simp
  let ?s = "it_cur (dq_start d)"
  have "it_cur (dq_finish d) < C" using reprE [OF r] by metis
  then have fin: "replicate (C - it_cur (dq_finish d)) None \<noteq> []" by simp
  have it: "iter_add C (dq_map d) n (dq_start d) = Inr (iter_at C (length pre) cs (?s + n))"
    using iter_add_at [OF p(1) m61, of ?s n C] p(4,7,8,9) b(2,3) n by simp
  have it1: "iter_add C (dq_map d) 1 (iter_at C (length pre) cs (?s + n)) = Inr (iter_at C (length pre) cs (?s + n + 1))"
    using iter_add_at [OF p(1) m61, of "?s + n" 1 C] p(7,8,9) b(2,3) n by simp
  have xs: "xs = take n xs @ xs ! n # drop (n + 1) xs" using id_take_nth_drop [OF n] by simp
  show ?thesis
  proof (cases "n < length xs div 2")
    case True
    have "cells h cs = replicate ?s None @ map Some (take n xs @ [xs ! n]) @ (map Some (drop (n + 1) xs) @ replicate (C - it_cur (dq_finish d)) None)"
      using p(6) xs by (metis append.assoc append_Cons append_Nil map_append)
    from std_move_backward_ok [OF p(1) m61 p(8,3) this, of "length xs"] fin n obtain k where k:
      "std_move_backward (length xs) C (dq_map d) (iter_at C (length pre) cs ?s) (iter_at C (length pre) cs (?s + n))
        (iter_at C (length pre) cs (?s + n + 1)) h = Some (Inr k)"
      "chunks_ok C k cs" "cells k cs = replicate ?s None @ map Some (hd (take n xs @ [xs ! n]) # take n xs)
        @ map Some (drop (n + 1) xs) @ replicate (C - it_cur (dq_finish d)) None" by auto
    have "deque_repr C A k d (hd (take n xs @ [xs ! n]) # take n xs @ drop (n + 1) xs)"
      using p(10) k(2,3) unfolding deque_repr_def by (intro exI conjI) auto
    from pop_front_repr [OF this b(1)] show ?thesis
      using k(1) it it1 size True n p(4) by (auto simp: Deque_erase_def)
  next
    case False
    have "cells h cs = (replicate ?s None @ map Some (take n xs)) @ map Some (xs ! n # drop (n + 1) xs) @ replicate (C - it_cur (dq_finish d)) None"
      using p(6) xs by (metis append.assoc map_append)
    note mv = std_move_ok [OF p(1) m61 p(8,3) this fin, of "length xs"]
    have len: "length (replicate ?s None @ map Some (take n xs)) = ?s + n" "?s + n + 1 + length (drop (n + 1) xs) = ?s + length xs"
      using n by auto
    from mv [unfolded len] obtain k where k:
      "std_move (length xs) C (dq_map d) (iter_at C (length pre) cs (?s + n + 1)) (iter_at C (length pre) cs (?s + length xs))
        (iter_at C (length pre) cs (?s + n)) h = Some (Inr k)"
      "chunks_ok C k cs" "cells k cs = (replicate ?s None @ map Some (take n xs))
        @ map Some (drop (n + 1) xs @ [last (xs ! n # drop (n + 1) xs)]) @ replicate (C - it_cur (dq_finish d)) None" by (auto simp del: last.simps)
    have "deque_repr C A k d ((take n xs @ drop (n + 1) xs) @ [last (xs ! n # drop (n + 1) xs)])"
      using p(10) k(2,3) unfolding deque_repr_def by (intro exI conjI) auto
    from pop_back_repr [OF this b(1)] show ?thesis
      using k(1) it it1 size False n p(5) by (auto simp: Deque_erase_def)
  qed
qed

section \<open>Ranges of a chunk\<close>

definition set_chunk :: "nat \<Rightarrow> 'a option list \<Rightarrow> 'a dheap \<Rightarrow> 'a dheap" where
  "set_chunk c ys h = h\<lparr>dh_chunks := (dh_chunks h)(c := Some ys)\<rparr>"

lemma set_chunk_simps [simp]:
  "dh_chunks (set_chunk c ys h) = (dh_chunks h)(c := Some ys)" "dh_next (set_chunk c ys h) = dh_next h"
  "set_chunk c ys (set_chunk c zs h) = set_chunk c ys h"
  by (simp_all add: set_chunk_def)

lemma set_chunk_same: "dh_chunks h c = Some ys \<Longrightarrow> set_chunk c ys h = h"
  by (rule dheap.equality) (auto simp: set_chunk_def fun_eq_iff)

lemma construct_range_ok:
  "dh_chunks h c = Some ys \<Longrightarrow> i + length vs \<le> length ys \<Longrightarrow>
   construct_range c i vs h = Inr (set_chunk c (take i ys @ map Some vs @ drop (i + length vs) ys) h)"
proof (induction vs arbitrary: i ys h)
  case Nil
  then show ?case by (simp add: set_chunk_same)
next
  case (Cons v vs)
  have at: "construct_at c i v h = Inr (set_chunk c (ys[i := Some v]) h)"
    using Cons.prems by (simp add: construct_at_def set_chunk_def)
  have eq: "take (i + 1) (ys[i := Some v]) @ map Some vs @ drop (i + 1 + length vs) (ys[i := Some v])
      = take i ys @ map Some (v # vs) @ drop (i + length (v # vs)) ys"
    using Cons.prems(2) by (simp add: take_Suc_conv_app_nth)
  show ?case
    using Cons.IH [of "set_chunk c (ys[i := Some v]) h" "ys[i := Some v]" "i + 1"] Cons.prems at eq by simp
qed

lemma read_range_ok:
  "dh_chunks h c = Some ys \<Longrightarrow> take n (drop i ys) = map Some vs \<Longrightarrow> n = length vs \<Longrightarrow> read_range c i n h = Inr vs"
proof (induction vs arbitrary: i n)
  case (Cons v vs)
  have i: "i < length ys" using Cons.prems by (cases "i < length ys") auto
  have "drop i ys = ys ! i # drop (Suc i) ys" using Cons_nth_drop_Suc [OF i] by simp
  then have "ys ! i = Some v" "take (length vs) (drop (Suc i) ys) = map Some vs" using Cons.prems by auto
  then show ?case using Cons.IH [of "length vs" "Suc i"] Cons.prems i by (simp add: read_at_def)
qed simp

lemma destroy_range_ok:
  "dh_chunks h c = Some ys \<Longrightarrow> take n (drop i ys) = map Some vs \<Longrightarrow> n = length vs \<Longrightarrow>
   destroy_range c i n h = Inr (set_chunk c (take i ys @ replicate n None @ drop (i + n) ys) h)"
proof (induction vs arbitrary: i n ys h)
  case Nil
  then show ?case by (simp add: set_chunk_same)
next
  case (Cons v vs)
  have i: "i < length ys" using Cons.prems by (cases "i < length ys") auto
  have dr: "drop i ys = ys ! i # drop (Suc i) ys" using Cons_nth_drop_Suc [OF i] by simp
  then have v: "ys ! i = Some v" "take (length vs) (drop (Suc i) ys) = map Some vs" using Cons.prems by auto
  have at: "destroy_at c i h = Inr (set_chunk c (ys[i := None]) h)"
    using Cons.prems(1) i v(1) by (simp add: destroy_at_def read_at_def set_chunk_def)
  have eq: "take (Suc i) (ys[i := None]) @ replicate (length vs) None @ drop (Suc i + length vs) (ys[i := None])
      = take i ys @ replicate (Suc (length vs)) None @ drop (i + Suc (length vs)) ys"
    using i by (simp add: take_Suc_conv_app_nth)
  show ?case
    using Cons.IH [of "set_chunk c (ys[i := None]) h" "ys[i := None]" "length vs" "Suc i"] Cons.prems v(2) at eq by simp
qed

lemma set_chunk_ok:
  assumes "chunks_ok C h cs" "length ys = C" "c \<in> set cs"
  shows "chunks_ok C (set_chunk c ys h) cs"
  using assms by (auto simp: chunks_ok_def)

section \<open>Construction\<close>

lemma alloc_chunks_ok:
  assumes "chunks_ok C h ds" "alloc_chunks C n h = (cs, k)"
  shows "chunks_ok C k (cs @ ds) \<and> length cs = n \<and> cells k cs = replicate (n * C) None \<and> cells k ds = cells h ds
    \<and> (\<forall>c. c < dh_next h \<longrightarrow> dh_chunks k c = dh_chunks h c) \<and> (\<forall>c \<in> set cs. dh_next h \<le> c)"
  using assms
proof (induction n arbitrary: h cs ds)
  case (Suc n)
  obtain c h1 where al: "chunk_allocate C h = (c, h1)" by fastforce
  obtain cs' where cs': "alloc_chunks C n h1 = (cs', k)" "cs = c # cs'" using Suc.prems(2) al by (auto split: prod.splits)
  have c: "c = dh_next h" "dh_next h1 = dh_next h + 1" "\<And>b. b < c \<Longrightarrow> dh_chunks h1 b = dh_chunks h b"
    using al by (auto simp: chunk_allocate_def)
  note ok = allocate_ok [OF Suc.prems(1) al]
  note IH = Suc.IH [OF ok(2) cs'(1)]
  have "cells k [c] @ cells k ds = cells h1 [c] @ cells h1 ds" "length (cells k [c]) = length (cells h1 [c])"
  proof -
    show "cells k [c] @ cells k ds = cells h1 [c] @ cells h1 ds" using IH by (simp add: cells_Cons)
    show "length (cells k [c]) = length (cells h1 [c])"
      using IH ok(2) length_cells [of C k "[c]"] length_cells [of C h1 "[c]"] chunks_ok_append [of C k cs' "c # ds"]
        chunks_ok_append [of C k "[c]" ds] chunks_ok_append [of C h1 "[c]" ds] by simp
  qed
  then have "cells k [c] = replicate C None" "cells k ds = cells h ds" using ok(3,4) by auto
  moreover have "chunks_ok C k (c # cs' @ ds)" using IH by (auto simp: chunks_ok_def)
  ultimately show ?case
    using IH cs'(2) c by (auto simp: cells_Cons replicate_add)
qed auto

lemma fill_chunks_ok:
  assumes "chunks_ok C h (as @ bs @ zs)"
  shows "\<exists>k. fill_chunks C v bs h = Inr k \<and> chunks_ok C k (as @ bs @ zs) \<and> cells k as = cells h as
    \<and> cells k bs = replicate (length bs * C) (Some v) \<and> cells k zs = cells h zs"
  using assms
proof (induction bs arbitrary: as h)
  case (Cons b bs)
  obtain ys where ys: "dh_chunks h b = Some ys" "length ys = C" using Cons.prems by (auto simp: chunks_ok_def)
  let ?h1 = "set_chunk b (replicate C (Some v)) h"
  have con: "construct_range b 0 (replicate C v) h = Inr ?h1" using construct_range_ok [OF ys(1), of 0 "replicate C v"] ys(2) by simp
  have nin: "b \<notin> set as" "b \<notin> set bs" "b \<notin> set zs" using Cons.prems by (auto simp: chunks_ok_def)
  have "chunks_ok C ?h1 ((as @ [b]) @ bs @ zs)" using set_chunk_ok [OF Cons.prems, of "replicate C (Some v)" b] by simp
  from Cons.IH [OF this] obtain k where k: "fill_chunks C v bs ?h1 = Inr k" "chunks_ok C k ((as @ [b]) @ bs @ zs)"
    "cells k (as @ [b]) = cells ?h1 (as @ [b])" "cells k bs = replicate (length bs * C) (Some v)" "cells k zs = cells ?h1 zs"
    by blast
  have "cells ?h1 as = cells h as" "cells ?h1 zs = cells h zs" using nin by (auto intro!: cells_cong)
  moreover have "cells ?h1 [b] = replicate C (Some v)" by (simp add: cells_Cons)
  moreover have "length (cells k as) = length (cells ?h1 as)"
    using length_cells [of C k as] length_cells [of C ?h1 as] k(2) \<open>chunks_ok C ?h1 ((as @ [b]) @ bs @ zs)\<close>
    by (simp add: chunks_ok_append)
  ultimately have "cells k as = cells h as" "cells k [b] = replicate C (Some v)" using k(3) by auto
  then show ?case using k con \<open>cells ?h1 zs = cells h zs\<close> by (simp add: cells_Cons replicate_add)
qed simp

lemma new_repr:
  assumes h: "chunks_ok C h []" and C: "0 < C"
  shows "\<exists>k d. Deque_new C n v h = Inr (k, d) \<and> deque_repr C (n div C + 1) k d (replicate n v) \<and> it_cur (dq_start d) = 0"
proof -
  let ?q = "n div C"
  obtain cs h1 where al: "alloc_chunks C (Suc ?q) h = (cs, h1)" by fastforce
  have ok: "chunks_ok C h1 cs" "length cs = Suc ?q" "cells h1 cs = replicate (Suc ?q * C) None"
    using alloc_chunks_ok [OF h al] by auto
  obtain bs c where cs: "cs = bs @ [c]" using ok(2) by (cases cs rule: rev_cases) auto
  have bs: "length bs = ?q" using ok(2) cs by simp
  obtain h2 where h2: "fill_chunks C v bs h1 = Inr h2" "chunks_ok C h2 (bs @ [c])"
    "cells h2 bs = replicate (?q * C) (Some v)" "cells h2 [c] = cells h1 [c]"
    using fill_chunks_ok [of C h1 "[]" bs "[c]" v] ok(1) cs bs by auto
  have len: "length (cells h1 bs) = ?q * C" using length_cells [of C h1 bs] ok(1) cs bs by (simp add: chunks_ok_append)
  have "cells h1 [c] = drop (?q * C) (cells h1 cs)" using len cs by simp
  then have c: "cells h2 [c] = replicate C None" using h2(4) ok(3) by simp
  obtain ys where ys: "dh_chunks h2 c = Some ys" "ys = replicate C None" using h2(2) c by (auto simp: chunks_ok_def cells_Cons)
  let ?h3 = "set_chunk c (replicate (n mod C) (Some v) @ replicate (C - n mod C) None) h2"
  have lt: "n mod C < C" using C by simp
  have h3: "construct_range c 0 (replicate (n mod C) v) h2 = Inr ?h3"
    using construct_range_ok [OF ys(1), of 0 "replicate (n mod C) v"] ys(2) lt by simp
  let ?map = "Some ([None] @ map Some cs @ [None])"
  let ?d = "\<lparr>dq_map = ?map, dq_start = \<lparr>it_chunk = hd cs, it_cur = 0, it_node = 1\<rparr>,
      dq_finish = \<lparr>it_chunk = last cs, it_cur = n mod C, it_node = Suc ?q\<rparr>\<rparr>"
  have new: "Deque_new C n v h = Inr (?h3, ?d)"
    using al h2(1) h3 cs ok(2) by (simp add: Deque_new_def Let_def)
  have "deque_shape C (?q + 1) ?d cs"
    by (rule shapeI [of _ "[None]" cs "[None]"]) (use cs bs lt C in \<open>auto simp: map_room_def\<close>)
  moreover have "chunks_ok C ?h3 cs" using set_chunk_ok [OF h2(2), of _ c] cs lt by simp
  moreover have "cells ?h3 cs = replicate n (Some v) @ replicate (C - n mod C) None"
  proof -
    have "c \<notin> set bs" using h2(2) by (auto simp: chunks_ok_def)
    then have "cells ?h3 bs = cells h2 bs" by (auto intro!: cells_cong)
    moreover have "replicate (?q * C) (Some v) @ replicate (n mod C) (Some v) = replicate n (Some v)"
      by (simp flip: replicate_add)
    ultimately show ?thesis using h2(3) cs by (simp add: cells_Cons)
  qed
  ultimately have "deque_repr C (?q + 1) ?h3 ?d (replicate n v)" unfolding deque_repr_def by (intro exI conjI) auto
  then show ?thesis using new by (intro exI conjI) auto
qed

section \<open>Copying and deleting\<close>

text \<open>The chunks of a deque: either one chunk, or a first, full ones between and a last.\<close>

lemma repr_one_chunk:
  assumes "chunks_ok C h [c]" "cells h [c] = ys"
  shows "dh_chunks h c = Some ys"
  using assms by (auto simp: chunks_ok_def cells_Cons)

lemma repr_chunks:
  assumes ok: "chunks_ok C h (c # mid @ [l])" and sc: "sc < C" and fc: "fc < C"
    and cells: "cells h (c # mid @ [l]) = replicate sc None @ map Some xs @ replicate (C - fc) None"
  obtains x1 x2 x3 where "xs = x1 @ x2 @ x3" "length x1 = C - sc" "length x2 = length mid * C" "length x3 = fc"
    "dh_chunks h c = Some (replicate sc None @ map Some x1)" "cells h mid = map Some x2"
    "dh_chunks h l = Some (map Some x3 @ replicate (C - fc) None)"
proof -
  have parts: "chunks_ok C h [c]" "chunks_ok C h mid" "chunks_ok C h [l]" using ok by (auto simp: chunks_ok_def)
  note lens = length_cells [OF parts(1)] length_cells [OF parts(2)] length_cells [OF parts(3)]
  have all: "cells h [c] @ cells h mid @ cells h [l] = replicate sc None @ map Some xs @ replicate (C - fc) None"
    using cells by (simp add: cells_Cons)
  have len: "C + length mid * C + C = sc + length xs + (C - fc)"
    using arg_cong [OF all, of length] lens by simp
  define x1 x2 x3 where "x1 = take (C - sc) xs" and "x2 = take (length mid * C) (drop (C - sc) xs)"
    and "x3 = drop (C - sc + length mid * C) xs"
  have xs: "xs = x1 @ x2 @ x3" unfolding x1_def x2_def x3_def
    by (metis append_take_drop_id drop_drop add.commute)
  have l: "length x1 = C - sc" "length x2 = length mid * C" "length x3 = fc"
    using len sc fc by (auto simp: x1_def x2_def x3_def)
  have eq: "cells h [c] @ cells h mid @ cells h [l] =
      (replicate sc None @ map Some x1) @ map Some x2 @ (map Some x3 @ replicate (C - fc) None)"
    using all xs by simp
  have e1: "length (cells h [c]) = length (replicate sc None @ map Some x1)" and e2: "length (cells h mid) = length (map Some x2)"
    using lens l sc by simp_all
  note s1 = append_eq_append_conv [THEN iffD1, OF disjI1 [OF e1] eq]
  note s2 = append_eq_append_conv [THEN iffD1, OF disjI1 [OF e2] conjunct2 [OF s1]]
  have "cells h [c] = replicate sc None @ map Some x1" "cells h mid = map Some x2"
    "cells h [l] = map Some x3 @ replicate (C - fc) None"
    using s1 s2 by auto
  then show thesis
    using that [OF xs l] repr_one_chunk [OF parts(1)] repr_one_chunk [OF parts(3)] by blast
qed

lemma copy_middle_ok:
  assumes "length dst = length src" "distinct dst" "set src \<inter> set dst = {}" "cells h src = map Some vs"
    and "\<And>c. c \<in> set src \<union> set dst \<Longrightarrow> \<exists>ys. dh_chunks h c = Some ys \<and> length ys = C"
  shows "\<exists>k. copy_middle C (zip src dst) h = Inr k \<and> cells k dst = map Some vs \<and> dh_next k = dh_next h
    \<and> (\<forall>c. c \<notin> set dst \<longrightarrow> dh_chunks k c = dh_chunks h c)
    \<and> (\<forall>c \<in> set dst. \<exists>ys. dh_chunks k c = Some ys \<and> length ys = C)"
  using assms
proof (induction src arbitrary: dst h vs)
  case Nil
  then show ?case by simp
next
  case (Cons s src)
  obtain d dst' where d: "dst = d # dst'" using Cons.prems(1) by (cases dst) auto
  obtain ys where ys: "dh_chunks h s = Some ys" "length ys = C" using Cons.prems(5) by (metis Un_iff list.set_intros(1))
  obtain zs where zs: "dh_chunks h d = Some zs" "length zs = C" using Cons.prems(5) d by (metis Un_iff list.set_intros(1))
  have split: "ys = map Some (take C vs)" "cells h src = map Some (drop C vs)" "length (take C vs) = C"
  proof -
    have e: "ys @ cells h src = map Some vs" using Cons.prems(4) ys by (simp add: cells_Cons)
    then have "take C (map Some vs) = ys" "drop C (map Some vs) = cells h src" using ys(2) by (metis append_eq_conv_conj)+
    then show "ys = map Some (take C vs)" "cells h src = map Some (drop C vs)" by (simp_all add: take_map drop_map)
    then show "length (take C vs) = C" using ys(2) by (metis length_map)
  qed
  have rd: "read_range s 0 C h = Inr (take C vs)" using read_range_ok [OF ys(1), of C 0 "take C vs"] split ys(2) by simp
  let ?h1 = "set_chunk d ys h"
  have con: "construct_range d 0 (take C vs) h = Inr ?h1"
    using construct_range_ok [OF zs(1), of 0 "take C vs"] split zs(2) by simp
  have nin: "d \<notin> set src" "d \<noteq> s" "d \<notin> set dst'" using Cons.prems(2,3) d by auto
  have "cells ?h1 src = map Some (drop C vs)" using split(2) nin(1) cells_cong [of src ?h1 h] by (metis fun_upd_other set_chunk_simps(1))
  moreover have "\<exists>ys. dh_chunks ?h1 c = Some ys \<and> length ys = C" if "c \<in> set src \<union> set dst'" for c
    using Cons.prems(5) [of c] that d ys(2) by (cases "c = d") auto
  ultimately obtain k where k: "copy_middle C (zip src dst') ?h1 = Inr k"
    "cells k dst' = map Some (drop C vs)" "dh_next k = dh_next ?h1"
    "\<forall>c. c \<notin> set dst' \<longrightarrow> dh_chunks k c = dh_chunks ?h1 c"
    "\<forall>c \<in> set dst'. \<exists>ys. dh_chunks k c = Some ys \<and> length ys = C"
    using Cons.IH [of dst' ?h1 "drop C vs"] Cons.prems(1-3) d by auto
  have "dh_chunks k d = Some ys" using k(4) nin(3) by simp
  moreover have "ys @ map Some (drop C vs) = map Some vs" using split(1) by (metis append_take_drop_id map_append)
  ultimately have "cells k (d # dst') = map Some vs" using k(2) by (simp add: cells_Cons)
  then show ?case using rd con k d \<open>dh_chunks k d = Some ys\<close> ys(2) by auto
qed

lemma used_nodes_ok:
  assumes "deque_shape C A d cs"
  shows "used_nodes d = Inr cs"
proof -
  obtain pre post where m: "dq_map d = Some (pre @ map Some cs @ post)" "it_node (dq_start d) = length pre"
    "it_node (dq_finish d) + 1 = length pre + length cs" using assms unfolding deque_shape_def by blast
  have "those (map Some cs) = Some cs" by (induction cs) auto
  then show ?thesis using m by (simp add: used_nodes_def)
qed

lemma raw_chunk:
  assumes "chunks_ok C h ds" "cells h ds = replicate (length ds * C) None" "c \<in> set ds"
  shows "dh_chunks h c = Some (replicate C None)"
proof -
  obtain ys where ys: "dh_chunks h c = Some ys" "length ys = C" using assms(1,3) by (auto simp: chunks_ok_def)
  have "set ys \<subseteq> set (cells h ds)" using assms(3) ys by (force simp: cells_def)
  then have "set ys \<subseteq> {None}" unfolding assms(2) by (cases "length ds * C = 0") auto
  then have "ys = replicate C None" using ys(2) by (metis replicate_length_same subset_singleton_iff empty_iff singletonD)
  then show ?thesis using ys(1) by simp
qed

lemma chunks_ok_frame:
  assumes "chunks_ok C h cs" "dh_next k = dh_next h" "\<And>b. b \<notin> set ds \<Longrightarrow> dh_chunks k b = dh_chunks h b" "set ds \<subseteq> set cs"
    and "\<And>b. b \<in> set ds \<Longrightarrow> \<exists>ys. dh_chunks k b = Some ys \<and> length ys = C"
  shows "chunks_ok C k cs"
  unfolding chunks_ok_def
proof (intro conjI ballI allI impI)
  show "distinct cs" using assms(1) by (simp add: chunks_ok_def)
  show "\<exists>ys. dh_chunks k b = Some ys \<and> length ys = C" if "b \<in> set cs" for b
    using that assms(1,3,5) by (cases "b \<in> set ds") (auto simp: chunks_ok_def)
  show "dh_chunks k b = None" if "dh_next k \<le> b" for b
  proof -
    have "dh_chunks h b = None" using that assms(1,2) by (simp add: chunks_ok_def)
    moreover from this have "b \<notin> set ds" using assms(1,4) by (fastforce simp: chunks_ok_def)
    ultimately show ?thesis using assms(3) by simp
  qed
qed

lemma copy_elements_ok:
  assumes ok: "chunks_ok C h (ds @ cs)" and len: "length ds = length cs" "cs \<noteq> []"
    and raw: "cells h ds = replicate (length ds * C) None"
    and cells: "cells h cs = replicate (it_cur (dq_start d)) None @ map Some xs @ replicate (C - it_cur (dq_finish d)) None"
    and cur: "it_cur (dq_start d) < C" "it_cur (dq_finish d) < C"
  shows "\<exists>k. copy_elements C cs ds d h = Inr k \<and> cells k ds = cells h cs \<and> chunks_ok C k (ds @ cs)
    \<and> (\<forall>c \<in> set cs. dh_chunks k c = dh_chunks h c)"
proof -
  let ?sc = "it_cur (dq_start d)" and ?fc = "it_cur (dq_finish d)"
  have oks: "chunks_ok C h ds" "chunks_ok C h cs" "set ds \<inter> set cs = {}" using ok by (auto simp: chunks_ok_append)
  show ?thesis
  proof (cases cs rule: rev_cases)
    case Nil
    then show ?thesis using len by simp
  next
    case (snoc init l)
    show ?thesis
    proof (cases init)
      case Nil
      obtain e where e: "ds = [e]" using len snoc Nil by (cases ds) auto
      have l: "dh_chunks h l = Some (replicate ?sc None @ map Some xs @ replicate (C - ?fc) None)"
        using repr_one_chunk [of C h l] oks(2) cells snoc Nil by simp
      have n: "?sc + length xs = ?fc" using length_cells [OF oks(2)] cells snoc Nil cur by simp
      have rd: "read_range l ?sc (?fc - ?sc) h = Inr xs" using read_range_ok [OF l, of "?fc - ?sc" ?sc xs] by (simp flip: n)
      let ?k = "set_chunk e (replicate ?sc None @ map Some xs @ replicate (C - ?fc) None) h"
      have "construct_range e ?sc xs h = Inr ?k"
        using construct_range_ok [OF raw_chunk [OF oks(1) raw], of e ?sc xs] n e cur by simp
      then have "copy_elements C cs ds d h = Inr ?k" using rd snoc Nil e by (simp add: copy_elements_def)
      moreover have "chunks_ok C ?k (ds @ cs)"
        using set_chunk_ok [OF ok, of _ e] e n cur length_cells [OF oks(2)] cells snoc Nil by simp
      ultimately show ?thesis using cells e oks(3) by (auto simp: cells_Cons)
    next
      case (Cons c mid)
      then have cs: "cs = c # mid @ [l]" using snoc by simp
      obtain e mid' f where ds: "ds = e # mid' @ [f]" "length mid' = length mid"
        using len cs by (cases ds) (auto simp: length_Suc_conv_rev)
      obtain x1 x2 x3 where x: "xs = x1 @ x2 @ x3" "length x1 = C - ?sc" "length x2 = length mid * C" "length x3 = ?fc"
        "dh_chunks h c = Some (replicate ?sc None @ map Some x1)" "cells h mid = map Some x2"
        "dh_chunks h l = Some (map Some x3 @ replicate (C - ?fc) None)"
        using repr_chunks [of C h c mid l ?sc ?fc xs] oks(2) cells cs cur by metis
      have dis: "distinct (e # mid' @ [f])" "set ds \<inter> set cs = {}" using oks ds by (auto simp: chunks_ok_def)
      have "\<exists>ys. dh_chunks h b = Some ys \<and> length ys = C" if "b \<in> set mid \<union> set mid'" for b
        using that oks cs ds(1) by (auto simp: chunks_ok_def)
      from copy_middle_ok [OF ds(2) _ _ x(6) this] obtain k1 where k1: "copy_middle C (zip mid mid') h = Inr k1"
        "cells k1 mid' = map Some x2" "dh_next k1 = dh_next h" "\<forall>b. b \<notin> set mid' \<longrightarrow> dh_chunks k1 b = dh_chunks h b"
        "\<forall>b \<in> set mid'. \<exists>ys. dh_chunks k1 b = Some ys \<and> length ys = C"
        using dis cs ds(1) by auto
      have same: "dh_chunks k1 c = dh_chunks h c" "dh_chunks k1 l = dh_chunks h l" "dh_chunks k1 e = Some (replicate C None)"
        "dh_chunks k1 f = Some (replicate C None)"
        using k1(4) dis cs ds(1) raw_chunk [OF oks(1) raw] by auto
      have c1: "dh_chunks k1 c = Some (replicate ?sc None @ map Some x1)" using same(1) x(5) by simp
      have rd1: "read_range c ?sc (C - ?sc) k1 = Inr x1" by (rule read_range_ok [OF c1]) (simp_all add: x(2))
      let ?k2 = "set_chunk e (replicate ?sc None @ map Some x1) k1"
      have con1: "construct_range e ?sc x1 k1 = Inr ?k2"
        using construct_range_ok [OF same(3), of ?sc x1] x(2) cur(1) by (simp add: min_def)
      have l2: "dh_chunks ?k2 l = Some (map Some x3 @ replicate (C - ?fc) None)" using same(2) x(7) dis cs ds(1) by auto
      have f2: "dh_chunks ?k2 f = Some (replicate C None)" using same(4) dis by auto
      have rd2: "read_range l 0 ?fc ?k2 = Inr x3" by (rule read_range_ok [OF l2]) (simp_all add: x(4))
      let ?k3 = "set_chunk f (map Some x3 @ replicate (C - ?fc) None) ?k2"
      have con2: "construct_range f 0 x3 ?k2 = Inr ?k3"
        using construct_range_ok [OF f2, of 0 x3] x(4) cur(2) by simp
      have zip: "butlast (tl (zip cs ds)) = zip mid mid'" using cs ds by (simp add: butlast_append)
      have run: "copy_elements C cs ds d h = Inr ?k3"
        using k1(1) rd1 con1 rd2 con2 cs ds zip by (simp add: copy_elements_def)
      have frame: "dh_chunks ?k3 b = dh_chunks h b" if "b \<notin> set ds" for b using that k1(4) ds(1) by auto
      have "cells ?k3 mid' = cells k1 mid'" by (rule cells_cong) (use dis in auto)
      then have "cells ?k3 mid' = map Some x2" using k1(2) by simp
      then have "cells ?k3 ds = cells h cs"
        unfolding ds(1) cs using dis x(5-7) by (simp add: cells_Cons)
      moreover have "\<exists>ys. dh_chunks ?k3 b = Some ys \<and> length ys = C" if "b \<in> set ds" for b
        using that k1(5) x(2,4) cur dis(1) ds(1) by auto
      then have "chunks_ok C ?k3 (ds @ cs)" using k1(3) frame by (intro chunks_ok_frame [OF ok, of _ ds]) auto
      moreover have "\<forall>b \<in> set cs. dh_chunks ?k3 b = dh_chunks h b" using frame dis(2) by blast
      ultimately show ?thesis using run by blast
    qed
  qed
qed

lemma copy_repr:
  assumes r: "deque_repr C A h d xs"
  shows "\<exists>k e. Deque_copy C d h = Inr (k, e) \<and> deque_repr C A k e xs \<and> deque_repr C A k d xs
    \<and> (\<exists>cs ds. used_nodes d = Inr cs \<and> used_nodes e = Inr ds \<and> set cs \<inter> set ds = {})"
proof -
  obtain cs where cs: "deque_shape C A d cs" "chunks_ok C h cs"
    "cells h cs = replicate (it_cur (dq_start d)) None @ map Some xs @ replicate (C - it_cur (dq_finish d)) None"
    "cs \<noteq> []" "it_cur (dq_start d) < C" "it_cur (dq_finish d) < C" using reprE [OF r] by metis
  obtain pre post where m: "dq_map d = Some (pre @ map Some cs @ post)"
    "map_room A (length pre) (length cs) (length post)" "it_node (dq_start d) = length pre"
    "it_node (dq_finish d) = length pre + (length cs - 1)" using shapeE [OF cs(1)] by metis
  obtain ds h1 where al: "alloc_chunks C (length cs) h = (ds, h1)" by fastforce
  have ok: "chunks_ok C h1 (ds @ cs)" "length ds = length cs" "cells h1 ds = replicate (length ds * C) None" "cells h1 cs = cells h cs"
    using alloc_chunks_ok [OF cs(2) al] by auto
  obtain k where k: "copy_elements C cs ds d h1 = Inr k" "cells k ds = cells h cs" "chunks_ok C k (ds @ cs)"
    "\<forall>c \<in> set cs. dh_chunks k c = dh_chunks h1 c"
    using copy_elements_ok [OF ok(1,2) cs(4) ok(3), of d xs] cs(3,5,6) ok(4) by auto
  let ?ns = "replicate (length pre) None @ map Some ds @ replicate (length post) None"
  let ?e = "\<lparr>dq_map = Some ?ns, dq_start = \<lparr>it_chunk = hd ds, it_cur = it_cur (dq_start d), it_node = length pre\<rparr>,
      dq_finish = \<lparr>it_chunk = last ds, it_cur = it_cur (dq_finish d), it_node = length pre + (length cs - 1)\<rparr>\<rparr>"
  have copy: "Deque_copy C d h = Inr (k, ?e)"
    using used_nodes_ok [OF cs(1)] al k(1) m ok(2) by (simp add: Deque_copy_def map_size_def Let_def)
  have ds: "ds \<noteq> []" using ok(2) cs(4) by auto
  have shape: "deque_shape C A ?e ds"
    by (rule shapeI [of _ "replicate (length pre) None" ds "replicate (length post) None"]) (use m cs ok(2) ds in auto)
  have oks: "chunks_ok C k ds" "chunks_ok C k cs" "set cs \<inter> set ds = {}" using k(3) by (auto simp: chunks_ok_append)
  have "cells k cs = cells h cs" using k(4) ok(4) cells_cong [of cs k h1] by auto
  then have "deque_repr C A k d xs" using cs oks unfolding deque_repr_def by auto
  moreover have "deque_repr C A k ?e xs" using shape oks k(2) cs(3) unfolding deque_repr_def by auto
  ultimately show ?thesis using copy used_nodes_ok [OF shape] used_nodes_ok [OF cs(1)] oks(3) by blast
qed

definition free_chunks :: "nat list \<Rightarrow> 'a dheap \<Rightarrow> 'a dheap" where
  "free_chunks cs h = h\<lparr>dh_chunks := (\<lambda>c. if c \<in> set cs then None else dh_chunks h c)\<rparr>"

lemma free_chunks_simps [simp]:
  "dh_chunks (free_chunks cs h) = (\<lambda>c. if c \<in> set cs then None else dh_chunks h c)" "dh_next (free_chunks cs h) = dh_next h"
  "free_chunks [] h = h" "free_chunks bs (free_chunks cs h) = free_chunks (cs @ bs) h"
  by (auto simp: free_chunks_def fun_eq_iff intro!: dheap.equality)

lemma free_chunks_set: "set bs = set cs \<Longrightarrow> free_chunks bs h = free_chunks cs h"
  by (simp add: free_chunks_def)

lemma deallocate_set: "chunk_deallocate c (set_chunk c ys h) = Inr (free_chunks [c] h)"
  by (auto simp: chunk_deallocate_def set_chunk_def free_chunks_def fun_eq_iff intro!: dheap.equality)

lemma delete_middle_ok:
  assumes "distinct cs" "cells h cs = map Some vs" "\<And>c. c \<in> set cs \<Longrightarrow> \<exists>ys. dh_chunks h c = Some ys \<and> length ys = C"
  shows "delete_middle C cs h = Inr (free_chunks cs h)"
  using assms
proof (induction cs arbitrary: h vs)
  case (Cons c cs)
  obtain ys where ys: "dh_chunks h c = Some ys" "length ys = C" using Cons.prems(3) by auto
  have e: "ys @ cells h cs = map Some vs" using Cons.prems(2) ys by (simp add: cells_Cons)
  then have "take C (map Some vs) = ys" and rest: "drop C (map Some vs) = cells h cs" using ys(2) by (metis append_eq_conv_conj)+
  then have y: "ys = map Some (take C vs)" by (simp add: take_map)
  then have len: "length (take C vs) = C" using ys(2) by (metis length_map)
  have des: "destroy_range c 0 C h = Inr (set_chunk c (replicate C None) h)"
    using destroy_range_ok [OF ys(1), of C 0 "take C vs"] y ys(2) len by simp
  let ?h2 = "free_chunks [c] h"
  have "cells ?h2 cs = cells h cs" using Cons.prems(1) by (intro cells_cong) auto
  then have "cells ?h2 cs = map Some (drop C vs)" using rest by (simp add: drop_map)
  moreover have "\<exists>ys. dh_chunks ?h2 b = Some ys \<and> length ys = C" if "b \<in> set cs" for b
    using that Cons.prems(1,3) by auto
  ultimately have "delete_middle C cs ?h2 = Inr (free_chunks (c # cs) h)"
    using Cons.IH [of ?h2] Cons.prems(1) by simp
  then show ?case using des deallocate_set [of c "replicate C None" h] by simp
qed simp

lemma delete_repr:
  assumes r: "deque_repr C A h d xs"
  shows "\<exists>cs. used_nodes d = Inr cs \<and> Deque_delete C d h = Inr (free_chunks cs h, d\<lparr>dq_map := None\<rparr>)"
proof -
  obtain cs where cs: "deque_shape C A d cs" "chunks_ok C h cs"
    "cells h cs = replicate (it_cur (dq_start d)) None @ map Some xs @ replicate (C - it_cur (dq_finish d)) None"
    "cs \<noteq> []" "it_cur (dq_start d) < C" "it_cur (dq_finish d) < C" using reprE [OF r] by metis
  obtain pre post where m: "dq_map d = Some (pre @ map Some cs @ post)" "it_node (dq_start d) = length pre"
    "it_chunk (dq_start d) = hd cs" "it_node (dq_finish d) = length pre + (length cs - 1)" "it_chunk (dq_finish d) = last cs"
    using shapeE [OF cs(1)] by metis
  let ?sc = "it_cur (dq_start d)" and ?fc = "it_cur (dq_finish d)"
  have nodes: "used_nodes d = Inr cs" by (rule used_nodes_ok [OF cs(1)])
  have "Deque_delete C d h = Inr (free_chunks cs h, d\<lparr>dq_map := None\<rparr>)"
  proof (cases "length cs = 1")
    case True
    then obtain l where l1: "cs = [l]" by (auto simp: length_Suc_conv)
    have l: "dh_chunks h l = Some (replicate ?sc None @ map Some xs @ replicate (C - ?fc) None)"
      using repr_one_chunk [of C h l] cs(2,3) l1 by simp
    have n: "?sc + length xs = ?fc" using length_cells [OF cs(2)] cs(3,5,6) l1 by simp
    have "\<exists>ys. destroy_range l ?sc (?fc - ?sc) h = Inr (set_chunk l ys h)"
      using destroy_range_ok [OF l, of "?fc - ?sc" ?sc xs] by (simp flip: n) blast
    then show ?thesis using m l1 by (auto simp: Deque_delete_def Let_def deallocate_set)
  next
    case False
    then obtain c mid l where c: "cs = c # mid @ [l]" using cs(4) by (cases cs; cases "tl cs" rule: rev_cases) auto
    obtain x1 x2 x3 where x: "length x1 = C - ?sc" "length x3 = ?fc"
      "dh_chunks h c = Some (replicate ?sc None @ map Some x1)" "cells h mid = map Some x2"
      "dh_chunks h l = Some (map Some x3 @ replicate (C - ?fc) None)"
      using repr_chunks [of C h c mid l ?sc ?fc xs] cs(2,3,5,6) c by metis
    have dis: "distinct (c # mid @ [l])" using cs(2) c by (simp add: chunks_ok_def)
    have 1: "delete_middle C mid h = Inr (free_chunks mid h)"
      by (rule delete_middle_ok [OF _ x(4)]) (use dis cs(2) c in \<open>auto simp: chunks_ok_def\<close>)
    have c1: "dh_chunks (free_chunks mid h) c = Some (replicate ?sc None @ map Some x1)" using x(3) dis by simp
    have "\<exists>y. destroy_range c ?sc (C - ?sc) (free_chunks mid h) = Inr (set_chunk c y (free_chunks mid h))"
      by (rule exI, rule destroy_range_ok [OF c1, of _ _ x1]) (simp_all add: x(1))
    then obtain y1 where 2: "destroy_range c ?sc (C - ?sc) (free_chunks mid h) = Inr (set_chunk c y1 (free_chunks mid h))" ..
    have l2: "dh_chunks (free_chunks (mid @ [c]) h) l = Some (map Some x3 @ replicate (C - ?fc) None)" using x(5) dis by auto
    have "\<exists>y. destroy_range l 0 ?fc (free_chunks (mid @ [c]) h) = Inr (set_chunk l y (free_chunks (mid @ [c]) h))"
      by (rule exI, rule destroy_range_ok [OF l2, of _ _ x3]) (simp_all add: x(2))
    then obtain y2 where 3: "destroy_range l 0 ?fc (free_chunks (mid @ [c]) h) = Inr (set_chunk l y2 (free_chunks (mid @ [c]) h))" ..
    have "free_chunks (mid @ [c, l]) h = free_chunks cs h" by (rule free_chunks_set) (auto simp: c)
    then show ?thesis
      using m nodes 1 2 3 deallocate_set [of c y1 "free_chunks mid h"] deallocate_set [of l y2 "free_chunks (mid @ [c]) h"]
      unfolding Deque_delete_def c by (simp add: butlast_append Let_def)
  qed
  then show ?thesis using nodes by blast
qed

section \<open>Sequences of operations\<close>

datatype 'a dq_cmd = Push_back 'a | Push_front 'a | Pop_back | Pop_front | Erase nat

fun dq_exec :: "nat \<Rightarrow> 'a dq_cmd \<Rightarrow> 'a dheap \<times> deque \<Rightarrow> (dq_error + ('a dheap \<times> deque)) option" where
  "dq_exec C (Push_back x) (h, d) = Some (Deque_push_back C x h d)"
| "dq_exec C (Push_front x) (h, d) = Some (Deque_push_front C x h d)"
| "dq_exec C Pop_back (h, d) = Some (Deque_pop_back C h d)"
| "dq_exec C Pop_front (h, d) = Some (Deque_pop_front C h d)"
| "dq_exec C (Erase n) (h, d) = Deque_erase C (int n) h d"

text \<open>The specification: the list. Removing from an empty deque and erasing out of range have no meaning.\<close>

fun dq_spec :: "'a dq_cmd \<Rightarrow> 'a list \<Rightarrow> 'a list option" where
  "dq_spec (Push_back x) xs = Some (xs @ [x])"
| "dq_spec (Push_front x) xs = Some (x # xs)"
| "dq_spec Pop_back xs = (if xs = [] then None else Some (butlast xs))"
| "dq_spec Pop_front xs = (if xs = [] then None else Some (tl xs))"
| "dq_spec (Erase n) xs = (if n < length xs then Some (take n xs @ drop (n + 1) xs) else None)"

definition dq_rel :: "nat \<Rightarrow> nat \<Rightarrow> 'a dheap \<times> deque \<Rightarrow> 'a list \<Rightarrow> bool" where
  "dq_rel C A s xs \<longleftrightarrow> deque_repr C A (fst s) (snd s) xs \<and> C < 2 ^ 32 \<and> length xs \<le> A + 2 ^ 50"

lemma repr_mono: "deque_repr C A h d xs \<Longrightarrow> deque_repr C (A + 1) h d xs"
  unfolding deque_repr_def deque_shape_def using map_room_steps(1) by blast

interpretation deque: simulation "dq_exec C" dq_spec "dq_rel C" "2 ^ 50" for C
proof unfold_locales
  fix A s and xs ys :: "'a list" and c
  assume rel: "dq_rel C A s xs" and A: "A < 2 ^ 50" and spec: "dq_spec c xs = Some ys"
  obtain h d where s: "s = (h, d)" by (cases s)
  have r: "deque_repr C A h d xs" and C: "C < 2 ^ 32" and len: "length xs \<le> A + 2 ^ 50" using rel s by (auto simp: dq_rel_def)
  show "\<exists>t. dq_exec C c s = Some (Inr t) \<and> dq_rel C (A + 1) t ys"
  proof (cases c)
    case (Push_back x)
    then show ?thesis using push_back_repr [OF r A, of x] spec s C len by (auto simp: dq_rel_def)
  next
    case (Push_front x)
    then show ?thesis using push_front_repr [OF r A, of x] spec s C len by (auto simp: dq_rel_def)
  next
    case Pop_back
    then obtain x where "xs = ys @ [x]" using spec by (cases xs rule: rev_cases) auto
    then show ?thesis using pop_back_repr [of C A h d ys x] r A Pop_back s C len by (auto simp: dq_rel_def dest: repr_mono)
  next
    case Pop_front
    then obtain x where "xs = x # ys" using spec by (cases xs) auto
    then show ?thesis using pop_front_repr [of C A h d x ys] r A Pop_front s C len by (auto simp: dq_rel_def dest: repr_mono)
  next
    case (Erase n)
    then have "n < length xs" "ys = take n xs @ drop (n + 1) xs" using spec by (auto split: if_splits)
    then show ?thesis using erase_repr [OF r A C, of n] len A Erase s C by (auto simp: dq_rel_def dest: repr_mono)
  qed
qed

lemma new_rel:
  assumes "chunks_ok C h []" "0 < C" "C < 2 ^ 32" "n < 2 ^ 49"
  shows "\<exists>k d. Deque_new C n v h = Inr (k, d) \<and> dq_rel C (n div C + 1) (k, d) (replicate n v) \<and> n div C + 1 \<le> 2 ^ 49"
proof -
  have "n div C < 2 ^ 49" using assms(4) div_le_dividend [of n C] by linarith
  then show ?thesis using new_repr [OF assms(1,2), of n v] assms(3,4) by (auto simp: dq_rel_def)
qed

lemma finish_cur:
  assumes "deque_repr C A h d xs"
  shows "(it_cur (dq_start d) + length xs) mod C = it_cur (dq_finish d)"
proof -
  obtain cs :: "nat list" where "(length cs - 1) * C + it_cur (dq_finish d) = it_cur (dq_start d) + length xs"
    "it_cur (dq_finish d) < C" using reprE [OF assms] by metis
  then show ?thesis by (metis mod_less mod_mult_self3)
qed

text \<open>A store without chunks.\<close>

definition dheap0 :: "'a dheap" where
  "dheap0 = \<lparr>dh_chunks = (\<lambda>_. None), dh_next = 0\<rparr>"

lemma dheap0_ok: "chunks_ok C dheap0 []"
  by (simp add: chunks_ok_def dheap0_def)

section \<open>Properties\<close>

text \<open>C8: a new deque of \<open>n\<close> copies of a value, worked on by any sequence of pushes and pops at both ends and of erasures
  that the list specification allows (fewer than \<open>2 ^ 48\<close> of them), never fails and behaves as the
  list: \<open>size\<close>, every \<open>operator[]\<close> within the size, \<open>front\<close>, and \<open>back\<close> when the chunk size divides 8, return
  what the list holds, an index at or above the size raises \<open>out_of_range\<close>.\<close>

theorem deque_refines_list:
  assumes "chunks_ok C h []" "0 < C" "C < 2 ^ 32" "n < 2 ^ 49" "length cmds < 2 ^ 48"
    and "spec_cmds dq_spec cmds (replicate n v) = Some xs"
  shows "\<exists>k0 d0 k d. Deque_new C n v h = Inr (k0, d0) \<and> run_cmds (dq_exec C) cmds (k0, d0) = Some (Inr (k, d))
    \<and> Deque_size C d = length xs
    \<and> (\<forall>i. (if i < length xs then \<exists>it. Deque_index C i d = Inr it \<and> deref k it = Inr (xs ! i) else Deque_index C i d = Inl Out_of_range))
    \<and> (xs \<noteq> [] \<longrightarrow> Deque_front k d = Inr (hd xs) \<and> (C dvd 8 \<longrightarrow> Deque_back C k d = Inr (last xs)))"
proof -
  obtain k0 d0 where new: "Deque_new C n v h = Inr (k0, d0)" "dq_rel C (n div C + 1) (k0, d0) (replicate n v)"
    and A: "n div C + 1 \<le> 2 ^ 49" using new_rel [OF assms(1-4)] by blast
  have "n div C + 1 + length cmds \<le> 2 ^ 49 + 2 ^ 48" using A assms(5) by linarith
  then have b: "n div C + 1 + length cmds < 2 ^ 50" by simp
  obtain k d where run: "run_cmds (dq_exec C) cmds (k0, d0) = Some (Inr (k, d))"
    and rel: "dq_rel C (n div C + 1 + length cmds) (k, d) xs"
    using deque.run_sim [OF new(2) _ assms(6)] b by fastforce
  then have r: "deque_repr C (n div C + 1 + length cmds) k d xs" and len: "length xs < 2 ^ 62"
    using b by (auto simp: dq_rel_def)
  have size: "Deque_size C d = length xs" using size_repr [OF r] len by simp
  have "if i < length xs then \<exists>it. Deque_index C i d = Inr it \<and> deref k it = Inr (xs ! i)
      else Deque_index C i d = Inl Out_of_range" for i
    using index_repr [OF r b assms(3) len, of i] size by (auto simp: Deque_index_def)
  moreover have "Deque_front k d = Inr (hd xs)" if "xs \<noteq> []" using front_repr [of C _ k d "hd xs" "tl xs"] r that by simp
  moreover have "Deque_back C k d = Inr (last xs)" if "xs \<noteq> []" "C dvd 8"
  proof -
    have "deque_repr C (n div C + 1 + length cmds) k d (butlast xs @ [last xs])" using r that by simp
    then show ?thesis using back_inside [of C _ k d] back_small_chunks [of C _ k d] that(2) b assms(3)
      by (cases "it_cur (dq_finish d) = 0") blast+
  qed
  ultimately show ?thesis using new(1) run size by blast
qed

theorem deque_refines_list_witness:
  "\<exists>k0 d0 k d. Deque_new 4 9 (7 :: int) dheap0 = Inr (k0, d0)
    \<and> run_cmds (dq_exec 4) [Push_front 1, Push_back 2, Pop_front, Erase 3, Pop_back] (k0, d0) = Some (Inr (k, d))
    \<and> Deque_size 4 d = 8 \<and> Deque_back 4 k d = Inr 7"
proof -
  have "spec_cmds dq_spec [Push_front 1, Push_back 2, Pop_front, Erase 3, Pop_back] (replicate 9 (7 :: int)) = Some [7, 7, 7, 7, 7, 7, 7, 7]"
    by code_simp
  from deque_refines_list [OF dheap0_ok _ _ _ _ this, of 4] show ?thesis by auto
qed

text \<open>With the default chunk size 128, \<open>back()\<close> returns the last element only while \<open>finish_\<close> is inside a chunk. When the
  last chunk is exactly full, \<open>operator-=\<close> divides the negative offset as an unsigned number and \<open>back()\<close> reads
  a map entry that does not exist.\<close>

theorem deque_back_leaves_map:
  assumes "chunks_ok 128 h []" "n < 2 ^ 49" "length cmds < 2 ^ 48" "spec_cmds dq_spec cmds (replicate n v) = Some xs" "xs \<noteq> []"
  shows "\<exists>k0 d0 k d. Deque_new 128 n v h = Inr (k0, d0) \<and> run_cmds (dq_exec 128) cmds (k0, d0) = Some (Inr (k, d))
    \<and> Deque_back 128 k d = (if (it_cur (dq_start d) + length xs) mod 128 = 0 then Inl Bad_node else Inr (last xs))"
proof -
  obtain k0 d0 where new: "Deque_new 128 n v h = Inr (k0, d0)" "dq_rel 128 (n div 128 + 1) (k0, d0) (replicate n v)"
    and A: "n div 128 + 1 \<le> 2 ^ 49" using new_rel [OF assms(1) _ _ assms(2), of v] by auto
  have "n div 128 + 1 + length cmds \<le> 2 ^ 49 + 2 ^ 48" using A assms(3) by linarith
  then have b: "n div 128 + 1 + length cmds < 2 ^ 50" by simp
  obtain k d where run: "run_cmds (dq_exec 128) cmds (k0, d0) = Some (Inr (k, d))"
    and r: "deque_repr 128 (n div 128 + 1 + length cmds) k d xs"
    using deque.run_sim [OF new(2) _ assms(4)] b by (fastforce simp: dq_rel_def)
  note cur = finish_cur [OF r]
  have "deque_repr 128 (n div 128 + 1 + length cmds) k d (butlast xs @ [last xs])" using r assms(5) by simp
  then have "Deque_back 128 k d = (if it_cur (dq_finish d) = 0 then Inl Bad_node else Inr (last xs))"
    using back_inside [of 128 _ k d] back_at_chunk_start [OF r _ b] by auto
  then show ?thesis using new(1) run cur by auto
qed

theorem deque_back_leaves_map_witness:
  "\<exists>k d. Deque_new 128 128 True dheap0 = Inr (k, d) \<and> Deque_back 128 k d = Inl Bad_node"
proof -
  obtain k d where new: "Deque_new 128 128 True dheap0 = Inr (k, d)" "it_cur (dq_start d) = 0"
    using new_repr [OF dheap0_ok, of 128 128 True] by auto
  have "replicate 128 True \<noteq> []" by simp
  from deque_back_leaves_map [OF dheap0_ok _ _ _ this, of 128 "[]" True] new show ?thesis by auto
qed

text \<open>The copy of a deque holds the same elements in chunks of its own and leaves the original as it was; destroying a
  deque destroys every element once and gives back exactly its chunks; so destroying the copy leaves
  the original intact.\<close>

theorem deque_copy_and_delete:
  assumes "deque_repr C A h d xs"
  shows "\<exists>k e. Deque_copy C d h = Inr (k, e) \<and> deque_repr C A k e xs \<and> deque_repr C A k d xs
    \<and> (\<exists>k'. Deque_delete C e k = Inr (k', e\<lparr>dq_map := None\<rparr>) \<and> deque_repr C A k' d xs
        \<and> (\<forall>ds. used_nodes e = Inr ds \<longrightarrow> (\<forall>c. dh_chunks k' c = (if c \<in> set ds then None else dh_chunks k c))))"
proof -
  obtain k e cs ds where c: "Deque_copy C d h = Inr (k, e)" "deque_repr C A k e xs" "deque_repr C A k d xs"
    "used_nodes d = Inr cs" "used_nodes e = Inr ds" "set cs \<inter> set ds = {}" using copy_repr [OF assms] by blast
  have del: "Deque_delete C e k = Inr (free_chunks ds k, e\<lparr>dq_map := None\<rparr>)" using delete_repr [OF c(2)] c(5) by auto
  obtain cs' where cs': "deque_shape C A d cs'" "chunks_ok C k cs'"
    "cells k cs' = replicate (it_cur (dq_start d)) None @ map Some xs @ replicate (C - it_cur (dq_finish d)) None"
    using reprE [OF c(3)] by metis
  have "cs' = cs" using used_nodes_ok [OF cs'(1)] c(4) by simp
  then have "chunks_ok C (free_chunks ds k) cs'" "cells (free_chunks ds k) cs' = cells k cs'"
    using cs'(2) c(6) by (auto simp: chunks_ok_def intro!: cells_cong)
  then have "deque_repr C A (free_chunks ds k) d xs" using cs'(1,3) unfolding deque_repr_def by auto
  then show ?thesis using c del by auto
qed

theorem deque_copy_and_delete_witness:
  "\<exists>k d e k1 k2. Deque_new 4 9 True dheap0 = Inr (k, d) \<and> Deque_copy 4 d k = Inr (k1, e)
    \<and> Deque_delete 4 e k1 = Inr (k2, e\<lparr>dq_map := None\<rparr>) \<and> deque_repr 4 3 k2 d (replicate 9 True)"
proof -
  obtain k d where new: "Deque_new 4 9 True dheap0 = Inr (k, d)" "deque_repr 4 3 k d (replicate 9 True)"
    using new_repr [OF dheap0_ok, of 4 9 True] by auto
  from deque_copy_and_delete [OF new(2)] new(1) show ?thesis by blast
qed

text \<open>A deque that was moved from keeps its iterators. It reports size 0, but \<open>push_back\<close> on it constructs the value in the
  chunk that now belongs to the new owner, right behind the owner's last element, and still reports size 0.\<close>

theorem deque_moved_from_writes:
  assumes "deque_repr C A h d xs" "it_cur (dq_finish d) + 1 < C"
    and "Deque_move d = (owner, old)"
  shows "Deque_size C old = 0 \<and> (\<exists>k old'. Deque_push_back C x h old = Inr (k, old') \<and> Deque_size C old' = 0
    \<and> read_at (it_chunk (dq_finish owner)) (it_cur (dq_finish owner)) k = Inr x)"
proof -
  obtain cs where cs: "chunks_ok C h cs" "it_chunk (dq_finish d) = cs ! (length cs - 1)" "cs \<noteq> []" "it_cur (dq_finish d) < C"
    using reprE [OF assms(1)] by metis
  have j: "length cs - 1 < length cs" using cs(3) by simp
  have own: "owner = d" "old = d\<lparr>dq_map := None\<rparr>" using assms(3) by (auto simp: Deque_move_def)
  note con = construct_at_ok [OF cs(1) j cs(4), of x]
  obtain ys where "dh_chunks h (cs ! (length cs - 1)) = Some ys" "length ys = C" using chunk_of [OF cs(1) j] .
  then have "read_at (cs ! (length cs - 1)) (it_cur (dq_finish d)) (poke (cs ! (length cs - 1)) (it_cur (dq_finish d)) (Some x) h) = Inr x"
    using cs(4) by (simp add: read_at_def poke_def)
  then show ?thesis
    using con own cs(2) assms(2) by (simp add: Deque_push_back_def Deque_size_def iter_inc_def)
qed

theorem deque_moved_from_writes_witness:
  "\<exists>k d k' old. Deque_new 4 9 True dheap0 = Inr (k, d) \<and> Deque_push_back 4 False k (snd (Deque_move d)) = Inr (k', old)
    \<and> Deque_size 4 old = 0 \<and> read_at (it_chunk (dq_finish d)) (it_cur (dq_finish d)) k' = Inr False"
proof -
  obtain k d where new: "Deque_new 4 9 True dheap0 = Inr (k, d)" "deque_repr 4 3 k d (replicate 9 True)" "it_cur (dq_start d) = 0"
    using new_repr [OF dheap0_ok, of 4 9 True] by auto
  have "it_cur (dq_finish d) + 1 < 4" using finish_cur [OF new(2)] new(3) by simp
  from deque_moved_from_writes [OF new(2) this, of d "d\<lparr>dq_map := None\<rparr>" False] new(1) show ?thesis
    by (auto simp: Deque_move_def)
qed

end
