(* ===== verification/Rpc_Vector.thy ===== *)
theory Rpc_Vector
  imports Prelude
begin

text \<open>
  \<open>Vector<T>\<close> (include/vector.h). The allocated array is a list of slots as long as the capacity, \<open>None\<close> for raw
  memory; a null \<open>data_\<close> is \<open>None\<close>. The argument of \<open>push_back\<close> and \<open>resize\<close> is a reference: it may refer to an object
  outside the vector (\<open>Outside v\<close>) or to an element of the vector itself (\<open>Own i\<close>), which matters when the
  array is replaced. The address of the array is a number that every allocation renews, so that a
  reference into a released array is a visible error.
\<close>

section \<open>State\<close>

datatype vec_error = Pop_on_empty | Idx_too_large | Dangling

record 'a vec =
  v_data :: "'a option list option"
  v_addr :: nat
  v_size :: nat
  v_capacity :: nat

datatype 'a vref = Outside 'a | Own nat nat

text \<open>The value behind a reference; \<open>Own a i\<close> is the element \<open>i\<close> of the array at address \<open>a\<close>.\<close>

definition vref_read :: "'a vec \<Rightarrow> 'a vref \<Rightarrow> vec_error + 'a" where
  "vref_read w r = (case r of Outside x \<Rightarrow> Inr x
     | Own a i \<Rightarrow> (case v_data w of None \<Rightarrow> Inl Dangling
         | Some ys \<Rightarrow> if a = v_addr w \<and> i < length ys then (case ys ! i of None \<Rightarrow> Inl Dangling | Some x \<Rightarrow> Inr x) else Inl Dangling))"

definition cells_of :: "'a vec \<Rightarrow> 'a option list" where
  "cells_of w = (case v_data w of None \<Rightarrow> [] | Some ys \<Rightarrow> ys)"

definition MIN_CAPACITY :: nat where
  "MIN_CAPACITY = 4"

definition Vector_empty :: "nat \<Rightarrow> 'a vec" where
  "Vector_empty a = \<lparr>v_data = None, v_addr = a, v_size = 0, v_capacity = 0\<rparr>"

definition Vector_new :: "nat \<Rightarrow> nat \<Rightarrow> 'a \<Rightarrow> 'a vec" where
  "Vector_new a n dflt = \<lparr>v_data = Some (replicate n (Some dflt)), v_addr = a, v_size = n, v_capacity = n\<rparr>"

text \<open>\<open>set_data\<close> with the array of another vector.\<close>

definition set_data :: "nat \<Rightarrow> 'a option list option \<Rightarrow> nat \<Rightarrow> 'a vec" where
  "set_data a data n = \<lparr>v_data = map_option (take n) data, v_addr = a, v_size = n, v_capacity = n\<rparr>"

definition Vector_copy :: "nat \<Rightarrow> 'a vec \<Rightarrow> 'a vec" where
  "Vector_copy a other = set_data a (v_data other) (v_size other)"

definition Vector_move :: "'a vec \<Rightarrow> 'a vec \<times> 'a vec" where
  "Vector_move other = (other, other\<lparr>v_data := None, v_size := 0, v_capacity := 0\<rparr>)"

text \<open>The assignments, for two different vectors; the old array of the target is released.\<close>

definition Vector_copy_assign :: "nat \<Rightarrow> 'a vec \<Rightarrow> 'a vec \<Rightarrow> 'a vec" where
  "Vector_copy_assign a this other = set_data a (v_data other) (v_size other)"

definition Vector_move_assign :: "'a vec \<Rightarrow> 'a vec \<Rightarrow> 'a vec \<times> 'a vec" where
  "Vector_move_assign this other = (other, other\<lparr>v_data := None, v_size := 0, v_capacity := 0\<rparr>)"

definition Vector_reserve :: "nat \<Rightarrow> 'a vec \<Rightarrow> 'a vec" where
  "Vector_reserve new_capacity w =
     (if new_capacity \<le> v_capacity w then w
      else w\<lparr>v_data := Some (take (v_size w) (cells_of w) @ replicate (new_capacity - v_size w) None),
             v_addr := v_addr w + 1, v_capacity := new_capacity\<rparr>)"

definition Vector_resize :: "nat \<Rightarrow> 'a vref \<Rightarrow> 'a vec \<Rightarrow> vec_error + 'a vec" where
  "Vector_resize new_size dflt w =
     (let w1 = Vector_reserve new_size w
      in if new_size < v_size w1
         then Inr (w1\<lparr>v_data := map_option (\<lambda>ys. take new_size ys @ replicate (v_size w1 - new_size) None @ drop (v_size w1) ys) (v_data w1),
                v_size := new_size\<rparr>)
         else if new_size > v_size w1
         then ebind (vref_read w1 dflt) (\<lambda>x. Inr (w1\<lparr>v_data := map_option
                (\<lambda>ys. take (v_size w1) ys @ replicate (new_size - v_size w1) (Some x) @ drop new_size ys) (v_data w1),
                v_size := new_size\<rparr>))
         else Inr (w1\<lparr>v_size := new_size\<rparr>))"

definition Vector_push_back :: "'a vref \<Rightarrow> 'a vec \<Rightarrow> vec_error + 'a vec" where
  "Vector_push_back value w =
     (let w1 = (if v_size w = v_capacity w then Vector_reserve (max MIN_CAPACITY (v_capacity w * 2)) w else w)
      in ebind (vref_read w1 value) (\<lambda>x. Inr (w1\<lparr>v_data := map_option (\<lambda>ys. ys[v_size w1 := Some x]) (v_data w1),
           v_size := v_size w1 + 1\<rparr>)))"

definition Vector_pop_back :: "'a vec \<Rightarrow> vec_error + 'a vec" where
  "Vector_pop_back w =
     (if v_size w = 0 then Inl Pop_on_empty
      else Inr (w\<lparr>v_size := v_size w - 1, v_data := map_option (\<lambda>ys. ys[v_size w - 1 := None]) (v_data w)\<rparr>))"

definition Vector_index :: "nat \<Rightarrow> 'a vec \<Rightarrow> vec_error + 'a vref" where
  "Vector_index idx w = (if idx \<ge> v_size w then Inl Idx_too_large else Inr (Own (v_addr w) idx))"

definition Vector_at :: "nat \<Rightarrow> 'a vec \<Rightarrow> vec_error + 'a" where
  "Vector_at idx w = ebind (Vector_index idx w) (vref_read w)"

definition Vector_back :: "'a vec \<Rightarrow> vec_error + 'a" where
  "Vector_back w = (if v_size w = 0 then Inl Idx_too_large else vref_read w (Own (v_addr w) (v_size w - 1)))"

definition Vector_clear :: "'a vec \<Rightarrow> 'a vec" where
  "Vector_clear w = w\<lparr>v_data := map_option (\<lambda>ys. replicate (v_size w) None @ drop (v_size w) ys) (v_data w), v_size := 0\<rparr>"

section \<open>The list a vector holds\<close>

definition vec_repr :: "'a vec \<Rightarrow> 'a list \<Rightarrow> bool" where
  "vec_repr w xs \<longleftrightarrow> v_size w = length xs \<and> length xs \<le> v_capacity w
     \<and> (v_data w = None \<longrightarrow> v_capacity w = 0)
     \<and> (\<forall>ys. v_data w = Some ys \<longrightarrow> ys = map Some xs @ replicate (v_capacity w - length xs) None)"

datatype 'a vec_cmd = V_push 'a | V_push_own nat | V_pop | V_reserve nat | V_resize nat 'a | V_clear

fun vec_exec :: "'a vec_cmd \<Rightarrow> 'a vec \<Rightarrow> (vec_error + 'a vec) option" where
  "vec_exec (V_push x) w = Some (Vector_push_back (Outside x) w)"
| "vec_exec (V_push_own i) w = Some (ebind (Vector_index i w) (\<lambda>r. Vector_push_back r w))"
| "vec_exec V_pop w = Some (Vector_pop_back w)"
| "vec_exec (V_reserve n) w = Some (Inr (Vector_reserve n w))"
| "vec_exec (V_resize n x) w = Some (Vector_resize n (Outside x) w)"
| "vec_exec V_clear w = Some (Inr (Vector_clear w))"

text \<open>The specification; pushing an own element is left to the property below.\<close>

fun vec_spec :: "'a vec_cmd \<Rightarrow> 'a list \<Rightarrow> 'a list option" where
  "vec_spec (V_push x) xs = Some (xs @ [x])"
| "vec_spec (V_push_own i) xs = None"
| "vec_spec V_pop xs = (if xs = [] then None else Some (butlast xs))"
| "vec_spec (V_reserve n) xs = Some xs"
| "vec_spec (V_resize n x) xs = Some (if n \<le> length xs then take n xs else xs @ replicate (n - length xs) x)"
| "vec_spec V_clear xs = Some []"

lemma vec_repr_cells: "vec_repr w xs \<Longrightarrow> cells_of w = map Some xs @ replicate (v_capacity w - length xs) None"
  by (auto simp: vec_repr_def cells_of_def split: option.split)

lemma vec_reserve_repr:
  assumes "vec_repr w xs"
  shows "vec_repr (Vector_reserve n w) xs" "n \<le> v_capacity (Vector_reserve n w)"
    "n \<le> v_capacity w \<Longrightarrow> Vector_reserve n w = w" "v_size (Vector_reserve n w) = v_size w"
    "v_capacity w < n \<Longrightarrow> v_addr (Vector_reserve n w) = v_addr w + 1"
  using assms vec_repr_cells [OF assms] by (auto simp: Vector_reserve_def vec_repr_def)

lemma data_allocated:
  "vec_repr w xs \<Longrightarrow> 0 < v_capacity w \<Longrightarrow> v_data w = Some (map Some xs @ replicate (v_capacity w - length xs) None)"
  by (cases "v_data w") (auto simp: vec_repr_def)

lemma vec_push_repr:
  assumes r: "vec_repr w xs"
    and x: "vref_read (if v_size w = v_capacity w then Vector_reserve (max MIN_CAPACITY (v_capacity w * 2)) w else w) v = Inr x"
  shows "\<exists>u. Vector_push_back v w = Inr u \<and> vec_repr u (xs @ [x])"
proof -
  let ?w = "if v_size w = v_capacity w then Vector_reserve (max MIN_CAPACITY (v_capacity w * 2)) w else w"
  have w: "vec_repr ?w xs" "length xs < v_capacity ?w"
    using r vec_reserve_repr [OF r, of "max MIN_CAPACITY (v_capacity w * 2)"]
    by (auto simp: vec_repr_def MIN_CAPACITY_def max_def split: if_splits)
  obtain n where n: "v_capacity ?w - length xs = Suc n" using w(2) by (cases "v_capacity ?w - length xs") auto
  have d: "v_data ?w = Some (map Some xs @ replicate (v_capacity ?w - length xs) None)" "v_size ?w = length xs"
    using data_allocated [OF w(1)] w by (auto simp: vec_repr_def)
  then show ?thesis using x w(2) n by (auto simp: Vector_push_back_def vec_repr_def Let_def list_update_append)
qed

lemma vec_pop_repr:
  assumes r: "vec_repr w (xs @ [x])"
  shows "\<exists>u. Vector_pop_back w = Inr u \<and> vec_repr u xs"
proof -
  have "v_data w = Some (map Some (xs @ [x]) @ replicate (v_capacity w - length (xs @ [x])) None)"
    using data_allocated [OF r] r by (simp add: vec_repr_def)
  moreover obtain n where "v_capacity w - length xs = Suc n" "v_capacity w - Suc (length xs) = n"
    using r by (cases "v_capacity w - length xs") (auto simp: vec_repr_def)
  ultimately show ?thesis using r by (auto simp: Vector_pop_back_def vec_repr_def list_update_append)
qed

lemma vec_resize_repr:
  assumes r: "vec_repr w xs"
  shows "\<exists>u. Vector_resize n (Outside x) w = Inr u
    \<and> vec_repr u (if n \<le> length xs then take n xs else xs @ replicate (n - length xs) x)"
proof -
  let ?w = "Vector_reserve n w"
  have w: "vec_repr ?w xs" "n \<le> v_capacity ?w" "v_size ?w = length xs"
    using vec_reserve_repr [OF r, of n] r by (auto simp: vec_repr_def)
  have cap: "length xs \<le> v_capacity ?w" using w(1) by (simp add: vec_repr_def)
  consider "n < length xs" | "length xs < n" | "n = length xs" by linarith
  then show ?thesis
  proof cases
    case 1
    then have d: "v_data ?w = Some (map Some xs @ replicate (v_capacity ?w - length xs) None)" 
      using data_allocated [OF w(1)] cap by simp
    have "length xs - n + (v_capacity ?w - length xs) = v_capacity ?w - n" using 1 cap by simp
    then have "replicate (length xs - n) (None :: 'a option) @ replicate (v_capacity ?w - length xs) None = replicate (v_capacity ?w - n) None"
      by (simp flip: replicate_add)
    then show ?thesis using 1 d w(1,3) by (simp add: Vector_resize_def Let_def vec_repr_def take_map min_def)
  next
    case 2
    then have d: "v_data ?w = Some (map Some xs @ replicate (v_capacity ?w - length xs) None)"
      using data_allocated [OF w(1)] w(2) by simp
    then show ?thesis using 2 w by (simp add: Vector_resize_def Let_def vec_repr_def vref_read_def map_replicate_const)
  next
    case 3
    then show ?thesis using w by (simp add: Vector_resize_def Let_def vec_repr_def)
  qed
qed

lemma vec_clear_repr:
  assumes "vec_repr w xs"
  shows "vec_repr (Vector_clear w) []"
proof -
  have "length xs \<le> v_capacity w" using assms by (simp add: vec_repr_def)
  then show ?thesis using assms by (auto simp: Vector_clear_def vec_repr_def simp flip: replicate_add)
qed

interpretation vec: simulation vec_exec vec_spec "\<lambda>_. vec_repr" bound for bound
proof unfold_locales
  fix w c and xs ys :: "'a list"
  assume r: "vec_repr w xs" and spec: "vec_spec c xs = Some ys"
  show "\<exists>t. vec_exec c w = Some (Inr t) \<and> vec_repr t ys"
  proof (cases c)
    case (V_push x)
    then show ?thesis using vec_push_repr [OF r, of "Outside x" x] spec by (simp add: vref_read_def)
  next
    case V_pop
    then obtain x where "xs = ys @ [x]" using spec by (cases xs rule: rev_cases) auto
    then show ?thesis using vec_pop_repr [of w ys x] r V_pop by auto
  next
    case (V_resize n x)
    then show ?thesis using vec_resize_repr [OF r, of n x] spec by auto
  qed (use r spec vec_reserve_repr(1) [OF r] vec_clear_repr [OF r] in auto)
qed

lemma vector_empty_repr: "vec_repr (Vector_empty a) []"
  by (simp add: vec_repr_def Vector_empty_def)

lemma vec_at_repr:
  assumes "vec_repr w xs"
  shows "Vector_at i w = (if i < length xs then Inr (xs ! i) else Inl Idx_too_large)"
  using assms
  by (auto simp: Vector_at_def Vector_index_def vref_read_def nth_append vec_repr_def split: option.split)

section \<open>Properties\<close>

text \<open>C9: a default constructed vector worked on by any sequence of \<open>push_back\<close> of values from outside, \<open>pop_back\<close>, \<open>reserve\<close>,
  \<open>resize\<close> and \<open>clear\<close> that does not pop the empty vector holds what the list specification says: \<open>size\<close>,
  \<open>at\<close> and \<open>back\<close> read it, an index at or above the size raises, popping the empty vector raises, a copy holds
  the same list and a moved-from vector is empty.\<close>

theorem vector_refines_list:
  assumes "spec_cmds vec_spec cmds [] = Some xs"
  shows "\<exists>w. run_cmds vec_exec cmds (Vector_empty a) = Some (Inr w) \<and> v_size w = length xs \<and> length xs \<le> v_capacity w
    \<and> (\<forall>i. Vector_at i w = (if i < length xs then Inr (xs ! i) else Inl Idx_too_large)
          \<and> Vector_at i (Vector_copy b w) = Vector_at i w \<and> Vector_at i (fst (Vector_move w)) = Vector_at i w)
    \<and> Vector_back w = (if xs = [] then Inl Idx_too_large else Inr (last xs))
    \<and> (xs = [] \<longrightarrow> Vector_pop_back w = Inl Pop_on_empty) \<and> v_size (snd (Vector_move w)) = 0"
proof -
  obtain w where w: "run_cmds vec_exec cmds (Vector_empty a) = Some (Inr w)" "vec_repr w xs"
    using vec.run_sim [OF vector_empty_repr _ assms, of 0 "length cmds"] by auto
  have size: "v_size w = length xs" "length xs \<le> v_capacity w" using w(2) by (auto simp: vec_repr_def)
  have copy: "vec_repr (Vector_copy b w) xs"
    using w(2) by (auto simp: vec_repr_def Vector_copy_def set_data_def)
  have "Vector_back w = (if xs = [] then Inl Idx_too_large else Inr (last xs))"
    using vec_at_repr [OF w(2), of "length xs - 1"] size
    by (cases xs rule: rev_cases) (auto simp: Vector_back_def Vector_at_def Vector_index_def)
  then show ?thesis
    using w vec_at_repr [OF w(2)] vec_at_repr [OF copy] size by (auto simp: Vector_move_def Vector_pop_back_def)
qed

theorem vector_refines_list_witness:
  "\<exists>w. run_cmds vec_exec [V_push 1, V_resize 6 (2 :: int), V_pop, V_reserve 100] (Vector_empty 0) = Some (Inr w)
    \<and> v_size w = 5 \<and> Vector_at 4 w = Inr 2 \<and> Vector_back w = Inr 2"
proof -
  have "spec_cmds vec_spec [V_push 1, V_resize 6 (2 :: int), V_pop, V_reserve 100] [] = Some [1, 2, 2, 2, 2]"
    by code_simp
  from vector_refines_list [OF this, of 0 0] obtain w where
    w: "run_cmds vec_exec [V_push 1, V_resize 6 (2 :: int), V_pop, V_reserve 100] (Vector_empty 0) = Some (Inr w)"
    "v_size w = length [1, 2, 2, 2, 2 :: int]" "Vector_back w = Inr 2"
    "\<And>i. Vector_at i w = (if i < length [1, 2, 2, 2, 2 :: int] then Inr ([1, 2, 2, 2, 2] ! i) else Inl Idx_too_large)"
    by auto
  then show ?thesis using w(4) [of 4] by auto
qed

text \<open>Pushing a reference to an element of the vector itself appends that element while there is room, but when the array is
  full the element is read after the old array was released.\<close>

theorem vector_push_own_element:
  assumes "vec_repr w xs" "i < length xs"
  shows "vec_exec (V_push_own i) w = (if length xs = v_capacity w then Some (Inl Dangling)
      else Some (Inr (w\<lparr>v_data := map_option (\<lambda>ys. ys[length xs := Some (xs ! i)]) (v_data w), v_size := length xs + 1\<rparr>)))"
proof -
  have size: "v_size w = length xs" using assms(1) by (simp add: vec_repr_def)
  have "vref_read w (Own (v_addr w) i) = Inr (xs ! i)"
    using vec_at_repr [OF assms(1), of i] assms(2) size by (simp add: Vector_at_def Vector_index_def)
  moreover have "vref_read (Vector_reserve (max MIN_CAPACITY (v_capacity w * 2)) w) (Own (v_addr w) i) = Inl Dangling"
    if "length xs = v_capacity w"
    using vec_reserve_repr(5) [OF assms(1), of "max MIN_CAPACITY (v_capacity w * 2)"] that assms(2)
    by (auto simp: vref_read_def split: option.split)
  ultimately show ?thesis using size assms(2) by (simp add: Vector_index_def Vector_push_back_def Let_def)
qed

theorem vector_push_own_element_witness:
  "vec_exec (V_push_own 0) (Vector_new 7 1 True) = Some (Inl Dangling)"
proof -
  have "vec_repr (Vector_new 7 1 True) [True]" by (simp add: vec_repr_def Vector_new_def)
  from vector_push_own_element [OF this, of 0] show ?thesis by (simp add: Vector_new_def)
qed

end
