(* ===== verification/Rpc_String.thy ===== *)
theory Rpc_String
  imports Prelude
begin

text \<open>
  \<open>String\<close> (include/str.h): up to 15 characters in the object itself, longer strings on the heap. The buffer in use is
  the list of its bytes, one longer than the capacity. The functions of \<open><cstring>\<close> the class calls read
  up to a terminating zero byte and write one; an access outside the buffer is \<open>Overrun\<close>. The stack buffer
  shares its memory with the heap pointer and the heap capacity, so an object that changes from heap to
  stack starts from the bytes of those two fields, the argument \<open>raw\<close>.
\<close>

section \<open>C strings\<close>

datatype str_error = Overrun | Pop_empty_string | Index_out_of_range

definition NUL :: char where
  "NUL = CHR 0x00"

text \<open>The string a pointer to the buffer denotes.\<close>

definition c_string :: "char list \<Rightarrow> str_error + string" where
  "c_string buf = (if NUL \<in> set buf then Inr (takeWhile (\<lambda>c. c \<noteq> NUL) buf) else Inl Overrun)"

definition strcpy :: "char list \<Rightarrow> nat \<Rightarrow> string \<Rightarrow> str_error + char list" where
  "strcpy dst off src =
     (if off + length src + 1 \<le> length dst then Inr (take off dst @ src @ [NUL] @ drop (off + length src + 1) dst) else Inl Overrun)"

definition poke_char :: "nat \<Rightarrow> char \<Rightarrow> char list \<Rightarrow> str_error + char list" where
  "poke_char i c buf = (if i < length buf then Inr (buf[i := c]) else Inl Overrun)"

text \<open>The sign of \<open>strcmp\<close>, which compares bytes as unsigned numbers.\<close>

fun strcmp :: "string \<Rightarrow> string \<Rightarrow> int" where
  "strcmp [] [] = 0"
| "strcmp [] (y # ys) = - 1"
| "strcmp (x # xs) [] = 1"
| "strcmp (x # xs) (y # ys) =
     (if of_char x < (of_char y :: nat) then - 1 else if (of_char y :: nat) < of_char x then 1 else strcmp xs ys)"

section \<open>State and operations\<close>

record str =
  s_buf :: "char list"
  s_heap_capacity :: nat
  s_size :: nat
  s_is_heap :: bool

definition STR_MIN_CAPACITY :: nat where
  "STR_MIN_CAPACITY = 15"

definition String_capacity :: "str \<Rightarrow> nat" where
  "String_capacity s = (if s_is_heap s then s_heap_capacity s else STR_MIN_CAPACITY)"

definition set_heap_data :: "string \<Rightarrow> nat \<Rightarrow> str_error + str" where
  "set_heap_data ptr n = ebind (strcpy (replicate (n + 1) NUL) 0 ptr)
     (\<lambda>buf. Inr \<lparr>s_buf = buf, s_heap_capacity = n, s_size = n, s_is_heap = True\<rparr>)"

definition set_stack_data :: "char list \<Rightarrow> string \<Rightarrow> nat \<Rightarrow> str_error + str" where
  "set_stack_data old ptr n = ebind (strcpy old 0 ptr)
     (\<lambda>buf. Inr \<lparr>s_buf = buf, s_heap_capacity = 0, s_size = n, s_is_heap = False\<rparr>)"

text \<open>\<open>stack_data_\<close> as the constructors initialise it, and as it is in an existing object.\<close>

definition fresh_stack :: "char list" where
  "fresh_stack = replicate (STR_MIN_CAPACITY + 1) NUL"

definition stack_bytes :: "char list \<Rightarrow> str \<Rightarrow> char list" where
  "stack_bytes raw s = (if s_is_heap s then raw else s_buf s)"

definition String_new :: "string \<Rightarrow> str_error + str" where
  "String_new ptr = (if length ptr \<le> STR_MIN_CAPACITY then set_stack_data fresh_stack ptr (length ptr) else set_heap_data ptr (length ptr))"

definition String_copy :: "str \<Rightarrow> str_error + str" where
  "String_copy other = ebind (c_string (s_buf other))
     (\<lambda>p. if s_is_heap other then set_heap_data p (s_size other) else set_stack_data fresh_stack p (s_size other))"

text \<open>The new string and what is left of the other one.\<close>

definition String_move :: "str \<Rightarrow> str_error + (str \<times> str)" where
  "String_move other =
     (if s_is_heap other then ebind (set_heap_data '''' 0) (\<lambda>o1. Inr (other, o1))
      else ebind (c_string (s_buf other)) (\<lambda>p. ebind (set_stack_data fresh_stack p (s_size other))
        (\<lambda>s. ebind (set_stack_data (s_buf other) '''' 0) (\<lambda>o1. Inr (s, o1)))))"

definition String_copy_assign :: "char list \<Rightarrow> str \<Rightarrow> str \<Rightarrow> str_error + str" where
  "String_copy_assign raw this other = ebind (c_string (s_buf other))
     (\<lambda>p. if s_is_heap other then set_heap_data p (s_size other) else set_stack_data (stack_bytes raw this) p (s_size other))"

definition String_move_assign :: "char list \<Rightarrow> str \<Rightarrow> str \<Rightarrow> str_error + (str \<times> str)" where
  "String_move_assign raw this other =
     (if s_is_heap other then ebind (set_heap_data '''' 0) (\<lambda>o1. Inr (other, o1))
      else ebind (c_string (s_buf other)) (\<lambda>p. ebind (set_stack_data (stack_bytes raw this) p (s_size other))
        (\<lambda>s. ebind (set_stack_data (s_buf other) '''' 0) (\<lambda>o1. Inr (s, o1)))))"

definition String_reserve :: "nat \<Rightarrow> str \<Rightarrow> str_error + str" where
  "String_reserve n s =
     (if n \<le> String_capacity s then Inr s
      else ebind (c_string (s_buf s)) (\<lambda>p. ebind (strcpy (replicate (n + 1) NUL) 0 p)
        (\<lambda>buf. Inr (s\<lparr>s_buf := buf, s_heap_capacity := n, s_is_heap := True\<rparr>))))"

definition memset :: "nat \<Rightarrow> char \<Rightarrow> nat \<Rightarrow> char list \<Rightarrow> str_error + char list" where
  "memset off c n buf =
     (if off + n \<le> length buf then Inr (take off buf @ replicate n c @ drop (off + n) buf) else Inl Overrun)"

definition String_resize :: "nat \<Rightarrow> char \<Rightarrow> str \<Rightarrow> str_error + str" where
  "String_resize n c s = ebind (String_reserve n s)
     (\<lambda>s1. ebind (if n > s_size s1 then memset (s_size s1) c (n - s_size s1) (s_buf s1) else Inr (s_buf s1))
       (\<lambda>buf. ebind (poke_char n NUL buf) (\<lambda>buf1. Inr (s1\<lparr>s_buf := buf1, s_size := n\<rparr>))))"

definition String_push_back :: "char \<Rightarrow> str \<Rightarrow> str_error + str" where
  "String_push_back c s = ebind (if s_size s = String_capacity s then String_reserve (s_size s * 2) s else Inr s)
     (\<lambda>s1. ebind (poke_char (s_size s1) c (s_buf s1)) (\<lambda>buf. Inr (s1\<lparr>s_buf := buf, s_size := s_size s1 + 1\<rparr>)))"

definition String_pop_back :: "str \<Rightarrow> str_error + str" where
  "String_pop_back s =
     (if s_size s = 0 then Inl Pop_empty_string
      else ebind (poke_char (s_size s - 1) NUL (s_buf s)) (\<lambda>buf. Inr (s\<lparr>s_buf := buf, s_size := s_size s - 1\<rparr>)))"

definition String_append :: "string option \<Rightarrow> str \<Rightarrow> str_error + str" where
  "String_append ptr s =
     (case ptr of None \<Rightarrow> Inr s
      | Some p \<Rightarrow> ebind (String_reserve (s_size s + length p) s)
          (\<lambda>s1. ebind (strcpy (s_buf s1) (s_size s1) p) (\<lambda>buf. Inr (s1\<lparr>s_buf := buf, s_size := s_size s1 + length p\<rparr>))))"

definition String_clear :: "str \<Rightarrow> str_error + str" where
  "String_clear s = ebind (poke_char 0 NUL (s_buf s)) (\<lambda>buf. Inr (s\<lparr>s_buf := buf, s_size := 0\<rparr>))"

definition String_at :: "nat \<Rightarrow> str \<Rightarrow> str_error + char" where
  "String_at i s =
     (if i \<ge> s_size s then Inl Index_out_of_range else if i < length (s_buf s) then Inr (s_buf s ! i) else Inl Overrun)"

definition String_plus :: "str \<Rightarrow> str \<Rightarrow> str_error + str" where
  "String_plus s other = ebind (String_copy s) (\<lambda>tmp. ebind (c_string (s_buf other)) (\<lambda>p. String_append (Some p) tmp))"

definition String_plus_char :: "str \<Rightarrow> char \<Rightarrow> str_error + str" where
  "String_plus_char s c = ebind (String_copy s) (String_push_back c)"

definition String_eq :: "str \<Rightarrow> str \<Rightarrow> str_error + bool" where
  "String_eq s other = ebind (c_string (s_buf s)) (\<lambda>p. ebind (c_string (s_buf other)) (\<lambda>q. Inr (strcmp p q = 0)))"

definition String_less :: "str \<Rightarrow> str \<Rightarrow> str_error + bool" where
  "String_less s other = ebind (c_string (s_buf s)) (\<lambda>p. ebind (c_string (s_buf other)) (\<lambda>q. Inr (strcmp p q < 0)))"

definition String_ne :: "str \<Rightarrow> str \<Rightarrow> str_error + bool" where
  "String_ne s other = ebind (String_eq s other) (\<lambda>b. Inr (\<not> b))"

definition String_greater :: "str \<Rightarrow> str \<Rightarrow> str_error + bool" where
  "String_greater s other = ebind (c_string (s_buf s)) (\<lambda>p. ebind (c_string (s_buf other)) (\<lambda>q. Inr (strcmp p q > 0)))"

text \<open>The stream operators, on the characters an output stream has got and those an input stream still has. At the end of the input \<open>get\<close> returns
  \<open>EOF\<close>, which is \<open>-1\<close> as a \<open>char\<close>.\<close>

definition String_out :: "string \<Rightarrow> str \<Rightarrow> str_error + string" where
  "String_out os s = ebind (c_string (s_buf s)) (\<lambda>p. Inr (os @ p))"

definition stream_get :: "string \<Rightarrow> char \<times> string" where
  "stream_get is = (case is of [] \<Rightarrow> (CHR 0xFF, []) | c # cs \<Rightarrow> (c, cs))"

partial_function (option) string_in_loop :: "char \<Rightarrow> string \<Rightarrow> str \<Rightarrow> (str_error + str \<times> string) option" where
  "string_in_loop ch is s =
     (if ch = CHR '' '' \<or> ch = CHR 0x0A then Some (Inr (s, is))
      else case String_push_back ch s of
             Inl e \<Rightarrow> Some (Inl e)
           | Inr s \<Rightarrow> (case stream_get is of (ch, is) \<Rightarrow> string_in_loop ch is s))"

definition String_in :: "string \<Rightarrow> str \<Rightarrow> (str_error + str \<times> string) option" where
  "String_in is s = (case String_clear s of
       Inl e \<Rightarrow> Some (Inl e)
     | Inr s \<Rightarrow> (case stream_get is of (ch, is) \<Rightarrow> string_in_loop ch is s))"

section \<open>Clean strings\<close>

text \<open>
  The buffer is the text followed by zero bytes only. This is what the constructors establish and what the operations
  that only add text, or remove single characters at the end, keep.
\<close>

definition str_repr :: "str \<Rightarrow> string \<Rightarrow> bool" where
  "str_repr s xs \<longleftrightarrow> s_size s = length xs \<and> NUL \<notin> set xs \<and> length xs \<le> String_capacity s \<and> 0 < String_capacity s
     \<and> s_buf s = xs @ replicate (String_capacity s + 1 - length xs) NUL"

datatype str_cmd = S_push char | S_pop | S_append string | S_reserve nat | S_grow nat char

fun str_exec :: "str_cmd \<Rightarrow> str \<Rightarrow> (str_error + str) option" where
  "str_exec (S_push c) s = Some (String_push_back c s)"
| "str_exec S_pop s = Some (String_pop_back s)"
| "str_exec (S_append p) s = Some (String_append (Some p) s)"
| "str_exec (S_reserve n) s = Some (String_reserve n s)"
| "str_exec (S_grow n c) s = Some (String_resize n c s)"

text \<open>Arguments are non-zero characters and C strings; \<open>resize\<close> is used to grow.\<close>

fun str_spec :: "str_cmd \<Rightarrow> string \<Rightarrow> string option" where
  "str_spec (S_push c) xs = (if c = NUL then None else Some (xs @ [c]))"
| "str_spec S_pop xs = (if xs = [] then None else Some (butlast xs))"
| "str_spec (S_append p) xs = (if NUL \<in> set p then None else Some (xs @ p))"
| "str_spec (S_reserve n) xs = Some xs"
| "str_spec (S_grow n c) xs = (if c = NUL \<or> n < length xs then None else Some (xs @ replicate (n - length xs) c))"

section \<open>Lemmas\<close>

lemma String_capacity_update [simp]:
  "String_capacity (s\<lparr>s_buf := buf, s_size := n\<rparr>) = String_capacity s"
  by (simp add: String_capacity_def)

lemma str_repr_c_string:
  assumes "str_repr s xs"
  shows "c_string (s_buf s) = Inr xs"
proof -
  obtain n where "String_capacity s + 1 - length xs = Suc n"
    using assms by (cases "String_capacity s + 1 - length xs") (auto simp: str_repr_def)
  then show ?thesis using assms by (auto simp: str_repr_def c_string_def takeWhile_until)
qed

lemma strcpy_zeros:
  assumes "length xs + length p \<le> n"
  shows "strcpy (xs @ replicate (n + 1 - length xs) NUL) (length xs) p
    = Inr ((xs @ p) @ replicate (n + 1 - length (xs @ p)) NUL)"
proof -
  obtain k where k: "n = length xs + length p + k" using assms le_Suc_ex by blast
  then have "replicate (n + 1 - length (xs @ p)) NUL = NUL # replicate k NUL" by (simp add: Suc_diff_le)
  then show ?thesis using k by (simp add: strcpy_def)
qed

lemma strcpy_zeros_start:
  "length p \<le> n \<Longrightarrow> strcpy (replicate (n + 1) NUL) 0 p = Inr (p @ replicate (n + 1 - length p) NUL)"
  using strcpy_zeros [of "[]" p n] by simp

lemma memset_zeros:
  assumes "length xs + k \<le> n"
  shows "memset (length xs) c k (xs @ replicate (n + 1 - length xs) NUL)
    = Inr ((xs @ replicate k c) @ replicate (n + 1 - length (xs @ replicate k c)) NUL)"
  using assms by (simp add: memset_def)

lemma String_new_repr:
  assumes "NUL \<notin> set p"
  shows "\<exists>s. String_new p = Inr s \<and> str_repr s p"
proof (cases "length p \<le> STR_MIN_CAPACITY")
  case True
  then show ?thesis using assms strcpy_zeros_start [of p STR_MIN_CAPACITY]
    by (auto simp: String_new_def set_stack_data_def fresh_stack_def str_repr_def String_capacity_def STR_MIN_CAPACITY_def)
next
  case False
  then show ?thesis using assms strcpy_zeros_start [of p "length p"]
    by (auto simp: String_new_def set_heap_data_def str_repr_def String_capacity_def STR_MIN_CAPACITY_def)
qed

lemma String_reserve_repr:
  assumes r: "str_repr s xs"
  shows "\<exists>u. String_reserve n s = Inr u \<and> str_repr u xs \<and> n \<le> String_capacity u \<and> String_capacity s \<le> String_capacity u"
proof (cases "n \<le> String_capacity s")
  case False
  then have "strcpy (replicate (n + 1) NUL) 0 xs = Inr (xs @ replicate (n + 1 - length xs) NUL)"
    using strcpy_zeros_start [of xs n] r by (simp add: str_repr_def)
  then show ?thesis
    using False r str_repr_c_string [OF r] by (auto simp: String_reserve_def str_repr_def String_capacity_def split: if_splits)
qed (use r in \<open>simp add: String_reserve_def\<close>)

lemma String_push_repr:
  assumes r: "str_repr s xs" and c: "c \<noteq> NUL"
  shows "\<exists>u. String_push_back c s = Inr u \<and> str_repr u (xs @ [c])"
proof -
  obtain u where u: "(if s_size s = String_capacity s then String_reserve (s_size s * 2) s else Inr s) = Inr u"
    "str_repr u xs" "length xs < String_capacity u"
  proof (cases "s_size s = String_capacity s")
    case True
    then show ?thesis using that String_reserve_repr [OF r, of "s_size s * 2"] r by (auto simp: str_repr_def)
  next
    case False
    then show ?thesis using that [of s] r by (simp add: str_repr_def)
  qed
  obtain k where k: "String_capacity u = length xs + k + 1" using u(3) less_iff_Suc_add by auto
  then show ?thesis using u(1,2) c
    by (auto simp: String_push_back_def poke_char_def str_repr_def list_update_append)
qed

lemma String_pop_repr:
  assumes r: "str_repr s (xs @ [x])"
  shows "\<exists>u. String_pop_back s = Inr u \<and> str_repr u xs"
proof -
  obtain k where k: "String_capacity s = length xs + k + 1" 
    using r less_iff_Suc_add [of "length xs" "String_capacity s"] by (auto simp: str_repr_def)
  then show ?thesis using r
    by (auto simp: String_pop_back_def poke_char_def str_repr_def list_update_append)
qed

lemma String_append_repr:
  assumes r: "str_repr s xs" and p: "NUL \<notin> set p"
  shows "\<exists>u. String_append (Some p) s = Inr u \<and> str_repr u (xs @ p)"
proof -
  obtain u where u: "String_reserve (s_size s + length p) s = Inr u" "str_repr u xs" "length xs + length p \<le> String_capacity u"
    using String_reserve_repr [OF r, of "s_size s + length p"] r by (auto simp: str_repr_def)
  have "strcpy (s_buf u) (s_size u) p = Inr ((xs @ p) @ replicate (String_capacity u + 1 - length (xs @ p)) NUL)"
    using strcpy_zeros [OF u(3)] u(2) by (simp add: str_repr_def)
  then show ?thesis using u p by (auto simp: String_append_def str_repr_def String_capacity_def)
qed

lemma String_grow_repr:
  assumes r: "str_repr s xs" and c: "c \<noteq> NUL" and n: "length xs \<le> n"
  shows "\<exists>u. String_resize n c s = Inr u \<and> str_repr u (xs @ replicate (n - length xs) c)"
proof -
  obtain u where u: "String_reserve n s = Inr u" "str_repr u xs" "n \<le> String_capacity u"
    using String_reserve_repr [OF r, of n] by blast
  let ?ys = "xs @ replicate (n - length xs) c"
  let ?buf = "?ys @ replicate (String_capacity u + 1 - length ?ys) NUL"
  have "(if n > s_size u then memset (s_size u) c (n - s_size u) (s_buf u) else Inr (s_buf u)) = Inr ?buf"
    using memset_zeros [of xs "n - length xs" "String_capacity u" c] u(2,3) n by (simp add: str_repr_def)
  moreover obtain k where "String_capacity u = n + k" using u(3) le_Suc_ex by blast
  ultimately show ?thesis using u n c
    by (auto simp: String_resize_def poke_char_def str_repr_def list_update_append Suc_diff_le)
qed

interpretation strs: simulation str_exec str_spec "\<lambda>_. str_repr" bound for bound
proof unfold_locales
  fix s c and xs ys :: string
  assume r: "str_repr s xs" and spec: "str_spec c xs = Some ys"
  show "\<exists>t. str_exec c s = Some (Inr t) \<and> str_repr t ys"
  proof (cases c)
    case S_pop
    then obtain x where "xs = ys @ [x]" using spec by (cases xs rule: rev_cases) auto
    then show ?thesis using String_pop_repr r S_pop by auto
  next
    case (S_push x)
    then show ?thesis using String_push_repr [OF r, of x] spec by (auto split: if_splits)
  next
    case (S_append p)
    then show ?thesis using String_append_repr [OF r, of p] spec by (auto split: if_splits)
  next
    case (S_reserve n)
    then show ?thesis using String_reserve_repr [OF r, of n] spec by auto
  next
    case (S_grow n x)
    then show ?thesis using String_grow_repr [OF r, of x n] spec by (auto split: if_splits)
  qed
qed

lemma str_at_repr:
  assumes "str_repr s xs"
  shows "String_at i s = (if i < length xs then Inr (xs ! i) else Inl Index_out_of_range)"
  using assms by (auto simp: String_at_def str_repr_def nth_append)

text \<open>A copy is as large as the text; only the copy of an empty string on the heap has no room to grow from.\<close>

lemma String_copy_repr:
  assumes r: "str_repr s xs" and ne: "xs \<noteq> [] \<or> \<not> s_is_heap s"
  shows "\<exists>u. String_copy s = Inr u \<and> str_repr u xs"
proof (cases "s_is_heap s")
  case True
  then show ?thesis
    using r ne str_repr_c_string [OF r] strcpy_zeros_start [of xs "length xs"]
    by (auto simp: String_copy_def set_heap_data_def str_repr_def String_capacity_def)
next
  case False
  then have "strcpy fresh_stack 0 xs = Inr (xs @ replicate (STR_MIN_CAPACITY + 1 - length xs) NUL)"
    unfolding fresh_stack_def using r by (intro strcpy_zeros_start) (simp add: str_repr_def String_capacity_def)
  then show ?thesis
    using False r str_repr_c_string [OF r]
    by (auto simp: String_copy_def set_stack_data_def str_repr_def String_capacity_def)
qed

lemma strcmp_zero: "strcmp xs ys = 0 \<longleftrightarrow> xs = ys"
  by (induction xs ys rule: strcmp.induct) (auto simp: of_char_eq_iff)

lemma strcmp_less: "strcmp xs ys < 0 \<longleftrightarrow> ord.lexordp (\<lambda>x y. of_char x < (of_char y :: nat)) xs ys"
  by (induction xs ys rule: strcmp.induct) (auto simp: ord.lexordp_simps)

section \<open>Properties\<close>

text \<open>C10: a string made from a literal and worked on by any sequence of \<open>push_back\<close>, \<open>pop_back\<close>, \<open>append\<close>, \<open>reserve\<close> and
  growing \<open>resize\<close>, with non-zero characters, holds the text the specification says, on the stack or on the
  heap: \<open>size\<close> is its length, \<open>c_str\<close> denotes it, \<open>at\<close> reads it and raises at or above the size, and no step
  leaves the buffer. Equality and order of two such strings are those of their texts, byte by byte.\<close>

theorem string_refines_text:
  assumes "NUL \<notin> set p" "NUL \<notin> set q" "spec_cmds str_spec cmds p = Some xs" "spec_cmds str_spec cmds' q = Some ys"
  shows "\<exists>s u s0 u0. String_new p = Inr s0 \<and> run_cmds str_exec cmds s0 = Some (Inr s) \<and> s_size s = length xs
    \<and> length xs \<le> String_capacity s \<and> c_string (s_buf s) = Inr xs
    \<and> (\<forall>i. String_at i s = (if i < length xs then Inr (xs ! i) else Inl Index_out_of_range))
    \<and> String_new q = Inr u0 \<and> run_cmds str_exec cmds' u0 = Some (Inr u)
    \<and> String_eq s u = Inr (xs = ys) \<and> String_less s u = Inr (ord.lexordp (\<lambda>x y. of_char x < (of_char y :: nat)) xs ys)"
proof -
  obtain s0 where s0: "String_new p = Inr s0" "str_repr s0 p" using String_new_repr [OF assms(1)] by blast
  obtain s where s: "run_cmds str_exec cmds s0 = Some (Inr s)" "str_repr s xs"
    using strs.run_sim [OF s0(2) _ assms(3), of 0 "length cmds"] by auto
  obtain u0 where u0: "String_new q = Inr u0" "str_repr u0 q" using String_new_repr [OF assms(2)] by blast
  obtain u where u: "run_cmds str_exec cmds' u0 = Some (Inr u)" "str_repr u ys"
    using strs.run_sim [OF u0(2) _ assms(4), of 0 "length cmds'"] by auto
  have "s_size s = length xs \<and> length xs \<le> String_capacity s" using s(2) by (simp add: str_repr_def)
  then show ?thesis
    using s0(1) s(1) u0(1) u(1) str_at_repr [OF s(2)] str_repr_c_string [OF s(2)] str_repr_c_string [OF u(2)]
    by (auto simp: String_eq_def String_less_def strcmp_zero strcmp_less)
qed

theorem string_refines_text_witness:
  "\<exists>s u s0 u0. String_new ''a string of 19 ch'' = Inr s0 \<and> run_cmds str_exec [S_push (CHR ''!''), S_pop] s0 = Some (Inr s)
    \<and> c_string (s_buf s) = Inr ''a string of 19 ch'' \<and> String_new ''a'' = Inr u0
    \<and> run_cmds str_exec [S_append '' string of'', S_grow 20 (CHR ''h'')] u0 = Some (Inr u) \<and> String_eq s u = Inr False"
proof -
  have "NUL \<notin> set ''a string of 19 ch''" "NUL \<notin> set ''a''"
    "spec_cmds str_spec [S_push (CHR ''!''), S_pop] ''a string of 19 ch'' = Some ''a string of 19 ch''"
    "spec_cmds str_spec [S_append '' string of'', S_grow 20 (CHR ''h'')] ''a'' = Some ''a string ofhhhhhhhhh''"
    by code_simp+
  from string_refines_text [OF this] show ?thesis by (elim exE conjE) (intro exI conjI, assumption+, simp)
qed

text \<open>\<open>a + b\<close>, \<open>a + c\<close> and the copy constructor give new strings with the expected text when the left operand is not an empty string on the
  heap, and moving a string out of a stack object leaves the empty string.\<close>

theorem string_concatenation:
  assumes "str_repr s xs" "str_repr u ys" "xs \<noteq> [] \<or> \<not> s_is_heap s" "c \<noteq> NUL"
  shows "\<exists>v w t m o1. String_plus s u = Inr v \<and> str_repr v (xs @ ys) \<and> String_plus_char s c = Inr w \<and> str_repr w (xs @ [c])
    \<and> String_copy s = Inr t \<and> String_eq s t = Inr True
    \<and> String_move s = Inr (m, o1) \<and> c_string (s_buf m) = Inr xs \<and> s_size m = length xs \<and> c_string (s_buf o1) = Inr '''' \<and> s_size o1 = 0"
proof -
  obtain t where t: "String_copy s = Inr t" "str_repr t xs" using String_copy_repr [OF assms(1,3)] by blast
  have cs: "c_string (s_buf s) = Inr xs" "c_string (s_buf u) = Inr ys" "c_string (s_buf t) = Inr xs"
    using str_repr_c_string assms(1,2) t(2) by blast+
  have ys: "NUL \<notin> set ys" using assms(2) by (simp add: str_repr_def)
  obtain v where v: "String_plus s u = Inr v" "str_repr v (xs @ ys)"
    using String_append_repr [OF t(2) ys] t(1) cs(2) by (auto simp: String_plus_def)
  obtain w where w: "String_plus_char s c = Inr w" "str_repr w (xs @ [c])"
    using String_push_repr [OF t(2) assms(4)] t(1) by (auto simp: String_plus_char_def)
  have eq: "String_eq s t = Inr True" using cs by (simp add: String_eq_def strcmp_zero)
  have "\<exists>m o1. String_move s = Inr (m, o1) \<and> c_string (s_buf m) = Inr xs \<and> s_size m = length xs
      \<and> c_string (s_buf o1) = Inr '''' \<and> s_size o1 = 0"
  proof (cases "s_is_heap s")
    case True
    then show ?thesis using cs(1) assms(1)
      by (auto simp: String_move_def set_heap_data_def strcpy_def c_string_def str_repr_def)
  next
    case False
    then obtain m where "set_stack_data fresh_stack xs (s_size s) = Inr m" "m = t"
      using t(1) cs(1) by (auto simp: String_copy_def)
    then show ?thesis using False cs t(2) assms(1)
      by (auto simp: String_move_def set_stack_data_def strcpy_def c_string_def str_repr_def)
  qed
  then show ?thesis using v w t(1) eq by blast
qed

theorem string_concatenation_witness:
  "\<exists>s u v. String_new ''ab'' = Inr s \<and> String_new ''cdefghijklmnopqr'' = Inr u
    \<and> String_plus s u = Inr v \<and> str_repr v ''abcdefghijklmnopqr''"
proof -
  obtain s u where s: "String_new ''ab'' = Inr s" "str_repr s ''ab''" "String_new ''cdefghijklmnopqr'' = Inr u"
    "str_repr u ''cdefghijklmnopqr''"
    using String_new_repr [of "''ab''"] String_new_repr [of "''cdefghijklmnopqr''"] by (auto simp: NUL_def)
  have c: "CHR ''c'' \<noteq> NUL" by (simp add: NUL_def)
  show ?thesis using string_concatenation [OF s(2,4) _ c] s(1,3) by fastforce
qed

text \<open>\<open>clear\<close> only writes one zero byte and \<open>push_back\<close> writes no terminator, so a cleared string that gets one character again has size one
  but \<open>c_str\<close> shows the old text behind it.\<close>

theorem string_clear_keeps_tail:
  assumes "str_repr s (x # xs)" "c \<noteq> NUL"
  shows "\<exists>s1 s2. String_clear s = Inr s1 \<and> c_string (s_buf s1) = Inr '''' \<and> String_push_back c s1 = Inr s2
    \<and> s_size s2 = 1 \<and> c_string (s_buf s2) = Inr (c # xs)"
proof -
  obtain k where k: "String_capacity s = Suc (length xs) + k" 
    using assms(1) le_Suc_ex [of "Suc (length xs)" "String_capacity s"] by (auto simp: str_repr_def)
  let ?rest = "xs @ replicate (k + 1) NUL"
  have buf: "s_buf s = x # ?rest" using assms(1) k by (simp add: str_repr_def)
  let ?s1 = "s\<lparr>s_buf := NUL # ?rest, s_size := 0\<rparr>" and ?s2 = "s\<lparr>s_buf := c # ?rest, s_size := 1\<rparr>"
  have "NUL \<notin> set (c # xs)" using assms by (auto simp: str_repr_def)
  then have "c_string (c # ?rest) = Inr (c # xs)" using takeWhile_until [of NUL "c # xs" "replicate k NUL"] by (simp add: c_string_def)
  moreover have "String_clear s = Inr ?s1" using buf by (simp add: String_clear_def poke_char_def)
  moreover have "String_push_back c ?s1 = Inr ?s2" using k by (simp add: String_push_back_def poke_char_def)
  ultimately show ?thesis by (intro exI [of _ ?s1] exI [of _ ?s2]) (simp add: c_string_def)
qed

theorem string_clear_keeps_tail_witness:
  "\<exists>s s1 s2. String_new ''hello'' = Inr s \<and> String_clear s = Inr s1 \<and> String_push_back (CHR ''J'') s1 = Inr s2
    \<and> s_size s2 = 1 \<and> c_string (s_buf s2) = Inr ''Jello''"
proof -
  obtain s where "String_new ''hello'' = Inr s" "str_repr s ''hello''" using String_new_repr [of "''hello''"] by (auto simp: NUL_def)
  then show ?thesis using string_clear_keeps_tail [of s "CHR ''h''" "''ello''" "CHR ''J''"] by (auto simp: NUL_def)
qed

text \<open>Moving a string out of a heap object, or copying an empty heap string, leaves a string of capacity zero that doubling never enlarges:
  the second character pushed on it is written outside its buffer.\<close>

theorem string_zero_capacity_overrun:
  assumes "str_repr s xs" "s_is_heap s" "String_move s = Inr (m, o1) \<or> xs = [] \<and> String_copy s = Inr o1"
  shows "\<exists>o2. String_push_back c o1 = Inr o2 \<and> c_string (s_buf o2) = (if c = NUL then Inr '''' else Inl Overrun)
    \<and> String_push_back d o2 = Inl Overrun"
proof -
  have "o1 = \<lparr>s_buf = [NUL], s_heap_capacity = 0, s_size = 0, s_is_heap = True\<rparr>"
    using assms str_repr_c_string [OF assms(1)]
    by (auto simp: String_move_def String_copy_def set_heap_data_def strcpy_def str_repr_def)
  then show ?thesis
    by (auto simp: String_push_back_def String_reserve_def String_capacity_def poke_char_def c_string_def)
qed

theorem string_zero_capacity_overrun_witness:
  "\<exists>s s1 o1 o2. String_new '''' = Inr s \<and> String_reserve 20 s = Inr s1 \<and> String_copy s1 = Inr o1
    \<and> String_push_back (CHR ''a'') o1 = Inr o2 \<and> String_push_back (CHR ''b'') o2 = Inl Overrun"
proof -
  obtain s where s: "String_new '''' = Inr s" "str_repr s ''''" using String_new_repr [of "''''"] by auto
  have cap: "String_capacity s = 15" using s(1)
    by (auto simp: String_new_def set_stack_data_def strcpy_def fresh_stack_def String_capacity_def STR_MIN_CAPACITY_def)
  obtain s1 where s1: "String_reserve 20 s = Inr s1" "str_repr s1 ''''" using String_reserve_repr [OF s(2), of 20] by blast
  then have heap: "s_is_heap s1" using cap str_repr_c_string [OF s(2)]
    by (auto simp: String_reserve_def strcpy_def)
  obtain o1 where "String_copy s1 = Inr o1"
    using heap str_repr_c_string [OF s1(2)] s1(2) by (auto simp: String_copy_def set_heap_data_def strcpy_def str_repr_def)
  then show ?thesis using s(1) s1(1) string_zero_capacity_overrun [OF s1(2) heap, of _ o1 "CHR ''a''" "CHR ''b''"] by blast
qed

definition word_char :: "char \<Rightarrow> bool" where
  "word_char c \<longleftrightarrow> c \<noteq> CHR '' '' \<and> c \<noteq> CHR 0x0A \<and> c \<noteq> NUL"

lemma string_in_loop_word:
  "list_all word_char (ch # w) \<Longrightarrow> str_repr s xs \<Longrightarrow> sep \<in> {CHR '' '', CHR 0x0A} \<Longrightarrow>
     \<exists>s'. string_in_loop ch (w @ sep # rest) s = Some (Inr (s', rest)) \<and> str_repr s' (xs @ ch # w)"
proof (induction w arbitrary: ch s xs)
  case Nil
  obtain s1 where "String_push_back ch s = Inr s1" "str_repr s1 (xs @ [ch])" using String_push_repr [OF Nil.prems(2), of ch] Nil.prems(1) by (auto simp: word_char_def)
  then show ?case using Nil.prems by (subst string_in_loop.simps, subst string_in_loop.simps) (auto simp: stream_get_def word_char_def)
next
  case (Cons c w)
  obtain s1 where s1: "String_push_back ch s = Inr s1" "str_repr s1 (xs @ [ch])" using String_push_repr [OF Cons.prems(2), of ch] Cons.prems(1) by (auto simp: word_char_def)
  from Cons.IH [OF _ s1(2) Cons.prems(3), of c] Cons.prems(1) obtain s' where
    "string_in_loop c (w @ sep # rest) s1 = Some (Inr (s', rest))" "str_repr s' ((xs @ [ch]) @ c # w)" by auto
  then show ?case using s1(1) Cons.prems(1) by (subst string_in_loop.simps) (auto simp: stream_get_def word_char_def)
qed

lemma string_in_loop_eof: "str_repr s xs \<Longrightarrow> list_all word_char (ch # is) \<Longrightarrow> string_in_loop ch is s = None"
proof (rule ccontr)
  assume a: "str_repr s xs" "list_all word_char (ch # is)" "string_in_loop ch is s \<noteq> None"
  then obtain r where r: "string_in_loop ch is s = Some r" by blast
  have "(\<exists>xs. str_repr s xs) \<longrightarrow> list_all word_char (ch # is) \<longrightarrow> False"
  proof (rule string_in_loop.raw_induct [OF _ r], intro impI)
    fix loop ch "is" s r
    assume IH: "\<And>ch is s r. loop ch is s = Some r \<Longrightarrow> (\<exists>xs. str_repr s xs) \<longrightarrow> list_all word_char (ch # is) \<longrightarrow> False"
      and run: "(if ch = CHR '' '' \<or> ch = CHR 0x0A then Some (Inr (s, is))
        else case String_push_back ch s of Inl e \<Rightarrow> Some (Inl e) | Inr s \<Rightarrow> (case stream_get is of (ch, is) \<Rightarrow> loop ch is s)) = Some r"
      and ok: "\<exists>xs. str_repr s xs" "list_all word_char (ch # is)"
    obtain xs where xs: "str_repr s xs" using ok(1) by blast
    obtain s1 where s1: "String_push_back ch s = Inr s1" "str_repr s1 (xs @ [ch])" using String_push_repr [OF xs, of ch] ok(2) by (auto simp: word_char_def)
    have "loop (fst (stream_get is)) (snd (stream_get is)) s1 = Some r" using run s1(1) ok(2) by (auto simp: word_char_def split: prod.splits)
    moreover have "list_all word_char (fst (stream_get is) # snd (stream_get is))" using ok(2) by (auto simp: stream_get_def word_char_def NUL_def split: list.splits)
    ultimately show False using IH s1(2) by blast
  qed
  then show False using a(1,2) by blast
qed

lemma String_clear_empty: "str_repr s [] \<Longrightarrow> String_clear s = Inr s"
  by (auto simp: String_clear_def poke_char_def str_repr_def list_update_same_conv)

text \<open>\<open>operator>>\<close> into an empty string reads the next word and the separator after it; if the input ends without a separator it does not return.\<close>

theorem string_in_reads_word:
  assumes "str_repr s []" "list_all word_char w"
  shows "(\<forall>sep rest. w \<noteq> [] \<and> sep \<in> {CHR '' '', CHR 0x0A} \<longrightarrow> (\<exists>s'. String_in (w @ sep # rest) s = Some (Inr (s', rest)) \<and> str_repr s' w))
    \<and> String_in w s = None"
proof -
  have "\<exists>s'. String_in (w @ sep # rest) s = Some (Inr (s', rest)) \<and> str_repr s' w" if w: "w \<noteq> []" "sep \<in> {CHR '' '', CHR 0x0A}" for sep rest
  proof -
    obtain c v where "w = c # v" using w(1) by (cases w) auto
    then show ?thesis using string_in_loop_word [of c v s "[]" sep rest] assms w(2) String_clear_empty [OF assms(1)] by (auto simp: String_in_def stream_get_def)
  qed
  moreover have "list_all word_char (fst (stream_get w) # snd (stream_get w))" using assms(2) by (auto simp: stream_get_def word_char_def NUL_def split: list.splits)
  then have "String_in w s = None" using string_in_loop_eof [OF assms(1)] String_clear_empty [OF assms(1)] by (auto simp: String_in_def split: prod.splits)
  ultimately show ?thesis by blast
qed

theorem string_in_reads_word_witness:
  "\<exists>s s'. String_new '''' = Inr s \<and> String_in ''ab cd'' s = Some (Inr (s', ''cd'')) \<and> c_string (s_buf s') = Inr ''ab'' \<and> String_in ''ab'' s = None"
proof -
  obtain s where s: "String_new '''' = Inr s" "str_repr s ''''" using String_new_repr [of "''''"] by (auto simp: NUL_def)
  have w: "list_all word_char ''ab''" by (simp add: word_char_def NUL_def)
  note in_word = string_in_reads_word [OF s(2) w]
  obtain s' where "String_in (''ab'' @ CHR '' '' # ''cd'') s = Some (Inr (s', ''cd''))" "str_repr s' ''ab''" using in_word by auto
  then show ?thesis using s(1) in_word str_repr_c_string [of s' "''ab''"] by auto
qed

end
