(* ===== verification/Rpc_App.thy ===== *)
theory Rpc_App
  imports Rpc_Service
begin

text \<open>
  The objects an application uses: \<open>RpcClient\<close> (src/src/rpc_client.h, src/src/rpc_client.cpp) and \<open>RpcServer\<close>
  (src/src/rpc_server.h, src/src/rpc_server.cpp), which extends it. Their fields are added to the world of the service
  manager: \<open>initialized_\<close>, \<open>stop_\<close>, the installed handler of \<open>SIGINT\<close>, and whether LLBC has been started up and not
  cleaned up since. Results of LLBC calls are arguments. Application code (coroutines, services, other delegates) and what
  happens during the sleep of \<open>Update\<close> (network thread, signals) are functions on the world.
\<close>

section \<open>State\<close>

datatype sig_handler = Sig_default | RpcClient_SignalHandler | RpcServer_SignalHandler

record ('m, 'e) app_world = "('m, 'e) svc_world" +
  aw_initialized :: bool
  aw_stop :: bool
  aw_llbc :: bool
  aw_sigint :: sig_handler

section \<open>RpcClient\<close>

definition RpcClient_Destroy :: "('m, 'e, 'z) app_world_scheme \<Rightarrow> ('m, 'e, 'z) app_world_scheme" where
  "RpcClient_Destroy w = (if \<not> aw_initialized w then w else (RpcConnMgr_Destroy w)\<lparr>aw_initialized := False, aw_llbc := False\<rparr>)"

definition RpcClient_SetLogConfPath :: "int \<Rightarrow> ('m, 'e, 'z) app_world_scheme \<Rightarrow> int" where
  "RpcClient_SetLogConfPath logger_init w =
     (if \<not> aw_initialized w then LLBC_FAILED else if logger_init = LLBC_FAILED then LLBC_FAILED else LLBC_OK)"

definition RpcClient_InitLLBC :: "int \<Rightarrow> ('m, 'e, 'z) app_world_scheme \<Rightarrow> int \<times> ('m, 'e, 'z) app_world_scheme" where
  "RpcClient_InitLLBC startup w =
     (if startup \<noteq> LLBC_OK then (LLBC_FAILED, RpcClient_Destroy w) else (LLBC_OK, w\<lparr>aw_llbc := True\<rparr>))"

definition RpcClient_InitRpcLib ::
    "'e zoo_api \<Rightarrow> bool \<Rightarrow> int list \<Rightarrow> ('m, 'e, 'z) app_world_scheme \<Rightarrow> int \<times> ('m, 'e, 'z) app_world_scheme" where
  "RpcClient_InitRpcLib api created rets w =
     (let (ret, w) = RpcConnMgr_Init created rets w
      in if ret \<noteq> LLBC_OK then (LLBC_FAILED, RpcClient_Destroy w)
         else let (ret, w) = RpcServiceMgr_Init api True w
              in if ret \<noteq> LLBC_OK then (LLBC_FAILED, RpcClient_Destroy w) else (LLBC_OK, w))"

definition RpcClient_Init ::
    "'e zoo_api \<Rightarrow> int \<Rightarrow> bool \<Rightarrow> int list \<Rightarrow> ('m, 'e, 'z) app_world_scheme \<Rightarrow> int \<times> ('m, 'e, 'z) app_world_scheme" where
  "RpcClient_Init api startup created rets w =
     (if aw_initialized w then (LLBC_FAILED, w)
      else let w = w\<lparr>aw_sigint := RpcClient_SignalHandler\<rparr>; (ret, w) = RpcClient_InitLLBC startup w
           in if ret = LLBC_FAILED then (LLBC_FAILED, w)
              else let (ret, w) = RpcClient_InitRpcLib api created rets w
                   in if ret = LLBC_FAILED then (LLBC_FAILED, w) else (LLBC_OK, w\<lparr>aw_initialized := True\<rparr>))"

definition RpcClient_RegisterRpcChannel ::
    "'e zoo_api \<Rightarrow> nat \<Rightarrow> (string \<Rightarrow> int \<Rightarrow> cint) \<Rightarrow> string \<Rightarrow> ('m, 'e, 'z) app_world_scheme \<Rightarrow>
     (stoi_error + cint option) \<times> ('m, 'e, 'z) app_world_scheme" where
  "RpcClient_RegisterRpcChannel api rnd connected svc_md w =
     (if \<not> aw_initialized w then (Inr None, w) else RegisterRpcChannel api rnd connected svc_md w)"

text \<open>\<open>env\<close> is what happens during \<open>LLBC_Sleep(1)\<close>.\<close>

definition RpcClient_Update ::
    "(nat \<Rightarrow> ('m, 'e, 'z) app_world_scheme \<Rightarrow> ('m, 'e, 'z) app_world_scheme) \<Rightarrow> int \<Rightarrow>
     (deleg \<Rightarrow> nat \<Rightarrow> ('m, 'e, 'z) app_world_scheme \<Rightarrow> ('m, 'e, 'z) app_world_scheme) \<Rightarrow>
     (('m, 'e, 'z) app_world_scheme \<Rightarrow> ('m, 'e, 'z) app_world_scheme) \<Rightarrow>
     ('m, 'e, 'z) app_world_scheme \<Rightarrow> ('m, 'e, 'z) app_world_scheme option" where
  "RpcClient_Update resume now call env w =
     Option.bind (HandleCoroTimeout resume now w) (\<lambda>w. map_option env (RpcConnMgr_Tick call w))"

section \<open>RpcServer\<close>

definition RpcServer_Init ::
    "'e zoo_api \<Rightarrow> int \<Rightarrow> bool \<Rightarrow> int list \<Rightarrow> ('m, 'e, 'z) app_world_scheme \<Rightarrow> int \<times> ('m, 'e, 'z) app_world_scheme" where
  "RpcServer_Init api startup created rets w =
     (let (_, w) = RpcClient_Init api startup created rets w in (LLBC_OK, w\<lparr>aw_sigint := RpcServer_SignalHandler\<rparr>))"

definition RpcServer_RegisterRpcChannel ::
    "'e zoo_api \<Rightarrow> nat \<Rightarrow> (string \<Rightarrow> int \<Rightarrow> cint) \<Rightarrow> string \<Rightarrow> ('m, 'e, 'z) app_world_scheme \<Rightarrow>
     (stoi_error + cint option) \<times> ('m, 'e, 'z) app_world_scheme" where
  "RpcServer_RegisterRpcChannel api rnd connected svc_md w =
     (if aw_stop w then (Inr None, w) else RegisterRpcChannel api rnd connected svc_md w)"

definition RpcServer_Stop :: "('m, 'e, 'z) app_world_scheme \<Rightarrow> ('m, 'e, 'z) app_world_scheme" where
  "RpcServer_Stop w = (if aw_stop w then w else w\<lparr>aw_stop := True\<rparr>)"

definition RpcServer_Listen ::
    "cint \<Rightarrow> string \<Rightarrow> nat \<Rightarrow> ('m, 'e, 'z) app_world_scheme \<Rightarrow> int \<times> ('m, 'e, 'z) app_world_scheme" where
  "RpcServer_Listen listened ip port w =
     (if \<not> aw_initialized w then (LLBC_FAILED, w)
      else if \<not> aw_stop w then (LLBC_FAILED, w)
      else let (ret, w) = RpcConnMgr_StartRpcService listened ip port (w\<lparr>aw_stop := False\<rparr>)
           in if ret \<noteq> LLBC_OK then (LLBC_FAILED, RpcServer_Stop w) else (LLBC_OK, w))"

definition RpcServer_AddService ::
    "('m, ('m, 'e, 'z) app_world_scheme) rpc_app \<Rightarrow> 'e zoo_api \<Rightarrow> nat \<Rightarrow> ('m, 'e, 'z) app_world_scheme \<Rightarrow> ('m, 'e, 'z) app_world_scheme" where
  "RpcServer_AddService app api service w = snd (AddService app api service w)"

text \<open>The loop of \<open>Serve\<close>; \<open>update k\<close> is the turn number \<open>k\<close>, and not returning is \<open>None\<close>.\<close>

partial_function (option) serve_loop ::
    "(nat \<Rightarrow> ('m, 'e, 'z) app_world_scheme \<Rightarrow> ('m, 'e, 'z) app_world_scheme option) \<Rightarrow> nat \<Rightarrow>
     ('m, 'e, 'z) app_world_scheme \<Rightarrow> ('m, 'e, 'z) app_world_scheme option" where
  "serve_loop update k w = (if aw_stop w then Some w else Option.bind (update k w) (serve_loop update (k + 1)))"

definition RpcServer_Serve ::
    "(nat \<Rightarrow> ('m, 'e, 'z) app_world_scheme \<Rightarrow> ('m, 'e, 'z) app_world_scheme option) \<Rightarrow>
     ('m, 'e, 'z) app_world_scheme \<Rightarrow> ('m, 'e, 'z) app_world_scheme option" where
  "RpcServer_Serve update w = (if aw_stop w then Some w else map_option RpcClient_Destroy (serve_loop update 0 w))"

text \<open>The destructor: \<open>Stop\<close>, then the base class's \<open>Destroy\<close>.\<close>

definition RpcServer_delete :: "('m, 'e, 'z) app_world_scheme \<Rightarrow> ('m, 'e, 'z) app_world_scheme" where
  "RpcServer_delete w = RpcClient_Destroy (RpcServer_Stop w)"

section \<open>Calls of an application\<close>

text \<open>A program start: nothing is initialized, no manager is set up.\<close>

definition program_start :: "('m, 'e, 'z) app_world_scheme \<Rightarrow> bool" where
  "program_start w \<longleftrightarrow> \<not> aw_initialized w \<and> aw_stop w \<and> \<not> aw_llbc w \<and> \<not> rw_svc w \<and> \<not> rw_comp w \<and> rw_delegs w = Map.empty
     \<and> rw_ip w = [] \<and> \<not> rw_is_server w \<and> sw_registry w = None \<and> \<not> sw_conn_mgr w \<and> \<not> cw_fault w"

text \<open>What the calls set up: an initialized process has its LLBC service with the component, both handlers subscribed and a
  registry; it is listening only with a registry; before \<open>Listen\<close> succeeds the address is empty.\<close>

definition app_inv :: "('m, 'e, 'z) app_world_scheme \<Rightarrow> bool" where
  "app_inv w \<longleftrightarrow>
     (aw_initialized w \<longrightarrow> aw_llbc w \<and> rw_svc w \<and> rw_comp w \<and> rw_delegs w (opcode_val RpcReq) = Some Deleg_HandleRpcReq
        \<and> rw_delegs w (opcode_val RpcRsp) = Some Deleg_HandleRpcRsp \<and> sw_registry w \<noteq> None)
   \<and> (\<not> aw_stop w \<longrightarrow> sw_registry w \<noteq> None)
   \<and> (sw_registry w \<noteq> None \<longrightarrow> sw_conn_mgr w)
   \<and> (\<not> rw_is_server w \<longrightarrow> rw_ip w = [])
   \<and> rw_delegs w (opcode_val RpcReq) \<in> {None, Some Deleg_HandleRpcReq}
   \<and> rw_delegs w (opcode_val RpcRsp) \<in> {None, Some Deleg_HandleRpcRsp}"

text \<open>Application code that only uses the calls below keeps the set-up.\<close>

definition app_code :: "(('m, 'e, 'z) app_world_scheme \<Rightarrow> ('m, 'e, 'z) app_world_scheme) \<Rightarrow> bool" where
  "app_code f \<longleftrightarrow> (\<forall>w. app_inv w \<longrightarrow> app_inv (f w))"

inductive app_step :: "'e zoo_api \<Rightarrow> ('m, 'e, 'z) app_world_scheme \<Rightarrow> ('m, 'e, 'z) app_world_scheme \<Rightarrow> bool" for api where
  call_client_init: "RpcClient_Init api startup created rets w = (ret, v) \<Longrightarrow> app_step api w v"
| call_server_init: "RpcServer_Init api startup created rets w = (ret, v) \<Longrightarrow> app_step api w v"
| call_destroy: "app_step api w (RpcClient_Destroy w)"
| call_channel: "RpcClient_RegisterRpcChannel api rnd connected svc_md w = (ch, v) \<Longrightarrow> app_step api w v"
| call_server_channel: "RpcServer_RegisterRpcChannel api rnd connected svc_md w = (ch, v) \<Longrightarrow> app_step api w v"
| call_listen: "RpcServer_Listen listened ip port w = (ret, v) \<Longrightarrow> app_step api w v"
| call_stop: "app_step api w (RpcServer_Stop w)"
| call_add: "sw_registry w \<noteq> None \<Longrightarrow> app_step api w (RpcServer_AddService app api service w)"
| call_update: "\<forall>h. app_code (resume h) \<Longrightarrow> \<forall>d a. app_code (call d a) \<Longrightarrow> app_code env \<Longrightarrow>
    RpcClient_Update resume now call env w = Some v \<Longrightarrow> app_step api w v"
| call_serve: "\<forall>k h. app_code (resume k h) \<Longrightarrow> \<forall>k d a. app_code (call k d a) \<Longrightarrow> \<forall>k. app_code (env k) \<Longrightarrow>
    RpcServer_Serve (\<lambda>k. RpcClient_Update (resume k) (now k) (call k) (env k)) w = Some v \<Longrightarrow> app_step api w v"

section \<open>Lemmas\<close>

text \<open>Fields the set-up does not depend on.\<close>

lemma app_inv_updates [simp]:
  "app_inv (w\<lparr>cw_ctrl := c\<rparr>) = app_inv w" "app_inv (w\<lparr>cw_heap := h\<rparr>) = app_inv w" "app_inv (w\<lparr>cw_log := l\<rparr>) = app_inv w"
  "app_inv (w\<lparr>cw_suspended := s\<rparr>) = app_inv w" "app_inv (w\<lparr>cw_fault := f\<rparr>) = app_inv w"
  "app_inv (w\<lparr>rw_packets := ps\<rparr>) = app_inv w" "app_inv (w\<lparr>rw_recvQueue := q\<rparr>) = app_inv w"
  by (simp_all add: app_inv_def)

lemma app_codeD: "app_code f \<Longrightarrow> app_inv w \<Longrightarrow> app_inv (f w)"
  by (simp add: app_code_def)

text \<open>\<open>HandleCoroTimeout\<close> keeps what the resumed coroutines keep and what does not depend on the coroutine manager's own fields.\<close>

definition coro_indifferent :: "('z coro_world_scheme \<Rightarrow> bool) \<Rightarrow> bool" where
  "coro_indifferent P \<longleftrightarrow> (\<forall>w c h l s f. P w \<longrightarrow> P (w\<lparr>cw_ctrl := c\<rparr>) \<and> P (w\<lparr>cw_heap := h\<rparr>) \<and> P (w\<lparr>cw_log := l\<rparr>)
     \<and> P (w\<lparr>cw_suspended := s\<rparr>) \<and> P (w\<lparr>cw_fault := f\<rparr>))"

lemma KillCoro_keeps:
  assumes "coro_indifferent P" "\<And>h w. P w \<Longrightarrow> P (resume h w)" "P w"
  shows "P (KillCoro_ctx resume ctx reason w)"
proof -
  have "P (with_ctrl a f w)" for a f using assms(1,3) by (auto simp: coro_indifferent_def with_ctrl_def split: option.split)
  moreover have "P (handle_resume resume ctx u)" if "P u" for u
    using assms(1,2) that by (auto simp: coro_indifferent_def handle_resume_def)
  ultimately show ?thesis using assms(1) by (simp add: KillCoro_ctx_def Let_def coro_indifferent_def)
qed

lemma HandleCoroTimeout_keeps:
  assumes "HandleCoroTimeout resume now w = Some v" "coro_indifferent P" "\<And>h w. P w \<Longrightarrow> P (resume h w)" "P w"
  shows "P v"
proof -
  have "(\<forall>h w. P w \<longrightarrow> P (resume h w)) \<longrightarrow> P w \<longrightarrow> P v"
  proof (rule HandleCoroTimeout.raw_induct [OF _ assms(1)], intro impI)
    fix go resume now w v
    assume IH: "\<And>resume now w v. go resume now w = Some v \<Longrightarrow> (\<forall>h w. P w \<longrightarrow> P (resume h w)) \<longrightarrow> P w \<longrightarrow> P v"
      and run: "(case BinaryHeap_Top (cw_heap w) of
        None \<Rightarrow> Some w
      | Some first \<Rightarrow>
          (if cx_timeout first > now then Some w
           else if cw_suspended w (cx_uid first) = None
           then go resume now (w\<lparr>cw_heap := snd (BinaryHeap_DeleteTop contextCmp null_context (cw_heap w))\<rparr>)
           else go resume now (KillCoro_ctx resume first ''coro timeout''
                    (w\<lparr>cw_heap := snd (BinaryHeap_DeleteTop contextCmp null_context (cw_heap w))\<rparr>)))) = Some v"
      and code: "\<forall>h w. P w \<longrightarrow> P (resume h w)" and inv: "P w"
    let ?w = "w\<lparr>cw_heap := snd (BinaryHeap_DeleteTop contextCmp null_context (cw_heap w))\<rparr>"
    have "P ?w" using assms(2) inv by (simp add: coro_indifferent_def)
    then have "P (KillCoro_ctx resume ctx r ?w)" for ctx r using KillCoro_keeps [OF assms(2)] code by blast
    then show "P v" using run IH code inv \<open>P ?w\<close> by (auto split: option.splits if_splits)
  qed
  then show ?thesis using assms by blast
qed

lemma HandleCoroTimeout_app_inv:
  assumes "\<forall>h. app_code (resume h)" "HandleCoroTimeout resume now w = Some v" "app_inv w"
  shows "app_inv v"
  by (rule HandleCoroTimeout_keeps [where P = app_inv, OF assms(2) _ _ assms(3)])
    (use assms(1) in \<open>auto simp: coro_indifferent_def dest: app_codeD\<close>)

lemma RecvPacket_app_inv: "RpcConnMgr_RecvPacket w = (ret, a, v) \<Longrightarrow> app_inv v = app_inv w"
  by (auto simp: RpcConnMgr_RecvPacket_def PopRecvPacket_def Let_def split: if_splits prod.splits pop_result.splits)

lemma Tick_app_inv:
  assumes "\<forall>d a. app_code (call d a)" "RpcConnMgr_Tick call w = Some v" "app_inv w"
  shows "app_inv v"
proof -
  have "(\<forall>d a. app_code (call d a)) \<longrightarrow> app_inv w \<longrightarrow> app_inv v"
  proof (rule RpcConnMgr_Tick.raw_induct [OF _ assms(2)], intro impI)
    fix tick call w v
    assume IH: "\<And>call w v. tick call w = Some v \<Longrightarrow> (\<forall>d a. app_code (call d a)) \<longrightarrow> app_inv w \<longrightarrow> app_inv v"
      and run: "(case RpcConnMgr_RecvPacket w of (ret, a, w') \<Rightarrow>
        if ret \<noteq> LLBC_OK then Some w'
        else case rw_packets w' a of
               None \<Rightarrow> tick call (w'\<lparr>cw_fault := True\<rparr>)
             | Some p \<Rightarrow> (case rw_delegs w' (pk_opcode p) of
                    None \<Rightarrow> tick call w'
                  | Some d \<Rightarrow> tick call (LLBC_Recycle a (call d a w')))) = Some v"
      and code: "\<forall>d a. app_code (call d a)" and inv: "app_inv w"
    obtain ret a u where recv: "RpcConnMgr_RecvPacket w = (ret, a, u)" by (cases "RpcConnMgr_RecvPacket w") auto
    then have u: "app_inv u" using RecvPacket_app_inv [OF recv] inv by simp
    have "app_inv (call d a u)" for d using app_codeD code u by blast
    then have "app_inv (LLBC_Recycle a (call d a u))" for d by (simp add: LLBC_Recycle_def)
    then show "app_inv v" using run recv u code IH by (auto split: if_splits option.splits)
  qed
  then show ?thesis using assms by blast
qed

lemma Update_app_inv:
  assumes "\<forall>h. app_code (resume h)" "\<forall>d a. app_code (call d a)" "app_code env"
    and "RpcClient_Update resume now call env w = Some v" "app_inv w"
  shows "app_inv v"
  using assms HandleCoroTimeout_app_inv [OF assms(1)] Tick_app_inv [OF assms(2)] app_codeD [OF assms(3)]
  by (auto simp: RpcClient_Update_def split: bind_splits)

lemma serve_loop_app_inv:
  assumes "\<And>k w v. update k w = Some v \<Longrightarrow> app_inv w \<Longrightarrow> app_inv v" "serve_loop update k w = Some v" "app_inv w"
  shows "app_inv v \<and> aw_stop v"
proof -
  have "(\<forall>k w v. update k w = Some v \<longrightarrow> app_inv w \<longrightarrow> app_inv v) \<longrightarrow> app_inv w \<longrightarrow> app_inv v \<and> aw_stop v"
    by (rule serve_loop.raw_induct [OF _ assms(2)]) (fastforce split: if_splits bind_splits)
  then show ?thesis using assms by blast
qed

lemma Destroy_app_inv: "app_inv w \<Longrightarrow> app_inv (RpcClient_Destroy w)"
  by (auto simp: RpcClient_Destroy_def RpcConnMgr_Destroy_def app_inv_def)

lemma Stop_app_inv: "app_inv w \<Longrightarrow> app_inv (RpcServer_Stop w)"
  by (simp add: RpcServer_Stop_def app_inv_def)

text \<open>The managers are set up step by step: nothing is undone that an earlier \<open>Init\<close> did.\<close>

lemma ConnMgr_Init_fields:
  fixes v :: "('m, 'e, 'z) app_world_scheme"
  assumes "RpcConnMgr_Init created rets w = (ret, v)"
  shows "rw_delegs v = rw_delegs w" "rw_ip v = rw_ip w" "rw_is_server v = rw_is_server w" "cw_fault v = cw_fault w"
    "sw_registry v = sw_registry w" "sw_conn_mgr v = sw_conn_mgr w" "aw_stop v = aw_stop w" "aw_llbc v = aw_llbc w"
    "aw_initialized v = aw_initialized w" "aw_sigint v = aw_sigint w" "ret = LLBC_OK \<Longrightarrow> rw_svc v \<and> rw_comp v"
    "ret = LLBC_OK \<longleftrightarrow> created \<and> list_all (\<lambda>r. r = LLBC_OK) rets" "rw_svc v = created"
    "ret = LLBC_OK \<or> ret = LLBC_FAILED"
  using assms by (auto simp: RpcConnMgr_Init_def RpcConnMgr_Destroy_def Let_def split: if_splits)

lemma opcode_val_distinct [simp]: "opcode_val RpcReq \<noteq> opcode_val RpcRsp" "opcode_val RpcRsp \<noteq> opcode_val RpcReq"
  by (simp_all add: opcode_val_def)

lemma ServiceMgr_Init_fields:
  fixes v :: "('m, 'e, 'z) app_world_scheme"
  assumes "RpcServiceMgr_Init api True w = (ret, v)"
    and "rw_delegs w (opcode_val RpcReq) \<in> {None, Some Deleg_HandleRpcReq}" "rw_delegs w (opcode_val RpcRsp) \<in> {None, Some Deleg_HandleRpcRsp}"
  shows "rw_delegs v (opcode_val RpcReq) = Some Deleg_HandleRpcReq" "rw_delegs v (opcode_val RpcRsp) = Some Deleg_HandleRpcRsp"
    "rw_ip v = rw_ip w" "rw_is_server v = rw_is_server w" "cw_fault v = cw_fault w"
    "sw_registry v \<noteq> None" "sw_conn_mgr v" "aw_stop v = aw_stop w" "aw_llbc v = aw_llbc w"
    "aw_initialized v = aw_initialized w" "aw_sigint v = aw_sigint w" "rw_svc v = rw_svc w" "rw_comp v = rw_comp w"
    "ret = LLBC_OK"
  using assms by (auto simp: RpcServiceMgr_Init_def RpcConnMgr_Subscribe_def RpcRegistry_Connect_def zk_connect_def Let_def
      split: if_splits prod.splits)

lemma InitRpcLib_cases:
  fixes w :: "('m, 'e, 'z) app_world_scheme"
  assumes "RpcClient_InitRpcLib api created rets w = (ret, v)" "app_inv w" "\<not> aw_initialized w"
  shows "ret = (if created \<and> list_all (\<lambda>r. r = LLBC_OK) rets then LLBC_OK else LLBC_FAILED)"
    "ret = LLBC_OK \<Longrightarrow> rw_svc v \<and> rw_comp v \<and> rw_delegs v (opcode_val RpcReq) = Some Deleg_HandleRpcReq
       \<and> rw_delegs v (opcode_val RpcRsp) = Some Deleg_HandleRpcRsp \<and> sw_registry v \<noteq> None"
    "app_inv v" "\<not> aw_initialized v" "aw_llbc v = aw_llbc w" "cw_fault v = cw_fault w" "aw_stop v = aw_stop w"
    "rw_is_server v = rw_is_server w" "rw_svc v = created"
proof -
  obtain r1 w1 where 1: "RpcConnMgr_Init created rets w = (r1, w1)" by (cases "RpcConnMgr_Init created rets w") auto
  obtain r2 w2 where 2: "RpcServiceMgr_Init api True w1 = (r2, w2)" by (cases "RpcServiceMgr_Init api True w1") auto
  note f1 = ConnMgr_Init_fields [OF 1]
  have d: "rw_delegs w1 (opcode_val RpcReq) \<in> {None, Some Deleg_HandleRpcReq}" "rw_delegs w1 (opcode_val RpcRsp) \<in> {None, Some Deleg_HandleRpcRsp}"
    using assms(2) f1(1) by (simp_all add: app_inv_def)
  note f2 = ServiceMgr_Init_fields [OF 2 d]
  consider "ret = LLBC_OK" "v = w2" "r1 = LLBC_OK" | "ret = LLBC_FAILED" "v = w1" "r1 = LLBC_FAILED"
    using assms(1,3) 1 2 f1(9,14) f2(14) by (auto simp: RpcClient_InitRpcLib_def RpcClient_Destroy_def split: if_splits)
  note c = this
  show "ret = (if created \<and> list_all (\<lambda>r. r = LLBC_OK) rets then LLBC_OK else LLBC_FAILED)"
    using c f1(12) by cases auto
  show "rw_svc v \<and> rw_comp v \<and> rw_delegs v (opcode_val RpcReq) = Some Deleg_HandleRpcReq
       \<and> rw_delegs v (opcode_val RpcRsp) = Some Deleg_HandleRpcRsp \<and> sw_registry v \<noteq> None" if "ret = LLBC_OK"
    using c that f1(11) f2 by cases auto
  show "app_inv v" using c
  proof cases
    case 1
    then show ?thesis using f1(1-11) f2 assms(2,3) by (simp add: app_inv_def)
  next
    case 2
    then show ?thesis using f1(1-10) assms(2,3) by (simp add: app_inv_def)
  qed
  show "\<not> aw_initialized v" "aw_llbc v = aw_llbc w" "cw_fault v = cw_fault w" "aw_stop v = aw_stop w"
    "rw_is_server v = rw_is_server w" "rw_svc v = created"
    using c f1 f2 assms(3) by (cases; simp)+
qed

text \<open>\<open>Init\<close> succeeds exactly when the process is not initialized and all its LLBC calls succeed.\<close>

lemma Init_cases:
  fixes w :: "('m, 'e, 'z) app_world_scheme"
  assumes "RpcClient_Init api startup created rets w = (ret, v)" "app_inv w"
  shows "ret = (if \<not> aw_initialized w \<and> startup = LLBC_OK \<and> created \<and> list_all (\<lambda>r. r = LLBC_OK) rets then LLBC_OK else LLBC_FAILED)"
    "app_inv v" "aw_initialized v \<longleftrightarrow> aw_initialized w \<or> ret = LLBC_OK" "cw_fault v = cw_fault w" "aw_stop v = aw_stop w"
    "rw_is_server v = rw_is_server w"
    "\<not> aw_initialized w \<Longrightarrow> startup = LLBC_OK \<Longrightarrow> aw_llbc v \<and> rw_svc v = created"
proof -
  let ?w1 = "w\<lparr>aw_sigint := RpcClient_SignalHandler, aw_llbc := True\<rparr>"
  obtain r2 w2 where 2: "RpcClient_InitRpcLib api created rets ?w1 = (r2, w2)"
    by (cases "RpcClient_InitRpcLib api created rets ?w1") auto
  have i: "app_inv ?w1" if "\<not> aw_initialized w" using assms(2) that by (simp add: app_inv_def)
  note f = InitRpcLib_cases [OF 2]
  consider "aw_initialized w" "ret = LLBC_FAILED" "v = w"
    | "\<not> aw_initialized w" "startup \<noteq> LLBC_OK" "ret = LLBC_FAILED" "v = w\<lparr>aw_sigint := RpcClient_SignalHandler\<rparr>"
    | "\<not> aw_initialized w" "startup = LLBC_OK" "ret = LLBC_FAILED" "v = w2" "r2 = LLBC_FAILED"
    | "\<not> aw_initialized w" "startup = LLBC_OK" "ret = LLBC_OK" "v = w2\<lparr>aw_initialized := True\<rparr>" "r2 = LLBC_OK"
  proof (cases "aw_initialized w \<or> startup \<noteq> LLBC_OK")
    case True
    show ?thesis
    proof (cases "aw_initialized w")
      case True
      then have "ret = LLBC_FAILED" "v = w" using assms(1) by (simp_all add: RpcClient_Init_def)
      then show ?thesis using that(1) True by blast
    next
      case False
      then have "ret = LLBC_FAILED" "v = w\<lparr>aw_sigint := RpcClient_SignalHandler\<rparr>" "startup \<noteq> LLBC_OK"
        using True assms(1) by (simp_all add: RpcClient_Init_def RpcClient_InitLLBC_def RpcClient_Destroy_def)
      then show ?thesis using that(2) False by blast
    qed
  next
    case False
    have "r2 = LLBC_OK \<and> ret = LLBC_OK \<and> v = w2\<lparr>aw_initialized := True\<rparr> \<or> r2 = LLBC_FAILED \<and> ret = LLBC_FAILED \<and> v = w2"
      using f(1) [OF i] False assms(1) 2 by (simp add: RpcClient_Init_def RpcClient_InitLLBC_def split: if_splits)
    then show ?thesis using that(3,4) False by blast
  qed
  note c = this
  show "ret = (if \<not> aw_initialized w \<and> startup = LLBC_OK \<and> created \<and> list_all (\<lambda>r. r = LLBC_OK) rets then LLBC_OK else LLBC_FAILED)"
    using c by cases (use f(1) [OF i] in \<open>auto split: if_splits\<close>)
  show "app_inv v" using c
  proof cases
    case 4
    then show ?thesis using f(2-5) [OF i] by (simp add: app_inv_def)
  qed (use assms(2) f(3) [OF i] in \<open>auto simp: app_inv_def\<close>)
  have g: "\<not> aw_initialized w2 \<and> aw_llbc w2 \<and> cw_fault w2 = cw_fault w \<and> aw_stop w2 = aw_stop w
      \<and> rw_is_server w2 = rw_is_server w \<and> rw_svc w2 = created" if "\<not> aw_initialized w"
    using f(4-9) [OF i] that by simp
  have "(aw_initialized v \<longleftrightarrow> aw_initialized w \<or> ret = LLBC_OK) \<and> cw_fault v = cw_fault w \<and> aw_stop v = aw_stop w
      \<and> rw_is_server v = rw_is_server w \<and> (\<not> aw_initialized w \<longrightarrow> startup = LLBC_OK \<longrightarrow> aw_llbc v \<and> rw_svc v = created)"
    using c
  proof cases
    case 3
    then show ?thesis using g [OF 3(1)] by simp
  next
    case 4
    then show ?thesis using g [OF 4(1)] by simp
  qed simp_all
  then show "aw_initialized v \<longleftrightarrow> aw_initialized w \<or> ret = LLBC_OK" "cw_fault v = cw_fault w" "aw_stop v = aw_stop w"
    "rw_is_server v = rw_is_server w"
    "\<not> aw_initialized w \<Longrightarrow> startup = LLBC_OK \<Longrightarrow> aw_llbc v \<and> rw_svc v = created" by blast+
qed

lemma RegisterRpcChannel_fields:
  assumes "RegisterRpcChannel api rnd connected svc_md w = (ch, v)" "sw_registry w = Some r" "sw_conn_mgr w"
  shows "\<exists>r e c. v = w\<lparr>sw_registry := Some r, sw_zoo := e, sw_channels := c\<rparr>"
proof -
  obtain res r1 e where g: "GetRandomService api rnd svc_md r (sw_zoo w) = (res, r1, e)"
    by (cases "GetRandomService api rnd svc_md r (sw_zoo w)") auto
  let ?w = "w\<lparr>sw_registry := Some r1, sw_zoo := e\<rparr>"
  have "v = ?w \<or> (\<exists>c. v = ?w\<lparr>sw_channels := c\<rparr>)"
    using assms g by (auto simp: RegisterRpcChannel_def Let_def split: option.splits sum.splits if_splits)
  moreover have "?w = ?w\<lparr>sw_channels := sw_channels w\<rparr>" by simp
  ultimately show ?thesis by metis
qed

lemma RegisterRpcChannel_app_inv:
  assumes "RegisterRpcChannel api rnd connected svc_md w = (ch, v)" "app_inv w" "sw_registry w \<noteq> None"
  shows "app_inv v" "cw_fault v = cw_fault w"
proof -
  obtain r where "sw_registry w = Some r" using assms(3) by auto
  moreover have "sw_conn_mgr w" using assms(2,3) by (simp add: app_inv_def)
  ultimately obtain r e c where "v = w\<lparr>sw_registry := Some r, sw_zoo := e, sw_channels := c\<rparr>"
    using RegisterRpcChannel_fields [OF assms(1)] by blast
  then show "app_inv v" "cw_fault v = cw_fault w" using assms(2,3) by (simp_all add: app_inv_def)
qed

lemma Listen_cases:
  assumes "RpcServer_Listen listened ip port w = (ret, v)" "app_inv w"
  shows "ret = (if aw_initialized w \<and> aw_stop w \<and> \<not> rw_is_server w \<and> listened \<noteq> 0 then LLBC_OK else LLBC_FAILED)"
    "app_inv v" "cw_fault v = cw_fault w"
    "ret = LLBC_OK \<Longrightarrow> rw_ip v = ip @ '':'' @ dec_str port \<and> rw_is_server v \<and> \<not> aw_stop v"
    "ret \<noteq> LLBC_OK \<Longrightarrow> aw_stop v = aw_stop w"
  using assms by (auto simp: RpcServer_Listen_def RpcServer_Stop_def RpcConnMgr_StartRpcService_def Let_def app_inv_def split: if_splits)

lemma add_methods_app_inv:
  "add_methods api service name mds w = (ret, v) \<Longrightarrow> app_inv w \<Longrightarrow> sw_registry w \<noteq> None \<Longrightarrow>
   app_inv v \<and> cw_fault v = cw_fault w"
proof (induction mds arbitrary: w)
  case (Cons md mds)
  let ?w = "w\<lparr>sw_methods := set_method name (md_name md) \<lparr>si_service = service, si_md = md\<rparr> (sw_methods w)\<rparr>"
  obtain r where r: "sw_registry w = Some r" using Cons.prems by auto
  obtain rt e where 1: "RegisterService api (name @ ''.'' @ md_name md) (rw_ip w) r (sw_zoo w) = (rt, e)"
    by (cases "RegisterService api (name @ ''.'' @ md_name md) (rw_ip w) r (sw_zoo w)")
  have i: "app_inv (?w\<lparr>sw_zoo := e\<rparr>)" "sw_conn_mgr w" using Cons.prems by (auto simp: app_inv_def)
  show ?case
  proof (cases "rt = LLBC_OK")
    case True
    then show ?thesis using Cons.IH [OF _ i(1)] Cons.prems(1) 1 r i(2) by simp
  next
    case False
    then show ?thesis using Cons.prems(1) 1 r i by auto
  qed
qed simp

text \<open>The calls that set up and use the managers; \<open>Update\<close> and \<open>Serve\<close> run application code.\<close>

lemma app_step_inv:
  assumes "app_step api w v" "app_inv w"
  shows "app_inv v"
  using assms
proof (induction rule: app_step.induct)
  case (call_server_init startup created rets w ret v)
  then obtain r u where "RpcClient_Init api startup created rets w = (r, u)" "v = u\<lparr>aw_sigint := RpcServer_SignalHandler\<rparr>"
    by (auto simp: RpcServer_Init_def split: prod.splits)
  moreover have "app_inv u" using Init_cases(2) calculation(1) call_server_init.prems by blast
  ultimately show ?case by (simp add: app_inv_def)
next
  case (call_channel rnd connected svc_md w ch v)
  then have "aw_initialized w \<Longrightarrow> sw_registry w \<noteq> None" by (simp add: app_inv_def)
  then show ?case using call_channel RegisterRpcChannel_app_inv(1) [of api rnd connected svc_md w ch v]
    by (simp add: RpcClient_RegisterRpcChannel_def split: if_splits)
next
  case (call_server_channel rnd connected svc_md w ch v)
  then have "\<not> aw_stop w \<Longrightarrow> sw_registry w \<noteq> None" by (simp add: app_inv_def)
  then show ?case using call_server_channel RegisterRpcChannel_app_inv(1) [of api rnd connected svc_md w ch v]
    by (simp add: RpcServer_RegisterRpcChannel_def split: if_splits)
next
  case (call_add w app service)
  then show ?case using add_methods_app_inv
    by (metis AddService_def RpcServer_AddService_def prod.collapse)
next
  case (call_serve resume call env now w v)
  show ?case
  proof (cases "aw_stop w")
    case False
    then obtain u where "serve_loop (\<lambda>k. RpcClient_Update (resume k) (now k) (call k) (env k)) 0 w = Some u" "v = RpcClient_Destroy u"
      using call_serve.hyps by (auto simp: RpcServer_Serve_def)
    moreover have "app_inv t" if "RpcClient_Update (resume k) (now k) (call k) (env k) s = Some t" "app_inv s" for k s t
      using Update_app_inv [OF _ _ _ that] call_serve.hyps(1-3) by blast
    ultimately show ?thesis using serve_loop_app_inv [of "\<lambda>k. RpcClient_Update (resume k) (now k) (call k) (env k)" 0 w u]
        call_serve.prems Destroy_app_inv by blast
  qed (use call_serve in \<open>auto simp: RpcServer_Serve_def\<close>)
qed (auto intro: Init_cases(2) Destroy_app_inv Listen_cases(2) Stop_app_inv Update_app_inv)

lemma program_start_inv: "program_start w \<Longrightarrow> app_inv w"
  by (simp add: program_start_def app_inv_def)

interpretation app_run: transition_invariant program_start "app_step api" app_inv for api :: "'e zoo_api"
  by unfold_locales (auto intro: program_start_inv app_step_inv)

text \<open>Turns of the server loop.\<close>

lemma coro_inv_rw_updates [simp]:
  "coro_inv (w\<lparr>rw_packets := ps\<rparr>) = coro_inv w" "coro_inv (w\<lparr>rw_recvQueue := q\<rparr>) = coro_inv w"
  "coro_inv (w\<lparr>cw_fault := f\<rparr>) = coro_inv w"
  by (simp_all add: coro_inv_def)

lemma tick_packet_coro_inv:
  assumes "\<And>d a w. coro_inv w \<Longrightarrow> coro_inv (call d a w)" "coro_inv w"
  shows "coro_inv (tick_packet call a (pop_recv w))"
  using assms by (simp add: tick_packet_def pop_recv_def LLBC_Recycle_def split: option.split)

lemma tick_fold_coro_inv:
  assumes "\<And>d a w. coro_inv w \<Longrightarrow> coro_inv (call d a w)"
  shows "coro_inv w \<Longrightarrow> coro_inv (fold (\<lambda>a w. tick_packet call a (pop_recv w)) as w)"
  by (induction as arbitrary: w) (simp_all add: tick_packet_coro_inv [OF assms])

text \<open>What a turn needs and keeps.\<close>

definition turn_ready :: "'z rpc_world_scheme \<Rightarrow> bool" where
  "turn_ready w \<longleftrightarrow> coro_inv w \<and> recv_ready w"

definition serving_code ::
    "(nat \<Rightarrow> ('m, 'e, 'z) app_world_scheme \<Rightarrow> ('m, 'e, 'z) app_world_scheme) \<Rightarrow> int \<Rightarrow>
     (deleg \<Rightarrow> nat \<Rightarrow> ('m, 'e, 'z) app_world_scheme \<Rightarrow> ('m, 'e, 'z) app_world_scheme) \<Rightarrow>
     (('m, 'e, 'z) app_world_scheme \<Rightarrow> ('m, 'e, 'z) app_world_scheme) \<Rightarrow> bool" where
  "serving_code resume now call env \<longleftrightarrow>
     (\<forall>h w. app_ok now h w (resume h w) \<and> (recv_ready w \<longrightarrow> recv_ready (resume h w)))
   \<and> keeps_recv call \<and> (\<forall>d a w. coro_inv w \<longrightarrow> coro_inv (call d a w))
   \<and> (\<forall>w. turn_ready w \<longrightarrow> turn_ready (env w))"

lemma fold_recv_ready:
  assumes "keeps_recv call"
  shows "recv_ready w \<Longrightarrow> recv_list w = as \<Longrightarrow> recv_ready (fold (\<lambda>a w. tick_packet call a (pop_recv w)) as w)"
proof (induction as arbitrary: w)
  case (Cons a as)
  let ?w = "tick_packet call a (pop_recv w)"
  note recv = RecvPacket_cons [OF Cons.prems]
  have q: "rw_recvQueue ?w = rw_recvQueue (pop_recv w) \<and> rw_comp ?w = rw_comp (pop_recv w)"
    using tick_packet_recv [OF assms] by simp
  then have "recv_ready ?w" "recv_list ?w = as" using recv(2,3) by (simp_all add: recv_ready_def)
  then show ?case using Cons.IH by simp
qed simp

lemma Update_returns:
  assumes code: "serving_code resume now call env" and w: "turn_ready w"
  shows "\<exists>v ks w1. RpcClient_Update resume now call env w = Some (env v) \<and> turn_ready v \<and> recv_list v = []
    \<and> HandleCoroTimeout resume now w = Some w1 \<and> timeouts_handled now w ks w1
    \<and> v = fold (\<lambda>a w. tick_packet call a (pop_recv w)) (recv_list w1) w1"
proof -
  note code = code [unfolded serving_code_def]
  obtain w1 ks where w1: "HandleCoroTimeout resume now w = Some w1" "coro_inv w1" "timeouts_handled now w ks w1"
    using HandleCoroTimeout_ok [of now resume w] code w by (auto simp: turn_ready_def)
  have "coro_indifferent (recv_ready :: ('m, 'e, 'z) app_world_scheme \<Rightarrow> bool)" by (simp add: coro_indifferent_def recv_ready_def)
  from HandleCoroTimeout_keeps [OF w1(1) this] have r1: "recv_ready w1" using code w by (auto simp: turn_ready_def)
  let ?v = "fold (\<lambda>a w. tick_packet call a (pop_recv w)) (recv_list w1) w1"
  have tick: "RpcConnMgr_Tick call w1 = Some ?v" "recv_list ?v = []" using Tick_fold [OF _ r1] code by auto
  have "turn_ready ?v"
    unfolding turn_ready_def using tick_fold_coro_inv [of call w1] fold_recv_ready [OF _ r1] code w1(2) by blast
  then show ?thesis using w1 tick by (auto simp: RpcClient_Update_def)
qed

lemma serve_loop_returns:
  assumes code: "\<And>k. serving_code (resume k) (now k) (call k) (env k)" and stop: "\<And>w. aw_stop (env n w)"
  shows "turn_ready w \<Longrightarrow> k \<le> n \<Longrightarrow>
    \<exists>v. serve_loop (\<lambda>k. RpcClient_Update (resume k) (now k) (call k) (env k)) k w = Some v \<and> aw_stop v \<and> turn_ready v"
proof (induction "n - k" arbitrary: k w)
  case 0
  obtain v where v: "RpcClient_Update (resume k) (now k) (call k) (env k) w = Some (env k v)" "turn_ready v"
    using Update_returns [OF code 0(2)] by blast
  have "turn_ready (env k v)" "aw_stop (env k v)" using code v(2) 0 stop by (auto simp: serving_code_def)
  then have "serve_loop (\<lambda>k. RpcClient_Update (resume k) (now k) (call k) (env k)) (k + 1) (env k v) = Some (env k v)"
    by (subst serve_loop.simps) simp
  then show ?case using v(1) 0(2) \<open>turn_ready (env k v)\<close> \<open>aw_stop (env k v)\<close>
    by (cases "aw_stop w"; subst serve_loop.simps) simp_all
next
  case (Suc d)
  obtain v where v: "RpcClient_Update (resume k) (now k) (call k) (env k) w = Some (env k v)" "turn_ready v"
    using Update_returns [OF code Suc.prems(1)] by blast
  have "turn_ready (env k v)" using code v(2) by (auto simp: serving_code_def)
  then have "\<exists>v'. serve_loop (\<lambda>k. RpcClient_Update (resume k) (now k) (call k) (env k)) (k + 1) (env k v) = Some v' \<and> aw_stop v' \<and> turn_ready v'"
    using Suc.hyps(1) [of "k + 1"] Suc.hyps(2) by simp
  then show ?case using v(1) Suc.prems(1) by (cases "aw_stop w"; subst serve_loop.simps) auto
qed

section \<open>Example\<close>

definition start_world :: "(byte list, (string \<times> string) list) app_world" where
  "start_world = (svc_world.extend (echo_world Packet_new []) \<lparr>aw_initialized = False, aw_stop = True, aw_llbc = False,
       aw_sigint = Sig_default\<rparr>)\<lparr>cw_suspended := Map.empty, cw_heap := BinaryHeap_new null_context 256, cw_fault := False,
     rw_svc := False, rw_comp := False, rw_delegs := Map.empty, rw_ip := [], rw_is_server := False, sw_registry := None, sw_conn_mgr := False\<rparr>"

lemma start_world_start: "program_start start_world"
  by (simp add: program_start_def start_world_def svc_world.defs)

section \<open>Properties\<close>







text \<open>\<open>RpcConnMgr\<close> never forgets that it listened: a server that has listened and been destroyed can be initialized again, but its
  \<open>Listen\<close> fails from then on.\<close>

theorem listen_only_once:
  assumes "app_inv w" "RpcServer_Listen l ip port w = (LLBC_OK, v)"
  shows "\<exists>u. RpcClient_Init api LLBC_OK True [] (RpcServer_delete v) = (LLBC_OK, u) \<and> aw_initialized u \<and> aw_stop u
    \<and> fst (RpcServer_Listen l' ip' port' u) = LLBC_FAILED"
proof -
  note v = Listen_cases [OF assms(2,1)]
  have d: "app_inv (RpcServer_delete v)" unfolding RpcServer_delete_def by (intro Destroy_app_inv Stop_app_inv v(2))
  have del: "\<not> aw_initialized (RpcServer_delete v)" "rw_is_server (RpcServer_delete v)" "aw_stop (RpcServer_delete v)"
    using v(4) by (auto simp: RpcServer_delete_def RpcServer_Stop_def RpcClient_Destroy_def RpcConnMgr_Destroy_def)
  obtain ret u where u: "RpcClient_Init api LLBC_OK True [] (RpcServer_delete v) = (ret, u)" by fastforce
  note i = Init_cases [OF u d]
  have ok: "ret = LLBC_OK" "aw_initialized u" "aw_stop u" "rw_is_server u" using i(1,3,5,6) del by simp_all
  obtain ret2 x where x: "RpcServer_Listen l' ip' port' u = (ret2, x)" by fastforce
  have "ret2 = LLBC_FAILED" using Listen_cases(1) [OF x i(2)] ok(4) by simp
  then show ?thesis using u ok x by simp
qed
text \<open>Adding a service makes the address a child of the node of each of its methods.\<close>

lemma add_methods_kids:
  assumes "zoo_tree api hs kids" "m_zh (rr_client r) \<in> hs" "CHR ''/'' \<notin> set name" "CHR ''/'' \<notin> set addr"
  shows "add_methods api s name mds w = (LLBC_OK, w') \<Longrightarrow> sw_registry w = Some r \<Longrightarrow> rw_ip w = addr \<Longrightarrow>
    (\<And>md. md \<in> set mds \<Longrightarrow> CHR ''/'' \<notin> set (md_name md)) \<Longrightarrow>
    kids (sw_zoo w') (''/'' @ name @ ''.'' @ m) =
      (if m \<in> md_name ` set mds then insert addr else id) (kids (sw_zoo w) (''/'' @ name @ ''.'' @ m))"
proof (induction mds arbitrary: w)
  case (Cons x mds)
  let ?svc = "name @ ''.'' @ md_name x"
  let ?w = "w\<lparr>sw_methods := set_method name (md_name x) \<lparr>si_service = s, si_md = x\<rparr> (sw_methods w)\<rparr>"
  obtain rt e where reg: "RegisterService api ?svc addr r (sw_zoo w) = (rt, e)" by fastforce
  then have ok: "rt = LLBC_OK" "add_methods api s name mds (?w\<lparr>sw_zoo := e\<rparr>) = (LLBC_OK, w')"
    using Cons.prems(1-3) by (auto simp: Let_def split: if_splits)
  have "CHR ''/'' \<notin> set ?svc" using assms(3) Cons.prems(4) [of x] by simp
  note k = RegisterService_kids [OF assms(1,2) reg [unfolded ok(1)] this assms(4)]
  have ih: "kids (sw_zoo w') (''/'' @ name @ ''.'' @ m) =
      (if m \<in> md_name ` set mds then insert addr else id) (kids e (''/'' @ name @ ''.'' @ m))"
    using Cons.IH [OF ok(2)] Cons.prems(2-4) by simp
  show ?case
  proof (cases "m = md_name x")
    case True
    then show ?thesis using ih k(1) by auto
  next
    case False
    then show ?thesis using ih k(2) [of "''/'' @ name @ ''.'' @ m"] by auto
  qed
qed simp


text \<open>An initialized process that shares the ZooKeeper content \<open>e\<close>.\<close>

definition ready_world :: "(string \<times> string) list \<Rightarrow> (byte list, (string \<times> string) list) app_world" where
  "ready_world e = start_world\<lparr>aw_initialized := True, aw_llbc := True, rw_svc := True, rw_comp := True,
     rw_delegs := [opcode_val RpcReq \<mapsto> Deleg_HandleRpcReq, opcode_val RpcRsp \<mapsto> Deleg_HandleRpcRsp],
     sw_registry := Some RpcRegistry_new, sw_conn_mgr := True, sw_zoo := e\<rparr>"

lemma ready_world_inv: "app_inv (ready_world e)"
  by (simp add: app_inv_def ready_world_def start_world_def svc_world.defs)

theorem listen_only_once_witness:
  "\<exists>v u. RpcServer_Listen 5 ''127.0.0.1'' 6688 (ready_world []) = (LLBC_OK, v)
    \<and> RpcClient_Init tree_api LLBC_OK True [] (RpcServer_delete v) = (LLBC_OK, u) \<and> fst (RpcServer_Listen 6 ''127.0.0.1'' 6689 u) = LLBC_FAILED"
proof -
  obtain v where v: "RpcServer_Listen 5 ''127.0.0.1'' 6688 (ready_world []) = (LLBC_OK, v)"
    by (simp add: RpcServer_Listen_def RpcConnMgr_StartRpcService_def ready_world_def start_world_def svc_world.defs Let_def)
  show ?thesis using listen_only_once [OF ready_world_inv v, of tree_api 6 "''127.0.0.1''" 6689] v by blast
qed


end
