(* ===== verification/Uring_Aio.thy ===== *)
theory Uring_Aio
  imports Prelude
begin

text \<open>
  \<open>UringAIO\<close> (include/uring_aio.h): asynchronous writes on an io_uring. liburing and the kernel are a parameter: \<open>'r\<close> is the
  ring as the library and the kernel see it, and \<open>uring_api\<close> has the library calls the class makes. A submission entry carries the
  bytes to write and, as user data, the address of the \<open>WriteRequest\<close> that owns the buffer; requests are objects in a
  store, so that a completion for a request that was deleted is a visible fault. The template arguments are the record
  \<open>uring_cfg\<close>. Calls that may block for ever or loop are options, \<open>None\<close> for not returning.
\<close>

section \<open>liburing\<close>

datatype sqe_op = Prep_write int "byte list" int | Prep_fsync int bool

record sqe =
  se_op :: sqe_op
  se_fixed :: bool
  se_data :: "nat option"

record cqe =
  ce_data :: "nat option"
  ce_res :: int

text \<open>\<open>io_uring_prep\<close> fills the entry that the last \<open>io_uring_get_sqe\<close> returned; a null entry is the result \<open>False\<close>.
  \<open>io_uring_wait_cqe\<close> gives an error or the first completion, which stays in the ring until \<open>io_uring_cqe_seen\<close>.\<close>

record 'r uring_api =
  io_uring_queue_init_params :: "nat \<Rightarrow> bool \<Rightarrow> 'r \<Rightarrow> int \<times> 'r"
  io_uring_feat_sqpoll_nonfixed :: "'r \<Rightarrow> bool"
  io_uring_queue_exit :: "'r \<Rightarrow> 'r"
  io_uring_register_files :: "int list \<Rightarrow> 'r \<Rightarrow> int \<times> 'r"
  io_uring_unregister_files :: "'r \<Rightarrow> int \<times> 'r"
  io_uring_get_sqe :: "'r \<Rightarrow> bool \<times> 'r"
  io_uring_prep :: "sqe \<Rightarrow> 'r \<Rightarrow> 'r"
  io_uring_submit :: "'r \<Rightarrow> int \<times> 'r"
  io_uring_sq_space_left :: "'r \<Rightarrow> nat \<times> 'r"
  io_uring_wait_cqe :: "'r \<Rightarrow> ((int + cqe) \<times> 'r) option"
  io_uring_peek_batch_cqe :: "nat \<Rightarrow> 'r \<Rightarrow> cqe list \<times> 'r"
  io_uring_cqe_seen :: "'r \<Rightarrow> 'r"

section \<open>State\<close>

record write_request =
  wr_data :: "byte list"
  wr_size :: nat
  wr_offset :: int

record uring_cfg =
  uc_sq_poll :: bool
  uc_fd_fixed :: bool
  uc_depth :: nat

record 'r uring_aio =
  ua_ring :: 'r
  ua_requests :: "nat \<rightharpoonup> write_request"
  ua_next :: nat
  ua_pending :: nat
  ua_registered_files :: int
  ua_closed :: bool
  ua_fault :: bool

datatype uring_error = Queue_init_failed | Sqpoll_requires_fixed_files

definition SUBMIT_BATCH :: "uring_cfg \<Rightarrow> nat" where
  "SUBMIT_BATCH cfg = uc_depth cfg div 2"

definition COMPLETE_BATCH :: nat where
  "COMPLETE_BATCH = 24"

text \<open>\<open>++pending_\<close> and \<open>--pending_\<close> on a \<open>size_t\<close>.\<close>

definition inc64 :: "nat \<Rightarrow> nat" where
  "inc64 n = (n + 1) mod 2 ^ 64"

definition dec64 :: "nat \<Rightarrow> nat" where
  "dec64 n = (if n = 0 then 2 ^ 64 - 1 else n - 1)"

section \<open>Completions\<close>

text \<open>\<open>handle_cqe\<close>; whether the number of bytes written is the size of the request is not looked at.\<close>

definition handle_cqe :: "cqe \<Rightarrow> 'r uring_aio \<Rightarrow> bool \<times> 'r uring_aio" where
  "handle_cqe c a = (case ce_data c of
       None \<Rightarrow> (True, a\<lparr>ua_pending := dec64 (ua_pending a)\<rparr>)
     | Some req \<Rightarrow>
         (case ua_requests a req of
            None \<Rightarrow> (ce_res c \<ge> 0, a\<lparr>ua_pending := dec64 (ua_pending a), ua_fault := True\<rparr>)
          | Some _ \<Rightarrow> (ce_res c \<ge> 0, a\<lparr>ua_requests := (ua_requests a)(req := None), ua_pending := dec64 (ua_pending a)\<rparr>)))"

definition wait_for_completion :: "'r uring_api \<Rightarrow> 'r uring_aio \<Rightarrow> (bool \<times> 'r uring_aio) option" where
  "wait_for_completion api a = (case io_uring_wait_cqe api (ua_ring a) of
       None \<Rightarrow> None
     | Some (Inl err, r) \<Rightarrow> Some (False, a\<lparr>ua_ring := r\<rparr>)
     | Some (Inr c, r) \<Rightarrow>
         (let (ret, a) = handle_cqe c (a\<lparr>ua_ring := r\<rparr>) in Some (ret, a\<lparr>ua_ring := io_uring_cqe_seen api (ua_ring a)\<rparr>)))"

partial_function (option) wait_all :: "'r uring_api \<Rightarrow> 'r uring_aio \<Rightarrow> 'r uring_aio option" where
  "wait_all api a =
     (if ua_pending a > 0 then Option.bind (wait_for_completion api a) (\<lambda>(_, a). wait_all api a) else Some a)"

definition peek_one :: "'r uring_api \<Rightarrow> cqe \<Rightarrow> 'r uring_aio \<Rightarrow> 'r uring_aio" where
  "peek_one api c a = (let (_, a) = handle_cqe c a in a\<lparr>ua_ring := io_uring_cqe_seen api (ua_ring a)\<rparr>)"

definition peek_completions :: "'r uring_api \<Rightarrow> 'r uring_aio \<Rightarrow> 'r uring_aio" where
  "peek_completions api a =
     (let (cqes, r) = io_uring_peek_batch_cqe api COMPLETE_BATCH (ua_ring a) in fold (peek_one api) cqes (a\<lparr>ua_ring := r\<rparr>))"

partial_function (option) wait_sq_space_left :: "'r uring_api \<Rightarrow> 'r uring_aio \<Rightarrow> 'r uring_aio option" where
  "wait_sq_space_left api a =
     (case io_uring_sq_space_left api (ua_ring a) of (n, r) \<Rightarrow>
        if n \<noteq> 0 then Some (a\<lparr>ua_ring := r\<rparr>) else wait_sq_space_left api (peek_completions api (a\<lparr>ua_ring := r\<rparr>)))"

section \<open>Operations\<close>

definition UringAIO_new :: "uring_cfg \<Rightarrow> 'r uring_api \<Rightarrow> 'r \<Rightarrow> uring_error + 'r uring_aio" where
  "UringAIO_new cfg api r =
     (let (rc, r) = io_uring_queue_init_params api (uc_depth cfg) (uc_sq_poll cfg) r
      in if rc \<noteq> 0 then Inl Queue_init_failed
         else if uc_sq_poll cfg \<and> \<not> uc_fd_fixed cfg \<and> \<not> io_uring_feat_sqpoll_nonfixed api r then Inl Sqpoll_requires_fixed_files
         else Inr \<lparr>ua_ring = r, ua_requests = Map.empty, ua_next = 0, ua_pending = 0, ua_registered_files = 0,
                ua_closed = False, ua_fault = False\<rparr>)"

definition register_fds :: "uring_cfg \<Rightarrow> 'r uring_api \<Rightarrow> int list \<Rightarrow> 'r uring_aio \<Rightarrow> bool \<times> 'r uring_aio" where
  "register_fds cfg api fds a =
     (if \<not> uc_fd_fixed cfg then (False, a)
      else if fds = [] then (False, a)
      else let (ret, r) = io_uring_register_files api fds (ua_ring a); a = a\<lparr>ua_ring := r\<rparr>
           in if ret < 0 then (False, a) else (True, a\<lparr>ua_registered_files := int (length fds)\<rparr>))"

definition unregister_fds :: "uring_cfg \<Rightarrow> 'r uring_api \<Rightarrow> 'r uring_aio \<Rightarrow> 'r uring_aio" where
  "unregister_fds cfg api a =
     (if uc_fd_fixed cfg \<and> ua_registered_files a > 0
      then a\<lparr>ua_ring := snd (io_uring_unregister_files api (ua_ring a)), ua_registered_files := 0\<rparr>
      else a)"

text \<open>The entry both writers ask for: once, and once more after waiting for space.\<close>

definition acquire_sqe :: "'r uring_api \<Rightarrow> 'r uring_aio \<Rightarrow> (bool \<times> 'r uring_aio) option" where
  "acquire_sqe api a =
     (let (ok, r) = io_uring_get_sqe api (ua_ring a); a = a\<lparr>ua_ring := r\<rparr>
      in if ok then Some (True, a)
         else Option.bind (wait_sq_space_left api a)
                (\<lambda>a. let (ok, r) = io_uring_get_sqe api (ua_ring a) in Some (ok, a\<lparr>ua_ring := r\<rparr>)))"

text \<open>\<open>write_async\<close> from the point where it has an entry. When the submission fails the request is deleted, but its entry
  stays in the ring.\<close>

definition queue_write :: "uring_cfg \<Rightarrow> 'r uring_api \<Rightarrow> byte list \<Rightarrow> int \<Rightarrow> int \<Rightarrow> 'r uring_aio \<Rightarrow> 'r uring_aio" where
  "queue_write cfg api data offset fd a =
     (let req = ua_next a;
          a = a\<lparr>ua_requests := (ua_requests a)(req \<mapsto> \<lparr>wr_data = data, wr_size = length data, wr_offset = offset\<rparr>), ua_next := req + 1\<rparr>;
          a = a\<lparr>ua_ring := io_uring_prep api \<lparr>se_op = Prep_write fd data offset, se_fixed = uc_fd_fixed cfg, se_data = Some req\<rparr> (ua_ring a)\<rparr>
      in if ua_pending a \<ge> SUBMIT_BATCH cfg
         then let (ret, r) = io_uring_submit api (ua_ring a); a = a\<lparr>ua_ring := r\<rparr>
              in if ret < 0 then a\<lparr>ua_requests := (ua_requests a)(req := None)\<rparr> else a\<lparr>ua_pending := inc64 (ua_pending a)\<rparr>
         else a\<lparr>ua_pending := inc64 (ua_pending a)\<rparr>)"

definition write_async :: "uring_cfg \<Rightarrow> 'r uring_api \<Rightarrow> byte list \<Rightarrow> int \<Rightarrow> int \<Rightarrow> 'r uring_aio \<Rightarrow> 'r uring_aio option" where
  "write_async cfg api data offset fd a =
     (if uc_fd_fixed cfg \<and> ua_registered_files a = 0 then Some a
      else let a = (if ua_pending a \<ge> COMPLETE_BATCH then peek_completions api a else a)
           in Option.bind (acquire_sqe api a)
                (\<lambda>(ok, a). if \<not> ok then Some a else Some (queue_write cfg api data offset fd a)))"

definition fsync_and_wait :: "uring_cfg \<Rightarrow> 'r uring_api \<Rightarrow> int \<Rightarrow> bool \<Rightarrow> 'r uring_aio \<Rightarrow> 'r uring_aio option" where
  "fsync_and_wait cfg api fd data_only a = Option.bind (acquire_sqe api a)
     (\<lambda>(ok, a).
        if \<not> ok then Some a
        else let a = a\<lparr>ua_ring := io_uring_prep api \<lparr>se_op = Prep_fsync fd data_only, se_fixed = uc_fd_fixed cfg, se_data = None\<rparr> (ua_ring a)\<rparr>;
                 (ret, r) = io_uring_submit api (ua_ring a); a = a\<lparr>ua_ring := r\<rparr>
             in if ret < 0 then Some a
                else let a = a\<lparr>ua_pending := inc64 (ua_pending a)\<rparr>; (ret, r) = io_uring_submit api (ua_ring a)
                     in wait_all api (a\<lparr>ua_ring := r\<rparr>))"

definition UringAIO_close :: "uring_cfg \<Rightarrow> 'r uring_api \<Rightarrow> 'r uring_aio \<Rightarrow> 'r uring_aio option" where
  "UringAIO_close cfg api a =
     (if ua_closed a then Some a
      else Option.bind (wait_all api a)
             (\<lambda>a. let a = unregister_fds cfg api a in Some (a\<lparr>ua_ring := io_uring_queue_exit api (ua_ring a), ua_closed := True\<rparr>)))"

section \<open>What is used of io_uring\<close>

text \<open>
  The ring as its user may understand it: entries filled but not submitted, entries submitted but not yet taken by the kernel,
  entries the kernel works on, completions not yet seen, and the content of the file that is written to (a byte
  that was never written is \<open>None\<close>).
\<close>

record ring_view =
  rv_sq :: "sqe list"
  rv_pub :: "sqe list"
  rv_fl :: "sqe multiset"
  rv_cq :: "cqe list"
  rv_file :: "nat \<rightharpoonup> byte"

definition file_put :: "int \<Rightarrow> byte list \<Rightarrow> (nat \<rightharpoonup> byte) \<Rightarrow> (nat \<rightharpoonup> byte)" where
  "file_put off bs f = (\<lambda>i. if off \<le> int i \<and> int i < off + int (length bs) then Some (bs ! nat (int i - off)) else f i)"

text \<open>A write that ended with the result \<open>res\<close> has put its first \<open>res\<close> bytes into the file.\<close>

definition kernel_effect :: "sqe \<Rightarrow> int \<Rightarrow> (nat \<rightharpoonup> byte) \<Rightarrow> (nat \<rightharpoonup> byte)" where
  "kernel_effect x res f = (case se_op x of
       Prep_write fd bs off \<Rightarrow> if res < 0 then f else file_put off (take (nat res) bs) f
     | Prep_fsync fd data_only \<Rightarrow> f)"

text \<open>What the kernel may do at any time: take submitted entries in order, complete those it works on in any order. The
  parameter says which results are possible.\<close>

inductive kernel :: "(sqe \<Rightarrow> int \<Rightarrow> bool) \<Rightarrow> ring_view \<Rightarrow> ring_view \<Rightarrow> bool" for outcome where
  k_refl: "kernel outcome v v"
| k_take: "kernel outcome v u \<Longrightarrow> rv_pub u = x # xs \<Longrightarrow>
    kernel outcome v (u\<lparr>rv_pub := xs, rv_fl := add_mset x (rv_fl u)\<rparr>)"
| k_complete: "kernel outcome v u \<Longrightarrow> x \<in># rv_fl u \<Longrightarrow> outcome x res \<Longrightarrow>
    kernel outcome v (u\<lparr>rv_fl := rv_fl u - {#x#}, rv_cq := rv_cq u @ [\<lparr>ce_data = se_data x, ce_res = res\<rparr>],
      rv_file := kernel_effect x res (rv_file u)\<rparr>)"

definition full_write :: "sqe \<Rightarrow> int \<Rightarrow> bool" where
  "full_write x res \<longleftrightarrow> (case se_op x of Prep_write fd bs off \<Rightarrow> res = int (length bs) | Prep_fsync fd data_only \<Rightarrow> res = 0)"

text \<open>
  The documented behaviour of the calls, for a ring of size \<open>depth\<close> on which submitting and waiting do not fail; \<open>lag r\<close>
  bounds how often the space of a full ring is asked for before the kernel has taken a submitted entry.
\<close>

definition ring_laws ::
    "'r uring_api \<Rightarrow> ('r \<Rightarrow> ring_view) \<Rightarrow> ('r \<Rightarrow> nat) \<Rightarrow> nat \<Rightarrow> (sqe \<Rightarrow> int \<Rightarrow> bool) \<Rightarrow> bool" where
  "ring_laws api view lag depth outcome \<longleftrightarrow>
     (\<forall>r ok r'. io_uring_get_sqe api r = (ok, r') \<longrightarrow> kernel outcome (view r) (view r')
        \<and> (ok \<longleftrightarrow> length (rv_sq (view r')) + length (rv_pub (view r')) < depth) \<and> lag r' \<le> lag r)
   \<and> (\<forall>x r. kernel outcome ((view r)\<lparr>rv_sq := rv_sq (view r) @ [x]\<rparr>) (view (io_uring_prep api x r)))
   \<and> (\<forall>r ret r'. io_uring_submit api r = (ret, r') \<longrightarrow> 0 \<le> ret
        \<and> kernel outcome ((view r)\<lparr>rv_sq := [], rv_pub := rv_pub (view r) @ rv_sq (view r)\<rparr>) (view r'))
   \<and> (\<forall>r n r'. io_uring_sq_space_left api r = (n, r') \<longrightarrow> kernel outcome (view r) (view r')
        \<and> n = depth - (length (rv_sq (view r')) + length (rv_pub (view r'))) \<and> (n = 0 \<longrightarrow> rv_pub (view r') \<noteq> [] \<longrightarrow> lag r' < lag r))
   \<and> (\<forall>r. io_uring_wait_cqe api r = None \<longleftrightarrow> rv_pub (view r) = [] \<and> rv_fl (view r) = {#} \<and> rv_cq (view r) = [])
   \<and> (\<forall>r e r'. io_uring_wait_cqe api r \<noteq> Some (Inl e, r'))
   \<and> (\<forall>r c r'. io_uring_wait_cqe api r = Some (Inr c, r') \<longrightarrow> kernel outcome (view r) (view r') \<and> (\<exists>cs. rv_cq (view r') = c # cs))
   \<and> (\<forall>r n cs r'. io_uring_peek_batch_cqe api n r = (cs, r') \<longrightarrow> kernel outcome (view r) (view r')
        \<and> (\<exists>ds. rv_cq (view r') = cs @ ds) \<and> lag r' \<le> lag r)
   \<and> (\<forall>r. kernel outcome ((view r)\<lparr>rv_cq := tl (rv_cq (view r))\<rparr>) (view (io_uring_cqe_seen api r)) \<and> lag (io_uring_cqe_seen api r) \<le> lag r)
   \<and> (\<forall>k poll r r'. io_uring_queue_init_params api k poll r = (0, r') \<longrightarrow> view r' = \<lparr>rv_sq = [], rv_pub = [], rv_fl = {#}, rv_cq = [], rv_file = rv_file (view r)\<rparr>)
   \<and> (\<forall>fds r. kernel outcome (view r) (view (snd (io_uring_register_files api fds r))))
   \<and> (\<forall>r. kernel outcome (view r) (view (snd (io_uring_unregister_files api r))))
   \<and> (\<forall>r. rv_file (view (io_uring_queue_exit api r)) = rv_file (view r))"

section \<open>Invariant\<close>

definition outstanding :: "ring_view \<Rightarrow> sqe multiset" where
  "outstanding v = mset (rv_sq v) + mset (rv_pub v) + rv_fl v"

text \<open>The user data on their way through the ring.\<close>

definition tokens :: "ring_view \<Rightarrow> nat option multiset" where
  "tokens v = image_mset se_data (outstanding v) + mset (map ce_data (rv_cq v))"

text \<open>The counter counts them, every request has exactly one and none has been deleted early; never more than half of the ring is
  waiting for submission.\<close>

definition aio_inv :: "uring_cfg \<Rightarrow> ('r \<Rightarrow> ring_view) \<Rightarrow> 'r uring_aio \<Rightarrow> bool" where
  "aio_inv cfg view a \<longleftrightarrow> ua_pending a = size (tokens (view (ua_ring a)))
     \<and> filter_mset (\<lambda>d. d \<noteq> None) (tokens (view (ua_ring a))) = image_mset Some (mset_set (dom (ua_requests a)))
     \<and> finite (dom (ua_requests a)) \<and> (\<forall>p \<in> dom (ua_requests a). p < ua_next a)
     \<and> length (rv_sq (view (ua_ring a))) \<le> SUBMIT_BATCH cfg \<and> \<not> ua_fault a"

text \<open>The file holds the bytes \<open>target\<close> except where a write is outstanding, all outstanding writes bring bytes of \<open>target\<close>, and the rest
  of the file is as it was.\<close>

definition writes_at :: "sqe \<Rightarrow> nat \<Rightarrow> bool" where
  "writes_at x i \<longleftrightarrow> (case se_op x of
       Prep_write fd bs off \<Rightarrow> off \<le> int i \<and> int i < off + int (length bs)
     | Prep_fsync fd data_only \<Rightarrow> False)"

definition brings :: "(nat \<rightharpoonup> byte) \<Rightarrow> sqe \<Rightarrow> bool" where
  "brings target x \<longleftrightarrow> (case se_op x of
       Prep_write fd bs off \<Rightarrow> 0 \<le> off \<and> (\<forall>k < length bs. target (nat off + k) = Some (bs ! k))
     | Prep_fsync fd data_only \<Rightarrow> True)"

definition content_inv :: "(nat \<rightharpoonup> byte) \<Rightarrow> (nat \<rightharpoonup> byte) \<Rightarrow> ring_view \<Rightarrow> bool" where
  "content_inv old target v \<longleftrightarrow> (\<forall>x \<in># outstanding v. brings target x)
     \<and> (\<forall>i. if target i = None then rv_file v i = old i else rv_file v i = target i \<or> (\<exists>x \<in># outstanding v. writes_at x i))"

section \<open>Lemmas\<close>

lemma kernel_keeps:
  assumes "kernel outcome v u"
  shows "tokens u = tokens v" "rv_sq u = rv_sq v" "length (rv_pub u) \<le> length (rv_pub v)" "\<exists>cs. rv_cq u = rv_cq v @ cs"
  using assms
proof (induction rule: kernel.induct)
  case (k_complete v u x res)
  case 1
  then show ?case using k_complete by (simp add: tokens_def outstanding_def image_mset_Diff)
qed (auto simp: tokens_def outstanding_def)

lemma outstanding_cq [simp]: "outstanding (v\<lparr>rv_cq := cs\<rparr>) = outstanding v"
  by (simp add: outstanding_def)

lemma content_inv_cq [simp]: "content_inv old target (v\<lparr>rv_cq := cs\<rparr>) = content_inv old target v"
  by (simp add: content_inv_def)

lemma content_inv_submit [simp]:
  "content_inv old target (v\<lparr>rv_sq := [], rv_pub := rv_pub v @ rv_sq v\<rparr>) = content_inv old target v"
  by (auto simp add: content_inv_def outstanding_def)

lemma kernel_content:
  assumes "kernel full_write v u" "content_inv old target v"
  shows "content_inv old target u"
  using assms
proof (induction rule: kernel.induct)
  case (k_take v u x xs)
  have "outstanding (u\<lparr>rv_pub := xs, rv_fl := add_mset x (rv_fl u)\<rparr>) = outstanding u"
    using k_take.hyps(2) by (simp add: outstanding_def)
  then show ?case using k_take by (simp add: content_inv_def)
next
  case (k_complete v u x res)
  let ?u = "u\<lparr>rv_fl := rv_fl u - {#x#}, rv_cq := rv_cq u @ [\<lparr>ce_data = se_data x, ce_res = res\<rparr>],
      rv_file := kernel_effect x res (rv_file u)\<rparr>"
  have u: "content_inv old target u" using k_complete by simp
  have out: "outstanding u = add_mset x (outstanding ?u)" using k_complete.hyps(2) by (simp add: outstanding_def)
  then have b: "brings target x" using u by (simp add: content_inv_def)
  have bring: "target i = Some (bs ! nat (int i - off)) \<and> nat (int i - off) < length bs"
    if "writes_at x i" "se_op x = Prep_write fd bs off" for i fd bs off
  proof -
    have k: "nat off + nat (int i - off) = i" "nat (int i - off) < length bs" using that b by (auto simp: writes_at_def brings_def)
    have "\<forall>k < length bs. target (nat off + k) = Some (bs ! k)" using that(2) b by (simp add: brings_def)
    from this [rule_format, OF k(2)] show ?thesis using k by simp
  qed
  have put: "rv_file ?u i = (if writes_at x i then target i else rv_file u i)" for i
  proof (cases "se_op x")
    case (Prep_write fd bs off)
    then have "rv_file ?u i = file_put off bs (rv_file u) i"
      using k_complete.hyps(3) by (simp add: kernel_effect_def full_write_def)
    then show ?thesis using bring [OF _ Prep_write, of i] Prep_write by (auto simp: file_put_def writes_at_def)
  qed (simp add: kernel_effect_def writes_at_def)
  have some: "target i \<noteq> None" if "writes_at x i" for i
    using that bring by (cases "se_op x") (auto simp: writes_at_def)
  show ?case
    unfolding content_inv_def
  proof (intro conjI allI ballI)
    fix y assume "y \<in># outstanding ?u"
    then show "brings target y" using u out by (simp add: content_inv_def)
  next
    fix i
    have "if target i = None then rv_file u i = old i else rv_file u i = target i \<or> (\<exists>y \<in># outstanding u. writes_at y i)"
      using u by (simp add: content_inv_def)
    then show "if target i = None then rv_file ?u i = old i else rv_file ?u i = target i \<or> (\<exists>y \<in># outstanding ?u. writes_at y i)"
      unfolding put using some [of i] out by (cases "writes_at x i") auto
  qed
qed

lemma ring_lawsD:
  assumes "ring_laws api view lag depth outcome"
  shows "io_uring_get_sqe api r = (ok, r') \<Longrightarrow> kernel outcome (view r) (view r')
        \<and> (ok \<longleftrightarrow> length (rv_sq (view r')) + length (rv_pub (view r')) < depth) \<and> lag r' \<le> lag r"
    and "kernel outcome ((view r)\<lparr>rv_sq := rv_sq (view r) @ [x]\<rparr>) (view (io_uring_prep api x r))"
    and "io_uring_submit api r = (ret, r') \<Longrightarrow> 0 \<le> ret
        \<and> kernel outcome ((view r)\<lparr>rv_sq := [], rv_pub := rv_pub (view r) @ rv_sq (view r)\<rparr>) (view r')"
    and "io_uring_sq_space_left api r = (n, r') \<Longrightarrow> kernel outcome (view r) (view r')
        \<and> n = depth - (length (rv_sq (view r')) + length (rv_pub (view r'))) \<and> (n = 0 \<longrightarrow> rv_pub (view r') \<noteq> [] \<longrightarrow> lag r' < lag r)"
    and "io_uring_wait_cqe api r = None \<longleftrightarrow> rv_pub (view r) = [] \<and> rv_fl (view r) = {#} \<and> rv_cq (view r) = []"
    and "io_uring_wait_cqe api r \<noteq> Some (Inl e, r')"
    and "io_uring_wait_cqe api r = Some (Inr c, r') \<Longrightarrow> kernel outcome (view r) (view r') \<and> (\<exists>cs. rv_cq (view r') = c # cs)"
    and "io_uring_peek_batch_cqe api k r = (cs, r') \<Longrightarrow> kernel outcome (view r) (view r')
        \<and> (\<exists>ds. rv_cq (view r') = cs @ ds) \<and> lag r' \<le> lag r"
    and "kernel outcome ((view r)\<lparr>rv_cq := tl (rv_cq (view r))\<rparr>) (view (io_uring_cqe_seen api r))" "lag (io_uring_cqe_seen api r) \<le> lag r"
    and "io_uring_queue_init_params api k poll r = (0, r') \<Longrightarrow> view r' = \<lparr>rv_sq = [], rv_pub = [], rv_fl = {#}, rv_cq = [], rv_file = rv_file (view r)\<rparr>"
    and "kernel outcome (view r) (view (snd (io_uring_register_files api fds r)))"
    and "kernel outcome (view r) (view (snd (io_uring_unregister_files api r)))"
    and "rv_file (view (io_uring_queue_exit api r)) = rv_file (view r)"
  using assms unfolding ring_laws_def by metis+

text \<open>What every step below keeps: the invariant, the content and the room for submission, while the counter does not grow.\<close>

definition keeps_aio :: "uring_cfg \<Rightarrow> ('r \<Rightarrow> ring_view) \<Rightarrow> ('r \<Rightarrow> nat) \<Rightarrow> (sqe \<Rightarrow> int \<Rightarrow> bool) \<Rightarrow> 'r uring_aio \<Rightarrow> 'r uring_aio \<Rightarrow> bool" where
  "keeps_aio cfg view lag outcome a b \<longleftrightarrow> aio_inv cfg view b \<and> ua_pending b \<le> ua_pending a
     \<and> rv_sq (view (ua_ring b)) = rv_sq (view (ua_ring a)) \<and> lag (ua_ring b) \<le> lag (ua_ring a)
     \<and> length (rv_pub (view (ua_ring b))) \<le> length (rv_pub (view (ua_ring a)))
     \<and> ua_next b = ua_next a \<and> ua_registered_files b = ua_registered_files a \<and> ua_closed b = ua_closed a
     \<and> (outcome = full_write \<longrightarrow> (\<forall>old target. content_inv old target (view (ua_ring a)) \<longrightarrow> content_inv old target (view (ua_ring b))))"

lemma keeps_aio_refl: "aio_inv cfg view a \<Longrightarrow> keeps_aio cfg view lag outcome a a"
  by (simp add: keeps_aio_def)

lemma keeps_aio_trans: "keeps_aio cfg view lag outcome a b \<Longrightarrow> keeps_aio cfg view lag outcome b c \<Longrightarrow> keeps_aio cfg view lag outcome a c"
  unfolding keeps_aio_def by auto

text \<open>A call that only lets the kernel work.\<close>

lemma kernel_keeps_aio:
  assumes "aio_inv cfg view a" "kernel outcome (view (ua_ring a)) (view r)" "lag r \<le> lag (ua_ring a)"
  shows "keeps_aio cfg view lag outcome a (a\<lparr>ua_ring := r\<rparr>)"
proof -
  note k = kernel_keeps [OF assms(2)]
  have "content_inv old target (view r)" if "outcome = full_write" "content_inv old target (view (ua_ring a))" for old target
    using kernel_content assms(2) that by blast
  then show ?thesis using assms(1,3) k by (simp add: keeps_aio_def aio_inv_def)
qed

text \<open>A completion is handled and consumed.\<close>

lemma peek_one_keeps:
  assumes laws: "ring_laws api view lag depth outcome" and inv: "aio_inv cfg view a" and c: "rv_cq (view (ua_ring a)) = c # cs"
  shows "keeps_aio cfg view lag outcome a (peek_one api c a)" "ua_pending (peek_one api c a) + 1 = ua_pending a"
    "\<exists>ds. rv_cq (view (ua_ring (peek_one api c a))) = cs @ ds"
proof -
  let ?v = "view (ua_ring a)" and ?r = "io_uring_cqe_seen api (ua_ring a)"
  have k: "kernel outcome (?v\<lparr>rv_cq := cs\<rparr>) (view ?r)" using ring_lawsD(9) [OF laws, of "ua_ring a"] c by simp
  note kk = kernel_keeps [OF k]
  have tok: "tokens ?v = add_mset (ce_data c) (tokens (view ?r))"
    using kk(1) c by (simp add: tokens_def)
  have pend: "ua_pending a = Suc (size (tokens (view ?r)))" using inv tok by (simp add: aio_inv_def)
  have step: "peek_one api c a = a\<lparr>ua_ring := ?r, ua_pending := size (tokens (view ?r)),
      ua_requests := (case ce_data c of None \<Rightarrow> ua_requests a | Some p \<Rightarrow> (ua_requests a)(p := None))\<rparr>
    \<and> (\<forall>p. ce_data c = Some p \<longrightarrow> p \<in> dom (ua_requests a))"
  proof (cases "ce_data c")
    case None
    then show ?thesis using pend by (simp add: peek_one_def handle_cqe_def dec64_def)
  next
    case (Some p)
    have "Some p \<in># filter_mset (\<lambda>d. d \<noteq> None) (tokens ?v)" using tok Some by simp
    also have "filter_mset (\<lambda>d. d \<noteq> None) (tokens ?v) = image_mset Some (mset_set (dom (ua_requests a)))" using inv by (simp add: aio_inv_def)
    finally have "p \<in># mset_set (dom (ua_requests a))" by auto
    then have "p \<in> dom (ua_requests a)" using inv by (simp add: aio_inv_def)
    then show ?thesis using pend Some by (auto simp: peek_one_def handle_cqe_def dec64_def)
  qed
  let ?b = "peek_one api c a"
  have req: "filter_mset (\<lambda>d. d \<noteq> None) (tokens (view ?r)) = image_mset Some (mset_set (dom (ua_requests ?b)))"
  proof (cases "ce_data c")
    case None
    then show ?thesis using inv tok step by (simp add: aio_inv_def)
  next
    case (Some p)
    then have p: "p \<in> dom (ua_requests a)" "dom (ua_requests ?b) = dom (ua_requests a) - {p}" using step by auto
    have fin: "finite (dom (ua_requests a))" using inv by (simp add: aio_inv_def)
    have "add_mset (Some p) (filter_mset (\<lambda>d. d \<noteq> None) (tokens (view ?r))) = image_mset Some (mset_set (dom (ua_requests a)))"
      using inv tok Some by (simp add: aio_inv_def)
    also have "mset_set (dom (ua_requests a)) = add_mset p (mset_set (dom (ua_requests a) - {p}))"
      using fin p(1) by (simp add: mset_set.remove)
    finally show ?thesis using p(2) by simp
  qed
  have "dom (ua_requests ?b) \<subseteq> dom (ua_requests a)" using step by (auto split: option.splits if_splits)
  then have "aio_inv cfg view ?b"
    using inv req kk(2) step by (auto simp: aio_inv_def dest: finite_subset)
  moreover have "content_inv old target (view ?r)" if "outcome = full_write" "content_inv old target ?v" for old target
    using kernel_content [of "?v\<lparr>rv_cq := cs\<rparr>"] k that by simp
  ultimately show "keeps_aio cfg view lag outcome a ?b"
    using step pend kk(2,3) ring_lawsD(10) [OF laws, of "ua_ring a"] by (simp add: keeps_aio_def)
  show "ua_pending ?b + 1 = ua_pending a" using step pend by simp
  show "\<exists>ds. rv_cq (view (ua_ring ?b)) = cs @ ds" using step kk(4) by simp
qed

lemma peek_fold_keeps:
  assumes laws: "ring_laws api view lag depth outcome"
  shows "aio_inv cfg view a \<Longrightarrow> rv_cq (view (ua_ring a)) = cs @ ds \<Longrightarrow> keeps_aio cfg view lag outcome a (fold (peek_one api) cs a)"
proof (induction cs arbitrary: a ds)
  case (Cons c cs)
  note one = peek_one_keeps [OF laws Cons.prems(1), of c "cs @ ds"]
  then have "keeps_aio cfg view lag outcome a (peek_one api c a)" "\<exists>es. rv_cq (view (ua_ring (peek_one api c a))) = cs @ es"
    using Cons.prems(2) by auto
  then show ?case using Cons.IH keeps_aio_trans by (fastforce simp: keeps_aio_def)
qed (simp add: keeps_aio_refl)

lemma peek_completions_keeps:
  assumes laws: "ring_laws api view lag depth outcome" and inv: "aio_inv cfg view a"
  shows "keeps_aio cfg view lag outcome a (peek_completions api a)"
proof -
  obtain cs r where peek: "io_uring_peek_batch_cqe api COMPLETE_BATCH (ua_ring a) = (cs, r)" by fastforce
  obtain ds where p: "kernel outcome (view (ua_ring a)) (view r)" "rv_cq (view r) = cs @ ds" "lag r \<le> lag (ua_ring a)"
    using ring_lawsD(8) [OF laws peek] by auto
  note k = kernel_keeps_aio [OF inv p(1,3)]
  then have "aio_inv cfg view (a\<lparr>ua_ring := r\<rparr>)" by (simp add: keeps_aio_def)
  from peek_fold_keeps [OF laws this] k show ?thesis
    using keeps_aio_trans p(2) by (fastforce simp: peek_completions_def peek)
qed

lemma sq_bound: "aio_inv cfg view a \<Longrightarrow> 0 < uc_depth cfg \<Longrightarrow> length (rv_sq (view (ua_ring a))) < uc_depth cfg"
  unfolding aio_inv_def SUBMIT_BATCH_def by linarith

text \<open>The loop that waits for space ends: the ring is never full of entries that were not submitted, so the kernel makes room.\<close>

lemma wait_sq_space_returns:
  assumes laws: "ring_laws api view lag (uc_depth cfg) outcome" and depth: "0 < uc_depth cfg"
  shows "aio_inv cfg view a \<Longrightarrow> \<exists>b. wait_sq_space_left api a = Some b \<and> keeps_aio cfg view (\<lambda>_. 0) outcome a b
    \<and> length (rv_sq (view (ua_ring b))) + length (rv_pub (view (ua_ring b))) < uc_depth cfg"
proof (induction "lag (ua_ring a)" arbitrary: a rule: less_induct)
  case less
  obtain n r where space: "io_uring_sq_space_left api (ua_ring a) = (n, r)" by fastforce
  note s = ring_lawsD(4) [OF laws space]
  have k: "keeps_aio cfg view (\<lambda>_. 0) outcome a (a\<lparr>ua_ring := r\<rparr>)" using kernel_keeps_aio [OF less.prems] s by simp
  then have r: "aio_inv cfg view (a\<lparr>ua_ring := r\<rparr>)" by (simp add: keeps_aio_def)
  show ?case
  proof (cases "n = 0")
    case False
    then show ?thesis using space s k by (subst wait_sq_space_left.simps) (simp add: less_diff_conv)
  next
    case True
    have "rv_pub (view r) \<noteq> []" using True s sq_bound [OF r depth] by auto
    then have "lag r < lag (ua_ring a)" using True s by blast
    moreover have peek: "keeps_aio cfg view lag outcome (a\<lparr>ua_ring := r\<rparr>) (peek_completions api (a\<lparr>ua_ring := r\<rparr>))"
      by (rule peek_completions_keeps [OF laws r])
    ultimately have "lag (ua_ring (peek_completions api (a\<lparr>ua_ring := r\<rparr>))) < lag (ua_ring a)"
      "aio_inv cfg view (peek_completions api (a\<lparr>ua_ring := r\<rparr>))" by (auto simp: keeps_aio_def)
    from less.hyps [OF this] obtain b where b: "wait_sq_space_left api (peek_completions api (a\<lparr>ua_ring := r\<rparr>)) = Some b"
      "keeps_aio cfg view (\<lambda>_. 0) outcome (peek_completions api (a\<lparr>ua_ring := r\<rparr>)) b"
      "length (rv_sq (view (ua_ring b))) + length (rv_pub (view (ua_ring b))) < uc_depth cfg" by blast
    have "keeps_aio cfg view (\<lambda>_. 0) outcome (a\<lparr>ua_ring := r\<rparr>) (peek_completions api (a\<lparr>ua_ring := r\<rparr>))"
      using peek by (simp add: keeps_aio_def)
    then have "keeps_aio cfg view (\<lambda>_. 0) outcome a b" using k b(2) keeps_aio_trans by blast
    then show ?thesis using True space b by (subst wait_sq_space_left.simps) simp
  qed
qed

lemma acquire_sqe_returns:
  assumes laws: "ring_laws api view lag (uc_depth cfg) outcome" and depth: "0 < uc_depth cfg" and inv: "aio_inv cfg view a"
  shows "\<exists>b. acquire_sqe api a = Some (True, b) \<and> keeps_aio cfg view (\<lambda>_. 0) outcome a b"
proof -
  obtain ok r where get: "io_uring_get_sqe api (ua_ring a) = (ok, r)" by fastforce
  have k: "keeps_aio cfg view (\<lambda>_. 0) outcome a (a\<lparr>ua_ring := r\<rparr>)"
    using kernel_keeps_aio [OF inv] ring_lawsD(1) [OF laws get] by simp
  show ?thesis
  proof (cases ok)
    case False
    have "aio_inv cfg view (a\<lparr>ua_ring := r\<rparr>)" using k by (simp add: keeps_aio_def)
    from wait_sq_space_returns [OF laws depth this] obtain b where b: "wait_sq_space_left api (a\<lparr>ua_ring := r\<rparr>) = Some b"
      "keeps_aio cfg view (\<lambda>_. 0) outcome (a\<lparr>ua_ring := r\<rparr>) b"
      "length (rv_sq (view (ua_ring b))) + length (rv_pub (view (ua_ring b))) < uc_depth cfg" by blast
    obtain ok2 r2 where get2: "io_uring_get_sqe api (ua_ring b) = (ok2, r2)" by fastforce
    note g = ring_lawsD(1) [OF laws get2]
    have ok2 using g b(3) kernel_keeps(2,3) [of outcome "view (ua_ring b)" "view r2"] by force
    moreover have "keeps_aio cfg view (\<lambda>_. 0) outcome b (b\<lparr>ua_ring := r2\<rparr>)"
      using kernel_keeps_aio [of cfg view b outcome r2 "\<lambda>_. 0"] g b(2) by (simp add: keeps_aio_def [of cfg view _ _ _ b])
    ultimately show ?thesis using False get get2 b(1,2) k keeps_aio_trans by (fastforce simp: acquire_sqe_def Let_def)
  qed (use get k in \<open>simp add: acquire_sqe_def\<close>)
qed

text \<open>A new entry.\<close>

lemma tokens_prep: "tokens (v\<lparr>rv_sq := rv_sq v @ [x]\<rparr>) = add_mset (se_data x) (tokens v)"
  by (simp add: tokens_def outstanding_def)

lemma tokens_submit: "tokens (v\<lparr>rv_sq := [], rv_pub := rv_pub v @ rv_sq v\<rparr>) = tokens v"
  by (simp add: tokens_def outstanding_def ac_simps)

lemma sq_le_tokens: "length (rv_sq v) \<le> size (tokens v)"
  by (simp add: tokens_def outstanding_def)

lemma content_inv_prep:
  assumes "content_inv old target v" "se_op x = Prep_write fd bs off" "0 \<le> off" "\<forall>i. writes_at x i \<longrightarrow> target i = None"
  shows "content_inv old (file_put off bs target) (v\<lparr>rv_sq := rv_sq v @ [x]\<rparr>)"
proof -
  let ?v = "v\<lparr>rv_sq := rv_sq v @ [x]\<rparr>" and ?t = "file_put off bs target"
  have out: "outstanding ?v = add_mset x (outstanding v)" by (simp add: outstanding_def)
  have t: "?t i = (if writes_at x i then Some (bs ! nat (int i - off)) else target i)" for i
    using assms(2) by (simp add: file_put_def writes_at_def)
  then have ext: "?t i = target i" if "target i \<noteq> None" for i using assms(4) that by auto
  have new: "brings ?t x" using assms(2,3) by (auto simp: brings_def file_put_def nat_add_distrib)
  have bring: "brings ?t y" if "brings target y" for y
    using that ext by (cases "se_op y") (auto simp: brings_def)
  show ?thesis
    unfolding content_inv_def
  proof (intro conjI allI ballI)
    fix y assume "y \<in># outstanding ?v"
    then show "brings ?t y" using assms(1) new bring by (auto simp: out content_inv_def)
  next
    fix i
    have "if target i = None then rv_file v i = old i else rv_file v i = target i \<or> (\<exists>y \<in># outstanding v. writes_at y i)"
      using assms(1) by (simp add: content_inv_def)
    then show "if ?t i = None then rv_file ?v i = old i else rv_file ?v i = ?t i \<or> (\<exists>y \<in># outstanding ?v. writes_at y i)"
      using t [of i] ext [of i] by (cases "writes_at x i") (auto simp: out split: if_splits)
  qed
qed

lemma content_inv_fsync:
  assumes "se_op x = Prep_fsync fd b" "content_inv old target v"
  shows "content_inv old target (v\<lparr>rv_sq := rv_sq v @ [x]\<rparr>)"
proof -
  have "outstanding (v\<lparr>rv_sq := rv_sq v @ [x]\<rparr>) = add_mset x (outstanding v)" by (simp add: outstanding_def)
  moreover have "brings target x" "\<not> writes_at x i" for i using assms(1) by (simp_all add: brings_def writes_at_def)
  ultimately show ?thesis using assms(2) by (auto simp: content_inv_def)
qed

lemma queue_write_ok:
  fixes bs :: "byte list" and off fd :: int
  assumes laws: "ring_laws api view lag depth outcome" and inv: "aio_inv cfg view a" and room: "ua_pending a + 1 < 2 ^ 64"
  defines "b \<equiv> queue_write cfg api bs off fd a"
  shows "aio_inv cfg view b" "ua_pending b = ua_pending a + 1" "ua_next b = ua_next a + 1"
    "ua_registered_files b = ua_registered_files a" "ua_closed b = ua_closed a"
    "outcome = full_write \<Longrightarrow> content_inv old target (view (ua_ring a)) \<Longrightarrow> 0 \<le> off \<Longrightarrow>
      \<forall>i. off \<le> int i \<longrightarrow> target i = None \<Longrightarrow> content_inv old (file_put off bs target) (view (ua_ring b))"
proof -
  let ?p = "ua_next a" and ?x = "\<lparr>se_op = Prep_write fd bs off, se_fixed = uc_fd_fixed cfg, se_data = Some (ua_next a)\<rparr>"
  let ?v = "view (ua_ring a)" and ?r = "io_uring_prep api ?x (ua_ring a)"
  note k1 = ring_lawsD(2) [OF laws, of "ua_ring a" ?x]
  obtain ret r2 where sub: "io_uring_submit api ?r = (ret, r2)" by fastforce
  note k2 = ring_lawsD(3) [OF laws sub]
  define r where "r = (if ua_pending a \<ge> SUBMIT_BATCH cfg then r2 else ?r)"
  have b: "b = a\<lparr>ua_requests := (ua_requests a)(?p \<mapsto> \<lparr>wr_data = bs, wr_size = length bs, wr_offset = off\<rparr>), ua_next := ?p + 1,
      ua_ring := r, ua_pending := ua_pending a + 1\<rparr>"
    using sub k2 room by (simp add: b_def queue_write_def Let_def r_def inc64_def)
  have tok1: "tokens (view ?r) = add_mset (Some ?p) (tokens ?v)" using kernel_keeps(1) [OF k1] by (simp add: tokens_prep)
  have tok: "tokens (view r) = add_mset (Some ?p) (tokens ?v)"
    using tok1 kernel_keeps(1) [OF conjunct2 [OF k2]] by (simp add: r_def tokens_submit)
  have sq: "length (rv_sq (view r)) \<le> SUBMIT_BATCH cfg"
  proof (cases "ua_pending a \<ge> SUBMIT_BATCH cfg")
    case True
    then show ?thesis using kernel_keeps(2) [OF conjunct2 [OF k2]] by (simp add: r_def)
  next
    case False
    have "ua_pending a = size (tokens ?v)" using inv by (simp add: aio_inv_def)
    then show ?thesis using False kernel_keeps(2) [OF k1] sq_le_tokens [of ?v] by (simp add: r_def)
  qed
  have new: "?p \<notin> dom (ua_requests a)" using inv by (auto simp: aio_inv_def)
  show "aio_inv cfg view b" "ua_pending b = ua_pending a + 1" "ua_next b = ua_next a + 1"
    "ua_registered_files b = ua_registered_files a" "ua_closed b = ua_closed a"
    using inv tok sq new by (auto simp: b aio_inv_def intro: less_SucI)
  show "content_inv old (file_put off bs target) (view (ua_ring b))"
    if "outcome = full_write" "content_inv old target ?v" "0 \<le> off" "\<forall>i. off \<le> int i \<longrightarrow> target i = None"
  proof -
    have "content_inv old (file_put off bs target) (?v\<lparr>rv_sq := rv_sq ?v @ [?x]\<rparr>)"
      using content_inv_prep [OF that(2), of ?x fd bs off] that(3,4) by (simp add: writes_at_def)
    then have "content_inv old (file_put off bs target) (view ?r)" using kernel_content k1 that(1) by blast
    moreover from this have "content_inv old (file_put off bs target) (view r2)"
      using kernel_content k2 that(1) content_inv_submit by metis
    ultimately show ?thesis by (simp add: b r_def)
  qed
qed

text \<open>Waiting ends when everything has been submitted.\<close>

lemma wait_all_returns:
  assumes laws: "ring_laws api view lag depth outcome"
  shows "aio_inv cfg view a \<Longrightarrow> rv_sq (view (ua_ring a)) = [] \<Longrightarrow>
    \<exists>b. wait_all api a = Some b \<and> keeps_aio cfg view (\<lambda>_. 0) outcome a b \<and> ua_pending b = 0"
proof (induction "ua_pending a" arbitrary: a)
  case 0
  then show ?case by (subst wait_all.simps) (simp add: keeps_aio_refl)
next
  case (Suc n)
  let ?v = "view (ua_ring a)"
  have "tokens ?v \<noteq> {#}" using Suc.hyps(2) Suc.prems(1) by (auto simp: aio_inv_def)
  then have "io_uring_wait_cqe api (ua_ring a) \<noteq> None"
    using ring_lawsD(5) [OF laws, of "ua_ring a"] Suc.prems(2) by (auto simp: tokens_def outstanding_def)
  then obtain c r where w: "io_uring_wait_cqe api (ua_ring a) = Some (Inr c, r)"
    using ring_lawsD(6) [OF laws, of "ua_ring a"] by (metis obj_sumE option.exhaust surj_pair)
  obtain cs where cs: "kernel outcome ?v (view r)" "rv_cq (view r) = c # cs" using ring_lawsD(7) [OF laws w] by blast
  have k: "keeps_aio cfg view (\<lambda>_. 0) outcome a (a\<lparr>ua_ring := r\<rparr>)" using kernel_keeps_aio [OF Suc.prems(1) cs(1)] by simp
  let ?b = "peek_one api c (a\<lparr>ua_ring := r\<rparr>)"
  have "aio_inv cfg view (a\<lparr>ua_ring := r\<rparr>)" using k by (simp add: keeps_aio_def)
  from peek_one_keeps [OF laws this, of c cs] have one: "keeps_aio cfg view (\<lambda>_. 0) outcome (a\<lparr>ua_ring := r\<rparr>) ?b"
    "ua_pending ?b + 1 = ua_pending a" using cs(2) by (auto simp: keeps_aio_def)
  have b: "aio_inv cfg view ?b" "rv_sq (view (ua_ring ?b)) = []" using one(1) k Suc.prems(2) by (auto simp: keeps_aio_def)
  then obtain d where d: "wait_all api ?b = Some d" "keeps_aio cfg view (\<lambda>_. 0) outcome ?b d" "ua_pending d = 0"
    using Suc.hyps(1) [of ?b] Suc.hyps(2) one(2) by auto
  have "wait_for_completion api a = Some (fst (handle_cqe c (a\<lparr>ua_ring := r\<rparr>)), ?b)"
    by (simp add: wait_for_completion_def w peek_one_def split: prod.split)
  then have "wait_all api a = wait_all api ?b" using Suc.hyps(2) by (subst wait_all.simps) simp
  then show ?case using d k one(1) keeps_aio_trans by fastforce
qed

lemma aio_idle:
  assumes "aio_inv cfg view a" "ua_pending a = 0"
  shows "outstanding (view (ua_ring a)) = {#}" "ua_requests a = Map.empty"
proof -
  have t: "tokens (view (ua_ring a)) = {#}" using assms by (simp add: aio_inv_def)
  then show "outstanding (view (ua_ring a)) = {#}" by (simp add: tokens_def)
  have "mset_set (dom (ua_requests a)) = {#}" "finite (dom (ua_requests a))" using assms(1) t by (simp_all add: aio_inv_def)
  then show "ua_requests a = Map.empty" by (simp add: mset_set_empty_iff)
qed

lemma fsync_and_wait_returns:
  assumes laws: "ring_laws api view lag (uc_depth cfg) outcome" and depth: "0 < uc_depth cfg"
    and inv: "aio_inv cfg view a" and room: "ua_pending a + 1 < 2 ^ 64"
  shows "\<exists>b. fsync_and_wait cfg api fd data_only a = Some b \<and> aio_inv cfg view b \<and> ua_pending b = 0
    \<and> ua_next b = ua_next a \<and> ua_registered_files b = ua_registered_files a \<and> ua_closed b = ua_closed a
    \<and> rv_sq (view (ua_ring b)) = []
    \<and> (outcome = full_write \<longrightarrow> (\<forall>old target. content_inv old target (view (ua_ring a)) \<longrightarrow> content_inv old target (view (ua_ring b))))"
proof -
  obtain b where b: "acquire_sqe api a = Some (True, b)" "keeps_aio cfg view (\<lambda>_. 0) outcome a b"
    using acquire_sqe_returns [OF laws depth inv] by blast
  let ?x = "\<lparr>se_op = Prep_fsync fd data_only, se_fixed = uc_fd_fixed cfg, se_data = None\<rparr>"
  let ?v = "view (ua_ring b)" and ?r = "io_uring_prep api ?x (ua_ring b)"
  note k1 = ring_lawsD(2) [OF laws, of "ua_ring b" ?x]
  obtain ret r2 where sub: "io_uring_submit api ?r = (ret, r2)" by fastforce
  note k2 = ring_lawsD(3) [OF laws sub]
  obtain ret3 r3 where sub3: "io_uring_submit api r2 = (ret3, r3)" by fastforce
  have sq2: "rv_sq (view r2) = []" using kernel_keeps(2) [OF conjunct2 [OF k2]] by simp
  have same: "(view r2)\<lparr>rv_sq := [], rv_pub := rv_pub (view r2) @ rv_sq (view r2)\<rparr> = view r2" using sq2 by simp
  have k3: "kernel outcome (view r2) (view r3)" using ring_lawsD(3) [OF laws sub3] unfolding same by blast
  let ?c = "b\<lparr>ua_pending := ua_pending b + 1, ua_ring := r3\<rparr>"
  have bi: "aio_inv cfg view b" "ua_pending b + 1 < 2 ^ 64" using b(2) room by (auto simp: keeps_aio_def)
  have tok: "tokens (view r3) = add_mset None (tokens ?v)"
    using kernel_keeps(1) [OF k1] kernel_keeps(1) [OF conjunct2 [OF k2]] kernel_keeps(1) [OF k3] by (simp add: tokens_prep tokens_submit)
  have sq3: "rv_sq (view r3) = []" using kernel_keeps(2) [OF k3] sq2 by simp
  have ci: "aio_inv cfg view ?c" using bi tok sq3 by (simp add: aio_inv_def)
  obtain d where d: "wait_all api ?c = Some d" "keeps_aio cfg view (\<lambda>_. 0) outcome ?c d" "ua_pending d = 0"
    using wait_all_returns [OF laws ci] sq3 by auto
  have run: "fsync_and_wait cfg api fd data_only a = Some d"
    using b(1) sub sub3 k2 bi(2) d(1) by (simp add: fsync_and_wait_def inc64_def)
  have "content_inv old target (view (ua_ring d))" if "outcome = full_write" "content_inv old target (view (ua_ring a))" for old target
  proof -
    have "content_inv old target ?v" using b(2) that by (simp add: keeps_aio_def)
    then have "content_inv old target (?v\<lparr>rv_sq := rv_sq ?v @ [?x]\<rparr>)" by (intro content_inv_fsync) simp
    then have "content_inv old target (view ?r)" by (rule kernel_content [OF k1 [unfolded that(1)]])
    then have "content_inv old target (view r2)" using kernel_content [OF conjunct2 [OF k2, unfolded that(1)]] by simp
    then have "content_inv old target (view r3)" by (rule kernel_content [OF k3 [unfolded that(1)]])
    then show ?thesis using d(2) that(1) by (simp add: keeps_aio_def)
  qed
  then show ?thesis using run d b(2) sq3 by (auto simp: keeps_aio_def)
qed

lemma write_async_returns:
  assumes laws: "ring_laws api view lag (uc_depth cfg) outcome" and depth: "0 < uc_depth cfg"
    and inv: "aio_inv cfg view a" and room: "ua_pending a + 1 < 2 ^ 64"
    and reg: "\<not> (uc_fd_fixed cfg \<and> ua_registered_files a = 0)"
  shows "\<exists>b. write_async cfg api bs off fd a = Some b \<and> aio_inv cfg view b \<and> ua_pending b \<le> ua_pending a + 1
    \<and> ua_next b = ua_next a + 1 \<and> ua_registered_files b = ua_registered_files a \<and> ua_closed b = ua_closed a
    \<and> (outcome = full_write \<longrightarrow> (\<forall>old target. content_inv old target (view (ua_ring a)) \<longrightarrow> 0 \<le> off \<longrightarrow>
         (\<forall>i. off \<le> int i \<longrightarrow> target i = None) \<longrightarrow> content_inv old (file_put off bs target) (view (ua_ring b))))"
proof -
  let ?a = "if ua_pending a \<ge> COMPLETE_BATCH then peek_completions api a else a"
  have a: "keeps_aio cfg view (\<lambda>_. 0) outcome a ?a"
    using peek_completions_keeps [OF laws inv] keeps_aio_refl [OF inv] by (auto simp: keeps_aio_def)
  then have "aio_inv cfg view ?a" by (simp add: keeps_aio_def)
  from acquire_sqe_returns [OF laws depth this] obtain b where
    b: "acquire_sqe api ?a = Some (True, b)" "keeps_aio cfg view (\<lambda>_. 0) outcome ?a b" by blast
  have ab: "keeps_aio cfg view (\<lambda>_. 0) outcome a b" using a b(2) keeps_aio_trans by blast
  then have bi: "aio_inv cfg view b" "ua_pending b + 1 < 2 ^ 64" using room by (auto simp: keeps_aio_def)
  note q = queue_write_ok [OF laws bi, where bs = bs and off = off and fd = fd]
  have "write_async cfg api bs off fd a = Some (queue_write cfg api bs off fd b)"
  proof -
    have "write_async cfg api bs off fd a = Option.bind (acquire_sqe api ?a)
        (\<lambda>(ok, a). if \<not> ok then Some a else Some (queue_write cfg api bs off fd a))"
      unfolding write_async_def Let_def using reg by (rule if_not_P)
    then show ?thesis by (simp only: b(1)) simp
  qed
  then show ?thesis using q ab by (auto simp: keeps_aio_def)
qed

end
