(* ===== verification/Log_Writer.thy ===== *)
theory Log_Writer
  imports Uring_Aio Mpmc_Queue
begin

text \<open>
  \<open>File\<close> (include/file.h) writes through \<open>UringAIO\<close> at an offset it keeps itself; \<open>Logger\<close> (include/logger.h, include/logger.cpp)
  puts log tasks on an \<open>MPMCQueue\<close> that one thread empties into the file. The results of \<open>open\<close> and \<open>lseek64\<close> and the text that
  \<open>fmt::format\<close> makes of a task are parameters. What other threads do between two iterations of the logging thread is
  a function on the logger.
\<close>

section \<open>File\<close>

record 'r aio_file =
  fi_aio :: "'r uring_aio"
  fi_path :: string
  fi_fd :: int
  fi_offset :: int

definition File_new :: "'r uring_aio \<Rightarrow> 'r aio_file" where
  "File_new a = \<lparr>fi_aio = a, fi_path = [], fi_fd = - 1, fi_offset = - 1\<rparr>"

text \<open>\<open>opener path appending\<close> is the result of \<open>open\<close>, \<open>seek_end fd\<close> that of \<open>lseek64\<close>.\<close>

definition open_file ::
    "uring_cfg \<Rightarrow> 'r uring_api \<Rightarrow> (string \<Rightarrow> bool \<Rightarrow> int) \<Rightarrow> (int \<Rightarrow> int) \<Rightarrow> string \<Rightarrow> bool \<Rightarrow> 'r aio_file \<Rightarrow> bool \<times> 'r aio_file" where
  "open_file cfg api opener seek_end path appending f =
     (let f = f\<lparr>fi_path := path, fi_fd := opener path appending\<rparr>
      in if fi_fd f = - 1 then (False, f)
         else let f = f\<lparr>fi_offset := seek_end (fi_fd f)\<rparr>
              in if fi_offset f < 0 then (False, f)
                 else if uc_fd_fixed cfg
                 then let (ok, a) = register_fds cfg api [fi_fd f] (fi_aio f) in (ok, f\<lparr>fi_aio := a\<rparr>)
                 else (True, f))"

definition fd_or_index :: "uring_cfg \<Rightarrow> 'r aio_file \<Rightarrow> int" where
  "fd_or_index cfg f = (if uc_fd_fixed cfg then 0 else fi_fd f)"

definition File_write :: "uring_cfg \<Rightarrow> 'r uring_api \<Rightarrow> byte list \<Rightarrow> 'r aio_file \<Rightarrow> 'r aio_file option" where
  "File_write cfg api data f =
     (if fi_fd f = - 1 then Some f
      else map_option (\<lambda>a. f\<lparr>fi_aio := a, fi_offset := fi_offset f + int (length data)\<rparr>)
             (write_async cfg api data (fi_offset f) (fd_or_index cfg f) (fi_aio f)))"

definition File_flush :: "uring_cfg \<Rightarrow> 'r uring_api \<Rightarrow> 'r aio_file \<Rightarrow> 'r aio_file option" where
  "File_flush cfg api f =
     (if fi_fd f = - 1 then Some f
      else map_option (\<lambda>a. f\<lparr>fi_aio := a\<rparr>) (fsync_and_wait cfg api (fd_or_index cfg f) False (fi_aio f)))"

definition close_file :: "uring_cfg \<Rightarrow> 'r uring_api \<Rightarrow> 'r aio_file \<Rightarrow> 'r aio_file option" where
  "close_file cfg api f =
     (if fi_fd f = - 1 then Some f
      else Option.bind (File_flush cfg api f)
             (\<lambda>f. map_option (\<lambda>a. f\<lparr>fi_aio := a, fi_fd := - 1\<rparr>) (UringAIO_close cfg api (fi_aio f))))"

section \<open>Logger\<close>

datatype log_level = TRACE | DEBUG | INFO | WARNING | ERROR | FATAL

text \<open>The order of the enumerators.\<close>

fun level_val :: "log_level \<Rightarrow> nat" where
  "level_val TRACE = 0" | "level_val DEBUG = 1" | "level_val INFO = 2" | "level_val WARNING = 3" | "level_val ERROR = 4"
| "level_val FATAL = 5"

instantiation log_level :: linorder
begin

definition less_eq_log_level :: "log_level \<Rightarrow> log_level \<Rightarrow> bool" where
  "less_eq_log_level a b \<longleftrightarrow> level_val a \<le> level_val b"

definition less_log_level :: "log_level \<Rightarrow> log_level \<Rightarrow> bool" where
  "less_log_level a b \<longleftrightarrow> level_val a < level_val b"

instance
proof
  fix x y :: log_level
  show "x \<le> y \<Longrightarrow> y \<le> x \<Longrightarrow> x = y" by (cases x; cases y) (simp_all add: less_eq_log_level_def)
qed (auto simp: less_eq_log_level_def less_log_level_def)

end

fun levelToString :: "log_level \<Rightarrow> string" where
  "levelToString TRACE = ''TRACE''" | "levelToString DEBUG = ''DEBUG''" | "levelToString INFO = ''INFO''"
| "levelToString WARNING = ''WARNING''" | "levelToString ERROR = ''ERROR''" | "levelToString FATAL = ''FATAL''"

text \<open>A task is the closure that \<open>log\<close> puts on the queue: the level, the line and the arguments.\<close>

record 'a log_task =
  lt_level :: log_level
  lt_line :: int
  lt_args :: 'a

record ('r, 'a) logger =
  lg_file :: "'r aio_file"
  lg_queue :: "'a log_task mpmc"
  lg_thread :: bool
  lg_stop :: bool
  lg_level :: log_level
  lg_fault :: bool

text \<open>\<open>Capacity\<close> of the task queue.\<close>

definition LOG_QUEUE :: nat where
  "LOG_QUEUE = 65536"

definition Logger_new :: "'r uring_aio \<Rightarrow> ('r, 'a) logger" where
  "Logger_new a = \<lparr>lg_file = File_new a, lg_queue = MPMC_new LOG_QUEUE, lg_thread = False, lg_stop = False, lg_level = INFO, lg_fault = False\<rparr>"

text \<open>\<open>log\<close>; \<open>None\<close> is a call that spins because the queue is full.\<close>

definition Logger_log :: "log_level \<Rightarrow> int \<Rightarrow> 'a \<Rightarrow> ('r, 'a) logger \<Rightarrow> ('r, 'a) logger option" where
  "Logger_log level line args g =
     (if level < lg_level g then Some g
      else map_option (\<lambda>q. g\<lparr>lg_queue := q\<rparr>) (MPMC_emplace LOG_QUEUE \<lparr>lt_level = level, lt_line = line, lt_args = args\<rparr> (lg_queue g)))"

text \<open>One iteration of the loop of \<open>processLogTasks\<close> with a task to do. \<open>render\<close> is the text of the formatted task, made by the
  logging thread.\<close>

definition process_task ::
    "uring_cfg \<Rightarrow> 'r uring_api \<Rightarrow> ('a log_task \<Rightarrow> byte list) \<Rightarrow> ('r, 'a) logger \<Rightarrow> ('r, 'a) logger option" where
  "process_task cfg api render g = (case MPMC_pop LOG_QUEUE (lg_queue g) of
       None \<Rightarrow> None
     | Some (Live task, q) \<Rightarrow> map_option (\<lambda>f. g\<lparr>lg_file := f, lg_queue := q\<rparr>) (File_write cfg api (render task) (lg_file g))
     | Some (_, q) \<Rightarrow> Some (g\<lparr>lg_queue := q, lg_fault := True\<rparr>))"

partial_function (option) processLogTasks ::
    "uring_cfg \<Rightarrow> 'r uring_api \<Rightarrow> ('a log_task \<Rightarrow> byte list) \<Rightarrow> (nat \<Rightarrow> ('r, 'a) logger \<Rightarrow> ('r, 'a) logger) \<Rightarrow> nat \<Rightarrow>
     ('r, 'a) logger \<Rightarrow> ('r, 'a) logger option" where
  "processLogTasks cfg api render env k g =
     (if lg_stop g \<and> MPMC_empty (lg_queue g) then Some g
      else if MPMC_empty (lg_queue g) then processLogTasks cfg api render env (k + 1) (env k g)
      else Option.bind (process_task cfg api render g) (\<lambda>g. processLogTasks cfg api render env (k + 1) (env k g)))"

text \<open>\<open>init\<close> and the destructor wait for the logging thread to end, which is the rest of its loop. The thread \<open>init\<close> starts is
  the loop run from then on.\<close>

definition Logger_init ::
    "uring_cfg \<Rightarrow> 'r uring_api \<Rightarrow> ('a log_task \<Rightarrow> byte list) \<Rightarrow> (nat \<Rightarrow> ('r, 'a) logger \<Rightarrow> ('r, 'a) logger) \<Rightarrow>
     (string \<Rightarrow> bool \<Rightarrow> int) \<Rightarrow> (int \<Rightarrow> int) \<Rightarrow> string \<Rightarrow> log_level \<Rightarrow> string \<Rightarrow> ('r, 'a) logger \<Rightarrow> ('r, 'a) logger option" where
  "Logger_init cfg api render env opener seek_end default_name level filename g =
     Option.bind (if lg_thread g then processLogTasks cfg api render env 0 g else Some g)
       (\<lambda>g. let f = snd (open_file cfg api opener seek_end (if filename = [] then default_name else filename) False (lg_file g))
            in Some (g\<lparr>lg_file := f, lg_level := level, lg_thread := True\<rparr>))"

definition Logger_delete ::
    "uring_cfg \<Rightarrow> 'r uring_api \<Rightarrow> ('a log_task \<Rightarrow> byte list) \<Rightarrow> (nat \<Rightarrow> ('r, 'a) logger \<Rightarrow> ('r, 'a) logger) \<Rightarrow>
     ('r, 'a) logger \<Rightarrow> ('r, 'a) logger option" where
  "Logger_delete cfg api render env g =
     (let g = g\<lparr>lg_stop := True\<rparr>
      in Option.bind (if lg_thread g then processLogTasks cfg api render env 0 g else Some g)
           (\<lambda>g. map_option (\<lambda>f. g\<lparr>lg_file := f, lg_thread := False\<rparr>) (close_file cfg api (lg_file g))))"

section \<open>Lemmas\<close>

text \<open>A queue used by one thread at a time holds a list, from its head to its tail.\<close>

definition mpmc_holds :: "nat \<Rightarrow> 'a mpmc \<Rightarrow> 'a list \<Rightarrow> bool" where
  "mpmc_holds cap q xs \<longleftrightarrow> 0 < cap \<and> length (mq_data q) = cap \<and> length (mq_ticket q) = cap
     \<and> mq_tail q = mq_head q + length xs \<and> length xs \<le> cap \<and> mq_tail q < 2 ^ 62
     \<and> (\<forall>k < length xs. mq_ticket q ! ((mq_head q + k) mod cap) = 2 * ((mq_head q + k) div cap) + 1
          \<and> mq_data q ! ((mq_head q + k) mod cap) = Live (xs ! k))
     \<and> (\<forall>k. length xs \<le> k \<longrightarrow> k < cap \<longrightarrow> mq_ticket q ! ((mq_head q + k) mod cap) = 2 * ((mq_head q + k) div cap))"

lemma MPMC_new_holds: "0 < cap \<Longrightarrow> mpmc_holds cap (MPMC_new cap) []"
  by (simp add: mpmc_holds_def MPMC_new_def)

lemma ticket_small:
  assumes "h < (2 :: nat) ^ 62"
  shows "((h div cap) * 2) mod 2 ^ 64 = 2 * (h div cap)" "((h div cap) * 2 + 1) mod 2 ^ 64 = 2 * (h div cap) + 1"
    "((h div cap) * 2 + 2) mod 2 ^ 64 = 2 * (h div cap) + 2" "(h + 1) mod 2 ^ 64 = h + 1"
proof -
  have "h div cap < 2 ^ 62" using assms div_le_dividend le_less_trans by blast
  then show "((h div cap) * 2) mod 2 ^ 64 = 2 * (h div cap)" "((h div cap) * 2 + 1) mod 2 ^ 64 = 2 * (h div cap) + 1"
    "((h div cap) * 2 + 2) mod 2 ^ 64 = 2 * (h div cap) + 2" by simp_all
  show "(h + 1) mod 2 ^ 64 = h + 1" using assms by simp
qed

lemma mod_window:
  assumes "(h + j) mod cap = (h + k) mod cap" "j < cap" "k < (cap :: nat)"
  shows "j = k"
proof -
  have "(j + h) mod cap = (k + h) mod cap" using assms(1) by (simp add: add.commute)
  then have "j mod cap = k mod cap" by (simp add: mod_add_right_eq nat_mod_eq_iff)
  then show ?thesis using assms(2,3) by simp
qed

lemma mpmc_emplace_holds:
  assumes "mpmc_holds cap q xs" "length xs < cap" "mq_tail q + 1 < 2 ^ 62"
  shows "\<exists>q'. MPMC_emplace cap x q = Some q' \<and> mpmc_holds cap q' (xs @ [x]) \<and> mq_tail q' = mq_tail q + 1"
proof -
  let ?h = "mq_head q" and ?n = "length xs"
  let ?i = "(?h + ?n) mod cap" and ?t = "(?h + ?n) div cap"
  note inv = assms(1) [unfolded mpmc_holds_def]
  have tk: "mq_ticket q ! ?i = 2 * ?t" using inv assms(2) by simp
  have tail: "mq_tail q = ?h + ?n" using inv by simp
  have "?h + ?n < 2 ^ 62" using tail assms(3) by simp
  note small = ticket_small(1-3) [OF this, of cap] ticket_small(4) [OF this]
  let ?q = "q\<lparr>mq_tail := ?h + ?n + 1, mq_data := (mq_data q)[?i := Live x], mq_ticket := (mq_ticket q)[?i := 2 * ?t + 1]\<rparr>"
  have run: "MPMC_emplace cap x q = Some ?q"
    using tk small by (simp add: MPMC_emplace_def queue_defs mq_idx_def mq_turn_def tail del: power_numeral)
  have i: "?i < cap" using inv by simp
  have other: "(?h + k) mod cap \<noteq> ?i" if "k < cap" "k \<noteq> ?n" for k
    using mod_window [of ?h k cap ?n] that assms(2) by blast
  have "mpmc_holds cap ?q (xs @ [x])"
    unfolding mpmc_holds_def
  proof (intro conjI allI impI)
    fix k assume "k < length (xs @ [x])"
    then consider "k < ?n" | "k = ?n" by (auto simp: less_Suc_eq)
    then show "mq_ticket ?q ! ((mq_head ?q + k) mod cap) = 2 * ((mq_head ?q + k) div cap) + 1"
      "mq_data ?q ! ((mq_head ?q + k) mod cap) = Live ((xs @ [x]) ! k)"
      using inv i other [of k] assms(2) by (cases; simp add: nth_append)+
  next
    fix k assume "length (xs @ [x]) \<le> k" "k < cap"
    then show "mq_ticket ?q ! ((mq_head ?q + k) mod cap) = 2 * ((mq_head ?q + k) div cap)"
      using inv i other [of k] by simp
  qed (use inv assms(2,3) tail in auto)
  then show ?thesis using run tail by simp
qed

lemma mpmc_pop_holds:
  assumes "mpmc_holds cap q (x # xs)"
  shows "\<exists>q'. MPMC_pop cap q = Some (Live x, q') \<and> mpmc_holds cap q' xs \<and> mq_tail q' = mq_tail q"
proof -
  let ?h = "mq_head q"
  let ?i = "?h mod cap" and ?t = "?h div cap"
  note inv = assms [unfolded mpmc_holds_def]
  have cap: "0 < cap" "?i < cap" using inv by auto
  have tk: "mq_ticket q ! ?i = 2 * ?t + 1" "mq_data q ! ?i = Live x" using inv by (auto dest: spec [of _ 0])
  have "?h < 2 ^ 62" using inv by simp
  note small = ticket_small(1-3) [OF this, of cap] ticket_small(4) [OF this]
  let ?q = "q\<lparr>mq_head := ?h + 1, mq_data := (mq_data q)[?i := Moved], mq_ticket := (mq_ticket q)[?i := 2 * ?t + 2]\<rparr>"
  have run: "MPMC_pop cap q = Some (Live x, ?q)"
    using tk small by (simp add: MPMC_pop_def queue_defs mq_idx_def mq_turn_def)
  have other: "(?h + 1 + k) mod cap \<noteq> ?i" if "k + 1 < cap" for k
    using mod_window [of ?h "k + 1" cap 0] that by (auto simp: add.assoc)
  have "mpmc_holds cap ?q xs"
    unfolding mpmc_holds_def
  proof (intro conjI allI impI)
    fix k assume "k < length xs"
    then have k: "k + 1 < length (x # xs)" "k + 1 < cap" using inv by auto
    have "mq_ticket q ! ((?h + (k + 1)) mod cap) = 2 * ((?h + (k + 1)) div cap) + 1"
      "mq_data q ! ((?h + (k + 1)) mod cap) = Live ((x # xs) ! (k + 1))" using inv k(1) by blast+
    then show "mq_ticket ?q ! ((mq_head ?q + k) mod cap) = 2 * ((mq_head ?q + k) div cap) + 1"
      "mq_data ?q ! ((mq_head ?q + k) mod cap) = Live (xs ! k)"
      using other [OF k(2)] by (simp_all add: ac_simps)
  next
    fix k assume k: "length xs \<le> k" "k < cap"
    show "mq_ticket ?q ! ((mq_head ?q + k) mod cap) = 2 * ((mq_head ?q + k) div cap)"
    proof (cases "k + 1 < cap")
      case True
      then have "mq_ticket q ! ((?h + (k + 1)) mod cap) = 2 * ((?h + (k + 1)) div cap)" using inv k(1) by force
      then show ?thesis using other [OF True] by (simp add: ac_simps)
    next
      case False
      then have e: "mq_head ?q + k = ?h + cap" using k(2) by simp
      have "(?h + cap) mod cap = ?i" "(?h + cap) div cap = ?t + 1" using div_add_self2 [of cap ?h] cap(1) by auto
      then show ?thesis unfolding e using inv cap by simp
    qed
  qed (use inv in auto)
  then show ?thesis using run by simp
qed

lemma mpmc_empty_holds: "mpmc_holds cap q xs \<Longrightarrow> MPMC_empty q \<longleftrightarrow> xs = []"
  by (auto simp: mpmc_holds_def MPMC_empty_def)

text \<open>An open file to which \<open>bs\<close> has been written from position \<open>start\<close> on; \<open>old\<close> is the rest of its content.\<close>

definition file_holds :: "uring_cfg \<Rightarrow> ('r \<Rightarrow> ring_view) \<Rightarrow> (nat \<rightharpoonup> byte) \<Rightarrow> nat \<Rightarrow> byte list \<Rightarrow> 'r aio_file \<Rightarrow> bool" where
  "file_holds cfg view old start bs f \<longleftrightarrow> fi_fd f \<noteq> - 1 \<and> aio_inv cfg view (fi_aio f) \<and> \<not> ua_closed (fi_aio f)
     \<and> \<not> (uc_fd_fixed cfg \<and> ua_registered_files (fi_aio f) = 0) \<and> ua_pending (fi_aio f) \<le> ua_next (fi_aio f)
     \<and> fi_offset f = int start + int (length bs) \<and> content_inv old (file_put (int start) bs Map.empty) (view (ua_ring (fi_aio f)))"

lemma file_put_append: "file_put (off + int (length bs)) cs (file_put off bs f) = file_put off (bs @ cs) f"
proof
  fix i
  have "nat (int i - (off + int (length bs))) = nat (int i - off) - length bs" by arith
  then show "file_put (off + int (length bs)) cs (file_put off bs f) i = file_put off (bs @ cs) f i"
    by (auto simp: file_put_def nth_append)
qed

lemma file_put_nil [simp]: "file_put off [] f = f"
  by (rule ext) (auto simp: file_put_def)

text \<open>What a reader of the file finds.\<close>

definition file_content :: "(nat \<rightharpoonup> byte) \<Rightarrow> nat \<Rightarrow> byte list \<Rightarrow> (nat \<rightharpoonup> byte)" where
  "file_content old start bs = file_put (int start) bs old"

lemma File_write_holds:
  assumes laws: "ring_laws api view lag (uc_depth cfg) full_write" and depth: "0 < uc_depth cfg"
    and f: "file_holds cfg view old start bs f" and room: "ua_next (fi_aio f) + 1 < 2 ^ 64"
  shows "\<exists>g. File_write cfg api cs f = Some g \<and> file_holds cfg view old start (bs @ cs) g
    \<and> ua_next (fi_aio g) = ua_next (fi_aio f) + 1"
proof -
  note f = f [unfolded file_holds_def]
  have r: "ua_pending (fi_aio f) + 1 < 2 ^ 64" "\<not> (uc_fd_fixed cfg \<and> ua_registered_files (fi_aio f) = 0)" using f room by auto
  from write_async_returns [OF laws depth _ r, of cs "fi_offset f" "fd_or_index cfg f"] f obtain b where
    b: "write_async cfg api cs (fi_offset f) (fd_or_index cfg f) (fi_aio f) = Some b" "aio_inv cfg view b"
    "ua_pending b \<le> ua_pending (fi_aio f) + 1" "ua_next b = ua_next (fi_aio f) + 1"
    "ua_registered_files b = ua_registered_files (fi_aio f)" "ua_closed b = ua_closed (fi_aio f)"
    "\<And>old target. content_inv old target (view (ua_ring (fi_aio f))) \<Longrightarrow> 0 \<le> fi_offset f \<Longrightarrow>
         (\<And>i. fi_offset f \<le> int i \<Longrightarrow> target i = None) \<Longrightarrow> content_inv old (file_put (fi_offset f) cs target) (view (ua_ring b))"
    by blast
  have "content_inv old (file_put (fi_offset f) cs (file_put (int start) bs Map.empty)) (view (ua_ring b))"
    using f by (intro b(7)) (auto simp: file_put_def)
  then have "content_inv old (file_put (int start) (bs @ cs) Map.empty) (view (ua_ring b))"
    using f file_put_append [of "int start" bs cs Map.empty] by simp
  then show ?thesis using b f by (auto simp: File_write_def file_holds_def)
qed

text \<open>An idle ring has everything in the file.\<close>

lemma idle_content:
  assumes "aio_inv cfg view a" "ua_pending a = 0" "content_inv old (file_put (int start) bs Map.empty) (view (ua_ring a))"
  shows "rv_file (view (ua_ring a)) = file_content old start bs"
proof
  fix i
  have "outstanding (view (ua_ring a)) = {#}" by (rule aio_idle(1) [OF assms(1,2)])
  then show "rv_file (view (ua_ring a)) i = file_content old start bs i"
    using assms(3) by (auto simp: content_inv_def file_content_def file_put_def split: if_splits)
qed

lemma File_flush_holds:
  assumes laws: "ring_laws api view lag (uc_depth cfg) full_write" and depth: "0 < uc_depth cfg"
    and f: "file_holds cfg view old start bs f" and room: "ua_next (fi_aio f) + 1 < 2 ^ 64"
  shows "\<exists>g. File_flush cfg api f = Some g \<and> file_holds cfg view old start bs g \<and> ua_pending (fi_aio g) = 0
    \<and> rv_file (view (ua_ring (fi_aio g))) = file_content old start bs \<and> ua_requests (fi_aio g) = Map.empty
    \<and> rv_sq (view (ua_ring (fi_aio g))) = []"
proof -
  note h = f [unfolded file_holds_def]
  have r: "ua_pending (fi_aio f) + 1 < 2 ^ 64" using h room by auto
  from fsync_and_wait_returns [OF laws depth _ r, of "fd_or_index cfg f" False] h obtain b where
    b: "fsync_and_wait cfg api (fd_or_index cfg f) False (fi_aio f) = Some b" "aio_inv cfg view b" "ua_pending b = 0"
    "ua_next b = ua_next (fi_aio f)" "ua_registered_files b = ua_registered_files (fi_aio f)" "ua_closed b = ua_closed (fi_aio f)"
    "rv_sq (view (ua_ring b)) = []" "content_inv old (file_put (int start) bs Map.empty) (view (ua_ring b))"
    by blast
  show ?thesis
    using b h idle_content [OF b(2,3,8)] aio_idle(2) [OF b(2,3)] by (auto simp: File_flush_def file_holds_def)
qed

lemma close_file_holds:
  assumes laws: "ring_laws api view lag (uc_depth cfg) full_write" and depth: "0 < uc_depth cfg"
    and f: "file_holds cfg view old start bs f" and room: "ua_next (fi_aio f) + 1 < 2 ^ 64"
  shows "\<exists>g. close_file cfg api f = Some g \<and> fi_fd g = - 1 \<and> ua_closed (fi_aio g) \<and> ua_requests (fi_aio g) = Map.empty
    \<and> \<not> ua_fault (fi_aio g) \<and> rv_file (view (ua_ring (fi_aio g))) = file_content old start bs"
proof -
  obtain g where g: "File_flush cfg api f = Some g" "file_holds cfg view old start bs g" "ua_pending (fi_aio g) = 0"
    "rv_file (view (ua_ring (fi_aio g))) = file_content old start bs" "ua_requests (fi_aio g) = Map.empty"
    using File_flush_holds [OF assms] by blast
  note h = g(2) [unfolded file_holds_def]
  let ?a = "fi_aio g" and ?b = "unregister_fds cfg api (fi_aio g)"
  have wait: "wait_all api ?a = Some ?a" using g(3) by (subst wait_all.simps) simp
  have k: "kernel full_write (view (ua_ring ?a)) (view (ua_ring ?b))"
    using ring_lawsD(13) [OF laws] k_refl by (simp add: unregister_fds_def)
  have b: "ua_requests ?b = Map.empty" "\<not> ua_fault ?b" using g(5) h by (auto simp: unregister_fds_def aio_inv_def)
  have "content_inv old (file_put (int start) bs Map.empty) (view (ua_ring ?b))" using kernel_content [OF k] h by blast
  moreover have "aio_inv cfg view ?b" "ua_pending ?b = 0"
    using h g(3) kernel_keeps(1,2) [OF k] by (auto simp: aio_inv_def unregister_fds_def split: if_splits)
  ultimately have c: "rv_file (view (ua_ring ?b)) = file_content old start bs" using idle_content by blast
  have "fi_fd f \<noteq> - 1" using f by (simp add: file_holds_def)
  then show ?thesis using c g(1) h wait b ring_lawsD(14) [OF laws]
    by (auto simp: close_file_def UringAIO_close_def Let_def)
qed

fun write_each :: "uring_cfg \<Rightarrow> 'r uring_api \<Rightarrow> byte list list \<Rightarrow> 'r aio_file \<Rightarrow> 'r aio_file option" where
  "write_each cfg api [] f = Some f"
| "write_each cfg api (d # ds) f = Option.bind (File_write cfg api d f) (write_each cfg api ds)"

lemma write_each_holds:
  assumes laws: "ring_laws api view lag (uc_depth cfg) full_write" and depth: "0 < uc_depth cfg"
  shows "file_holds cfg view old start bs f \<Longrightarrow> ua_next (fi_aio f) + length ds < 2 ^ 64 \<Longrightarrow>
    \<exists>g. write_each cfg api ds f = Some g \<and> file_holds cfg view old start (bs @ concat ds) g
      \<and> ua_next (fi_aio g) = ua_next (fi_aio f) + length ds"
proof (induction ds arbitrary: f bs)
  case (Cons d ds)
  then obtain g where g: "File_write cfg api d f = Some g" "file_holds cfg view old start (bs @ d) g" "ua_next (fi_aio g) = ua_next (fi_aio f) + 1"
    using File_write_holds [OF laws depth, of old start bs f d] by auto
  then show ?case using Cons.IH [OF g(2)] Cons.prems(2) by auto
qed simp

text \<open>A newly opened file.\<close>

lemma open_file_holds:
  assumes laws: "ring_laws api view lag (uc_depth cfg) full_write" and new: "UringAIO_new cfg api r = Inr a"
    and op: "open_file cfg api opener seek_end path appending (File_new a) = (True, f)"
  shows "file_holds cfg view (rv_file (view r)) (nat (seek_end (opener path appending))) [] f" "ua_next (fi_aio f) = 0"
    "fi_offset f = seek_end (opener path appending)"
proof -
  let ?fd = "opener path appending"
  have ok: "?fd \<noteq> - 1" "0 \<le> seek_end ?fd" using op by (auto simp: open_file_def Let_def File_new_def split: if_splits)
  have ring: "view (ua_ring a) = \<lparr>rv_sq = [], rv_pub = [], rv_fl = {#}, rv_cq = [], rv_file = rv_file (view r)\<rparr>"
    and a: "ua_requests a = Map.empty" "ua_next a = 0" "ua_pending a = 0" "\<not> ua_closed a" "\<not> ua_fault a"
    using new ring_lawsD(11) [OF laws] by (auto simp: UringAIO_new_def split: prod.splits if_splits)
  have f: "fi_fd f = ?fd" "fi_offset f = seek_end ?fd" "kernel full_write (view (ua_ring a)) (view (ua_ring (fi_aio f)))"
    "ua_requests (fi_aio f) = Map.empty" "ua_next (fi_aio f) = 0" "ua_pending (fi_aio f) = 0" "\<not> ua_closed (fi_aio f)" "\<not> ua_fault (fi_aio f)"
    "uc_fd_fixed cfg \<longrightarrow> ua_registered_files (fi_aio f) \<noteq> 0"
    using op ok a ring_lawsD(12) [OF laws, of "ua_ring a" "[?fd]"] k_refl
    by (auto simp: open_file_def register_fds_def Let_def File_new_def split: if_splits prod.splits)
  have "content_inv (rv_file (view r)) (file_put (int (nat (seek_end ?fd))) [] Map.empty) (view (ua_ring a))"
    by (simp add: ring content_inv_def outstanding_def)
  then have "content_inv (rv_file (view r)) (file_put (int (nat (seek_end ?fd))) [] Map.empty) (view (ua_ring (fi_aio f)))"
    by (rule kernel_content [OF f(3)])
  moreover have "aio_inv cfg view (fi_aio f)"
    using kernel_keeps(1,2) [OF f(3)] f(4-8) by (simp add: aio_inv_def ring tokens_def outstanding_def)
  ultimately show "file_holds cfg view (rv_file (view r)) (nat (seek_end ?fd)) [] f" using f ok by (simp add: file_holds_def)
  show "ua_next (fi_aio f) = 0" "fi_offset f = seek_end ?fd" using f by auto
qed

text \<open>The logging thread empties the queue of a stopped logger.\<close>

lemma process_task_holds:
  assumes laws: "ring_laws api view lag (uc_depth cfg) full_write" and depth: "0 < uc_depth cfg"
    and q: "mpmc_holds LOG_QUEUE (lg_queue g) (t # ts)" and f: "file_holds cfg view old start bs (lg_file g)"
    and room: "ua_next (fi_aio (lg_file g)) + 1 < 2 ^ 64"
  shows "\<exists>h. process_task cfg api render g = Some h \<and> mpmc_holds LOG_QUEUE (lg_queue h) ts
    \<and> file_holds cfg view old start (bs @ render t) (lg_file h) \<and> ua_next (fi_aio (lg_file h)) = ua_next (fi_aio (lg_file g)) + 1
    \<and> lg_stop h = lg_stop g \<and> lg_fault h = lg_fault g \<and> lg_level h = lg_level g"
proof -
  obtain q' where q': "MPMC_pop LOG_QUEUE (lg_queue g) = Some (Live t, q')" "mpmc_holds LOG_QUEUE q' ts" using mpmc_pop_holds [OF q] by blast
  obtain f' where f': "File_write cfg api (render t) (lg_file g) = Some f'" "file_holds cfg view old start (bs @ render t) f'"
    "ua_next (fi_aio f') = ua_next (fi_aio (lg_file g)) + 1" using File_write_holds [OF laws depth f room] by blast
  show ?thesis using q' f' by (simp add: process_task_def)
qed

lemma process_stopped:
  assumes laws: "ring_laws api view lag (uc_depth cfg) full_write" and depth: "0 < uc_depth cfg"
  shows "mpmc_holds LOG_QUEUE (lg_queue g) ts \<Longrightarrow> file_holds cfg view old start bs (lg_file g) \<Longrightarrow> lg_stop g \<Longrightarrow>
    ua_next (fi_aio (lg_file g)) + length ts < 2 ^ 64 \<Longrightarrow>
    \<exists>h. processLogTasks cfg api render (\<lambda>_ g. g) k g = Some h \<and> mpmc_holds LOG_QUEUE (lg_queue h) []
      \<and> file_holds cfg view old start (bs @ concat (map render ts)) (lg_file h)
      \<and> ua_next (fi_aio (lg_file h)) = ua_next (fi_aio (lg_file g)) + length ts \<and> lg_fault h = lg_fault g"
proof (induction ts arbitrary: g bs k)
  case Nil
  then show ?case by (subst processLogTasks.simps) (simp add: mpmc_empty_holds)
next
  case (Cons t ts)
  have room: "ua_next (fi_aio (lg_file g)) + 1 < 2 ^ 64" using Cons.prems(4) by simp
  obtain h where h: "process_task cfg api render g = Some h" "mpmc_holds LOG_QUEUE (lg_queue h) ts"
    "file_holds cfg view old start (bs @ render t) (lg_file h)" "ua_next (fi_aio (lg_file h)) = ua_next (fi_aio (lg_file g)) + 1"
    "lg_stop h = lg_stop g" "lg_fault h = lg_fault g"
    using process_task_holds [OF laws depth Cons.prems(1,2) room, of render] by blast
  have "processLogTasks cfg api render (\<lambda>_ g. g) k g = processLogTasks cfg api render (\<lambda>_ g. g) (k + 1) h"
    using h(1) mpmc_empty_holds [OF Cons.prems(1)] by (subst processLogTasks.simps) simp
  then show ?case using Cons.IH [OF h(2,3), of "k + 1"] h(4-6) Cons.prems(3,4) by auto
qed

text \<open>Calls of \<open>log\<close> in a row.\<close>

fun log_each :: "(log_level \<times> int \<times> 'a) list \<Rightarrow> ('r, 'a) logger \<Rightarrow> ('r, 'a) logger option" where
  "log_each [] g = Some g"
| "log_each ((level, line, args) # ls) g = Option.bind (Logger_log level line args g) (log_each ls)"

definition log_tasks :: "log_level \<Rightarrow> (log_level \<times> int \<times> 'a) list \<Rightarrow> 'a log_task list" where
  "log_tasks threshold ls =
     map (\<lambda>(level, line, args). \<lparr>lt_level = level, lt_line = line, lt_args = args\<rparr>) (filter (\<lambda>(level, _). threshold \<le> level) ls)"

lemma log_each_holds:
  "mpmc_holds LOG_QUEUE (lg_queue g) ts \<Longrightarrow> length ts + length ls \<le> LOG_QUEUE \<Longrightarrow> mq_tail (lg_queue g) + length ls < 2 ^ 62 \<Longrightarrow>
   \<exists>q. log_each ls g = Some (g\<lparr>lg_queue := q\<rparr>) \<and> mpmc_holds LOG_QUEUE q (ts @ log_tasks (lg_level g) ls)"
proof (induction ls arbitrary: g ts)
  case Nil
  then show ?case by (auto simp: log_tasks_def intro!: exI [of _ "lg_queue g"])
next
  case (Cons l ls)
  obtain level line args where l: "l = (level, line, args)" by (cases l)
  show ?case
  proof (cases "level < lg_level g")
    case True
    then have "\<not> lg_level g \<le> level" by simp
    then show ?thesis using True Cons.IH [OF Cons.prems(1)] Cons.prems(2,3) l by (simp add: Logger_log_def log_tasks_def)
  next
    case False
    let ?t = "\<lparr>lt_level = level, lt_line = line, lt_args = args\<rparr>"
    obtain q where q: "MPMC_emplace LOG_QUEUE ?t (lg_queue g) = Some q" "mpmc_holds LOG_QUEUE q (ts @ [?t])" "mq_tail q = mq_tail (lg_queue g) + 1"
      using mpmc_emplace_holds [OF Cons.prems(1), of ?t] Cons.prems(2,3) by auto
    have "mpmc_holds LOG_QUEUE (lg_queue (g\<lparr>lg_queue := q\<rparr>)) (ts @ [?t])" using q(2) by simp
    from Cons.IH [OF this] show ?thesis using Cons.prems(2,3) q l False by (auto simp: Logger_log_def log_tasks_def)
  qed
qed

text \<open>A logging thread that is not stopped never ends.\<close>

lemma process_never_ends:
  assumes "processLogTasks cfg api render env k g = Some h" "\<And>k g. \<not> lg_stop g \<Longrightarrow> \<not> lg_stop (env k g)" "\<not> lg_stop g"
  shows False
proof -
  have stop: "lg_stop h = lg_stop g" if "process_task cfg api render g = Some h" for cfg and api :: "'a uring_api" and render g h
    using that by (auto simp: process_task_def split: option.splits mslot.splits prod.splits)
  have "(\<forall>k g. \<not> lg_stop g \<longrightarrow> \<not> lg_stop (env k g)) \<longrightarrow> lg_stop g"
    by (rule processLogTasks.raw_induct [OF _ assms(1)]) (auto split: if_splits bind_splits, metis, metis stop)
  then show False using assms(2,3) by blast
qed

section \<open>A ring for examples\<close>

text \<open>A ring of 512 entries whose kernel works only when it is waited for, and then on the newest entry first.\<close>

record demo_ring =
  dr_sq :: "sqe list"
  dr_fl :: "sqe list"
  dr_cq :: "cqe list"
  dr_file :: "nat \<rightharpoonup> byte"

definition demo_res :: "sqe \<Rightarrow> int" where
  "demo_res x = (case se_op x of Prep_write fd bs off \<Rightarrow> int (length bs) | Prep_fsync fd b \<Rightarrow> 0)"

definition demo_uring :: "demo_ring uring_api" where
  "demo_uring = \<lparr>io_uring_queue_init_params = (\<lambda>k poll r. (0, \<lparr>dr_sq = [], dr_fl = [], dr_cq = [], dr_file = dr_file r\<rparr>)),
     io_uring_feat_sqpoll_nonfixed = (\<lambda>r. True), io_uring_queue_exit = (\<lambda>r. r),
     io_uring_register_files = (\<lambda>fds r. (0, r)), io_uring_unregister_files = (\<lambda>r. (0, r)),
     io_uring_get_sqe = (\<lambda>r. (length (dr_sq r) < 512, r)), io_uring_prep = (\<lambda>x r. r\<lparr>dr_sq := dr_sq r @ [x]\<rparr>),
     io_uring_submit = (\<lambda>r. (int (length (dr_sq r)), r\<lparr>dr_fl := dr_fl r @ dr_sq r, dr_sq := []\<rparr>)),
     io_uring_sq_space_left = (\<lambda>r. (512 - length (dr_sq r), r)),
     io_uring_wait_cqe = (\<lambda>r. if dr_cq r \<noteq> [] then Some (Inr (hd (dr_cq r)), r) else if dr_fl r = [] then None
        else let x = last (dr_fl r); c = \<lparr>ce_data = se_data x, ce_res = demo_res x\<rparr>
             in Some (Inr c, r\<lparr>dr_fl := butlast (dr_fl r), dr_cq := [c], dr_file := kernel_effect x (demo_res x) (dr_file r)\<rparr>)),
     io_uring_peek_batch_cqe = (\<lambda>n r. (take n (dr_cq r), r)), io_uring_cqe_seen = (\<lambda>r. r\<lparr>dr_cq := tl (dr_cq r)\<rparr>)\<rparr>"

definition demo_view :: "demo_ring \<Rightarrow> ring_view" where
  "demo_view r = \<lparr>rv_sq = dr_sq r, rv_pub = [], rv_fl = mset (dr_fl r), rv_cq = dr_cq r, rv_file = dr_file r\<rparr>"

lemma kernel_takes_all: "kernel outcome v (v\<lparr>rv_pub := [], rv_fl := rv_fl v + mset (rv_pub v)\<rparr>)"
proof -
  have "kernel outcome v (v\<lparr>rv_pub := ys, rv_fl := rv_fl v + mset xs\<rparr>)" if "rv_pub v = xs @ ys" for xs ys
    using that
  proof (induction xs arbitrary: ys rule: rev_induct)
    case Nil
    then have "v\<lparr>rv_pub := ys, rv_fl := rv_fl v + mset []\<rparr> = v" by (cases v) simp
    then show ?case using k_refl [of outcome v] by simp
  next
    case (snoc x xs)
    from k_take [OF snoc.IH [of "x # ys"]] snoc.prems show ?case by simp
  qed
  from this [of "rv_pub v" "[]"] show ?thesis by simp
qed

lemma demo_wait:
  assumes "dr_cq r = []" "dr_fl r = xs @ [x]"
  shows "kernel full_write (demo_view r) (demo_view (r\<lparr>dr_fl := xs, dr_cq := [\<lparr>ce_data = se_data x, ce_res = demo_res x\<rparr>],
    dr_file := kernel_effect x (demo_res x) (dr_file r)\<rparr>))"
proof -
  have "full_write x (demo_res x)" by (simp add: full_write_def demo_res_def split: sqe_op.split)
  from k_complete [OF k_refl [of full_write "demo_view r"] _ this] show ?thesis using assms by (simp add: demo_view_def)
qed

lemma demo_ring_laws: "ring_laws demo_uring demo_view (\<lambda>_. 0) 512 full_write"
proof -
  have wait: "kernel full_write (demo_view r) (demo_view r') \<and> (\<exists>cs. rv_cq (demo_view r') = c # cs)"
    if w: "io_uring_wait_cqe demo_uring r = Some (Inr c, r')" for r c r'
  proof (cases "dr_cq r")
    case Nil
    then obtain xs x where "dr_fl r = xs @ [x]" 
      using w by (cases "dr_fl r" rule: rev_cases) (auto simp: demo_uring_def)
    then show ?thesis using w demo_wait [OF Nil] Nil by (auto simp: demo_uring_def demo_view_def Let_def)
  next
    case (Cons d ds)
    then show ?thesis using w k_refl by (auto simp: demo_uring_def demo_view_def)
  qed
  have submit: "kernel full_write ((demo_view r)\<lparr>rv_sq := [], rv_pub := rv_pub (demo_view r) @ rv_sq (demo_view r)\<rparr>)
      (demo_view (r\<lparr>dr_fl := dr_fl r @ dr_sq r, dr_sq := []\<rparr>))" for r
    using kernel_takes_all [of full_write "(demo_view r)\<lparr>rv_sq := [], rv_pub := rv_pub (demo_view r) @ rv_sq (demo_view r)\<rparr>"]
    by (simp add: demo_view_def)
  have prep: "kernel full_write ((demo_view r)\<lparr>rv_sq := rv_sq (demo_view r) @ [x]\<rparr>) (demo_view (r\<lparr>dr_sq := dr_sq r @ [x]\<rparr>))" for r x
    using k_refl [of full_write "demo_view (r\<lparr>dr_sq := dr_sq r @ [x]\<rparr>)"] by (simp add: demo_view_def)
  have seen: "kernel full_write ((demo_view r)\<lparr>rv_cq := tl (rv_cq (demo_view r))\<rparr>) (demo_view (r\<lparr>dr_cq := tl (dr_cq r)\<rparr>))" for r
    using k_refl [of full_write "demo_view (r\<lparr>dr_cq := tl (dr_cq r)\<rparr>)"] by (simp add: demo_view_def)
  have peek: "\<exists>ds. rv_cq (demo_view r) = take n (dr_cq r) @ ds" for n r
    by (rule exI [of _ "drop n (dr_cq r)"]) (simp add: demo_view_def)
  show ?thesis
    unfolding ring_laws_def
    by (intro conjI allI impI)
      (use wait submit prep seen peek k_refl in \<open>auto simp: demo_uring_def demo_view_def Let_def split: if_splits\<close>)
qed

section \<open>Properties\<close>




text \<open>Initializing a running logger a second time never returns: it waits for the logging thread, which only ends when the
  logger is being destroyed.\<close>

theorem logger_reinit_hangs:
  assumes "lg_thread g" "\<not> lg_stop g" "\<And>k g. \<not> lg_stop g \<Longrightarrow> \<not> lg_stop (env k g)"
  shows "Logger_init cfg api render env opener seek_end default_name level filename g = None"
proof -
  have "processLogTasks cfg api render env 0 g = None"
    using process_never_ends [of cfg api render env 0 g] assms(2,3) by (cases "processLogTasks cfg api render env 0 g") auto
  then show ?thesis using assms(1) by (simp add: Logger_init_def)
qed

theorem logger_reinit_hangs_witness:
  "\<forall>a. Logger_init \<lparr>uc_sq_poll = True, uc_fd_fixed = True, uc_depth = 512\<rparr> demo_uring (\<lambda>_. []) (\<lambda>_ g. g) (\<lambda>_ _. 3) (\<lambda>_. 0) ''d'' INFO ''log''
     ((Logger_new a)\<lparr>lg_thread := True\<rparr>) = None"
  by (intro allI logger_reinit_hangs) (simp_all add: Logger_new_def)

text \<open>Closing a ring, or destroying it, without a flush never returns when a write has been queued but not submitted: the wait for
  its completion does not submit it.\<close>

theorem close_without_flush_hangs:
  assumes "ring_laws api view lag (uc_depth cfg) outcome" "2 \<le> uc_depth cfg" "UringAIO_new cfg api r = Inr a"
    and "\<not> uc_fd_fixed cfg" "write_async cfg api bs off fd a = Some b"
  shows "ua_pending b = 1 \<and> UringAIO_close cfg api b = None"
proof -
  have idle: "u = v" if "kernel outcome v u" "rv_pub v = []" "rv_fl v = {#}" for v u
    using that by (induction rule: kernel.induct) auto
  let ?e = "\<lparr>rv_sq = [], rv_pub = [], rv_fl = {#}, rv_cq = [], rv_file = rv_file (view r)\<rparr>"
  have a: "view (ua_ring a) = ?e" "ua_pending a = 0" "\<not> ua_closed a" "ua_next a = 0"
    using assms(3) ring_lawsD(11) [OF assms(1)] by (auto simp: UringAIO_new_def split: prod.splits if_splits)
  obtain ok r1 where get: "io_uring_get_sqe api (ua_ring a) = (ok, r1)" by fastforce
  note g = ring_lawsD(1) [OF assms(1) get]
  have v1: "view r1 = ?e" using idle [OF conjunct1 [OF g]] a(1) by simp
  then have ok using g assms(2) by simp
  let ?x = "\<lparr>se_op = Prep_write fd bs off, se_fixed = False, se_data = Some 0\<rparr>"
  have v2: "view (io_uring_prep api ?x r1) = ?e\<lparr>rv_sq := [?x]\<rparr>" using idle [OF ring_lawsD(2) [OF assms(1), of r1 ?x]] v1 by simp
  have b: "ua_ring b = io_uring_prep api ?x r1" "ua_pending b = 1" "\<not> ua_closed b"
    using assms(2,4,5) a get \<open>ok\<close>
    by (auto simp: write_async_def COMPLETE_BATCH_def acquire_sqe_def queue_write_def SUBMIT_BATCH_def inc64_def Let_def split: if_splits)
  have "io_uring_wait_cqe api (ua_ring b) = None" using ring_lawsD(5) [OF assms(1)] v2 b(1) by simp
  then have "wait_all api b = None" using b(2) by (subst wait_all.simps) (simp add: wait_for_completion_def)
  then show ?thesis using b(2,3) by (simp add: UringAIO_close_def)
qed

theorem close_without_flush_hangs_witness:
  "\<exists>a b. UringAIO_new \<lparr>uc_sq_poll = False, uc_fd_fixed = False, uc_depth = 512\<rparr> demo_uring \<lparr>dr_sq = [], dr_fl = [], dr_cq = [], dr_file = Map.empty\<rparr> = Inr a
    \<and> write_async \<lparr>uc_sq_poll = False, uc_fd_fixed = False, uc_depth = 512\<rparr> demo_uring [1] 0 3 a = Some b
    \<and> UringAIO_close \<lparr>uc_sq_poll = False, uc_fd_fixed = False, uc_depth = 512\<rparr> demo_uring b = None"
proof -
  let ?cfg = "\<lparr>uc_sq_poll = False, uc_fd_fixed = False, uc_depth = 512\<rparr>"
  have laws: "ring_laws demo_uring demo_view (\<lambda>_. 0) (uc_depth ?cfg) full_write" using demo_ring_laws by simp
  obtain a where a: "UringAIO_new ?cfg demo_uring \<lparr>dr_sq = [], dr_fl = [], dr_cq = [], dr_file = Map.empty\<rparr> = Inr a"
    by (simp add: UringAIO_new_def demo_uring_def)
  then obtain b where b: "write_async ?cfg demo_uring [1] 0 3 a = Some b"
    by (auto simp: UringAIO_new_def write_async_def acquire_sqe_def COMPLETE_BATCH_def demo_uring_def)
  show ?thesis using close_without_flush_hangs [OF laws _ a _ b] a b by auto
qed

text \<open>A flush returns whatever the kernel reports for the writes: a completion that wrote only a part of its bytes is handled like a complete
  one, and a failed one only frees its request.\<close>

theorem flush_ignores_results:
  assumes "ring_laws api view lag (uc_depth cfg) outcome" "0 < uc_depth cfg" "aio_inv cfg view (fi_aio f)"
    and "ua_pending (fi_aio f) + 1 < 2 ^ 64"
  shows "\<exists>g. File_flush cfg api f = Some g \<and> fi_offset g = fi_offset f \<and> (fi_fd f \<noteq> - 1 \<longrightarrow> ua_pending (fi_aio g) = 0 \<and> ua_requests (fi_aio g) = Map.empty)
    \<and> (\<forall>p n m b. 0 \<le> n \<longrightarrow> 0 \<le> m \<longrightarrow> handle_cqe \<lparr>ce_data = Some p, ce_res = n\<rparr> b = handle_cqe \<lparr>ce_data = Some p, ce_res = m\<rparr> (b :: 'r uring_aio))"
proof -
  obtain b where b: "fsync_and_wait cfg api (fd_or_index cfg f) False (fi_aio f) = Some b" "aio_inv cfg view b" "ua_pending b = 0"
    using fsync_and_wait_returns [OF assms, of "fd_or_index cfg f" False] by blast
  have same: "handle_cqe \<lparr>ce_data = Some p, ce_res = n\<rparr> b = handle_cqe \<lparr>ce_data = Some p, ce_res = m\<rparr> (b :: 'r uring_aio)" if "0 \<le> n" "0 \<le> m" for p n m b
    using that by (simp add: handle_cqe_def split: option.split)
  have "\<exists>g. File_flush cfg api f = Some g \<and> fi_offset g = fi_offset f
      \<and> (fi_fd f \<noteq> - 1 \<longrightarrow> ua_pending (fi_aio g) = 0 \<and> ua_requests (fi_aio g) = Map.empty)"
    using b aio_idle(2) [OF b(2,3)] by (simp add: File_flush_def)
  then show ?thesis using same by blast
qed

theorem flush_ignores_results_witness:
  "\<exists>a g. UringAIO_new \<lparr>uc_sq_poll = False, uc_fd_fixed = False, uc_depth = 512\<rparr> demo_uring \<lparr>dr_sq = [], dr_fl = [], dr_cq = [], dr_file = Map.empty\<rparr> = Inr a
    \<and> File_flush \<lparr>uc_sq_poll = False, uc_fd_fixed = False, uc_depth = 512\<rparr> demo_uring ((File_new a)\<lparr>fi_fd := 3\<rparr>) = Some g \<and> ua_pending (fi_aio g) = 0"
proof -
  let ?cfg = "\<lparr>uc_sq_poll = False, uc_fd_fixed = False, uc_depth = 512\<rparr>"
  have laws: "ring_laws demo_uring demo_view (\<lambda>_. 0) (uc_depth ?cfg) full_write" using demo_ring_laws by simp
  obtain a where a: "UringAIO_new ?cfg demo_uring \<lparr>dr_sq = [], dr_fl = [], dr_cq = [], dr_file = Map.empty\<rparr> = Inr a"
    "aio_inv ?cfg demo_view a" "ua_pending a = 0"
    by (simp add: UringAIO_new_def demo_uring_def aio_inv_def demo_view_def tokens_def outstanding_def)
  let ?f = "(File_new a)\<lparr>fi_fd := 3\<rparr>"
  have f: "aio_inv ?cfg demo_view (fi_aio ?f)" "ua_pending (fi_aio ?f) + 1 < 2 ^ 64" using a by (simp_all add: File_new_def)
  show ?thesis using flush_ignores_results [OF laws _ f] a(1) by auto
qed

text \<open>When the submission of a write fails its request is deleted although the entry stays in the ring and is not counted: the
  completion that arrives for it later uses the deleted request.\<close>

theorem failed_submit_dangles:
  assumes "SUBMIT_BATCH cfg \<le> ua_pending a" "\<forall>r. fst (io_uring_submit api r) < 0"
  shows "ua_requests (queue_write cfg api bs off fd a) (ua_next a) = None
    \<and> ua_pending (queue_write cfg api bs off fd a) = ua_pending a
    \<and> ua_fault (snd (handle_cqe \<lparr>ce_data = Some (ua_next a), ce_res = n\<rparr> (queue_write cfg api bs off fd a)))"
  using assms by (simp add: queue_write_def handle_cqe_def Let_def split: prod.split) (metis fst_conv)

theorem failed_submit_dangles_witness:
  "\<exists>a. UringAIO_new \<lparr>uc_sq_poll = False, uc_fd_fixed = False, uc_depth = 1\<rparr> demo_uring \<lparr>dr_sq = [], dr_fl = [], dr_cq = [], dr_file = Map.empty\<rparr> = Inr a
    \<and> ua_fault (snd (handle_cqe \<lparr>ce_data = Some 0, ce_res = 1\<rparr>
        (queue_write \<lparr>uc_sq_poll = False, uc_fd_fixed = False, uc_depth = 1\<rparr> (demo_uring\<lparr>io_uring_submit := \<lambda>r. (- 11, r)\<rparr>) [1] 0 3 a)))"
proof -
  let ?cfg = "\<lparr>uc_sq_poll = False, uc_fd_fixed = False, uc_depth = 1\<rparr>" and ?api = "demo_uring\<lparr>io_uring_submit := \<lambda>r. (- 11, r)\<rparr>"
  obtain a where a: "UringAIO_new ?cfg demo_uring \<lparr>dr_sq = [], dr_fl = [], dr_cq = [], dr_file = Map.empty\<rparr> = Inr a" "ua_next a = 0"
    by (simp add: UringAIO_new_def demo_uring_def)
  have "SUBMIT_BATCH ?cfg \<le> ua_pending a" "\<forall>r. fst (io_uring_submit ?api r) < 0" by (simp_all add: SUBMIT_BATCH_def)
  from failed_submit_dangles [OF this, of "[1]" 0 3 1] a show ?thesis by auto
qed



end
