(* ===== verification/Coro_Generator.thy ===== *)
theory Coro_Generator
  imports Prelude
begin

text \<open>
  \<open>coro::generator\<close> (include/generator.h). The body of a generator coroutine is a function \<open>body\<close> from its local state to what happens
  when it is resumed: it yields a value and suspends in a new state, returns, or throws. Frames are objects in a store; a
  frame has the promise's value pointer and exception and, while the coroutine is not finished, the state to resume in.
  Resuming, asking or destroying a frame that does not exist, resuming a finished one and reading a value that was never
  set are faults.
\<close>

section \<open>Coroutines and promises\<close>

datatype ('s, 'a, 'e) gen_step = Co_yield 'a 's | Co_return | Co_throw 'e

record ('s, 'a, 'e) gen_frame =
  gf_state :: "'s option"
  gf_value :: "'a option"
  gf_exception :: "'e option"

record ('s, 'a, 'e) gen_world =
  gw_frames :: "nat \<rightharpoonup> ('s, 'a, 'e) gen_frame"
  gw_next :: nat
  gw_fault :: bool

definition gen_fault :: "('s, 'a, 'e) gen_world \<Rightarrow> ('s, 'a, 'e) gen_world" where
  "gen_fault w = w\<lparr>gw_fault := True\<rparr>"

text \<open>The promise operations: \<open>yield_value\<close>, \<open>return_void\<close> and \<open>unhandled_exception\<close> run when the body is resumed.\<close>

definition promise_step :: "('s, 'a, 'e) gen_step \<Rightarrow> ('s, 'a, 'e) gen_frame \<Rightarrow> ('s, 'a, 'e) gen_frame" where
  "promise_step r f = (case r of
       Co_yield x s \<Rightarrow> f\<lparr>gf_state := Some s, gf_value := Some x\<rparr>
     | Co_return \<Rightarrow> f\<lparr>gf_state := None\<rparr>
     | Co_throw e \<Rightarrow> f\<lparr>gf_state := None, gf_exception := Some e\<rparr>)"

definition resume :: "('s \<Rightarrow> ('s, 'a, 'e) gen_step) \<Rightarrow> nat \<Rightarrow> ('s, 'a, 'e) gen_world \<Rightarrow> ('s, 'a, 'e) gen_world" where
  "resume body h w = (case gw_frames w h of
       None \<Rightarrow> gen_fault w
     | Some f \<Rightarrow> (case gf_state f of
           None \<Rightarrow> gen_fault w
         | Some s \<Rightarrow> w\<lparr>gw_frames := (gw_frames w)(h \<mapsto> promise_step (body s) f)\<rparr>))"

definition co_done :: "nat \<Rightarrow> ('s, 'a, 'e) gen_world \<Rightarrow> bool" where
  "co_done h w = (case gw_frames w h of None \<Rightarrow> True | Some f \<Rightarrow> gf_state f = None)"

text \<open>\<open>rethrow_if_exception\<close>: the left value is the exception.\<close>

definition rethrow_if_exception :: "nat \<Rightarrow> ('s, 'a, 'e) gen_world \<Rightarrow> 'e + unit" where
  "rethrow_if_exception h w = (case gw_frames w h of
       None \<Rightarrow> Inr ()
     | Some f \<Rightarrow> (case gf_exception f of None \<Rightarrow> Inr () | Some e \<Rightarrow> Inl e))"

section \<open>Generators and iterators\<close>

text \<open>A generator or an iterator is its coroutine handle, \<open>None\<close> when it is null. Calling the coroutine function makes a
  frame that is suspended before its body.\<close>

definition get_return_object :: "'s \<Rightarrow> ('s, 'a, 'e) gen_world \<Rightarrow> nat option \<times> ('s, 'a, 'e) gen_world" where
  "get_return_object s w = (Some (gw_next w),
     w\<lparr>gw_frames := (gw_frames w)(gw_next w \<mapsto> \<lparr>gf_state = Some s, gf_value = None, gf_exception = None\<rparr>), gw_next := gw_next w + 1\<rparr>)"

definition generator_move :: "nat option \<Rightarrow> nat option \<times> nat option" where
  "generator_move other = (other, None)"

text \<open>Move assignment: the frame the target had is forgotten.\<close>

definition generator_move_assign :: "nat option \<Rightarrow> nat option \<Rightarrow> nat option \<times> nat option" where
  "generator_move_assign this other = (other, None)"

definition generator_delete :: "nat option \<Rightarrow> ('s, 'a, 'e) gen_world \<Rightarrow> ('s, 'a, 'e) gen_world" where
  "generator_delete g w = (case g of
       None \<Rightarrow> w
     | Some h \<Rightarrow> if gw_frames w h = None then gen_fault w else w\<lparr>gw_frames := (gw_frames w)(h := None)\<rparr>)"

text \<open>\<open>resume()\<close> and the check after it, as in \<open>begin\<close> and \<open>operator++\<close>.\<close>

definition advance :: "('s \<Rightarrow> ('s, 'a, 'e) gen_step) \<Rightarrow> nat \<Rightarrow> ('s, 'a, 'e) gen_world \<Rightarrow> ('e + unit) \<times> ('s, 'a, 'e) gen_world" where
  "advance body h w =
     (let w = resume body h w in (if co_done h w then rethrow_if_exception h w else Inr (), w))"

definition generator_begin ::
    "('s \<Rightarrow> ('s, 'a, 'e) gen_step) \<Rightarrow> nat option \<Rightarrow> ('s, 'a, 'e) gen_world \<Rightarrow> ('e + nat option) \<times> ('s, 'a, 'e) gen_world" where
  "generator_begin body g w = (case g of
       None \<Rightarrow> (Inr None, w)
     | Some h \<Rightarrow> (let (r, w) = advance body h w in (ebind r (\<lambda>_. Inr (Some h)), w)))"

definition iterator_at_end :: "nat option \<Rightarrow> ('s, 'a, 'e) gen_world \<Rightarrow> bool" where
  "iterator_at_end it w \<longleftrightarrow> (case it of None \<Rightarrow> True | Some h \<Rightarrow> co_done h w)"

definition iterator_next ::
    "('s \<Rightarrow> ('s, 'a, 'e) gen_step) \<Rightarrow> nat option \<Rightarrow> ('s, 'a, 'e) gen_world \<Rightarrow> ('e + nat option) \<times> ('s, 'a, 'e) gen_world" where
  "iterator_next body it w = (case it of
       None \<Rightarrow> (Inr None, gen_fault w)
     | Some h \<Rightarrow> (let (r, w) = advance body h w in (ebind r (\<lambda>_. Inr (Some h)), w)))"

text \<open>\<open>operator*\<close>; \<open>None\<close> dereferences a null pointer.\<close>

definition iterator_value :: "nat option \<Rightarrow> ('s, 'a, 'e) gen_world \<Rightarrow> 'a option" where
  "iterator_value it w = Option.bind it (\<lambda>h. Option.bind (gw_frames w h) gf_value)"

section \<open>Range-based loops\<close>

text \<open>\<open>for (auto x : g)\<close>: the values the loop body sees, how the loop ends and the world then. Not ending is \<open>None\<close>.\<close>

partial_function (option) range_loop ::
    "('s \<Rightarrow> ('s, 'a, 'e) gen_step) \<Rightarrow> nat option \<Rightarrow> ('s, 'a, 'e) gen_world \<Rightarrow> 'a list \<Rightarrow> ('a list \<times> ('e + unit) \<times> ('s, 'a, 'e) gen_world) option" where
  "range_loop body it w seen =
     (if iterator_at_end it w then Some (seen, Inr (), w)
      else (case iterator_value it w of
              None \<Rightarrow> Some (seen, Inr (), gen_fault w)
            | Some x \<Rightarrow> (case iterator_next body it w of
                 (Inl e, w') \<Rightarrow> Some (seen @ [x], Inl e, w')
               | (Inr it', w') \<Rightarrow> range_loop body it' w' (seen @ [x]))))"

definition range_for ::
    "('s \<Rightarrow> ('s, 'a, 'e) gen_step) \<Rightarrow> nat option \<Rightarrow> ('s, 'a, 'e) gen_world \<Rightarrow> ('a list \<times> ('e + unit) \<times> ('s, 'a, 'e) gen_world) option" where
  "range_for body g w = (case generator_begin body g w of
       (Inl e, w) \<Rightarrow> Some ([], Inl e, w)
     | (Inr it, w) \<Rightarrow> range_loop body it w [])"

section \<open>What a body produces\<close>

text \<open>The values a body yields from a state on, and how it ends.\<close>

inductive produces :: "('s \<Rightarrow> ('s, 'a, 'e) gen_step) \<Rightarrow> 's \<Rightarrow> 'a list \<Rightarrow> 'e + unit \<Rightarrow> bool" for body where
  prod_return: "body s = Co_return \<Longrightarrow> produces body s [] (Inr ())"
| prod_throw: "body s = Co_throw e \<Longrightarrow> produces body s [] (Inl e)"
| prod_yield: "body s = Co_yield x s' \<Longrightarrow> produces body s' xs r \<Longrightarrow> produces body s (x # xs) r"

inductive_cases produces_cases: "produces body s xs r"

section \<open>Lemmas\<close>

text \<open>Resuming a suspended frame that is about to produce \<open>xs\<close>.\<close>

lemma advance_yield:
  assumes "gw_frames w h = Some f" "gf_state f = Some s" "body s = Co_yield x s'"
  shows "advance body h w = (Inr (), w\<lparr>gw_frames := (gw_frames w)(h \<mapsto> f\<lparr>gf_state := Some s', gf_value := Some x\<rparr>)\<rparr>)"
  using assms by (simp add: advance_def resume_def promise_step_def co_done_def)

lemma advance_end:
  assumes "gw_frames w h = Some f" "gf_state f = Some s" "gf_exception f = None" "produces body s [] r"
  shows "\<exists>f'. advance body h w = (r, w\<lparr>gw_frames := (gw_frames w)(h \<mapsto> f')\<rparr>) \<and> gf_state f' = None"
  using assms(4) by (rule produces_cases)
    (use assms(1-3) in \<open>auto simp: advance_def resume_def promise_step_def co_done_def rethrow_if_exception_def\<close>)

lemma range_loop_produces:
  "produces body s xs r \<Longrightarrow> gw_frames w h = Some \<lparr>gf_state = Some s, gf_value = Some x, gf_exception = None\<rparr> \<Longrightarrow>
   \<exists>f'. range_loop body (Some h) w seen = Some (seen @ x # xs, r, w\<lparr>gw_frames := (gw_frames w)(h \<mapsto> f')\<rparr>) \<and> gf_state f' = None"
proof (induction arbitrary: w x seen rule: produces.induct)
  case (prod_return s)
  obtain f' where f': "advance body h w = (Inr (), w\<lparr>gw_frames := (gw_frames w)(h \<mapsto> f')\<rparr>)" "gf_state f' = None"
    using advance_end [OF prod_return.prems _ _ produces.prod_return [of body s]] prod_return.hyps by auto
  then show ?case using prod_return.prems
    by (subst range_loop.simps, subst range_loop.simps)
      (auto simp: iterator_at_end_def co_done_def iterator_value_def iterator_next_def intro!: exI [of _ f'])
next
  case (prod_throw s e)
  obtain f' where f': "advance body h w = (Inl e, w\<lparr>gw_frames := (gw_frames w)(h \<mapsto> f')\<rparr>)" "gf_state f' = None"
    using advance_end [OF prod_throw.prems _ _ produces.prod_throw [of body s e]] prod_throw.hyps by auto
  then show ?case using prod_throw.prems
    by (subst range_loop.simps)
      (auto simp: iterator_at_end_def co_done_def iterator_value_def iterator_next_def intro!: exI [of _ f'])
next
  case (prod_yield s y s' xs r)
  let ?w = "w\<lparr>gw_frames := (gw_frames w)(h \<mapsto> \<lparr>gf_state = Some s', gf_value = Some y, gf_exception = None\<rparr>)\<rparr>"
  have "range_loop body (Some h) w seen = range_loop body (Some h) ?w (seen @ [x])"
    using advance_yield [of w h _ s body y s'] prod_yield.prems prod_yield.hyps(1)
    by (subst range_loop.simps) (simp add: iterator_at_end_def co_done_def iterator_value_def iterator_next_def)
  moreover obtain f' where f': "range_loop body (Some h) ?w (seen @ [x]) = Some ((seen @ [x]) @ y # xs, r, ?w\<lparr>gw_frames := (gw_frames ?w)(h \<mapsto> f')\<rparr>)"
      "gf_state f' = None"
  proof -
    have "gw_frames ?w h = Some \<lparr>gf_state = Some s', gf_value = Some y, gf_exception = None\<rparr>" by simp
    from prod_yield.IH [OF this, of "seen @ [x]"] show ?thesis using that by blast
  qed
  moreover have "?w\<lparr>gw_frames := (gw_frames ?w)(h \<mapsto> f')\<rparr> = w\<lparr>gw_frames := (gw_frames w)(h \<mapsto> f')\<rparr>" by simp
  ultimately have "range_loop body (Some h) w seen = Some (seen @ x # y # xs, r, w\<lparr>gw_frames := (gw_frames w)(h \<mapsto> f')\<rparr>)"
    by (simp only: append_assoc append_Cons append_Nil)
  then show ?case using f'(2) by blast
qed

section \<open>Properties\<close>

text \<open>C39: a range-based loop over a new generator sees exactly the values the body yields, in their order, and ends as the body ends: normally, or
  with the exception the body throws, after the values before it; nothing is touched but the generator's frame, and the
  destructor frees it.\<close>

theorem generator_enumerates:
  assumes "produces body s xs r" "get_return_object s w = (g, w1)"
  shows "\<exists>w2. range_for body g w1 = Some (xs, r, w2) \<and> gw_fault w2 = gw_fault w
    \<and> generator_delete g w2 = w\<lparr>gw_frames := (gw_frames w)(gw_next w := None), gw_next := gw_next w + 1\<rparr>"
proof -
  let ?h = "gw_next w" and ?f = "\<lparr>gf_state = Some s, gf_value = None, gf_exception = None\<rparr>"
  have w1: "g = Some ?h" "w1 = w\<lparr>gw_frames := (gw_frames w)(?h \<mapsto> ?f), gw_next := ?h + 1\<rparr>"
    using assms(2) by (auto simp: get_return_object_def)
  have "\<exists>f'. range_for body g w1 = Some (xs, r, w1\<lparr>gw_frames := (gw_frames w1)(?h \<mapsto> f')\<rparr>) \<and> gf_state f' = None"
  proof (cases xs)
    case Nil
    then have fin: "produces body s [] r" using assms(1) by simp
    obtain f' where f': "advance body ?h w1 = (r, w1\<lparr>gw_frames := (gw_frames w1)(?h \<mapsto> f')\<rparr>)" "gf_state f' = None"
      using advance_end [OF _ _ _ fin, of w1 ?h ?f] w1 by auto
    then show ?thesis using w1(1) Nil
      by (cases r) (auto simp: range_for_def generator_begin_def range_loop.simps iterator_at_end_def co_done_def)
  next
    case (Cons x ys)
    then obtain s' where y: "body s = Co_yield x s'" "produces body s' ys r" using assms(1) by (auto elim: produces_cases)
    let ?w = "w1\<lparr>gw_frames := (gw_frames w1)(?h \<mapsto> \<lparr>gf_state = Some s', gf_value = Some x, gf_exception = None\<rparr>)\<rparr>"
    have "range_for body g w1 = range_loop body (Some ?h) ?w []"
      using advance_yield [of w1 ?h ?f s body x s'] w1 y(1) by (simp add: range_for_def generator_begin_def)
    moreover have "gw_frames ?w ?h = Some \<lparr>gf_state = Some s', gf_value = Some x, gf_exception = None\<rparr>" by simp
    from range_loop_produces [OF y(2) this, of "[]"] obtain f' where
      "range_loop body (Some ?h) ?w [] = Some (x # ys, r, ?w\<lparr>gw_frames := (gw_frames ?w)(?h \<mapsto> f')\<rparr>)" "gf_state f' = None" by auto
    moreover have "?w\<lparr>gw_frames := (gw_frames ?w)(?h \<mapsto> f')\<rparr> = w1\<lparr>gw_frames := (gw_frames w1)(?h \<mapsto> f')\<rparr>" by simp
    ultimately show ?thesis using Cons by metis
  qed
  then obtain f' where "range_for body g w1 = Some (xs, r, w1\<lparr>gw_frames := (gw_frames w1)(?h \<mapsto> f')\<rparr>)" by blast
  then show ?thesis using w1 by (auto simp: generator_delete_def)
qed

text \<open>Counting down, with an exception at the end.\<close>

definition countdown :: "nat \<Rightarrow> (nat, nat, string) gen_step" where
  "countdown n = (if n = 0 then Co_throw ''empty'' else Co_yield n (n - 1))"

theorem generator_enumerates_witness:
  "\<exists>g w1 w2. get_return_object 2 \<lparr>gw_frames = Map.empty, gw_next = 0, gw_fault = False\<rparr> = (g, w1)
    \<and> range_for countdown g w1 = Some ([2, 1], Inl ''empty'', w2) \<and> gw_frames (generator_delete g w2) = Map.empty"
proof -
  let ?w = "\<lparr>gw_frames = Map.empty, gw_next = 0, gw_fault = False\<rparr> :: (nat, nat, string) gen_world"
  have p: "produces countdown 2 [2, 1] (Inl ''empty'')"
    by (intro prod_yield [where s' = 1] prod_yield [where s' = 0] prod_throw) (simp_all add: countdown_def)
  obtain g w1 where g: "get_return_object 2 ?w = (g, w1)" by fastforce
  show ?thesis using generator_enumerates [OF p g] g by auto
qed

text \<open>Move assignment does not destroy the coroutine its target had: the frame stays allocated and no generator refers to it any
  more, while the moved-from generator is null and safe to destroy.\<close>

theorem generator_move_assign_leaks:
  assumes "gw_frames w h = Some f" "gw_frames w k = Some f'" "h \<noteq> k"
  shows "\<exists>g o1. generator_move_assign (Some h) (Some k) = (g, o1) \<and> o1 = None
    \<and> gw_frames (generator_delete g (generator_delete o1 w)) = (gw_frames w)(k := None)
    \<and> gw_frames (generator_delete g (generator_delete o1 w)) h = Some f \<and> gw_fault (generator_delete g (generator_delete o1 w)) = gw_fault w"
  using assms by (simp add: generator_move_assign_def generator_delete_def)

theorem generator_move_assign_leaks_witness:
  "\<exists>f. gw_frames (generator_delete (fst (generator_move_assign (Some 0) (Some 1)))
     (generator_delete (snd (generator_move_assign (Some 0) (Some 1)))
       \<lparr>gw_frames = [0 \<mapsto> f, 1 \<mapsto> f], gw_next = 2, gw_fault = False\<rparr>)) 0 = Some (f :: (nat, nat, string) gen_frame)"
proof -
  let ?f = "\<lparr>gf_state = None, gf_value = None, gf_exception = None\<rparr> :: (nat, nat, string) gen_frame"
  have "gw_frames \<lparr>gw_frames = [0 \<mapsto> ?f, 1 \<mapsto> ?f], gw_next = 2, gw_fault = False\<rparr> 0 = Some ?f"
    "gw_frames \<lparr>gw_frames = [0 \<mapsto> ?f, 1 \<mapsto> ?f], gw_next = 2, gw_fault = False\<rparr> 1 = Some ?f" by simp_all
  from generator_move_assign_leaks [OF this] show ?thesis by (intro exI [of _ ?f]) auto
qed

end
