(* ===== verification/Llbc_Stack.thy ===== *)
theory Llbc_Stack
  imports Llbc_Protocol
begin

text \<open>
  The protocol stack of a session (3rd/llbc/llbc/src/comm/protocol): \<open>LLBC_ProtocolStack\<close>, the protocols of its layers
  (\<open>LLBC_PacketProtocol\<close> of \<open>Llbc_Protocol\<close>, \<open>LLBC_RawProtocol\<close>, \<open>LLBC_CompressProtocol\<close>, \<open>LLBC_CodecProtocol\<close>), the two
  protocol factories, and the functions of \<open>LLBC_ServiceImpl\<close> that build a stack. Coders are code of the application: they
  are values of a type \<open>'c\<close> and \<open>coder_api\<close> has their virtual functions. What passes between layers is \<open>ldata\<close>, the
  \<open>void *\<close> of the source. Reports that a protocol pushes to the service are collected in the stack. Using a null pointer or
  an uninitialized byte is \<open>None\<close>.
\<close>

section \<open>Packets with coders\<close>

record 'c coder_api =
  coder_Encode :: "'c \<Rightarrow> packet \<Rightarrow> bool \<times> packet"
  coder_Decode :: "'c \<Rightarrow> packet \<Rightarrow> bool \<times> 'c \<times> packet"

record 'c cpacket =
  cp_packet :: packet
  cp_encoder :: "'c option"
  cp_decoder :: "'c option"

definition plain :: "packet \<Rightarrow> 'c cpacket" where
  "plain p = \<lparr>cp_packet = p, cp_encoder = None, cp_decoder = None\<rparr>"

definition Packet_Encode :: "'c coder_api \<Rightarrow> 'c cpacket \<Rightarrow> bool \<times> 'c cpacket" where
  "Packet_Encode api p = (case cp_encoder p of
       None \<Rightarrow> (True, p)
     | Some c \<Rightarrow>
         (let k = cp_packet p;
              k = (if pk_payload k = None \<and> pk_pooled k then k\<lparr>pk_payload := Some (MB_new LLBC_CFG_THREAD_MSG_BLOCK_DFT_SIZE)\<rparr> else k);
              (ok, k) = coder_Encode api c k
          in if ok then (True, p\<lparr>cp_packet := k, cp_encoder := None\<rparr>) else (False, p\<lparr>cp_packet := k\<rparr>)))"

definition Packet_GiveUpPayload :: "'c coder_api \<Rightarrow> 'c cpacket \<Rightarrow> mblock option \<times> 'c cpacket" where
  "Packet_GiveUpPayload api p =
     (let (_, p) = Packet_Encode api p in (pk_payload (cp_packet p), p\<lparr>cp_packet := (cp_packet p)\<lparr>pk_payload := None\<rparr>\<rparr>))"

section \<open>Stack and protocols\<close>

datatype layer = PackLayer | CompressLayer | CodecLayer

datatype report_level = Debug_level | Info_level | Warn_level | Error_level

datatype 'c protocol = Proto_packet proto | Proto_raw | Proto_compress | Proto_codec "(cint \<rightharpoonup> 'c) option"

datatype stack_type = PackStack | CodecStack | FullStack

record 'c stack =
  ps_type :: stack_type
  ps_protos :: "layer \<rightharpoonup> 'c protocol"
  ps_cfg :: proto_cfg
  ps_suppressed :: bool
  ps_reports :: "(cint \<times> cint \<times> layer \<times> report_level) list"

datatype 'c ldata = L_packet "'c cpacket" | L_block mblock | L_packets "'c cpacket list" | L_null

definition GetLayer :: "'c protocol \<Rightarrow> layer" where
  "GetLayer pr = (case pr of Proto_packet _ \<Rightarrow> PackLayer | Proto_raw \<Rightarrow> PackLayer | Proto_compress \<Rightarrow> CompressLayer | Proto_codec _ \<Rightarrow> CodecLayer)"

definition stack_Report :: "cint \<Rightarrow> cint \<Rightarrow> layer \<Rightarrow> report_level \<Rightarrow> 'c stack \<Rightarrow> 'c stack" where
  "stack_Report sid opcode l level st =
     (let sid = (if sid = 0 then cfg_session (ps_cfg st) else sid) in st\<lparr>ps_reports := ps_reports st @ [(sid, opcode, l, level)]\<rparr>)"

text \<open>The readable bytes of a block.\<close>

definition mb_bytes :: "mblock \<Rightarrow> byte list option" where
  "mb_bytes b = those (take (MB_GetReadableSize b) (MB_GetDataStartWithReadPos b))"

text \<open>The result of \<open>Send\<close> and \<open>Recv\<close> of a protocol: the return code, \<open>out\<close>, \<open>removeSession\<close> and the stack.\<close>

type_synonym 'c layer_result = "(int \<times> 'c ldata \<times> bool \<times> 'c stack) option"

definition CodecProtocol_Send :: "'c coder_api \<Rightarrow> 'c cpacket \<Rightarrow> bool \<Rightarrow> 'c stack \<Rightarrow> 'c layer_result" where
  "CodecProtocol_Send api p rm st =
     (let (ok, p) = Packet_Encode api p
      in if ok then Some (LLBC_OK, L_packet p, rm, st)
         else Some (LLBC_FAILED, L_null, False,
                stack_Report (pk_sessionId (cp_packet p)) (pk_opcode (cp_packet p)) CodecLayer Warn_level st))"

definition CodecProtocol_Recv :: "'c coder_api \<Rightarrow> (cint \<rightharpoonup> 'c) option \<Rightarrow> 'c cpacket \<Rightarrow> bool \<Rightarrow> 'c stack \<Rightarrow> 'c layer_result" where
  "CodecProtocol_Recv api coders p rm st = (case coders of
       None \<Rightarrow> None
     | Some coders \<Rightarrow>
         (case coders (pk_opcode (cp_packet p)) of
            Some c \<Rightarrow>
              (let (ok, c, k) = coder_Decode api c (cp_packet p); p = p\<lparr>cp_packet := k\<rparr>
               in if ok then Some (LLBC_OK, L_packet (p\<lparr>cp_decoder := Some c\<rparr>), rm, st)
                  else Some (LLBC_FAILED, L_null, True, stack_Report (pk_sessionId k) (pk_opcode k) CodecLayer Error_level st))
          | None \<Rightarrow>
              if ps_suppressed st then Some (LLBC_OK, L_packet p, rm, st)
              else Some (LLBC_FAILED, L_null, False,
                     stack_Report (pk_sessionId (cp_packet p)) (pk_opcode (cp_packet p)) CodecLayer Warn_level st)))"

definition RawProtocol_Recv :: "mblock \<Rightarrow> bool \<Rightarrow> 'c stack \<Rightarrow> 'c layer_result" where
  "RawProtocol_Recv b rm st =
     Some (LLBC_OK, L_packets [plain (Packet_from_pool\<lparr>pk_length := MB_GetReadableSize b, pk_sessionId := cfg_session (ps_cfg st), pk_payload := Some b\<rparr>)], rm, st)"

definition packet_Recv :: "proto \<Rightarrow> mblock \<Rightarrow> bool \<Rightarrow> 'c stack \<Rightarrow> 'c layer_result" where
  "packet_Recv pp b rm st = (case mb_bytes b of
       None \<Rightarrow> None
     | Some bs \<Rightarrow>
         (let (ret, remove, ps, pp) = PacketProtocol_Recv (ps_cfg st) bs pp; st = st\<lparr>ps_protos := (ps_protos st)(PackLayer \<mapsto> Proto_packet pp)\<rparr>
          in if ret = LLBC_OK then Some (LLBC_OK, if ps = [] then L_null else L_packets (map plain ps), rm, st)
             else Some (LLBC_FAILED, L_null, remove, stack_Report 0 0 PackLayer Error_level st)))"

definition protocol_Send :: "'c coder_api \<Rightarrow> 'c protocol \<Rightarrow> 'c ldata \<Rightarrow> bool \<Rightarrow> 'c stack \<Rightarrow> 'c layer_result" where
  "protocol_Send api pr d rm st = (case (pr, d) of
       (Proto_compress, _) \<Rightarrow> Some (LLBC_OK, d, rm, st)
     | (Proto_codec _, L_packet p) \<Rightarrow> CodecProtocol_Send api p rm st
     | (Proto_packet _, L_packet p) \<Rightarrow> map_option (\<lambda>b. (LLBC_OK, L_block b, rm, st)) (PacketProtocol_Send (cp_packet p))
     | (Proto_raw, L_packet p) \<Rightarrow>
         Some (LLBC_OK, case fst (Packet_GiveUpPayload api p) of None \<Rightarrow> L_null | Some b \<Rightarrow> L_block b, rm, st)
     | _ \<Rightarrow> None)"

definition protocol_Recv :: "'c coder_api \<Rightarrow> 'c protocol \<Rightarrow> 'c ldata \<Rightarrow> bool \<Rightarrow> 'c stack \<Rightarrow> 'c layer_result" where
  "protocol_Recv api pr d rm st = (case (pr, d) of
       (Proto_compress, _) \<Rightarrow> Some (LLBC_OK, d, rm, st)
     | (Proto_codec coders, L_packet p) \<Rightarrow> CodecProtocol_Recv api coders p rm st
     | (Proto_packet pp, L_block b) \<Rightarrow> packet_Recv pp b rm st
     | (Proto_raw, L_block b) \<Rightarrow> RawProtocol_Recv b rm st
     | _ \<Rightarrow> None)"

section \<open>The stack\<close>

definition ProtocolStack_new :: "stack_type \<Rightarrow> 'c stack" where
  "ProtocolStack_new ty =
     \<lparr>ps_type = ty, ps_protos = Map.empty, ps_cfg = \<lparr>cfg_max = 0, cfg_session = 0, cfg_accept = 0\<rparr>, ps_suppressed = False, ps_reports = []\<rparr>"

definition AddProtocol :: "'c protocol \<Rightarrow> 'c stack \<Rightarrow> int \<times> 'c stack" where
  "AddProtocol pr st =
     (if ps_type st = PackStack \<and> GetLayer pr = CodecLayer \<or> ps_type st = CodecStack \<and> GetLayer pr \<in> {PackLayer, CompressLayer}
      then (LLBC_FAILED, st)
      else (LLBC_OK, st\<lparr>ps_protos := (ps_protos st)(GetLayer pr \<mapsto> pr)\<rparr>))"

definition SetCoders :: "(cint \<rightharpoonup> 'c) \<Rightarrow> 'c stack \<Rightarrow> int \<times> 'c stack" where
  "SetCoders coders st = (case ps_protos st CodecLayer of
       None \<Rightarrow> (LLBC_FAILED, st)
     | Some pr \<Rightarrow>
         if GetLayer pr \<noteq> CodecLayer then (LLBC_FAILED, st)
         else (LLBC_OK, st\<lparr>ps_protos := (ps_protos st)(CodecLayer \<mapsto> Proto_codec (Some coders))\<rparr>))"

text \<open>The loops over the layers; an empty entry is skipped.\<close>

fun send_layers :: "'c coder_api \<Rightarrow> layer list \<Rightarrow> 'c ldata \<Rightarrow> bool \<Rightarrow> 'c stack \<Rightarrow> 'c layer_result" where
  "send_layers api [] d rm st = Some (LLBC_OK, d, rm, st)"
| "send_layers api (l # ls) d rm st = (case ps_protos st l of
       None \<Rightarrow> send_layers api ls d rm st
     | Some pr \<Rightarrow> Option.bind (protocol_Send api pr d rm st)
         (\<lambda>(ret, d, rm, st). if ret \<noteq> LLBC_OK then Some (LLBC_FAILED, d, rm, st) else send_layers api ls d rm st))"

fun recv_layers :: "'c coder_api \<Rightarrow> layer list \<Rightarrow> 'c ldata \<Rightarrow> bool \<Rightarrow> 'c stack \<Rightarrow> 'c layer_result" where
  "recv_layers api [] d rm st = Some (LLBC_OK, d, rm, st)"
| "recv_layers api (l # ls) d rm st = (case ps_protos st l of
       None \<Rightarrow> recv_layers api ls d rm st
     | Some pr \<Rightarrow> Option.bind (protocol_Recv api pr d rm st)
         (\<lambda>(ret, d, rm, st). if ret \<noteq> LLBC_OK then Some (LLBC_FAILED, d, rm, st) else recv_layers api ls d rm st))"

definition SendCodec :: "'c coder_api \<Rightarrow> 'c cpacket \<Rightarrow> bool \<Rightarrow> 'c stack \<Rightarrow> 'c layer_result" where
  "SendCodec api p = send_layers api [CodecLayer] (L_packet p)"

definition SendRaw :: "'c coder_api \<Rightarrow> 'c ldata \<Rightarrow> bool \<Rightarrow> 'c stack \<Rightarrow> 'c layer_result" where
  "SendRaw api = send_layers api [CompressLayer, PackLayer]"

definition stack_Send :: "'c coder_api \<Rightarrow> 'c cpacket \<Rightarrow> bool \<Rightarrow> 'c stack \<Rightarrow> 'c layer_result" where
  "stack_Send api p rm st = Option.bind (SendCodec api p rm st)
     (\<lambda>(ret, d, rm, st). if ret \<noteq> LLBC_OK then Some (LLBC_FAILED, L_null, rm, st) else SendRaw api d rm st)"

text \<open>Receiving gives a list of packets; when a packet fails, the packets before and after it are recycled.\<close>

type_synonym 'c recv_result = "(int \<times> 'c cpacket list \<times> bool \<times> 'c stack) option"

fun recv_each :: "('c cpacket \<Rightarrow> bool \<Rightarrow> 'c stack \<Rightarrow> 'c layer_result) \<Rightarrow> 'c cpacket list \<Rightarrow> 'c cpacket list \<Rightarrow> bool \<Rightarrow> 'c stack \<Rightarrow> 'c recv_result" where
  "recv_each step [] out rm st = Some (LLBC_OK, out, rm, st)"
| "recv_each step (p # ps) out rm st = Option.bind (step p rm st)
     (\<lambda>(ret, d, rm, st).
        if ret \<noteq> LLBC_OK then Some (LLBC_FAILED, [], rm, st)
        else case d of L_packet q \<Rightarrow> recv_each step ps (out @ [q]) rm st | _ \<Rightarrow> None)"

definition RecvRaw :: "'c coder_api \<Rightarrow> mblock \<Rightarrow> bool \<Rightarrow> 'c stack \<Rightarrow> 'c recv_result" where
  "RecvRaw api b rm st = (case ps_protos st PackLayer of
       None \<Rightarrow> None
     | Some pr \<Rightarrow> Option.bind (protocol_Recv api pr (L_block b) rm st)
         (\<lambda>(ret, d, rm, st).
            if ret \<noteq> LLBC_OK then Some (LLBC_FAILED, [], rm, st)
            else case d of
                   L_null \<Rightarrow> Some (LLBC_OK, [], rm, st)
                 | L_packets ps \<Rightarrow> recv_each (\<lambda>p. recv_layers api [CompressLayer] (L_packet p)) ps [] rm st
                 | _ \<Rightarrow> None))"

definition RecvCodec :: "'c coder_api \<Rightarrow> 'c cpacket \<Rightarrow> bool \<Rightarrow> 'c stack \<Rightarrow> 'c layer_result" where
  "RecvCodec api p = recv_layers api [CodecLayer] (L_packet p)"

definition stack_Recv :: "'c coder_api \<Rightarrow> mblock \<Rightarrow> bool \<Rightarrow> 'c stack \<Rightarrow> 'c recv_result" where
  "stack_Recv api b rm st = Option.bind (RecvRaw api b rm st)
     (\<lambda>(ret, ps, rm, st). if ret \<noteq> LLBC_OK then Some (LLBC_FAILED, [], rm, st) else recv_each (RecvCodec api) ps [] rm st)"

text \<open>Control commands: \<open>IProtocol::Ctrl\<close> answers true in every protocol of the library, but here an empty layer is not skipped.\<close>

fun ctrl_layers :: "layer list \<Rightarrow> 'c stack \<Rightarrow> bool option" where
  "ctrl_layers [] st = Some True"
| "ctrl_layers (l # ls) st = (case ps_protos st l of None \<Rightarrow> None | Some _ \<Rightarrow> ctrl_layers ls st)"

definition CtrlStackCodec :: "'c stack \<Rightarrow> bool option" where
  "CtrlStackCodec = ctrl_layers [CodecLayer]"

definition CtrlStackRaw :: "'c stack \<Rightarrow> bool option" where
  "CtrlStackRaw = ctrl_layers [PackLayer, CompressLayer]"

definition CtrlStack :: "'c stack \<Rightarrow> unit option" where
  "CtrlStack st = Option.bind (CtrlStackCodec st) (\<lambda>go. if \<not> go then Some () else map_option (\<lambda>_. ()) (CtrlStackRaw st))"

section \<open>Factories and construction\<close>

datatype factory = NormalProtocolFactory | RawProtocolFactory

definition factory_Create :: "factory \<Rightarrow> layer \<Rightarrow> 'c protocol option" where
  "factory_Create f l = (case (f, l) of
       (NormalProtocolFactory, CodecLayer) \<Rightarrow> Some (Proto_codec None)
     | (NormalProtocolFactory, CompressLayer) \<Rightarrow> Some Proto_compress
     | (NormalProtocolFactory, PackLayer) \<Rightarrow> Some (Proto_packet PacketProtocol_new)
     | (RawProtocolFactory, PackLayer) \<Rightarrow> Some Proto_raw
     | (RawProtocolFactory, _) \<Rightarrow> None)"

definition CreatePackStack :: "factory \<Rightarrow> 'c stack option \<Rightarrow> 'c stack option" where
  "CreatePackStack f st0 =
     (let st = (case st0 of None \<Rightarrow> ProtocolStack_new PackStack | Some st \<Rightarrow> st)
      in case factory_Create f PackLayer of
           None \<Rightarrow> None
         | Some pack \<Rightarrow>
             (let st = snd (AddProtocol pack st)
              in Some (case factory_Create f CompressLayer of None \<Rightarrow> st | Some compress \<Rightarrow> snd (AddProtocol compress st))))"

definition CreateCodecStack :: "factory \<Rightarrow> (cint \<rightharpoonup> 'c) \<Rightarrow> bool \<Rightarrow> 'c stack option \<Rightarrow> 'c stack" where
  "CreateCodecStack f coders suppressed st0 =
     (let st = (case st0 of None \<Rightarrow> (ProtocolStack_new CodecStack)\<lparr>ps_suppressed := suppressed\<rparr> | Some st \<Rightarrow> st)
      in case factory_Create f CodecLayer of
           None \<Rightarrow> st
         | Some codec \<Rightarrow> snd (SetCoders coders (snd (AddProtocol codec st))))"

definition CreateFullStack :: "factory \<Rightarrow> (cint \<rightharpoonup> 'c) \<Rightarrow> bool \<Rightarrow> 'c stack option" where
  "CreateFullStack f coders suppressed =
     CreatePackStack f (Some (CreateCodecStack f coders suppressed (Some ((ProtocolStack_new FullStack)\<lparr>ps_suppressed := suppressed\<rparr>))))"

section \<open>Lemmas\<close>

lemma mb_bytes_repr: "mb_repr b bs \<Longrightarrow> mb_bytes b = Some bs"
proof -
  have "those (map Some bs) = Some bs" by (induction bs) auto
  then show "mb_repr b bs \<Longrightarrow> mb_bytes b = Some bs" by (simp add: mb_bytes_def MB_readable_cells)
qed

text \<open>A stack of all layers of the library, with the packet protocol in the state \<open>pp\<close>.\<close>

definition normal_stack :: "(cint \<rightharpoonup> 'c) \<Rightarrow> proto \<Rightarrow> 'c stack \<Rightarrow> bool" where
  "normal_stack coders pp st \<longleftrightarrow> ps_protos st = [PackLayer \<mapsto> Proto_packet pp, CompressLayer \<mapsto> Proto_compress, CodecLayer \<mapsto> Proto_codec (Some coders)]"

lemma normal_stack_simps:
  assumes "normal_stack coders pp st"
  shows "ps_protos st PackLayer = Some (Proto_packet pp)" "ps_protos st CompressLayer = Some Proto_compress"
    "ps_protos st CodecLayer = Some (Proto_codec (Some coders))"
  using assms by (simp_all add: normal_stack_def)

lemma CreateFullStack_normal:
  "\<exists>st. CreateFullStack NormalProtocolFactory coders quiet = Some st \<and> normal_stack coders PacketProtocol_new st \<and> ps_suppressed st = quiet
     \<and> ps_reports st = [] \<and> ps_type st = FullStack"
  by (auto simp: CreateFullStack_def CreatePackStack_def CreateCodecStack_def factory_Create_def AddProtocol_def SetCoders_def
      ProtocolStack_new_def GetLayer_def normal_stack_def Let_def)

text \<open>The layers below the codec: one frame.\<close>

lemma SendRaw_normal:
  assumes "normal_stack coders pp st" "packet_repr (cp_packet p) bs"
  shows "\<exists>b. SendRaw api (L_packet p) rm st = Some (LLBC_OK, L_block b, rm, st) \<and> mb_repr b (sent_bytes (cp_packet p))"
  using Send_repr [OF assms(2)] sent_bytes_repr [OF assms(2)]
  by (auto simp: SendRaw_def normal_stack_simps [OF assms(1)] protocol_Send_def)

lemma stack_Send_normal:
  assumes "normal_stack coders pp st" "Packet_Encode api p = (True, q)" "packet_repr (cp_packet q) bs"
  shows "\<exists>b. stack_Send api p rm st = Some (LLBC_OK, L_block b, rm, st) \<and> mb_repr b (sent_bytes (cp_packet q))"
  using SendRaw_normal [OF assms(1,3), of api rm] assms(2)
  by (simp add: stack_Send_def SendCodec_def normal_stack_simps [OF assms(1)] protocol_Send_def CodecProtocol_Send_def)

lemma recv_each_ok:
  "(\<And>p. p \<in> set ps \<Longrightarrow> step p rm st = Some (LLBC_OK, L_packet (f p), rm, st)) \<Longrightarrow>
   recv_each step ps out rm st = Some (LLBC_OK, out @ map f ps, rm, st)"
  by (induction ps arbitrary: out) auto

lemma recv_each_fail:
  assumes "\<And>p. p \<in> set ps \<Longrightarrow> step p rm st = Some (LLBC_OK, L_packet (f p), rm, st)"
    and "step p rm st = Some (LLBC_FAILED, d, rm', st')"
  shows "recv_each step (ps @ p # qs) out rm st = Some (LLBC_FAILED, [], rm', st')"
  using assms(1)
proof (induction ps arbitrary: out)
  case Nil
  then show ?case by (simp add: assms(2))
next
  case (Cons a ps)
  then show ?case by simp
qed

text \<open>What the codec layer makes of a received packet.\<close>

definition codec_recv :: "'c coder_api \<Rightarrow> (cint \<rightharpoonup> 'c) \<Rightarrow> bool \<Rightarrow> packet \<Rightarrow> 'c cpacket option" where
  "codec_recv api coders quiet q = (case coders (pk_opcode q) of
       Some c \<Rightarrow> (let (ok, c, k) = coder_Decode api c q in if ok then Some \<lparr>cp_packet = k, cp_encoder = None, cp_decoder = Some c\<rparr> else None)
     | None \<Rightarrow> if quiet then Some (plain q) else None)"

lemma RecvCodec_normal:
  assumes "normal_stack coders pp st"
  shows "codec_recv api coders (ps_suppressed st) q = Some p \<Longrightarrow> RecvCodec api (plain q) rm st = Some (LLBC_OK, L_packet p, rm, st)"
    and "codec_recv api coders (ps_suppressed st) q = None \<Longrightarrow>
      \<exists>d rm' st'. RecvCodec api (plain q) rm st = Some (LLBC_FAILED, d, rm', st') \<and> rm' = (coders (pk_opcode q) \<noteq> None)
        \<and> st' = st\<lparr>ps_reports := ps_reports st'\<rparr> \<and> length (ps_reports st') = length (ps_reports st) + 1"
  by (auto simp: RecvCodec_def normal_stack_simps [OF assms] protocol_Recv_def CodecProtocol_Recv_def codec_recv_def plain_def
      stack_Report_def Let_def split: option.splits if_splits prod.splits)

lemma RecvRaw_normal:
  assumes "normal_stack coders pp st" "mb_repr b block" "PacketProtocol_Recv (ps_cfg st) block pp = (LLBC_OK, rm0, qs, pp')"
  shows "RecvRaw api b rm st = Some (LLBC_OK, map plain qs, rm, st\<lparr>ps_protos := (ps_protos st)(PackLayer \<mapsto> Proto_packet pp')\<rparr>)"
proof -
  let ?st = "st\<lparr>ps_protos := (ps_protos st)(PackLayer \<mapsto> Proto_packet pp')\<rparr>"
  have "recv_each (\<lambda>p. recv_layers api [CompressLayer] (L_packet p)) ps [] rm ?st = Some (LLBC_OK, ps, rm, ?st)" for ps
    using recv_each_ok [of ps "\<lambda>p. recv_layers api [CompressLayer] (L_packet p)" rm ?st "\<lambda>p. p" "[]"] normal_stack_simps [OF assms(1)]
    by (simp add: protocol_Recv_def)
  then show ?thesis
    using assms(3) by (simp add: RecvRaw_def normal_stack_simps [OF assms(1)] protocol_Recv_def packet_Recv_def mb_bytes_repr [OF assms(2)])
qed

lemma normal_stack_step: "normal_stack coders pp st \<Longrightarrow> normal_stack coders pp' (st\<lparr>ps_protos := (ps_protos st)(PackLayer \<mapsto> Proto_packet pp')\<rparr>)"
  by (simp add: normal_stack_def fun_upd_twist)

lemma stack_Recv_normal:
  assumes "normal_stack coders pp st" "mb_repr b block" "PacketProtocol_Recv (ps_cfg st) block pp = (LLBC_OK, rm0, qs, pp')"
    and "map (codec_recv api coders (ps_suppressed st)) qs = map Some ps"
  shows "stack_Recv api b rm st = Some (LLBC_OK, ps, rm, st\<lparr>ps_protos := (ps_protos st)(PackLayer \<mapsto> Proto_packet pp')\<rparr>)"
proof -
  let ?st = "st\<lparr>ps_protos := (ps_protos st)(PackLayer \<mapsto> Proto_packet pp')\<rparr>"
  have ns: "normal_stack coders pp' ?st" using assms(1) by (rule normal_stack_step)
  have ok: "RecvCodec api p rm ?st = Some (LLBC_OK, L_packet (the (codec_recv api coders (ps_suppressed st) (cp_packet p))), rm, ?st)"
    if "p \<in> set (map plain qs)" for p
  proof -
    from that obtain q where q: "p = plain q" "q \<in> set qs" by auto
    then have "codec_recv api coders (ps_suppressed st) q \<in> set (map Some ps)" unfolding assms(4) [symmetric] by simp
    then obtain r where "codec_recv api coders (ps_suppressed st) q = Some r" by auto
    then show ?thesis using RecvCodec_normal(1) [OF ns] q(1) by (simp add: plain_def)
  qed
  have "map (\<lambda>p. the (codec_recv api coders (ps_suppressed st) (cp_packet p))) (map plain qs) = map the (map Some ps)"
    unfolding assms(4) [symmetric] by (simp add: plain_def)
  then show ?thesis
    using recv_each_ok [of "map plain qs" "RecvCodec api" rm ?st, OF ok, of "[]"] RecvRaw_normal [OF assms(1-3)] by (simp add: stack_Recv_def comp_def)
qed

text \<open>A frame with an invalid length closes the connection.\<close>

lemma stack_Recv_bad_frame:
  assumes "normal_stack coders pp st" "mb_repr b block" "PacketProtocol_Recv (ps_cfg st) block pp = (LLBC_FAILED, True, qs, pp')"
  shows "\<exists>st'. stack_Recv api b rm st = Some (LLBC_FAILED, [], True, st')"
  using assms(3)
  by (simp add: stack_Recv_def RecvRaw_def normal_stack_simps [OF assms(1)] protocol_Recv_def packet_Recv_def mb_bytes_repr [OF assms(2)])

text \<open>Packets whose frame fits the connection, and what becomes of their frames.\<close>

definition packet_fits :: "nat \<Rightarrow> packet \<Rightarrow> bool" where
  "packet_fits mx p \<longleftrightarrow> packet_wf p \<and> llbc_headerLen + length (packet_bytes p) \<le> mx \<and> llbc_headerLen + length (packet_bytes p) < 2 ^ 32"

lemma proto_state_new: "proto_state cfg PacketProtocol_new []"
  by (simp add: proto_state_def PacketProtocol_new_def llbc_headerLen_def)

lemma frames_sent_packets:
  assumes "\<forall>p \<in> set ps. packet_fits mx p"
  shows "frames mx (concat (map sent_bytes ps)) = (map (\<lambda>p. (frame_header p (packet_bytes p), packet_bytes p)) ps, [], False)"
proof -
  let ?ps = "map (\<lambda>p. (p, packet_bytes p)) ps"
  have sent: "map sent_bytes ps = map (\<lambda>(p, bs). frame_header p bs @ bs) ?ps"
    using assms by (auto simp: packet_fits_def packet_wf_def sent_bytes_repr)
  show ?thesis unfolding sent using frames_sent [of ?ps mx] assms by (simp add: packet_fits_def comp_def)
qed

lemma frame_packets_received:
  assumes "list_all2 (frame_packet cfg) (map (\<lambda>p. (frame_header p (packet_bytes p), packet_bytes p)) ps) qs"
    and "\<forall>p \<in> set ps. packet_fits mx p"
  shows "list_all2 (received_as cfg) ps qs"
  using assms frame_packet_received by (auto simp: list_all2_conv_all_nth packet_fits_def packet_wf_def)

lemma recv_sent:
  assumes "proto_state cfg pp []" "\<forall>p \<in> set ps. packet_fits (cfg_max cfg) p"
  shows "\<exists>qs pp'. PacketProtocol_Recv cfg (concat (map sent_bytes ps)) pp = (LLBC_OK, False, qs, pp') \<and> list_all2 (received_as cfg) ps qs"
  using recv_loop_ok [OF assms(1), of "concat (map sent_bytes ps)" "[]"] frames_sent_packets [OF assms(2)] frame_packets_received assms(2)
  by (fastforce simp: PacketProtocol_Recv_def)

section \<open>Properties\<close>

text \<open>A packet the codec layer refuses takes the packets with it that arrived in the same piece of the byte stream: of the packets before
  and after it none is delivered. Without a coder for the opcode the connection stays open, so which packets are lost depends on how TCP cuts the
  stream.\<close>

theorem refused_packet_drops_block:
  assumes "normal_stack coders pp st" "mb_repr b block" "PacketProtocol_Recv (ps_cfg st) block pp = (LLBC_OK, rm0, qs @ q # qs', pp')"
    and "\<forall>r \<in> set qs. codec_recv api coders (ps_suppressed st) r \<noteq> None" "codec_recv api coders (ps_suppressed st) q = None"
  shows "\<exists>st'. stack_Recv api b rm st = Some (LLBC_FAILED, [], coders (pk_opcode q) \<noteq> None, st')"
proof -
  let ?st = "st\<lparr>ps_protos := (ps_protos st)(PackLayer \<mapsto> Proto_packet pp')\<rparr>"
  have ns: "normal_stack coders pp' ?st" using assms(1) by (rule normal_stack_step)
  have ok: "RecvCodec api p rm ?st = Some (LLBC_OK, L_packet (the (codec_recv api coders (ps_suppressed st) (cp_packet p))), rm, ?st)"
    if "p \<in> set (map plain qs)" for p
    using that assms(4) RecvCodec_normal(1) [OF ns] by (auto simp: plain_def)
  obtain d st' where bad: "RecvCodec api (plain q) rm ?st = Some (LLBC_FAILED, d, coders (pk_opcode q) \<noteq> None, st')"
    using RecvCodec_normal(2) [OF ns, of api q rm] assms(5) by auto
  have "recv_each (RecvCodec api) (map plain qs @ plain q # map plain qs') [] rm ?st = Some (LLBC_FAILED, [], coders (pk_opcode q) \<noteq> None, st')"
    by (rule recv_each_fail [where f = "\<lambda>p. the (codec_recv api coders (ps_suppressed st) (cp_packet p))"]) (use ok bad in auto)
  then show ?thesis using RecvRaw_normal [OF assms(1-3), of api rm] by (simp add: stack_Recv_def)
qed

theorem refused_packet_drops_block_witness:
  "\<exists>st b st'. CreateFullStack NormalProtocolFactory (Map.empty :: cint \<rightharpoonup> unit) False = Some st \<and> mb_repr b (sent_bytes Packet_from_pool)
     \<and> stack_Recv \<lparr>coder_Encode = \<lambda>c p. (True, p), coder_Decode = \<lambda>c p. (True, c, p)\<rparr> b False
          (st\<lparr>ps_cfg := \<lparr>cfg_max = 100, cfg_session = 7, cfg_accept = 0\<rparr>\<rparr>) = Some (LLBC_FAILED, [], False, st')"
proof -
  let ?cfg = "\<lparr>cfg_max = 100, cfg_session = 7, cfg_accept = 0\<rparr>"
  let ?api = "\<lparr>coder_Encode = \<lambda>c p. (True, p), coder_Decode = \<lambda>c p. (True, c, p)\<rparr>"
  obtain st where st: "CreateFullStack NormalProtocolFactory (Map.empty :: cint \<rightharpoonup> unit) False = Some st"
    "normal_stack Map.empty PacketProtocol_new st" "ps_suppressed st = False" using CreateFullStack_normal by blast
  have "normal_stack Map.empty PacketProtocol_new (st\<lparr>ps_cfg := ?cfg\<rparr>)" using st(2) by (simp add: normal_stack_def)
  moreover obtain b where "mb_repr b (sent_bytes Packet_from_pool)"
    using Send_repr [OF Packet_pool_repr] sent_bytes_repr [OF Packet_pool_repr] by auto
  moreover have "packet_fits 100 Packet_from_pool" using packet_bytes_repr [OF Packet_pool_repr] by (simp add: packet_fits_def llbc_headerLen_def)
  then obtain q pp' where "PacketProtocol_Recv ?cfg (sent_bytes Packet_from_pool) PacketProtocol_new = (LLBC_OK, False, [q], pp')"
    using recv_sent [OF proto_state_new, of "[Packet_from_pool]" ?cfg] by (auto simp: list_all2_Cons1)
  ultimately show ?thesis
    using refused_packet_drops_block [of Map.empty PacketProtocol_new "st\<lparr>ps_cfg := ?cfg\<rparr>" b _ False "[]" q "[]" pp' ?api False] st(1,3)
    by (auto simp: codec_recv_def)
qed

text \<open>A control command works on a stack of the normal factory, but a stack of the raw factory has no codec layer and no compress layer, and the
  command is passed to the missing protocol.\<close>

theorem raw_stack_ctrl_crashes:
  "(\<exists>st. CreateFullStack NormalProtocolFactory coders quiet = Some st \<and> CtrlStack st = Some ())
   \<and> (\<exists>st. CreateFullStack RawProtocolFactory coders quiet = Some st \<and> CtrlStack st = None)
   \<and> (\<exists>st. CreatePackStack RawProtocolFactory None = Some st \<and> CtrlStackRaw st = None)"
  by (simp add: CreateFullStack_def CreatePackStack_def CreateCodecStack_def factory_Create_def AddProtocol_def SetCoders_def
      ProtocolStack_new_def GetLayer_def CtrlStack_def CtrlStackCodec_def CtrlStackRaw_def Let_def)

end
