(* ===== verification/Llbc_Buffer.thy ===== *)
theory Llbc_Buffer
  imports Llbc_Block
begin

text \<open>
  \<open>LLBC_MessageBuffer\<close> (3rd/llbc/llbc/src/core/thread/MessageBuffer.cpp): the chain of message blocks in which a socket keeps the bytes
  that the kernel has not taken yet. The chain from \<open>_head\<close> to \<open>_tail\<close> is a list; the blocks belong to the buffer. Buffer
  arguments are non-null. A failed assertion is \<open>None\<close>. The specification is the queue of the bytes in the chain.
\<close>

section \<open>State and operations\<close>

record mbuffer =
  bf_size :: nat
  bf_blocks :: "mblock list"

definition MBuf_new :: mbuffer where
  "MBuf_new = \<lparr>bf_size = 0, bf_blocks = []\<rparr>"

definition LLBC_CFG_COMM_MSG_BUFFER_ELEM_RESIZE_LIMIT :: nat where
  "LLBC_CFG_COMM_MSG_BUFFER_ELEM_RESIZE_LIMIT = 8 * 1024"

text \<open>Subtraction of two \<open>size_t\<close> values.\<close>

definition sub64 :: "nat \<Rightarrow> nat \<Rightarrow> nat" where
  "sub64 a b = (if b \<le> a then a - b else 2 ^ 64 + a - b)"

text \<open>The loop of \<open>Read\<close>: the cells copied, what is still needed, and the rest of the chain.\<close>

fun mbuf_read :: "nat \<Rightarrow> mblock list \<Rightarrow> byte option list \<times> nat \<times> mblock list" where
  "mbuf_read need [] = ([], need, [])"
| "mbuf_read need (b # bs) =
     (if need = 0 then ([], 0, b # bs)
      else let availableSize = sub64 (mb_writePos b) (mb_readPos b)
           in if availableSize \<ge> need
              then let (_, xs, b') = MB_Read need b in (xs, 0, if availableSize = need then bs else b' # bs)
              else let (_, xs, _) = MB_Read availableSize b; (ys, rest, cs) = mbuf_read (need - availableSize) bs
                   in (xs @ ys, rest, cs))"

definition MBuf_Read :: "nat \<Rightarrow> mbuffer \<Rightarrow> (nat \<times> byte option list \<times> mbuffer) option" where
  "MBuf_Read len m =
     (if len = 0 then Some (0, [], m)
      else let (xs, need, bs) = mbuf_read len (bf_blocks m); alreadyRead = len - need
           in if alreadyRead \<le> bf_size m then Some (alreadyRead, xs, \<lparr>bf_size = bf_size m - alreadyRead, bf_blocks = bs\<rparr>) else None)"

text \<open>\<open>_tail\<close> replaced by its new state.\<close>

definition set_tail :: "mblock \<Rightarrow> mbuffer \<Rightarrow> mbuffer" where
  "set_tail b m = m\<lparr>bf_blocks := butlast (bf_blocks m) @ [b]\<rparr>"

definition MBuf_Append :: "mblock \<Rightarrow> mbuffer \<Rightarrow> (int \<times> mbuffer) option" where
  "MBuf_Append block m =
     (if MB_GetReadableSize block = 0 then Some (LLBC_OK, m)
      else let m = m\<lparr>bf_size := bf_size m + MB_GetReadableSize block\<rparr>
           in if bf_blocks m = [] then Some (LLBC_OK, m\<lparr>bf_blocks := [block]\<rparr>)
              else let tail = last (bf_blocks m)
                   in if MB_GetWritableSize tail \<ge> MB_GetReadableSize block
                      then map_option (\<lambda>(_, tail). (LLBC_OK, set_tail tail m))
                             (MB_Write (take (MB_GetReadableSize block) (MB_GetDataStartWithReadPos block)) tail)
                      else Some (LLBC_OK, m\<lparr>bf_blocks := bf_blocks m @ [block]\<rparr>))"

definition MBuf_Write :: "byte option list \<Rightarrow> mbuffer \<Rightarrow> (int \<times> mbuffer) option" where
  "MBuf_Write xs m =
     (let len = length xs
      in if len = 0 then Some (LLBC_OK, m)
         else if bf_blocks m = []
         then map_option (\<lambda>(_, b). (LLBC_OK, \<lparr>bf_size = len, bf_blocks = [b]\<rparr>)) (MB_Write xs (MB_new len))
         else let tail = last (bf_blocks m)
              in if MB_GetWritableSize tail \<ge> len
                 then map_option (\<lambda>(_, tail). (LLBC_OK, (set_tail tail m)\<lparr>bf_size := bf_size m + len\<rparr>)) (MB_Write xs tail)
                 else if mb_writePos tail + len < LLBC_CFG_COMM_MSG_BUFFER_ELEM_RESIZE_LIMIT
                 then Option.bind
                        (MB_Resize (min (max (mb_writePos tail + len) (MB_GetSize tail * 2)) LLBC_CFG_COMM_MSG_BUFFER_ELEM_RESIZE_LIMIT) tail)
                        (\<lambda>tail. map_option (\<lambda>(_, tail). (LLBC_OK, (set_tail tail m)\<lparr>bf_size := bf_size m + len\<rparr>)) (MB_Write xs tail))
                 else Option.bind (MB_Write xs (MB_new len)) (\<lambda>(_, block). MBuf_Append block m))"

definition MBuf_GetSize :: "mbuffer \<Rightarrow> nat" where
  "MBuf_GetSize m = bf_size m"

definition MBuf_FirstBlock :: "mbuffer \<Rightarrow> mblock option" where
  "MBuf_FirstBlock m = (case bf_blocks m of [] \<Rightarrow> None | b # _ \<Rightarrow> Some b)"

definition MBuf_DetachFirstBlock :: "mbuffer \<Rightarrow> mblock option \<times> mbuffer" where
  "MBuf_DetachFirstBlock m =
     (case bf_blocks m of
        [] \<Rightarrow> (None, m)
      | b # bs \<Rightarrow> (Some b, \<lparr>bf_size = sub64 (bf_size m) (MB_GetReadableSize b), bf_blocks = bs\<rparr>))"

fun merge_blocks :: "mblock \<Rightarrow> mblock list \<Rightarrow> mblock option" where
  "merge_blocks merged [] = Some merged"
| "merge_blocks merged (b # bs) =
     Option.bind (MB_Write (take (sub64 (mb_writePos b) (mb_readPos b)) (MB_GetDataStartWithReadPos b)) merged)
       (\<lambda>(_, merged). merge_blocks merged bs)"

definition MBuf_MergeBlocksAndDetach :: "mbuffer \<Rightarrow> (mblock option \<times> mbuffer) option" where
  "MBuf_MergeBlocksAndDetach m =
     (case bf_blocks m of
        [] \<Rightarrow> Some (None, m)
      | b # bs \<Rightarrow> map_option (\<lambda>merged. (Some merged, \<lparr>bf_size = 0, bf_blocks = []\<rparr>)) (merge_blocks b bs))"

fun mbuf_remove :: "nat \<Rightarrow> mblock list \<Rightarrow> nat \<times> mblock list" where
  "mbuf_remove need [] = (need, [])"
| "mbuf_remove need (b # bs) =
     (if need = 0 then (0, b # bs)
      else let availableSize = sub64 (mb_writePos b) (mb_readPos b)
           in if availableSize \<ge> need
              then (0, if availableSize = need then bs else snd (MB_SetReadPos (mb_readPos b + need) b) # bs)
              else mbuf_remove (need - availableSize) bs)"

definition MBuf_Remove :: "nat \<Rightarrow> mbuffer \<Rightarrow> (nat \<times> mbuffer) option" where
  "MBuf_Remove len m =
     (if len = 0 then Some (0, m)
      else let (need, bs) = mbuf_remove len (bf_blocks m); removedLen = len - need
           in if removedLen \<le> bf_size m then Some (removedLen, \<lparr>bf_size = bf_size m - removedLen, bf_blocks = bs\<rparr>) else None)"

definition MBuf_Cleanup :: "mbuffer \<Rightarrow> mbuffer" where
  "MBuf_Cleanup m = (if bf_blocks m = [] then m else \<lparr>bf_size = 0, bf_blocks = []\<rparr>)"

section \<open>The queue of bytes\<close>

text \<open>The blocks hold the pieces \<open>bss\<close>, none of them empty, and the size is their total length.\<close>

definition mbuf_pieces :: "mbuffer \<Rightarrow> byte list list \<Rightarrow> bool" where
  "mbuf_pieces m bss \<longleftrightarrow> list_all2 mb_repr (bf_blocks m) bss \<and> [] \<notin> set bss \<and> bf_size m = length (concat bss)"

definition mbuf_repr :: "mbuffer \<Rightarrow> byte list \<Rightarrow> bool" where
  "mbuf_repr m bs \<longleftrightarrow> (\<exists>bss. mbuf_pieces m bss \<and> bs = concat bss)"

section \<open>Lemmas\<close>

lemma mb_repr_avail: "mb_repr b bs \<Longrightarrow> sub64 (mb_writePos b) (mb_readPos b) = length bs"
  using mb_repr_length [of b bs] by (simp add: sub64_def mb_repr_def)

lemma MBuf_new_repr: "mbuf_repr MBuf_new []"
  unfolding mbuf_repr_def mbuf_pieces_def MBuf_new_def by (intro exI [of _ "[]"]) simp

lemma mbuf_repr_size: "mbuf_repr m bs \<Longrightarrow> MBuf_GetSize m = length bs"
  by (auto simp: mbuf_repr_def mbuf_pieces_def MBuf_GetSize_def)

lemma mbuf_pieces_nil: "mbuf_pieces m bss \<Longrightarrow> bf_blocks m = [] \<longleftrightarrow> bss = []"
  by (auto simp: mbuf_pieces_def)

text \<open>Reading and removing take bytes from the front of the chain.\<close>

lemma mbuf_read_pieces:
  "list_all2 mb_repr blocks bss \<Longrightarrow> [] \<notin> set bss \<Longrightarrow>
   \<exists>cs css. mbuf_read n blocks = (map Some (take n (concat bss)), n - length (concat bss), cs)
     \<and> list_all2 mb_repr cs css \<and> [] \<notin> set css \<and> concat css = drop n (concat bss)"
proof (induction blocks bss arbitrary: n rule: list_all2_induct)
  case (Cons b bs xs xss)
  note av = mb_repr_avail [OF Cons.hyps(1)]
  consider (zero) "n = 0" | (more) "length xs < n" | (exact) "n = length xs" | (less) "0 < n" "n < length xs" by linarith
  then show ?case
  proof cases
    case zero
    then show ?thesis using Cons by (auto intro!: exI [of _ "xs # xss"])
  next
    case more
    obtain b' where "MB_Read (length xs) b = (LLBC_OK, map Some xs, b')" using MB_Read_repr [OF Cons.hyps(1), of "length xs"] by auto
    then show ?thesis using Cons.IH [of "n - length xs"] Cons.prems more by (auto simp: av Let_def)
  next
    case exact
    obtain b' where "MB_Read (length xs) b = (LLBC_OK, map Some xs, b')" using MB_Read_repr [OF Cons.hyps(1), of "length xs"] by auto
    then show ?thesis using Cons.hyps(2) Cons.prems exact by (auto simp: av Let_def intro!: exI [of _ xss])
  next
    case less
    obtain b' where "MB_Read n b = (LLBC_OK, map Some (take n xs), b')" "mb_repr b' (drop n xs)"
      using MB_Read_repr [OF Cons.hyps(1), of n] less by auto
    then show ?thesis using Cons.hyps(2) Cons.prems less by (auto simp: av Let_def intro!: exI [of _ "drop n xs # xss"])
  qed
qed auto

lemma MB_SetReadPos_repr:
  assumes "mb_repr b xs" "n \<le> length xs"
  shows "mb_repr (snd (MB_SetReadPos (mb_readPos b + n) b)) (drop n xs)"
proof -
  obtain b' where "MB_Read n b = (LLBC_OK, map Some (take n xs), b')" "mb_repr b' (drop n xs)" using MB_Read_repr [OF assms] by blast
  moreover have "\<not> MB_GetSize b < mb_readPos b + n" using assms mb_repr_length [OF assms(1)] unfolding mb_repr_def by linarith
  ultimately show ?thesis by (auto simp: MB_Read_def MB_SetReadPos_def split: if_splits)
qed

lemma mbuf_remove_pieces:
  "list_all2 mb_repr blocks bss \<Longrightarrow> [] \<notin> set bss \<Longrightarrow>
   \<exists>cs css. mbuf_remove n blocks = (n - length (concat bss), cs)
     \<and> list_all2 mb_repr cs css \<and> [] \<notin> set css \<and> concat css = drop n (concat bss)"
proof (induction blocks bss arbitrary: n rule: list_all2_induct)
  case (Cons b bs xs xss)
  note av = mb_repr_avail [OF Cons.hyps(1)]
  consider (zero) "n = 0" | (more) "length xs < n" | (exact) "n = length xs" | (less) "0 < n" "n < length xs" by linarith
  then show ?case
  proof cases
    case zero
    then show ?thesis using Cons by (auto intro!: exI [of _ "xs # xss"])
  next
    case more
    then show ?thesis using Cons.IH [of "n - length xs"] Cons.prems by (auto simp: av Let_def)
  next
    case exact
    then show ?thesis using Cons.hyps(2) Cons.prems by (auto simp: av Let_def intro!: exI [of _ xss])
  next
    case less
    then show ?thesis
      using Cons.hyps(2) Cons.prems MB_SetReadPos_repr [OF Cons.hyps(1), of n] by (auto simp: av Let_def intro!: exI [of _ "drop n xs # xss"])
  qed
qed auto

lemma mbuf_reprI:
  "list_all2 mb_repr (bf_blocks m) bss \<Longrightarrow> [] \<notin> set bss \<Longrightarrow> concat bss = bs \<Longrightarrow> bf_size m = length bs \<Longrightarrow> mbuf_repr m bs"
  by (auto simp: mbuf_repr_def mbuf_pieces_def)

lemma MBuf_Read_repr:
  assumes "mbuf_repr m bs"
  shows "\<exists>m'. MBuf_Read n m = Some (min n (length bs), map Some (take n bs), m') \<and> mbuf_repr m' (drop n bs)"
proof (cases "n = 0")
  case True
  then show ?thesis using assms by (simp add: MBuf_Read_def)
next
  case False
  obtain bss where bss: "list_all2 mb_repr (bf_blocks m) bss" "[] \<notin> set bss" "bf_size m = length bs" "bs = concat bss"
    using assms by (auto simp: mbuf_repr_def mbuf_pieces_def)
  from mbuf_read_pieces [OF bss(1,2), of n] obtain cs css where
    "mbuf_read n (bf_blocks m) = (map Some (take n bs), n - length bs, cs)" "list_all2 mb_repr cs css" "[] \<notin> set css"
    "concat css = drop n bs" using bss(4) by auto
  then show ?thesis
    using False bss(3) mbuf_reprI [of "\<lparr>bf_size = length bs - n, bf_blocks = cs\<rparr>" css "drop n bs"]
    by (cases "n \<le> length bs") (auto simp: MBuf_Read_def)
qed

lemma MBuf_Remove_repr:
  assumes "mbuf_repr m bs"
  shows "\<exists>m'. MBuf_Remove n m = Some (min n (length bs), m') \<and> mbuf_repr m' (drop n bs)"
proof (cases "n = 0")
  case True
  then show ?thesis using assms by (simp add: MBuf_Remove_def)
next
  case False
  obtain bss where bss: "list_all2 mb_repr (bf_blocks m) bss" "[] \<notin> set bss" "bf_size m = length bs" "bs = concat bss"
    using assms by (auto simp: mbuf_repr_def mbuf_pieces_def)
  from mbuf_remove_pieces [OF bss(1,2), of n] obtain cs css where
    "mbuf_remove n (bf_blocks m) = (n - length bs, cs)" "list_all2 mb_repr cs css" "[] \<notin> set css" "concat css = drop n bs"
    using bss(4) by auto
  then show ?thesis
    using False bss(3) mbuf_reprI [of "\<lparr>bf_size = length bs - n, bf_blocks = cs\<rparr>" css "drop n bs"]
    by (cases "n \<le> length bs") (auto simp: MBuf_Remove_def)
qed

text \<open>Writing into the last block appends to the last piece.\<close>

lemma mbuf_tail:
  assumes "mbuf_pieces m bss" "bf_blocks m \<noteq> []"
  obtains front xs where "bss = front @ [xs]" "mb_repr (last (bf_blocks m)) xs" "list_all2 mb_repr (butlast (bf_blocks m)) front"
proof -
  have ne: "bss \<noteq> []" and len: "length (bf_blocks m) = length bss" using assms by (auto simp: mbuf_pieces_def list_all2_lengthD)
  have "list_all2 mb_repr (butlast (bf_blocks m) @ [last (bf_blocks m)]) (butlast bss @ [last bss])"
    using assms ne by (simp add: mbuf_pieces_def)
  then have "list_all2 mb_repr (butlast (bf_blocks m)) (butlast bss)" "mb_repr (last (bf_blocks m)) (last bss)"
    using len by (simp_all add: list_all2_append)
  with ne that [of "butlast bss" "last bss"] show ?thesis by simp
qed

lemma set_tail_repr:
  assumes "mbuf_pieces m (front @ [xs])" "list_all2 mb_repr (butlast (bf_blocks m)) front" "mb_repr b (xs @ cs)"
    and "bf_blocks m' = butlast (bf_blocks m) @ [b]" "bf_size m' = bf_size m + length cs"
  shows "mbuf_repr m' (concat (front @ [xs]) @ cs)"
  using assms by (intro mbuf_reprI [of _ "front @ [xs @ cs]"]) (auto simp: mbuf_pieces_def intro: list_all2_appendI)

lemma MBuf_Append_repr:
  assumes "mbuf_repr m bs" "mb_repr b cs"
  shows "\<exists>m'. MBuf_Append b m = Some (LLBC_OK, m') \<and> mbuf_repr m' (bs @ cs)"
proof (cases "cs = []")
  case True
  then show ?thesis using assms MB_readable [OF assms(2)] by (simp add: MBuf_Append_def)
next
  case cs: False
  obtain bss where bss: "mbuf_pieces m bss" "bs = concat bss" using assms(1) by (auto simp: mbuf_repr_def)
  note rd = MB_readable [OF assms(2)]
  have chain: "mbuf_repr (m\<lparr>bf_size := bf_size m + length cs, bf_blocks := bf_blocks m @ [b]\<rparr>) (bs @ cs)"
    using bss assms(2) cs unfolding mbuf_repr_def
    by (intro exI [of _ "bss @ [cs]"]) (auto simp: mbuf_pieces_def intro: list_all2_appendI)
  show ?thesis
  proof (cases "bf_blocks m \<noteq> [] \<and> MB_GetWritableSize (last (bf_blocks m)) \<ge> length cs")
    case False
    then show ?thesis using chain cs by (auto simp: MBuf_Append_def Let_def rd)
  next
    case True
    obtain front xs where t: "bss = front @ [xs]" "mb_repr (last (bf_blocks m)) xs" "list_all2 mb_repr (butlast (bf_blocks m)) front"
      using mbuf_tail [OF bss(1)] True by blast
    obtain b' where b': "MB_Write (map Some cs) (last (bf_blocks m)) = Some (LLBC_OK, b')" "mb_repr b' (xs @ cs)"
      using MB_Write_repr [OF t(2)] by blast
    from set_tail_repr [OF bss(1) [unfolded t(1)] t(3) b'(2)] show ?thesis
      using b'(1) True cs MB_readable_cells [OF assms(2)] bss(2) t(1) by (simp add: MBuf_Append_def Let_def rd set_tail_def)
  qed
qed

lemma MBuf_Write_repr:
  assumes "mbuf_repr m bs"
  shows "\<exists>m'. MBuf_Write (map Some cs) m = Some (LLBC_OK, m') \<and> mbuf_repr m' (bs @ cs)"
proof (cases "cs = []")
  case True
  then show ?thesis using assms by (simp add: MBuf_Write_def)
next
  case cs: False
  obtain bss where bss: "mbuf_pieces m bss" "bs = concat bss" using assms by (auto simp: mbuf_repr_def)
  obtain nb where nb: "MB_Write (map Some cs) (MB_new (length cs)) = Some (LLBC_OK, nb)" "mb_repr nb cs"
    using MB_Write_repr [OF MB_new_repr, of cs "length cs"] by auto
  show ?thesis
  proof (cases "bf_blocks m = []")
    case True
    then have "bs = []" using bss by (simp add: mbuf_pieces_nil)
    then show ?thesis
      using True cs nb mbuf_reprI [of "\<lparr>bf_size = length cs, bf_blocks = [nb]\<rparr>" "[cs]" cs] by (simp add: MBuf_Write_def)
  next
    case False
    let ?t = "last (bf_blocks m)"
    obtain front xs where t: "bss = front @ [xs]" "mb_repr ?t xs" "list_all2 mb_repr (butlast (bf_blocks m)) front"
      using mbuf_tail [OF bss(1) False] by blast
    note tail = set_tail_repr [OF bss(1) [unfolded t(1)] t(3), folded t(1) bss(2)]
    consider (fits) "MB_GetWritableSize ?t \<ge> length cs"
      | (grow) "\<not> MB_GetWritableSize ?t \<ge> length cs" "mb_writePos ?t + length cs < LLBC_CFG_COMM_MSG_BUFFER_ELEM_RESIZE_LIMIT"
      | (new) "\<not> MB_GetWritableSize ?t \<ge> length cs" "\<not> mb_writePos ?t + length cs < LLBC_CFG_COMM_MSG_BUFFER_ELEM_RESIZE_LIMIT" by blast
    then show ?thesis
    proof cases
      case fits
      obtain b where "MB_Write (map Some cs) ?t = Some (LLBC_OK, b)" "mb_repr b (xs @ cs)" using MB_Write_repr [OF t(2)] by blast
      with tail fits False cs show ?thesis by (simp add: MBuf_Write_def set_tail_def)
    next
      case grow
      let ?n = "min (max (mb_writePos ?t + length cs) (MB_GetSize ?t * 2)) LLBC_CFG_COMM_MSG_BUFFER_ELEM_RESIZE_LIMIT"
      have "MB_GetSize ?t < mb_writePos ?t + length cs" using grow(1) unfolding MB_GetWritableSize_def by linarith
      then have "?n > MB_GetSize ?t" using grow(2) by linarith
      from MB_Resize_repr [OF t(2) this] obtain b0 where b0: "MB_Resize ?n ?t = Some b0" "mb_repr b0 xs" by blast
      obtain b where "MB_Write (map Some cs) b0 = Some (LLBC_OK, b)" "mb_repr b (xs @ cs)" using MB_Write_repr [OF b0(2)] by blast
      with tail grow False cs b0(1) show ?thesis by (simp add: MBuf_Write_def set_tail_def)
    next
      case new
      then show ?thesis using MBuf_Append_repr [OF assms nb(2)] nb(1) False cs by (simp add: MBuf_Write_def)
    qed
  qed
qed

lemma MBuf_FirstBlock_repr:
  assumes "mbuf_repr m bs"
  shows "MBuf_FirstBlock m = None \<longleftrightarrow> bs = []"
    and "MBuf_FirstBlock m = Some b \<Longrightarrow> \<exists>xs ys. mb_repr b xs \<and> xs \<noteq> [] \<and> bs = xs @ ys"
proof -
  obtain bss where bss: "list_all2 mb_repr (bf_blocks m) bss" "[] \<notin> set bss" "bs = concat bss"
    using assms by (auto simp: mbuf_repr_def mbuf_pieces_def)
  show "MBuf_FirstBlock m = None \<longleftrightarrow> bs = []" using bss by (auto simp: MBuf_FirstBlock_def list_all2_Cons1 split: list.split)
  show "\<exists>xs ys. mb_repr b xs \<and> xs \<noteq> [] \<and> bs = xs @ ys" if "MBuf_FirstBlock m = Some b"
    using that bss by (fastforce simp: MBuf_FirstBlock_def list_all2_Cons1 split: list.splits)
qed

lemma MBuf_DetachFirstBlock_repr:
  assumes "mbuf_repr m bs" "bs \<noteq> []"
  shows "\<exists>b m' xs ys. MBuf_DetachFirstBlock m = (Some b, m') \<and> mb_repr b xs \<and> xs \<noteq> [] \<and> mbuf_repr m' ys \<and> bs = xs @ ys"
proof -
  obtain bss where bss: "list_all2 mb_repr (bf_blocks m) bss" "[] \<notin> set bss" "bs = concat bss" "bf_size m = length bs"
    using assms by (auto simp: mbuf_repr_def mbuf_pieces_def)
  then obtain b ms xs xss where b: "bf_blocks m = b # ms" "bss = xs # xss" "mb_repr b xs" "list_all2 mb_repr ms xss"
    using assms(2) by (cases "bf_blocks m") (auto simp: list_all2_Cons1)
  have "mbuf_repr \<lparr>bf_size = sub64 (bf_size m) (MB_GetReadableSize b), bf_blocks = ms\<rparr> (concat xss)"
    using b bss by (intro mbuf_reprI [of _ xss]) (auto simp: MB_readable sub64_def)
  then show ?thesis using b bss by (auto simp: MBuf_DetachFirstBlock_def)
qed

lemma merge_blocks_repr:
  "list_all2 mb_repr bs xss \<Longrightarrow> mb_repr b xs \<Longrightarrow> \<exists>c. merge_blocks b bs = Some c \<and> mb_repr c (xs @ concat xss)"
proof (induction bs xss arbitrary: b xs rule: list_all2_induct)
  case (Cons d ds ys yss)
  obtain c where c: "MB_Write (map Some ys) b = Some (LLBC_OK, c)" "mb_repr c (xs @ ys)" using MB_Write_repr [OF Cons.prems] by blast
  from Cons.IH [OF c(2)] show ?case
    using c(1) Cons.hyps(1) MB_readable_cells [OF Cons.hyps(1)] by (auto simp: mb_repr_avail MB_readable)
qed simp

lemma MBuf_Merge_repr:
  assumes "mbuf_repr m bs"
  shows "\<exists>ob m'. MBuf_MergeBlocksAndDetach m = Some (ob, m') \<and> mbuf_repr m' []
    \<and> (case ob of None \<Rightarrow> bs = [] | Some b \<Rightarrow> mb_repr b bs)"
proof (cases "bf_blocks m")
  case Nil
  then show ?thesis using assms MBuf_FirstBlock_repr(1) [OF assms] by (auto simp: MBuf_MergeBlocksAndDetach_def MBuf_FirstBlock_def)
next
  case (Cons b ms)
  obtain xs xss where "mb_repr b xs" "list_all2 mb_repr ms xss" "bs = xs @ concat xss"
    using assms Cons by (auto simp: mbuf_repr_def mbuf_pieces_def list_all2_Cons1)
  then show ?thesis
    using merge_blocks_repr [of ms xss b xs] MBuf_new_repr Cons by (auto simp: MBuf_MergeBlocksAndDetach_def MBuf_new_def)
qed

section \<open>Sequences of calls\<close>

text \<open>The calls with everything they return; \<open>Buf_append k bs\<close> appends a block of capacity \<open>k\<close> that was filled with \<open>bs\<close>.\<close>

datatype buf_cmd = Buf_append nat "byte list" | Buf_write "byte list" | Buf_read nat | Buf_remove nat | Buf_merge | Buf_cleanup

fun buf_exec :: "buf_cmd \<Rightarrow> mbuffer \<times> byte option list \<Rightarrow> (unit + mbuffer \<times> byte option list) option" where
  "buf_exec (Buf_append k bs) (m, out) =
     Option.bind (MB_Write (map Some bs) (MB_new k)) (\<lambda>(_, b). map_option (\<lambda>(_, m). Inr (m, out)) (MBuf_Append b m))"
| "buf_exec (Buf_write bs) (m, out) = map_option (\<lambda>(_, m). Inr (m, out)) (MBuf_Write (map Some bs) m)"
| "buf_exec (Buf_read n) (m, out) = map_option (\<lambda>(_, xs, m). Inr (m, out @ xs)) (MBuf_Read n m)"
| "buf_exec (Buf_remove n) (m, out) = map_option (\<lambda>(_, m). Inr (m, out)) (MBuf_Remove n m)"
| "buf_exec Buf_merge (m, out) =
     map_option (\<lambda>(b, m). Inr (m, out @ (case b of None \<Rightarrow> [] | Some b \<Rightarrow> take (MB_GetReadableSize b) (MB_GetDataStartWithReadPos b))))
       (MBuf_MergeBlocksAndDetach m)"
| "buf_exec Buf_cleanup (m, out) = Some (Inr (MBuf_Cleanup m, out))"

text \<open>The specification: a queue of bytes and what has been taken out of it.\<close>

fun buf_spec :: "buf_cmd \<Rightarrow> byte list \<times> byte list \<Rightarrow> (byte list \<times> byte list) option" where
  "buf_spec (Buf_append k bs) (q, out) = Some (q @ bs, out)"
| "buf_spec (Buf_write bs) (q, out) = Some (q @ bs, out)"
| "buf_spec (Buf_read n) (q, out) = Some (drop n q, out @ take n q)"
| "buf_spec (Buf_remove n) (q, out) = Some (drop n q, out)"
| "buf_spec Buf_merge (q, out) = Some ([], out @ q)"
| "buf_spec Buf_cleanup (q, out) = Some ([], out)"

definition buf_rel :: "nat \<Rightarrow> mbuffer \<times> byte option list \<Rightarrow> byte list \<times> byte list \<Rightarrow> bool" where
  "buf_rel n s a \<longleftrightarrow> mbuf_repr (fst s) (fst a) \<and> snd s = map Some (snd a)"

lemma MBuf_Cleanup_repr: "mbuf_repr m bs \<Longrightarrow> mbuf_repr (MBuf_Cleanup m) []"
  using MBuf_new_repr MBuf_FirstBlock_repr(1) [of m bs]
  by (auto simp: MBuf_Cleanup_def MBuf_new_def MBuf_FirstBlock_def split: if_splits)

interpretation buf_sim: simulation buf_exec buf_spec buf_rel k for k
proof unfold_locales
  fix n s a c b
  assume rel: "buf_rel n s a" and spec: "buf_spec c a = Some b"
  obtain m out q qs where s: "s = (m, out)" "a = (q, qs)" "mbuf_repr m q" "out = map Some qs"
    using rel by (cases s, cases a) (auto simp: buf_rel_def)
  show "\<exists>t. buf_exec c s = Some (Inr t) \<and> buf_rel (n + 1) t b"
  proof (cases c)
    case (Buf_append k bs)
    obtain nb where "MB_Write (map Some bs) (MB_new k) = Some (LLBC_OK, nb)" "mb_repr nb bs" using MB_Write_repr [OF MB_new_repr, of bs k] by auto
    with MBuf_Append_repr [OF s(3)] spec s Buf_append show ?thesis by (fastforce simp: buf_rel_def)
  next
    case (Buf_write bs)
    then show ?thesis using MBuf_Write_repr [OF s(3), of bs] spec s by (auto simp: buf_rel_def)
  next
    case (Buf_read k)
    then show ?thesis using MBuf_Read_repr [OF s(3), of k] spec s by (auto simp: buf_rel_def)
  next
    case (Buf_remove k)
    then show ?thesis using MBuf_Remove_repr [OF s(3), of k] spec s by (auto simp: buf_rel_def)
  next
    case Buf_merge
    obtain ob m' where "MBuf_MergeBlocksAndDetach m = Some (ob, m')" "mbuf_repr m' []" "case ob of None \<Rightarrow> q = [] | Some b \<Rightarrow> mb_repr b q"
      using MBuf_Merge_repr [OF s(3)] by blast
    then show ?thesis using Buf_merge spec s MB_readable_cells [of _ q] by (cases ob) (auto simp: buf_rel_def)
  next
    case Buf_cleanup
    then show ?thesis using MBuf_Cleanup_repr [OF s(3)] spec s by (auto simp: buf_rel_def)
  qed
qed

section \<open>Properties\<close>

text \<open>C17: a message buffer is a queue of bytes: after any sequence of calls (append, write, read, remove, merge, cleanup) it has given
  out exactly the bytes a queue gives out, its size is the number of bytes left, and no assertion has failed, however the bytes are spread over
  blocks of any capacity.\<close>

theorem message_buffer_refines_queue:
  "\<exists>m q out. spec_cmds buf_spec cs ([], []) = Some (q, out)
     \<and> run_cmds buf_exec cs (MBuf_new, []) = Some (Inr (m, map Some out)) \<and> mbuf_repr m q \<and> MBuf_GetSize m = length q"
proof -
  have "\<exists>b. spec_cmds buf_spec cs a = Some b" for a
  proof (induction cs arbitrary: a)
    case (Cons c cs)
    then show ?case by (cases c; cases a) auto
  qed simp
  then obtain q out where b: "spec_cmds buf_spec cs ([], []) = Some (q, out)" by (metis surj_pair)
  have "buf_rel 0 (MBuf_new, []) ([], [])" using MBuf_new_repr by (simp add: buf_rel_def)
  from buf_sim.run_sim [OF this _ b, of "length cs"] obtain t where
    "run_cmds buf_exec cs (MBuf_new, []) = Some (Inr t)" "buf_rel (length cs) t (q, out)" by auto
  then show ?thesis using b mbuf_repr_size by (cases t) (auto simp: buf_rel_def)
qed

end
