(* ===== verification/Llbc_Session.thy ===== *)
theory Llbc_Session
  imports Llbc_Stack Llbc_Buffer
begin

text \<open>
  Sessions and their sockets: the data path of \<open>LLBC_Socket\<close> (3rd/llbc/llbc/src/comm/Socket.cpp: \<open>AsyncSend\<close>, \<open>OnSend\<close>,
  \<open>OnRecv\<close>, \<open>OnClose\<close>; the branches for systems other than Windows) and \<open>LLBC_Session\<close> (src/comm/Session.cpp). The socket calls
  of the operating system layer are a parameter \<open>sock_api\<close> on a state \<open>'k\<close> of the network; the events a session pushes to its
  service are collected in the order of the calls. A session that was removed is gone from the state. Loops that may not end are
  options, \<open>None\<close> for not returning; block sizes fit an \<open>int\<close>.
\<close>

section \<open>State\<close>

datatype sock_err = Err_wblock | Err_again | Err_other

text \<open>\<open>LLBC_Send\<close>, \<open>LLBC_Recv\<close> (an empty result is the end of the stream), \<open>ioctl(FIONREAD)\<close>, \<open>LLBC_CloseSocket\<close>.\<close>

record 'k sock_api =
  LLBC_Send :: "byte option list \<Rightarrow> 'k \<Rightarrow> (sock_err + nat) \<times> 'k"
  LLBC_Recv :: "nat \<Rightarrow> 'k \<Rightarrow> (sock_err + byte list) \<times> 'k"
  ioctl_fionread :: "'k \<Rightarrow> nat option \<times> 'k"
  LLBC_CloseSocket :: "'k \<Rightarrow> 'k"

definition LLBC_INFINITE :: nat where
  "LLBC_INFINITE = 2 ^ 64 - 1"

record sess_opts =
  so_sessionSendBufSize :: nat
  so_sessionRecvBufSize :: nat
  so_maxPacketSize :: nat

record socket =
  sk_closed :: bool
  sk_listenSocket :: bool
  sk_willSend :: mbuffer
  sk_maxPacketSize :: nat

record 'c session =
  ss_id :: cint
  ss_acceptId :: cint
  ss_opts :: sess_opts
  ss_socket :: socket
  ss_fullStack :: bool
  ss_stack :: "'c stack"

datatype close_info = Close_last_error | Close_errno sock_err | Close_reset_by_peer | Close_by_service string

datatype 'c svc_event =
    Ev_SessionCreate cint cint bool
  | Ev_SessionDestroy cint cint bool close_info
  | Ev_DataArrival "'c cpacket"
  | Ev_ProtoReport cint cint layer report_level
  | Ev_AsyncConn cint bool

record ('c, 'k) sworld =
  sw_session :: "'c session option"
  sw_net :: 'k
  sw_events :: "'c svc_event list"

section \<open>Sockets and sessions\<close>

definition Socket_new :: "bool \<Rightarrow> nat \<Rightarrow> socket" where
  "Socket_new listen mx = \<lparr>sk_closed = False, sk_listenSocket = listen, sk_willSend = MBuf_new, sk_maxPacketSize = mx\<rparr>"

text \<open>\<open>SetService\<close> creates the stack and \<open>SetSession\<close> gives its protocols the ids of the session.\<close>

definition Session_new :: "sess_opts \<Rightarrow> cint \<Rightarrow> cint \<Rightarrow> socket \<Rightarrow> bool \<Rightarrow> factory \<Rightarrow> (cint \<rightharpoonup> 'c) \<Rightarrow> bool \<Rightarrow> 'c session option" where
  "Session_new opts sid acceptId sk fullStack f coders quiet =
     map_option (\<lambda>st. \<lparr>ss_id = sid, ss_acceptId = acceptId, ss_opts = opts, ss_socket = sk, ss_fullStack = fullStack,
         ss_stack = st\<lparr>ps_cfg := \<lparr>cfg_max = sk_maxPacketSize sk, cfg_session = sid, cfg_accept = acceptId\<rparr>\<rparr>\<rparr>)
       (if fullStack then CreateFullStack f coders quiet else CreatePackStack f None)"

definition Socket_AsyncSend :: "mblock \<Rightarrow> socket \<Rightarrow> (int \<times> socket) option" where
  "Socket_AsyncSend b sk = map_option (\<lambda>(ret, m). (if ret \<noteq> LLBC_OK then LLBC_FAILED else LLBC_OK, sk\<lparr>sk_willSend := m\<rparr>)) (MBuf_Append b (sk_willSend sk))"

definition Session_OnClose :: "'k sock_api \<Rightarrow> close_info \<Rightarrow> ('c, 'k) sworld \<Rightarrow> ('c, 'k) sworld" where
  "Session_OnClose api info w = (case sw_session w of
       None \<Rightarrow> w
     | Some s \<Rightarrow> w\<lparr>sw_net := (if sk_closed (ss_socket s) then sw_net w else LLBC_CloseSocket api (sw_net w)),
         sw_events := sw_events w @ [Ev_SessionDestroy (ss_id s) (ss_acceptId s) (sk_listenSocket (ss_socket s)) info], sw_session := None\<rparr>)"

text \<open>The events of the protocols of a stack go to the service.\<close>

definition flush_reports :: "'c session \<Rightarrow> 'c stack \<Rightarrow> ('c, 'k) sworld \<Rightarrow> ('c, 'k) sworld" where
  "flush_reports s st w = w\<lparr>sw_session := Some (s\<lparr>ss_stack := st\<lparr>ps_reports := []\<rparr>\<rparr>),
     sw_events := sw_events w @ map (\<lambda>(sid, opcode, l, level). Ev_ProtoReport sid opcode l level) (ps_reports st)\<rparr>"

definition Session_Send_block :: "mblock \<Rightarrow> ('c, 'k) sworld \<Rightarrow> (int \<times> ('c, 'k) sworld) option" where
  "Session_Send_block b w = (case sw_session w of
       None \<Rightarrow> None
     | Some s \<Rightarrow>
         if so_sessionSendBufSize (ss_opts s) \<noteq> LLBC_INFINITE
            \<and> MBuf_GetSize (sk_willSend (ss_socket s)) + MB_GetReadableSize b \<ge> so_sessionSendBufSize (ss_opts s)
         then Some (LLBC_FAILED, w)
         else map_option (\<lambda>(ret, sk). (if ret \<noteq> LLBC_OK then LLBC_FAILED else LLBC_OK, w\<lparr>sw_session := Some (s\<lparr>ss_socket := sk\<rparr>)\<rparr>))
                (Socket_AsyncSend b (ss_socket s)))"

text \<open>The variable \<open>removeSession\<close> is not initialized; \<open>rm\<close> is the value it happens to have.\<close>

definition Session_Send :: "'c coder_api \<Rightarrow> bool \<Rightarrow> 'c cpacket \<Rightarrow> ('c, 'k) sworld \<Rightarrow> (int \<times> ('c, 'k) sworld) option" where
  "Session_Send capi rm p w = (case sw_session w of
       None \<Rightarrow> None
     | Some s \<Rightarrow> Option.bind (if ss_fullStack s then stack_Send capi p rm (ss_stack s) else SendRaw capi (L_packet p) rm (ss_stack s))
         (\<lambda>(ret, d, rm, st).
            let w = flush_reports s st w
            in if ret \<noteq> LLBC_OK then Some (if rm then LLBC_FAILED else LLBC_OK, w)
               else case d of L_null \<Rightarrow> Some (LLBC_OK, w) | L_block b \<Rightarrow> Session_Send_block b w | _ \<Rightarrow> None))"

definition Session_OnRecved :: "'k sock_api \<Rightarrow> 'c coder_api \<Rightarrow> mblock \<Rightarrow> ('c, 'k) sworld \<Rightarrow> (bool \<times> ('c, 'k) sworld) option" where
  "Session_OnRecved api capi b w = (case sw_session w of
       None \<Rightarrow> None
     | Some s \<Rightarrow>
         (let st = (ss_stack s)\<lparr>ps_cfg := (ps_cfg (ss_stack s))\<lparr>cfg_max := sk_maxPacketSize (ss_socket s)\<rparr>\<rparr>
          in Option.bind (if ss_fullStack s then stack_Recv capi b False st else RecvRaw capi b False st)
               (\<lambda>(ret, ps, rm, st).
                  let w = flush_reports s st w
                  in if ret \<noteq> LLBC_OK then Some (False, if rm then Session_OnClose api Close_last_error w else w)
                     else Some (True, w\<lparr>sw_events := sw_events w
                            @ map (\<lambda>p. Ev_DataArrival (p\<lparr>cp_packet := (cp_packet p)\<lparr>pk_sessionId := ss_id s\<rparr>\<rparr>)) ps\<rparr>))))"

section \<open>Socket events\<close>

text \<open>The loop of \<open>OnSend\<close>: the error that ended it, if any.\<close>

partial_function (option) send_loop :: "'k sock_api \<Rightarrow> socket \<Rightarrow> 'k \<Rightarrow> (sock_err option \<times> socket \<times> 'k) option" where
  "send_loop api sk k = (case MBuf_FirstBlock (sk_willSend sk) of
       None \<Rightarrow> Some (None, sk, k)
     | Some b \<Rightarrow>
         (case LLBC_Send api (take (MB_GetReadableSize b) (MB_GetDataStartWithReadPos b)) k of
            (Inl e, k) \<Rightarrow> Some (Some e, sk, k)
          | (Inr len, k) \<Rightarrow> Option.bind (MBuf_Remove len (sk_willSend sk)) (\<lambda>(_, m). send_loop api (sk\<lparr>sk_willSend := m\<rparr>) k)))"

definition Socket_OnSend :: "'k sock_api \<Rightarrow> ('c, 'k) sworld \<Rightarrow> ('c, 'k) sworld option" where
  "Socket_OnSend api w = (case sw_session w of
       None \<Rightarrow> None
     | Some s \<Rightarrow> Option.bind (send_loop api (ss_socket s) (sw_net w))
         (\<lambda>(e, sk, k).
            let w = w\<lparr>sw_session := Some (s\<lparr>ss_socket := sk\<rparr>), sw_net := k\<rparr>
            in Some (if e = Some Err_other then Session_OnClose api Close_last_error w else w)))"

datatype recv_end = End_more | End_closed | End_error sock_err

text \<open>The loop of \<open>OnRecv\<close>; the flag says that something was received. When the block is full it grows by what is pending.\<close>

partial_function (option) recv_fill :: "'k sock_api \<Rightarrow> mblock \<Rightarrow> bool \<Rightarrow> 'k \<Rightarrow> (recv_end \<times> bool \<times> mblock \<times> 'k) option" where
  "recv_fill api b recvFlag k = (case LLBC_Recv api (MB_GetWritableSize b) k of
       (Inl e, k) \<Rightarrow> Some (End_error e, recvFlag, b, k)
     | (Inr xs, k) \<Rightarrow>
         if xs = [] then Some (End_closed, recvFlag, b, k)
         else let b = b\<lparr>mb_buf := write_cells (mb_writePos b) (map Some xs) (mb_buf b)\<rparr>;
                  b = snd (MB_ShiftWritePos (int (length xs)) b)
              in if MB_GetWritableSize b = 0
                 then case ioctl_fionread api k of
                        (None, k) \<Rightarrow> Some (End_error Err_other, True, b, k)
                      | (Some pendingBytes, k) \<Rightarrow>
                          if pendingBytes = 0 then Some (End_more, True, b, k)
                          else Option.bind (MB_Allocate pendingBytes b) (\<lambda>(_, b). recv_fill api b True k)
                 else recv_fill api b True k)"

definition after_recv :: "'k sock_api \<Rightarrow> recv_end \<Rightarrow> ('c, 'k) sworld \<Rightarrow> ('c, 'k) sworld" where
  "after_recv api e w = (case e of
       End_more \<Rightarrow> w
     | End_closed \<Rightarrow> Session_OnClose api Close_reset_by_peer w
     | End_error Err_other \<Rightarrow> Session_OnClose api (Close_errno Err_other) w
     | End_error _ \<Rightarrow> w)"

definition Socket_OnRecv :: "'k sock_api \<Rightarrow> 'c coder_api \<Rightarrow> ('c, 'k) sworld \<Rightarrow> ('c, 'k) sworld option" where
  "Socket_OnRecv api capi w = (case sw_session w of
       None \<Rightarrow> None
     | Some s \<Rightarrow> Option.bind (recv_fill api (MB_new (so_sessionRecvBufSize (ss_opts s))) False (sw_net w))
         (\<lambda>(e, recvFlag, b, k).
            let w = w\<lparr>sw_net := k\<rparr>
            in if recvFlag
               then Option.bind (Session_OnRecved api capi b w) (\<lambda>(ok, w). Some (if ok then after_recv api e w else w))
               else Some (after_recv api e w)))"

section \<open>A connection\<close>

text \<open>
  What is used of TCP, for one direction of a connection that does not break: \<open>flight k\<close> are the bytes that were sent and not yet received.
  A call that cannot proceed reports that it would block; this may happen at any time.
\<close>

definition link_laws :: "'k sock_api \<Rightarrow> 'k sock_api \<Rightarrow> ('k \<Rightarrow> byte list) \<Rightarrow> bool" where
  "link_laws sapi rapi flight \<longleftrightarrow>
     (\<forall>xs k r k'. xs \<noteq> [] \<longrightarrow> LLBC_Send sapi (map Some xs) k = (r, k') \<longrightarrow>
        (case r of Inl e \<Rightarrow> e \<noteq> Err_other \<and> flight k' = flight k
         | Inr n \<Rightarrow> 0 < n \<and> n \<le> length xs \<and> flight k' = flight k @ take n xs))
   \<and> (\<forall>n k r k'. 0 < n \<longrightarrow> LLBC_Recv rapi n k = (r, k') \<longrightarrow>
        (case r of Inl e \<Rightarrow> e \<noteq> Err_other \<and> flight k' = flight k
         | Inr xs \<Rightarrow> xs \<noteq> [] \<and> length xs \<le> n \<and> flight k = xs @ flight k'))
   \<and> (\<forall>k r k'. ioctl_fionread rapi k = (r, k') \<longrightarrow> r \<noteq> None \<and> flight k' = flight k)"

lemma link_lawsD:
  assumes "link_laws sapi rapi flight"
  shows "xs \<noteq> [] \<Longrightarrow> LLBC_Send sapi (map Some xs) k = (r, k') \<Longrightarrow> (case r of Inl e \<Rightarrow> e \<noteq> Err_other \<and> flight k' = flight k
         | Inr n \<Rightarrow> 0 < n \<and> n \<le> length xs \<and> flight k' = flight k @ take n xs)"
    and "0 < n \<Longrightarrow> LLBC_Recv rapi n k = (r', k') \<Longrightarrow> (case r' of Inl e \<Rightarrow> e \<noteq> Err_other \<and> flight k' = flight k
         | Inr xs \<Rightarrow> xs \<noteq> [] \<and> length xs \<le> n \<and> flight k = xs @ flight k')"
    and "ioctl_fionread rapi k = (p, k') \<Longrightarrow> p \<noteq> None \<and> flight k' = flight k"
  using assms unfolding link_laws_def by blast+

text \<open>Sending returns: it hands over a prefix of the buffer, all of it unless the kernel stopped it.\<close>

lemma send_loop_ok:
  assumes laws: "link_laws sapi rapi flight"
  shows "mbuf_repr (sk_willSend sk) out \<Longrightarrow>
    \<exists>e m k' out1 out2. send_loop sapi sk k = Some (e, sk\<lparr>sk_willSend := m\<rparr>, k') \<and> out = out1 @ out2 \<and> flight k' = flight k @ out1
      \<and> mbuf_repr m out2 \<and> e \<noteq> Some Err_other \<and> (e = None \<longrightarrow> out2 = [])"
proof (induction "length out" arbitrary: sk out k rule: less_induct)
  case less
  note first = MBuf_FirstBlock_repr [OF less.prems]
  show ?case
  proof (cases "MBuf_FirstBlock (sk_willSend sk)")
    case None
    then show ?thesis using first(1) less.prems by (subst send_loop.simps) (auto intro!: exI [of _ "sk_willSend sk"])
  next
    case (Some b)
    obtain xs ys where xs: "mb_repr b xs" "xs \<noteq> []" "out = xs @ ys" using first(2) [OF Some] by blast
    note cells = MB_readable_cells [OF xs(1)]
    show ?thesis
    proof (cases "LLBC_Send sapi (map Some xs) k")
      case (Pair r k1)
      show ?thesis
      proof (cases r)
        case (Inl e)
        then show ?thesis
          using Pair Some cells less.prems link_lawsD(1) [OF laws xs(2) Pair]
          by (subst send_loop.simps) (auto intro!: exI [of _ "sk_willSend sk"] exI [of _ "[]"])
      next
        case (Inr n)
        then have n: "0 < n" "n \<le> length xs" "flight k1 = flight k @ take n xs" using link_lawsD(1) [OF laws xs(2) Pair] by auto
        obtain m where m: "MBuf_Remove n (sk_willSend sk) = Some (min n (length out), m)" "mbuf_repr m (drop n out)"
          using MBuf_Remove_repr [OF less.prems, of n] by blast
        have "length (drop n out) < length out" using n xs by simp
        from less.hyps [OF this, of "sk\<lparr>sk_willSend := m\<rparr>" k1] m(2) obtain e m' k' out1 out2 where
          r: "send_loop sapi (sk\<lparr>sk_willSend := m\<rparr>) k1 = Some (e, sk\<lparr>sk_willSend := m'\<rparr>, k')" "drop n out = out1 @ out2"
          "flight k' = flight k1 @ out1" "mbuf_repr m' out2" "e \<noteq> Some Err_other" "e = None \<longrightarrow> out2 = []"
          by (metis (no_types, lifting) socket.update_convs(3) socket.select_convs(3) socket.surjective)
        have "send_loop sapi sk k = Some (e, sk\<lparr>sk_willSend := m'\<rparr>, k')"
          using Some cells Pair Inr m(1) r(1) by (subst send_loop.simps) simp
        moreover have "out = (take n xs @ out1) @ out2" using r(2) n(2) xs(3) append_take_drop_id [of n out] by simp
        moreover have "flight k' = flight k @ take n xs @ out1" using r(3) n(3) by simp
        ultimately show ?thesis using r(4-6) by blast
      qed
    qed
  qed
qed

lemma recv_cells_repr:
  assumes "mb_repr b xs" "length ys \<le> MB_GetWritableSize b"
  defines "c \<equiv> snd (MB_ShiftWritePos (int (length ys)) (b\<lparr>mb_buf := write_cells (mb_writePos b) (map Some ys) (mb_buf b)\<rparr>))"
  shows "mb_repr c (xs @ ys)" "MB_GetSize c = MB_GetSize b"
proof -
  have fit: "mb_writePos b + length ys \<le> MB_GetSize b" using assms(1,2) unfolding MB_GetWritableSize_def mb_repr_def by linarith
  have size: "length (write_cells (mb_writePos b) (map Some ys) (mb_buf b)) = length (mb_buf b)"
    using fit by (simp add: write_cells_def MB_GetSize_def)
  have c: "c = b\<lparr>mb_buf := write_cells (mb_writePos b) (map Some ys) (mb_buf b), mb_writePos := mb_writePos b + length ys\<rparr>"
    using fit size by (simp add: c_def MB_ShiftWritePos_def MB_GetSize_def Let_def nat_add_distrib)
  show "mb_repr c (xs @ ys)" unfolding c by (rule MB_put_repr [OF assms(1) fit])
  show "MB_GetSize c = MB_GetSize b" using size by (simp add: c MB_GetSize_def)
qed

lemma MB_Allocate_repr:
  assumes "mb_repr b xs" "0 < n"
  shows "\<exists>c. MB_Allocate n b = Some (LLBC_OK, c) \<and> mb_repr c xs \<and> 0 < MB_GetWritableSize c"
proof -
  obtain c where "MB_Resize (MB_GetSize b + n) b = Some c" "mb_repr c xs" "MB_GetSize c = MB_GetSize b + n" "mb_writePos c = mb_writePos b"
    using MB_Resize_repr [OF assms(1), of "MB_GetSize b + n"] assms(2) by auto
  then show ?thesis using assms by (auto simp: MB_Allocate_def MB_GetWritableSize_def mb_repr_def)
qed

text \<open>Receiving returns: it takes a prefix of the bytes in flight and does not see an error or the end.\<close>

lemma recv_fill_ok:
  assumes laws: "link_laws sapi rapi flight"
  shows "mb_repr b xs \<Longrightarrow> 0 < MB_GetWritableSize b \<Longrightarrow>
    \<exists>e c k' ys. recv_fill rapi b flag k = Some (e, flag \<or> ys \<noteq> [], c, k') \<and> mb_repr c (xs @ ys) \<and> flight k = ys @ flight k'
      \<and> e \<noteq> End_closed \<and> e \<noteq> End_error Err_other"
proof (induction "length (flight k)" arbitrary: b xs flag k rule: less_induct)
  case less
  obtain r k1 where recv: "LLBC_Recv rapi (MB_GetWritableSize b) k = (r, k1)" by fastforce
  note law = link_lawsD(2) [OF laws less.prems(2) recv]
  show ?case
  proof (cases r)
    case (Inl e)
    then show ?thesis using recv law less.prems(1) by (subst recv_fill.simps) (auto intro!: exI [of _ "[]"])
  next
    case (Inr zs)
    let ?c = "snd (MB_ShiftWritePos (int (length zs)) (b\<lparr>mb_buf := write_cells (mb_writePos b) (map Some zs) (mb_buf b)\<rparr>))"
    have zs: "zs \<noteq> []" "length zs \<le> MB_GetWritableSize b" "flight k = zs @ flight k1" using law Inr by auto
    have c: "mb_repr ?c (xs @ zs)" using recv_cells_repr(1) [OF less.prems(1) zs(2)] by simp
    have go: ?thesis if d: "mb_repr d (xs @ zs)" "0 < MB_GetWritableSize d" "flight k2 = flight k1"
      "recv_fill rapi b flag k = recv_fill rapi d True k2" for d k2
    proof -
      have "length (flight k2) < length (flight k)" using zs d(3) by simp
      from less.hyps [OF this d(1,2), of True] obtain e c' k' ys where
        "recv_fill rapi d True k2 = Some (e, True, c', k')" "mb_repr c' ((xs @ zs) @ ys)" "flight k2 = ys @ flight k'"
        "e \<noteq> End_closed" "e \<noteq> End_error Err_other" by auto
      then show ?thesis using d(3,4) zs by (intro exI [of _ e] exI [of _ c'] exI [of _ k'] exI [of _ "zs @ ys"]) simp
    qed
    show ?thesis
    proof (cases "MB_GetWritableSize ?c = 0")
      case False
      then show ?thesis using go [OF c, of k1] recv Inr zs(1) by (simp add: recv_fill.simps [of _ b])
    next
      case True
      obtain p k2 where io: "ioctl_fionread rapi k1 = (p, k2)" by fastforce
      then obtain n where n: "p = Some n" "flight k2 = flight k1" using link_lawsD(3) [OF laws io] by auto
      show ?thesis
      proof (cases "n = 0")
        case n0: True
        have "recv_fill rapi b flag k = Some (End_more, True, ?c, k2)"
          using True recv Inr zs(1) io n(1) n0 by (simp add: recv_fill.simps [of _ b] Let_def)
        then show ?thesis using c zs n(2) by (intro exI [of _ End_more] exI [of _ ?c] exI [of _ k2] exI [of _ zs]) simp
      next
        case n0: False
        obtain d where d: "MB_Allocate n ?c = Some (LLBC_OK, d)" "mb_repr d (xs @ zs)" "0 < MB_GetWritableSize d"
          using MB_Allocate_repr [OF c, of n] n0 by auto
        show ?thesis
          using go [OF d(2,3) n(2)] True recv Inr zs(1) io n(1) n0 d(1) by (simp add: recv_fill.simps [of _ b] Let_def)
      qed
    qed
  qed
qed

text \<open>
  The two ends of one direction of a connection. The sender's session sends packets, both sessions handle events of their sockets in any
  order, and the network does what it likes with the bytes in flight except losing or changing them. \<open>cn_sent\<close> records the packets that were sent, as encoded.
\<close>

record ('c, 'k) link =
  cn_snd :: "'c session option"
  cn_rcv :: "'c session option"
  cn_net :: 'k
  cn_sev :: "'c svc_event list"
  cn_rev :: "'c svc_event list"
  cn_sent :: "packet list"

abbreviation (input) snd_world :: "('c, 'k) link \<Rightarrow> ('c, 'k) sworld" where
  "snd_world c \<equiv> \<lparr>sw_session = cn_snd c, sw_net = cn_net c, sw_events = cn_sev c\<rparr>"

abbreviation (input) rcv_world :: "('c, 'k) link \<Rightarrow> ('c, 'k) sworld" where
  "rcv_world c \<equiv> \<lparr>sw_session = cn_rcv c, sw_net = cn_net c, sw_events = cn_rev c\<rparr>"

abbreviation (input) set_snd :: "('c, 'k) sworld \<Rightarrow> ('c, 'k) link \<Rightarrow> ('c, 'k) link" where
  "set_snd w c \<equiv> c\<lparr>cn_snd := sw_session w, cn_net := sw_net w, cn_sev := sw_events w\<rparr>"

abbreviation (input) set_rcv :: "('c, 'k) sworld \<Rightarrow> ('c, 'k) link \<Rightarrow> ('c, 'k) link" where
  "set_rcv w c \<equiv> c\<lparr>cn_rcv := sw_session w, cn_net := sw_net w, cn_rev := sw_events w\<rparr>"

inductive link_step :: "'k sock_api \<Rightarrow> 'k sock_api \<Rightarrow> 'c coder_api \<Rightarrow> ('k \<Rightarrow> byte list) \<Rightarrow> nat \<Rightarrow> ('c, 'k) link \<Rightarrow> ('c, 'k) link \<Rightarrow> bool"
  for sapi rapi capi flight mx where
  cs_send: "Packet_Encode capi p = (True, q) \<Longrightarrow> packet_fits mx (cp_packet q) \<Longrightarrow> Session_Send capi rm p (snd_world c) = Some (ret, w) \<Longrightarrow>
    link_step sapi rapi capi flight mx c ((set_snd w c)\<lparr>cn_sent := cn_sent c @ [cp_packet q]\<rparr>)"
| cs_on_send: "Socket_OnSend sapi (snd_world c) = Some w \<Longrightarrow> link_step sapi rapi capi flight mx c (set_snd w c)"
| cs_on_recv: "Socket_OnRecv rapi capi (rcv_world c) = Some w \<Longrightarrow> link_step sapi rapi capi flight mx c (set_rcv w c)"
| cs_net: "flight k = flight (cn_net c) \<Longrightarrow> link_step sapi rapi capi flight mx c (c\<lparr>cn_net := k\<rparr>)"

text \<open>The event for a packet that passed the codec layer of the receiver.\<close>

definition arrival :: "'c coder_api \<Rightarrow> (cint \<rightharpoonup> 'c) \<Rightarrow> bool \<Rightarrow> cint \<Rightarrow> packet \<Rightarrow> 'c svc_event" where
  "arrival capi coders quiet sid q =
     (let p = the (codec_recv capi coders quiet q) in Ev_DataArrival (p\<lparr>cp_packet := (cp_packet p)\<lparr>pk_sessionId := sid\<rparr>\<rparr>))"

section \<open>The invariant of a connection\<close>

definition sender_ok :: "'c session \<Rightarrow> byte list \<Rightarrow> bool" where
  "sender_ok s out \<longleftrightarrow> ss_fullStack s \<and> (\<exists>coders pp. normal_stack coders pp (ss_stack s)) \<and> ps_reports (ss_stack s) = []
     \<and> so_sessionSendBufSize (ss_opts s) = LLBC_INFINITE \<and> mbuf_repr (sk_willSend (ss_socket s)) out"

definition receiver_ok :: "(cint \<rightharpoonup> 'c) \<Rightarrow> bool \<Rightarrow> proto_cfg \<Rightarrow> 'c session \<Rightarrow> byte list \<Rightarrow> bool" where
  "receiver_ok coders quiet cfg s rest \<longleftrightarrow> ss_fullStack s \<and> ss_id s = cfg_session cfg \<and> 0 < so_sessionRecvBufSize (ss_opts s)
     \<and> (ps_cfg (ss_stack s))\<lparr>cfg_max := sk_maxPacketSize (ss_socket s)\<rparr> = cfg \<and> ps_suppressed (ss_stack s) = quiet \<and> ps_reports (ss_stack s) = []
     \<and> (\<exists>pp. normal_stack coders pp (ss_stack s) \<and> proto_state cfg pp rest)"

lemma normal_stack_update [simp]:
  "normal_stack coders pp (st\<lparr>ps_reports := x\<rparr>) = normal_stack coders pp st" "normal_stack coders pp (st\<lparr>ps_cfg := y\<rparr>) = normal_stack coders pp st"
  by (simp_all add: normal_stack_def)

lemma Session_Send_ok:
  assumes "sw_session w = Some s" "sender_ok s out" "Packet_Encode capi p = (True, q)" "packet_wf (cp_packet q)"
  shows "\<exists>s'. Session_Send capi rm p w = Some (LLBC_OK, w\<lparr>sw_session := Some s'\<rparr>) \<and> sender_ok s' (out @ sent_bytes (cp_packet q))"
proof -
  obtain coders pp where ns: "normal_stack coders pp (ss_stack s)" using assms(2) by (auto simp: sender_ok_def)
  obtain b where b: "stack_Send capi p rm (ss_stack s) = Some (LLBC_OK, L_block b, rm, ss_stack s)" "mb_repr b (sent_bytes (cp_packet q))"
    using stack_Send_normal [OF ns assms(3)] assms(4) by (auto simp: packet_wf_def)
  obtain m where m: "MBuf_Append b (sk_willSend (ss_socket s)) = Some (LLBC_OK, m)" "mbuf_repr m (out @ sent_bytes (cp_packet q))"
    using MBuf_Append_repr [OF _ b(2)] assms(2) by (auto simp: sender_ok_def)
  let ?s = "s\<lparr>ss_stack := (ss_stack s)\<lparr>ps_reports := []\<rparr>, ss_socket := (ss_socket s)\<lparr>sk_willSend := m\<rparr>\<rparr>"
  have "Session_Send capi rm p w = Some (LLBC_OK, w\<lparr>sw_session := Some ?s\<rparr>)"
    using assms(1,2) b(1) m(1) by (simp add: Session_Send_def Session_Send_block_def Socket_AsyncSend_def flush_reports_def sender_ok_def)
  moreover have "sender_ok ?s (out @ sent_bytes (cp_packet q))" using assms(2) ns m(2) by (auto simp: sender_ok_def)
  ultimately show ?thesis by blast
qed

lemma Socket_OnSend_ok:
  assumes laws: "link_laws sapi rapi flight" and w: "sw_session w = Some s" and ok: "sender_ok s out"
  shows "\<exists>s' k' out1 out2. Socket_OnSend sapi w = Some (w\<lparr>sw_session := Some s', sw_net := k'\<rparr>) \<and> out = out1 @ out2
    \<and> flight k' = flight (sw_net w) @ out1 \<and> sender_ok s' out2"
proof -
  have "mbuf_repr (sk_willSend (ss_socket s)) out" using ok by (simp add: sender_ok_def)
  from send_loop_ok [OF laws this, of "sw_net w"] obtain e m k' out1 out2 where "send_loop sapi (ss_socket s) (sw_net w) = Some (e, (ss_socket s)\<lparr>sk_willSend := m\<rparr>, k')" "out = out1 @ out2"
    "flight k' = flight (sw_net w) @ out1" "mbuf_repr m out2" "e \<noteq> Some Err_other" by blast
  moreover from this have "Socket_OnSend sapi w = Some (w\<lparr>sw_session := Some (s\<lparr>ss_socket := (ss_socket s)\<lparr>sk_willSend := m\<rparr>\<rparr>), sw_net := k'\<rparr>)"
    using w by (simp add: Socket_OnSend_def)
  moreover have "sender_ok (s\<lparr>ss_socket := (ss_socket s)\<lparr>sk_willSend := m\<rparr>\<rparr>) out2" using ok calculation(4) by (simp add: sender_ok_def)
  ultimately show ?thesis by blast
qed

lemma after_recv_open: "e \<noteq> End_closed \<Longrightarrow> e \<noteq> End_error Err_other \<Longrightarrow> after_recv api e w = w"
  by (auto simp: after_recv_def split: recv_end.split sock_err.split)

lemma frames_wait: "proto_state cfg pp c \<Longrightarrow> frames (cfg_max cfg) c = ([], c, False)"
proof -
  assume "proto_state cfg pp c"
  then have "frame_split (cfg_max cfg) c = Frame_wait" by (auto simp: proto_state_def frame_split_def Let_def split: option.splits)
  then show ?thesis by (simp add: frames.simps [of _ c])
qed

lemma Session_OnRecved_ok:
  assumes "sw_session w = Some s" "receiver_ok coders quiet cfg s rest" "mb_repr b ys"
    and "frames (cfg_max cfg) (rest @ ys) = (gs, rest', False)" "\<And>q. codec_recv capi coders quiet q \<noteq> None"
  shows "\<exists>s' qs. Session_OnRecved api capi b w =
      Some (True, w\<lparr>sw_session := Some s', sw_events := sw_events w @ map (arrival capi coders quiet (cfg_session cfg)) qs\<rparr>)
    \<and> receiver_ok coders quiet cfg s' rest' \<and> list_all2 (frame_packet cfg) gs qs"
proof -
  let ?st = "(ss_stack s)\<lparr>ps_cfg := cfg\<rparr>"
  obtain pp where pp: "normal_stack coders pp (ss_stack s)" "proto_state cfg pp rest" using assms(2) by (auto simp: receiver_ok_def)
  obtain qs pp' where r: "PacketProtocol_Recv (ps_cfg ?st) ys pp = (LLBC_OK, False, qs, pp')" "proto_state cfg pp' rest'" "list_all2 (frame_packet cfg) gs qs"
    using recv_loop_ok [OF pp(2), of ys "[]"] assms(4) by (auto simp: PacketProtocol_Recv_def)
  have ns: "normal_stack coders pp ?st" using pp(1) by (simp add: normal_stack_def)
  have q: "ps_suppressed ?st = quiet" "(ps_cfg (ss_stack s))\<lparr>cfg_max := sk_maxPacketSize (ss_socket s)\<rparr> = cfg" using assms(2) by (simp_all add: receiver_ok_def)
  let ?ps = "map (\<lambda>q. the (codec_recv capi coders quiet q)) qs"
  have dec: "map (codec_recv capi coders (ps_suppressed ?st)) qs = map Some ?ps" using assms(5) q(1) by simp
  let ?st' = "?st\<lparr>ps_protos := (ps_protos ?st)(PackLayer \<mapsto> Proto_packet pp')\<rparr>"
  have recv: "stack_Recv capi b False ?st = Some (LLBC_OK, ?ps, False, ?st')" by (rule stack_Recv_normal [OF ns assms(3) r(1) dec])
  have "receiver_ok coders quiet cfg (s\<lparr>ss_stack := ?st'\<lparr>ps_reports := []\<rparr>\<rparr>) rest'"
    using assms(2) r(2) normal_stack_step [OF ns, of pp'] q(2) by (auto simp: receiver_ok_def)
  moreover have "Session_OnRecved api capi b w = Some (True, w\<lparr>sw_session := Some (s\<lparr>ss_stack := ?st'\<lparr>ps_reports := []\<rparr>\<rparr>),
      sw_events := sw_events w @ map (arrival capi coders quiet (cfg_session cfg)) qs\<rparr>)"
    using assms(1,2) recv q(2) by (simp add: Session_OnRecved_def flush_reports_def receiver_ok_def arrival_def Let_def)
  ultimately show ?thesis using r(3) by blast
qed

lemma Socket_OnRecv_ok:
  assumes laws: "link_laws sapi rapi flight" and w: "sw_session w = Some s" and ok: "receiver_ok coders quiet cfg s rest"
    and good: "\<And>ys zs. flight (sw_net w) = ys @ zs \<Longrightarrow> \<not> snd (snd (frames (cfg_max cfg) (rest @ ys)))"
    and acc: "\<And>q. codec_recv capi coders quiet q \<noteq> None"
  shows "\<exists>s' k' ys gs rest' qs. Socket_OnRecv rapi capi w =
      Some (w\<lparr>sw_session := Some s', sw_net := k', sw_events := sw_events w @ map (arrival capi coders quiet (cfg_session cfg)) qs\<rparr>)
    \<and> flight (sw_net w) = ys @ flight k' \<and> frames (cfg_max cfg) (rest @ ys) = (gs, rest', False)
    \<and> receiver_ok coders quiet cfg s' rest' \<and> list_all2 (frame_packet cfg) gs qs"
proof -
  let ?n = "so_sessionRecvBufSize (ss_opts s)"
  have "0 < MB_GetWritableSize (MB_new ?n)" using ok by (simp add: MB_GetWritableSize_def MB_new_def MB_GetSize_def receiver_ok_def)
  from recv_fill_ok [OF laws MB_new_repr this, of False "sw_net w"] obtain e b k' ys where
    f: "recv_fill rapi (MB_new ?n) False (sw_net w) = Some (e, ys \<noteq> [], b, k')" "mb_repr b ys" "flight (sw_net w) = ys @ flight k'"
    "e \<noteq> End_closed" "e \<noteq> End_error Err_other" by auto
  obtain gs rest' where g: "frames (cfg_max cfg) (rest @ ys) = (gs, rest', False)"
    using good [OF f(3)] by (cases "frames (cfg_max cfg) (rest @ ys)") auto
  show ?thesis
  proof (cases "ys = []")
    case True
    obtain pp where "proto_state cfg pp rest" using ok unfolding receiver_ok_def by blast
    then have "gs = []" "rest' = rest" using g True frames_wait [of cfg pp rest] by simp_all
    moreover have "w\<lparr>sw_net := k'\<rparr> = w\<lparr>sw_session := Some s, sw_net := k'\<rparr>" using w by simp
    then have "Socket_OnRecv rapi capi w = Some (w\<lparr>sw_session := Some s, sw_net := k'\<rparr>)"
      using w f(1) True by (simp add: Socket_OnRecv_def after_recv_open [OF f(4,5)])
    ultimately show ?thesis
      using f(3) g ok True by (intro exI [of _ s] exI [of _ k'] exI [of _ "[]"] exI [of _ gs] exI [of _ rest'] exI [of _ "[]"]) simp
  next
    case False
    obtain s' qs where r: "Session_OnRecved rapi capi b (w\<lparr>sw_net := k'\<rparr>) = Some (True, (w\<lparr>sw_net := k'\<rparr>)\<lparr>sw_session := Some s',
        sw_events := sw_events w @ map (arrival capi coders quiet (cfg_session cfg)) qs\<rparr>)"
      "receiver_ok coders quiet cfg s' rest'" "list_all2 (frame_packet cfg) gs qs"
      using Session_OnRecved_ok [of "w\<lparr>sw_net := k'\<rparr>", OF _ ok f(2) g acc, of rapi] w by auto
    have "w\<lparr>sw_net := k', sw_session := Some s', sw_events := x\<rparr> = w\<lparr>sw_session := Some s', sw_net := k', sw_events := x\<rparr>" for x by simp
    with r show ?thesis
      using w f False g
      by (intro exI [of _ s'] exI [of _ k'] exI [of _ ys] exI [of _ gs] exI [of _ rest'] exI [of _ qs]) (simp add: Socket_OnRecv_def after_recv_open [OF f(4,5)])
  qed
qed

definition link_inv :: "'c coder_api \<Rightarrow> (cint \<rightharpoonup> 'c) \<Rightarrow> bool \<Rightarrow> proto_cfg \<Rightarrow> ('k \<Rightarrow> byte list) \<Rightarrow> ('c, 'k) link \<Rightarrow> bool" where
  "link_inv capi coders quiet cfg flight c \<longleftrightarrow> (\<exists>s r out used fs rest qs. cn_snd c = Some s \<and> cn_rcv c = Some r
     \<and> sender_ok s out \<and> receiver_ok coders quiet cfg r rest
     \<and> concat (map sent_bytes (cn_sent c)) = used @ flight (cn_net c) @ out \<and> frames (cfg_max cfg) used = (fs, rest, False)
     \<and> list_all2 (frame_packet cfg) fs qs \<and> cn_rev c = map (arrival capi coders quiet (cfg_session cfg)) qs
     \<and> (\<forall>p \<in> set (cn_sent c). packet_fits (cfg_max cfg) p))"

text \<open>A fresh connection: both sessions as their constructors leave them, with the limits the sessions were given.\<close>

definition link_start :: "(cint \<rightharpoonup> 'c) \<Rightarrow> bool \<Rightarrow> proto_cfg \<Rightarrow> ('k \<Rightarrow> byte list) \<Rightarrow> ('c, 'k) link \<Rightarrow> bool" where
  "link_start coders quiet cfg flight c \<longleftrightarrow>
     (\<exists>opts sid acc mx coders' quiet'. so_sessionSendBufSize opts = LLBC_INFINITE
        \<and> cn_snd c = Session_new opts sid acc (Socket_new False mx) True NormalProtocolFactory coders' quiet')
   \<and> (\<exists>opts. 0 < so_sessionRecvBufSize opts
        \<and> cn_rcv c = Session_new opts (cfg_session cfg) (cfg_accept cfg) (Socket_new False (cfg_max cfg)) True NormalProtocolFactory coders quiet)
   \<and> flight (cn_net c) = [] \<and> cn_rev c = [] \<and> cn_sent c = []"

lemma frames_prefix_good:
  assumes "\<forall>p \<in> set ps. packet_fits mx p" "concat (map sent_bytes ps) = used @ tl_bytes"
  shows "\<not> snd (snd (frames mx used))"
proof
  assume "snd (snd (frames mx used))"
  then obtain fs r where "frames mx used = (fs, r, True)" by (cases "frames mx used") auto
  from frames_append_bad [OF this, of tl_bytes] show False using frames_sent_packets [OF assms(1)] assms(2) by auto
qed

lemma recv_good:
  assumes "\<forall>p \<in> set ps. packet_fits mx p" "concat (map sent_bytes ps) = used @ fl @ out" "frames mx used = (fs, rest, False)" "fl = ys @ zs"
  shows "\<not> snd (snd (frames mx (rest @ ys)))"
  using frames_prefix_good [OF assms(1), of "used @ ys" "zs @ out"] frames_append [OF assms(3), of ys] assms(2,4) by (auto split: prod.splits)

lemma Session_new_full:
  assumes "Session_new opts sid acc sk True NormalProtocolFactory coders quiet = Some s"
  shows "ss_fullStack s" "normal_stack coders PacketProtocol_new (ss_stack s)" "ps_reports (ss_stack s) = []" "ss_opts s = opts" "ss_socket s = sk"
    "ss_id s = sid" "ps_suppressed (ss_stack s) = quiet" "ps_cfg (ss_stack s) = \<lparr>cfg_max = sk_maxPacketSize sk, cfg_session = sid, cfg_accept = acc\<rparr>"
  using assms CreateFullStack_normal [of coders quiet] by (auto simp: Session_new_def)

lemma Session_new_exists: "\<exists>s. Session_new opts sid acc sk True NormalProtocolFactory coders quiet = Some s"
  using CreateFullStack_normal [of coders quiet] by (auto simp: Session_new_def)

lemma link_inv_start: "link_start coders quiet cfg flight c \<Longrightarrow> link_inv capi coders quiet cfg flight c"
proof -
  assume start: "link_start coders quiet cfg flight c"
  obtain opts sid acc mx coders' quiet' s where s: "so_sessionSendBufSize opts = LLBC_INFINITE" "cn_snd c = Some s"
    "Session_new opts sid acc (Socket_new False mx) True NormalProtocolFactory coders' quiet' = Some s"
    using start Session_new_exists unfolding link_start_def by metis
  obtain opts' r where r: "0 < so_sessionRecvBufSize opts'" "cn_rcv c = Some r"
    "Session_new opts' (cfg_session cfg) (cfg_accept cfg) (Socket_new False (cfg_max cfg)) True NormalProtocolFactory coders quiet = Some r"
    using start Session_new_exists unfolding link_start_def by metis
  note fs = Session_new_full [OF s(3)] and fr = Session_new_full [OF r(3)]
  have "sender_ok s []" using fs s(1) MBuf_new_repr by (auto simp: sender_ok_def Socket_new_def)
  moreover have "receiver_ok coders quiet cfg r []" using fr r(1) proto_state_new [of cfg] by (auto simp: receiver_ok_def Socket_new_def)
  moreover have "frames (cfg_max cfg) [] = ([], [], False)" by (rule frames_wait [OF proto_state_new])
  ultimately show ?thesis using s(2) r(2) start by (fastforce simp: link_inv_def link_start_def)
qed

lemma link_inv_step:
  assumes laws: "link_laws sapi rapi flight" and acc: "\<And>q. codec_recv capi coders quiet q \<noteq> None"
    and inv: "link_inv capi coders quiet cfg flight c" and step: "link_step sapi rapi capi flight (cfg_max cfg) c d"
  shows "link_inv capi coders quiet cfg flight d"
proof -
  obtain s r out used fs rest qs where c: "cn_snd c = Some s" "cn_rcv c = Some r" "sender_ok s out" "receiver_ok coders quiet cfg r rest"
    "concat (map sent_bytes (cn_sent c)) = used @ flight (cn_net c) @ out" "frames (cfg_max cfg) used = (fs, rest, False)"
    "list_all2 (frame_packet cfg) fs qs" "cn_rev c = map (arrival capi coders quiet (cfg_session cfg)) qs"
    "\<forall>p \<in> set (cn_sent c). packet_fits (cfg_max cfg) p" using inv unfolding link_inv_def by blast
  show ?thesis
    using step
  proof (cases rule: link_step.cases)
    case (cs_send p q rm ret w)
    obtain s' where "Session_Send capi rm p (snd_world c) = Some (LLBC_OK, (snd_world c)\<lparr>sw_session := Some s'\<rparr>)"
      "sender_ok s' (out @ sent_bytes (cp_packet q))"
      using Session_Send_ok [of "snd_world c", OF _ c(3) cs_send(2), of rm] c(1) cs_send(3) by (auto simp: packet_fits_def)
    then show ?thesis
      using cs_send c unfolding link_inv_def
      by (intro exI [of _ s'] exI [of _ r] exI [of _ "out @ sent_bytes (cp_packet q)"] exI [of _ used] exI [of _ fs] exI [of _ rest] exI [of _ qs]) auto
  next
    case (cs_on_send w)
    obtain s' k' out1 out2 where "Socket_OnSend sapi (snd_world c) = Some ((snd_world c)\<lparr>sw_session := Some s', sw_net := k'\<rparr>)"
      "out = out1 @ out2" "flight k' = flight (cn_net c) @ out1" "sender_ok s' out2"
      using Socket_OnSend_ok [OF laws, of "snd_world c", OF _ c(3)] c(1) by auto
    then show ?thesis
      using cs_on_send c unfolding link_inv_def
      by (intro exI [of _ s'] exI [of _ r] exI [of _ out2] exI [of _ used] exI [of _ fs] exI [of _ rest] exI [of _ qs]) auto
  next
    case (cs_on_recv w)
    have app: "frames (cfg_max cfg) (used @ ys) = (case frames (cfg_max cfg) (rest @ ys) of (gs, r', err) \<Rightarrow> (fs @ gs, r', err))" for ys
      by (rule frames_append [OF c(6)])
    obtain r' k' ys gs rest' ps where r': "Socket_OnRecv rapi capi (rcv_world c) = Some ((rcv_world c)\<lparr>sw_session := Some r', sw_net := k',
        sw_events := cn_rev c @ map (arrival capi coders quiet (cfg_session cfg)) ps\<rparr>)"
      "flight (cn_net c) = ys @ flight k'" "frames (cfg_max cfg) (rest @ ys) = (gs, rest', False)"
      "receiver_ok coders quiet cfg r' rest'" "list_all2 (frame_packet cfg) gs ps"
      using Socket_OnRecv_ok [OF laws, of "rcv_world c", OF _ c(4) _ acc] c(2) recv_good [OF c(9,5,6)] by auto
    then show ?thesis
      using cs_on_recv c app [of ys] unfolding link_inv_def
      by (intro exI [of _ s] exI [of _ r'] exI [of _ out] exI [of _ "used @ ys"] exI [of _ "fs @ gs"] exI [of _ rest'] exI [of _ "qs @ ps"])
        (auto intro: list_all2_appendI)
  next
    case (cs_net k)
    then show ?thesis
      using c unfolding link_inv_def
      by (intro exI [of _ s] exI [of _ r] exI [of _ out] exI [of _ used] exI [of _ fs] exI [of _ rest] exI [of _ qs]) auto
  qed
qed

definition link_ready :: "'k sock_api \<Rightarrow> 'k sock_api \<Rightarrow> 'c coder_api \<Rightarrow> (cint \<rightharpoonup> 'c) \<Rightarrow> bool \<Rightarrow> proto_cfg \<Rightarrow> ('k \<Rightarrow> byte list) \<Rightarrow> ('c, 'k) link \<Rightarrow> bool" where
  "link_ready sapi rapi capi coders quiet cfg flight c \<longleftrightarrow>
     link_laws sapi rapi flight \<and> (\<forall>q. codec_recv capi coders quiet q \<noteq> None) \<and> link_start coders quiet cfg flight c"

interpretation link_run: transition_invariant "link_ready sapi rapi capi coders quiet cfg flight" "link_step sapi rapi capi flight (cfg_max cfg)"
    "\<lambda>c. link_laws sapi rapi flight \<and> (\<forall>q. codec_recv capi coders quiet q \<noteq> None) \<and> link_inv capi coders quiet cfg flight c"
  for sapi rapi capi coders quiet cfg flight
proof unfold_locales
  show "link_laws sapi rapi flight \<and> (\<forall>q. codec_recv capi coders quiet q \<noteq> None) \<and> link_inv capi coders quiet cfg flight c"
    if "link_ready sapi rapi capi coders quiet cfg flight c" for c
    using that link_inv_start unfolding link_ready_def by blast
  show "link_laws sapi rapi flight \<and> (\<forall>q. codec_recv capi coders quiet q \<noteq> None) \<and> link_inv capi coders quiet cfg flight d"
    if "link_laws sapi rapi flight \<and> (\<forall>q. codec_recv capi coders quiet q \<noteq> None) \<and> link_inv capi coders quiet cfg flight c"
      "link_step sapi rapi capi flight (cfg_max cfg) c d" for c d
    using that link_inv_step by blast
qed

lemma link_inv_delivered:
  assumes "link_inv capi coders quiet cfg flight c"
  shows "\<exists>s qs ps later. cn_snd c = Some s \<and> cn_rcv c \<noteq> None \<and> cn_rev c = map (arrival capi coders quiet (cfg_session cfg)) qs
    \<and> cn_sent c = ps @ later \<and> list_all2 (received_as cfg) ps qs
    \<and> (flight (cn_net c) = [] \<and> MBuf_GetSize (sk_willSend (ss_socket s)) = 0 \<longrightarrow> later = [])"
proof -
  obtain s r out used fs rest qs where c: "cn_snd c = Some s" "cn_rcv c = Some r" "sender_ok s out" "receiver_ok coders quiet cfg r rest"
    "concat (map sent_bytes (cn_sent c)) = used @ flight (cn_net c) @ out" "frames (cfg_max cfg) used = (fs, rest, False)"
    "list_all2 (frame_packet cfg) fs qs" "cn_rev c = map (arrival capi coders quiet (cfg_session cfg)) qs"
    "\<forall>p \<in> set (cn_sent c). packet_fits (cfg_max cfg) p" using assms unfolding link_inv_def by blast
  let ?f = "\<lambda>p. (frame_header p (packet_bytes p), packet_bytes p)"
  obtain gs where gs: "fs @ gs = map ?f (cn_sent c)"
    using frames_append [OF c(6), of "flight (cn_net c) @ out"] frames_sent_packets [OF c(9)] c(5) by (auto split: prod.splits)
  then obtain ps later where ps: "cn_sent c = ps @ later" "fs = map ?f ps" "gs = map ?f later"
    by (auto simp: append_eq_map_conv)
  have "list_all2 (received_as cfg) ps qs" using frame_packets_received [of cfg ps qs] c(7,9) ps by auto
  moreover have "later = []" if "flight (cn_net c) = []" "MBuf_GetSize (sk_willSend (ss_socket s)) = 0"
  proof -
    have "out = []" using that(2) c(3) mbuf_repr_size by (fastforce simp: sender_ok_def)
    then have "fs = map ?f (cn_sent c)" using c(5,6) that(1) frames_sent_packets [OF c(9)] by simp
    then show ?thesis using ps gs by simp
  qed
  ultimately show ?thesis
    using c(1,2,8) ps(1) by (intro exI [of _ s] exI [of _ qs] exI [of _ ps] exI [of _ later]) simp
qed

text \<open>A connection that passes everything on at once, for concrete runs.\<close>

definition loop_api :: "byte list sock_api" where
  "loop_api = \<lparr>LLBC_Send = \<lambda>xs k. (Inr (length xs), k @ map the xs),
     LLBC_Recv = \<lambda>n k. if k = [] then (Inl Err_wblock, k) else (Inr (take n k), drop n k),
     ioctl_fionread = \<lambda>k. (Some (length k), k), LLBC_CloseSocket = \<lambda>k. k\<rparr>"

lemma loop_api_laws: "link_laws loop_api loop_api id"
  by (auto simp: link_laws_def loop_api_def comp_def)

definition no_coders :: "unit coder_api" where
  "no_coders = \<lparr>coder_Encode = \<lambda>c p. (True, p), coder_Decode = \<lambda>c p. (True, c, p)\<rparr>"

section \<open>Properties\<close>



text \<open>A session with a limit for its send buffer refuses a block that would reach the limit, and keeps what is in the buffer.\<close>

theorem send_limit_refuses:
  assumes "sw_session w = Some s" "so_sessionSendBufSize (ss_opts s) \<noteq> LLBC_INFINITE" "mbuf_repr (sk_willSend (ss_socket s)) out" "mb_repr b bs"
  shows "if so_sessionSendBufSize (ss_opts s) \<le> length out + length bs then Session_Send_block b w = Some (LLBC_FAILED, w)
    else \<exists>m. Session_Send_block b w = Some (LLBC_OK, w\<lparr>sw_session := Some (s\<lparr>ss_socket := (ss_socket s)\<lparr>sk_willSend := m\<rparr>\<rparr>)\<rparr>)
      \<and> mbuf_repr m (out @ bs) \<and> MBuf_GetSize m < so_sessionSendBufSize (ss_opts s)"
  using assms(1,2) MBuf_Append_repr [OF assms(3,4)] MB_readable [OF assms(4)] mbuf_repr_size [OF assms(3)] mbuf_repr_size [of _ "out @ bs"]
  by (auto simp: Session_Send_block_def Socket_AsyncSend_def)

text \<open>When the codec layer refuses a packet of the last piece of a stream, the end of the stream that was seen together with it is
  forgotten: the session is not closed although the peer has closed the connection.\<close>

theorem refused_packet_hides_close:
  assumes "sw_session w = Some s" "recv_fill api (MB_new (so_sessionRecvBufSize (ss_opts s))) False (sw_net w) = Some (End_closed, True, b, k)"
    and "ss_fullStack s" "stack_Recv capi b False ((ss_stack s)\<lparr>ps_cfg := (ps_cfg (ss_stack s))\<lparr>cfg_max := sk_maxPacketSize (ss_socket s)\<rparr>\<rparr>) = Some (LLBC_FAILED, ps, False, st)"
  shows "\<exists>w'. Socket_OnRecv api capi w = Some w' \<and> sw_session w' \<noteq> None \<and> sw_net w' = k"
  using assms by (simp add: Socket_OnRecv_def Session_OnRecved_def flush_reports_def Let_def)

end
