(* ===== verification/Llbc_Service.thy ===== *)
theory Llbc_Service
  imports Llbc_Session
begin

text \<open>
  The part of \<open>LLBC_ServiceImpl\<close> (3rd/llbc/llbc/src/comm/ServiceImpl.cpp) between the sessions and the components: the table of ready
  sessions, subscribing handlers, sending, multicast and broadcast, and the handlers of the events that sessions push. Handlers and
  components are code of the application: functions on a state \<open>'w\<close>. The lock of the session table is a spin lock and is modelled,
  because taking it twice never returns; the recursive lock of the service is not. What goes to the pollers is recorded with the
  index of the poller (\<open>LLBC_PollerMgr\<close>). \<open>None\<close> is a call that does not return or uses an object that does not exist.
\<close>

section \<open>State\<close>

record 'c ready_info =
  ri_isListen :: bool
  ri_codecStack :: "'c stack option"

datatype 'c poller_msg = PM_send "'c cpacket" | PM_close cint string | PM_ctrl cint

type_synonym ('c, 'w) handler = "'c cpacket \<Rightarrow> 'w \<Rightarrow> 'w"

type_synonym ('c, 'w) pre_handler = "'c cpacket \<Rightarrow> 'w \<Rightarrow> bool \<times> 'c cpacket \<times> 'w"

text \<open>A component: whether it is started, and its callbacks.\<close>

record ('c, 'w) component =
  cm_started :: bool
  cm_OnSessionCreate :: "cint \<Rightarrow> cint \<Rightarrow> bool \<Rightarrow> 'w \<Rightarrow> 'w"
  cm_OnSessionDestroy :: "cint \<Rightarrow> cint \<Rightarrow> bool \<Rightarrow> close_info \<Rightarrow> 'w \<Rightarrow> 'w"
  cm_OnUnHandledPacket :: "('c, 'w) handler"
  cm_OnAsyncConnResult :: "cint \<Rightarrow> bool \<Rightarrow> 'w \<Rightarrow> 'w"
  cm_OnProtoReport :: "cint \<Rightarrow> cint \<Rightarrow> layer \<Rightarrow> report_level \<Rightarrow> 'w \<Rightarrow> 'w"

record ('c, 'w) service =
  sv_id :: cint
  sv_started :: bool
  sv_initingComp :: bool
  sv_fullStack :: bool
  sv_suppressed :: bool
  sv_pollerCount :: nat
  sv_dftFactory :: factory
  sv_factories :: "cint \<rightharpoonup> factory"
  sv_coders :: "cint \<rightharpoonup> 'c"
  sv_ready :: "cint \<rightharpoonup> 'c ready_info"
  sv_readyLock :: bool
  sv_handlers :: "cint \<rightharpoonup> ('c, 'w) handler"
  sv_preHandlers :: "cint \<rightharpoonup> ('c, 'w) pre_handler"
  sv_unifyPreHandler :: "('c, 'w) pre_handler option"
  sv_statusHandlers :: "cint \<rightharpoonup> cint \<rightharpoonup> ('c, 'w) handler"
  sv_comps :: "('c, 'w) component list"
  sv_toPollers :: "(nat \<times> 'c poller_msg) list"
  sv_toServices :: "(cint \<times> 'c cpacket) list"

definition ready_lock :: "('c, 'w) service \<Rightarrow> ('c, 'w) service option" where
  "ready_lock s = (if sv_readyLock s then None else Some (s\<lparr>sv_readyLock := True\<rparr>))"

definition ready_unlock :: "('c, 'w) service \<Rightarrow> ('c, 'w) service" where
  "ready_unlock s = s\<lparr>sv_readyLock := False\<rparr>"

section \<open>Configuration\<close>

text \<open>Before the service is started, or while its components are initialized.\<close>

definition can_configure :: "('c, 'w) service \<Rightarrow> bool" where
  "can_configure s \<longleftrightarrow> \<not> (sv_started s \<and> \<not> sv_initingComp s)"

definition SuppressCoderNotFoundWarning :: "('c, 'w) service \<Rightarrow> int \<times> ('c, 'w) service" where
  "SuppressCoderNotFoundWarning s = (if sv_started s then (LLBC_FAILED, s) else (LLBC_OK, s\<lparr>sv_suppressed := True\<rparr>))"

definition AddCoderFactory :: "cint \<Rightarrow> 'c option \<Rightarrow> ('c, 'w) service \<Rightarrow> int \<times> ('c, 'w) service" where
  "AddCoderFactory opcode f s = (case f of
       None \<Rightarrow> (LLBC_FAILED, s)
     | Some f \<Rightarrow>
         if \<not> can_configure s then (LLBC_FAILED, s)
         else if sv_coders s opcode \<noteq> None then (LLBC_FAILED, s)
         else (LLBC_OK, s\<lparr>sv_coders := (sv_coders s)(opcode \<mapsto> f)\<rparr>))"

definition Subscribe :: "cint \<Rightarrow> ('c, 'w) handler option \<Rightarrow> ('c, 'w) service \<Rightarrow> int \<times> ('c, 'w) service" where
  "Subscribe opcode h s = (case h of
       None \<Rightarrow> (LLBC_FAILED, s)
     | Some h \<Rightarrow>
         if \<not> can_configure s then (LLBC_FAILED, s)
         else if sv_handlers s opcode \<noteq> None then (LLBC_FAILED, s)
         else (LLBC_OK, s\<lparr>sv_handlers := (sv_handlers s)(opcode \<mapsto> h)\<rparr>))"

definition PreSubscribe :: "cint \<Rightarrow> ('c, 'w) pre_handler option \<Rightarrow> ('c, 'w) service \<Rightarrow> int \<times> ('c, 'w) service" where
  "PreSubscribe opcode h s = (case h of
       None \<Rightarrow> (LLBC_FAILED, s)
     | Some h \<Rightarrow>
         if \<not> can_configure s then (LLBC_FAILED, s)
         else if sv_preHandlers s opcode \<noteq> None then (LLBC_FAILED, s)
         else (LLBC_OK, s\<lparr>sv_preHandlers := (sv_preHandlers s)(opcode \<mapsto> h)\<rparr>))"

definition UnifyPreSubscribe :: "('c, 'w) pre_handler option \<Rightarrow> ('c, 'w) service \<Rightarrow> int \<times> ('c, 'w) service" where
  "UnifyPreSubscribe h s =
     (if h = None then (LLBC_FAILED, s)
      else if \<not> can_configure s then (LLBC_FAILED, s)
      else if sv_unifyPreHandler s \<noteq> None then (LLBC_FAILED, s)
      else (LLBC_OK, s\<lparr>sv_unifyPreHandler := h\<rparr>))"

definition SubscribeStatus :: "cint \<Rightarrow> cint \<Rightarrow> ('c, 'w) handler option \<Rightarrow> ('c, 'w) service \<Rightarrow> int \<times> ('c, 'w) service" where
  "SubscribeStatus opcode status h s = (case h of
       None \<Rightarrow> (LLBC_FAILED, s)
     | Some h \<Rightarrow>
         if \<not> can_configure s then (LLBC_FAILED, s)
         else if status = 0 then (LLBC_FAILED, s)
         else let m = (case sv_statusHandlers s opcode of None \<Rightarrow> Map.empty | Some m \<Rightarrow> m)
              in if m status \<noteq> None then (LLBC_FAILED, s\<lparr>sv_statusHandlers := (sv_statusHandlers s)(opcode \<mapsto> m)\<rparr>)
                 else (LLBC_OK, s\<lparr>sv_statusHandlers := (sv_statusHandlers s)(opcode \<mapsto> m(status \<mapsto> h))\<rparr>))"

section \<open>Sessions\<close>

definition AddSessionProtocolFactory :: "cint \<Rightarrow> factory \<Rightarrow> ('c, 'w) service \<Rightarrow> ('c, 'w) service" where
  "AddSessionProtocolFactory sid f s = s\<lparr>sv_factories := (sv_factories s)(sid \<mapsto> f)\<rparr>"

definition FindSessionProtocolFactory :: "cint \<Rightarrow> ('c, 'w) service \<Rightarrow> factory" where
  "FindSessionProtocolFactory sid s =
     (if sid = 0 then sv_dftFactory s else case sv_factories s sid of None \<Rightarrow> sv_dftFactory s | Some f \<Rightarrow> f)"

definition RemoveSessionProtocolFactory :: "cint \<Rightarrow> ('c, 'w) service \<Rightarrow> ('c, 'w) service" where
  "RemoveSessionProtocolFactory sid s = s\<lparr>sv_factories := (sv_factories s)(sid := None)\<rparr>"

definition new_ready_info :: "cint \<Rightarrow> cint \<Rightarrow> bool \<Rightarrow> ('c, 'w) service \<Rightarrow> 'c ready_info" where
  "new_ready_info sid acceptId isListen s =
     \<lparr>ri_isListen = isListen,
      ri_codecStack = (if sv_fullStack s then None
        else Some (CreateCodecStack (FindSessionProtocolFactory (if acceptId \<noteq> 0 then acceptId else sid) s) (sv_coders s) (sv_suppressed s) None))\<rparr>"

text \<open>Whether the caller asks for the repeat check or not, an entry that exists is kept.\<close>

definition AddReadySession :: "cint \<Rightarrow> cint \<Rightarrow> bool \<Rightarrow> ('c, 'w) service \<Rightarrow> ('c, 'w) service option" where
  "AddReadySession sid acceptId isListen s = map_option
     (\<lambda>s. ready_unlock (if sv_ready s sid \<noteq> None then s else s\<lparr>sv_ready := (sv_ready s)(sid \<mapsto> new_ready_info sid acceptId isListen s)\<rparr>)) (ready_lock s)"

definition RemoveReadySession :: "cint \<Rightarrow> ('c, 'w) service \<Rightarrow> ('c, 'w) service option" where
  "RemoveReadySession sid s = map_option (\<lambda>s. ready_unlock (s\<lparr>sv_ready := (sv_ready s)(sid := None)\<rparr>)) (ready_lock s)"

definition RemoveAllReadySessions :: "('c, 'w) service \<Rightarrow> ('c, 'w) service option" where
  "RemoveAllReadySessions s = map_option (\<lambda>s. ready_unlock (s\<lparr>sv_ready := Map.empty\<rparr>)) (ready_lock s)"

definition IsSessionValidate :: "cint \<Rightarrow> ('c, 'w) service \<Rightarrow> (bool \<times> ('c, 'w) service) option" where
  "IsSessionValidate sid s =
     (if sid = 0 then Some (False, s) else map_option (\<lambda>s. (sv_ready s sid \<noteq> None, ready_unlock s)) (ready_lock s))"

text \<open>\<open>_pollers[sessionId % _pollerCount]\<close> with the remainder of the C language; there is no such poller for a negative id.\<close>

definition poller_index :: "nat \<Rightarrow> cint \<Rightarrow> nat option" where
  "poller_index n sid =
     (let i = (if sint sid < 0 then - ((- sint sid) mod int n) else sint sid mod int n) in if n = 0 \<or> i < 0 then None else Some (nat i))"

definition to_poller :: "cint \<Rightarrow> 'c poller_msg \<Rightarrow> ('c, 'w) service \<Rightarrow> ('c, 'w) service option" where
  "to_poller sid m s = map_option (\<lambda>i. s\<lparr>sv_toPollers := sv_toPollers s @ [(i, m)]\<rparr>) (poller_index (sv_pollerCount s) sid)"

definition RemoveSession :: "cint \<Rightarrow> string \<Rightarrow> ('c, 'w) service \<Rightarrow> (int \<times> ('c, 'w) service) option" where
  "RemoveSession sid reason s =
     (if \<not> sv_started s then Some (LLBC_FAILED, s)
      else Option.bind (ready_lock s)
             (\<lambda>s. if sv_ready s sid = None then Some (LLBC_FAILED, ready_unlock s)
                  else map_option (\<lambda>s. (LLBC_OK, ready_unlock (s\<lparr>sv_ready := (sv_ready s)(sid := None)\<rparr>))) (to_poller sid (PM_close sid reason) s)))"

text \<open>No codec protocol of the source sets \<open>removeSession\<close> in a control call.\<close>

definition service_CtrlProtocolStack :: "cint \<Rightarrow> ('c, 'w) service \<Rightarrow> (int \<times> ('c, 'w) service) option" where
  "service_CtrlProtocolStack sid s =
     (if \<not> sv_started s then Some (LLBC_FAILED, s)
      else Option.bind (ready_lock s)
             (\<lambda>s. case sv_ready s sid of
                 None \<Rightarrow> Some (LLBC_FAILED, ready_unlock s)
               | Some info \<Rightarrow> Option.bind (if sv_fullStack s then Some True else Option.bind (ri_codecStack info) CtrlStackCodec)
                   (\<lambda>go. if \<not> go then Some (LLBC_OK, ready_unlock s)
                        else map_option (\<lambda>s. (LLBC_OK, s)) (to_poller sid (PM_ctrl sid) (ready_unlock s)))))"

section \<open>Sending\<close>

text \<open>\<open>LockableSend\<close>. With a full stack the lock of the session table is given back before the packet goes to the poller, otherwise after
  the codec stack of the session has encoded it; \<open>rm\<close> is the uninitialized \<open>removeSession\<close>.\<close>

definition LockableSend :: "'c coder_api \<Rightarrow> bool \<Rightarrow> 'c cpacket \<Rightarrow> bool \<Rightarrow> ('c, 'w) service \<Rightarrow> (int \<times> ('c, 'w) service) option" where
  "LockableSend capi rm p validCheck s =
     (let sid = pk_sessionId (cp_packet p); q = p\<lparr>cp_packet := (cp_packet p)\<lparr>pk_senderSvcId := sv_id s\<rparr>\<rparr>
      in if \<not> sv_started s then Some (LLBC_FAILED, s)
         else if sv_fullStack s \<and> \<not> validCheck then map_option (\<lambda>s. (LLBC_OK, s)) (to_poller sid (PM_send q) s)
         else Option.bind (ready_lock s)
           (\<lambda>s. case sv_ready s sid of
               None \<Rightarrow> Some (LLBC_FAILED, ready_unlock s)
             | Some info \<Rightarrow>
                 if ri_isListen info then Some (LLBC_FAILED, ready_unlock s)
                 else if sv_fullStack s then map_option (\<lambda>s. (LLBC_OK, s)) (to_poller sid (PM_send q) (ready_unlock s))
                 else case ri_codecStack info of
                        None \<Rightarrow> None
                      | Some st \<Rightarrow> Option.bind (SendCodec capi q rm st)
                          (\<lambda>(ret, d, rm, st).
                             let s = ready_unlock (s\<lparr>sv_ready := (sv_ready s)(sid \<mapsto> info\<lparr>ri_codecStack := Some st\<rparr>)\<rparr>)
                             in if ret \<noteq> LLBC_OK
                                then map_option (\<lambda>s. (LLBC_FAILED, s)) (if rm then map_option snd (RemoveSession sid [] s) else Some s)
                                else case d of
                                       L_packet e \<Rightarrow> map_option (\<lambda>s. (LLBC_OK, s)) (to_poller (pk_sessionId (cp_packet e)) (PM_send e) s)
                                     | _ \<Rightarrow> None)))"

definition LockableSend_bytes ::
    "'c coder_api \<Rightarrow> bool \<Rightarrow> cint \<Rightarrow> cint \<Rightarrow> cint \<Rightarrow> byte list \<Rightarrow> cint \<Rightarrow> bool \<Rightarrow> ('c, 'w) service \<Rightarrow> (int \<times> ('c, 'w) service) option" where
  "LockableSend_bytes capi rm svcId sid opcode bytes status validCheck s =
     Option.bind (Packet_Write (map Some bytes) (Packet_SetHeader_svc svcId sid opcode status Packet_from_pool))
       (\<lambda>(ret, p). if ret \<noteq> LLBC_OK then Some (ret, s) else LockableSend capi rm (plain p) validCheck s)"

definition service_Send :: "'c coder_api \<Rightarrow> bool \<Rightarrow> 'c cpacket \<Rightarrow> ('c, 'w) service \<Rightarrow> (int \<times> ('c, 'w) service) option" where
  "service_Send capi rm p = LockableSend capi rm p True"

section \<open>Multicast and broadcast\<close>

fun send_each :: "'c coder_api \<Rightarrow> bool \<Rightarrow> 'c cpacket option list \<Rightarrow> ('c, 'w) service \<Rightarrow> ('c, 'w) service option" where
  "send_each capi rm [] s = Some s"
| "send_each capi rm (None # ps) s = send_each capi rm ps s"
| "send_each capi rm (Some p # ps) s = Option.bind (LockableSend capi rm p False s) (\<lambda>(_, s). send_each capi rm ps s)"

text \<open>The packets for the sessions after the first one. The iterator \<open>readySInfoIt\<close> is only assigned when \<open>validCheck\<close> is set, but always used.\<close>

fun other_packets :: "(cint \<Rightarrow> 'c cpacket option) \<Rightarrow> bool \<Rightarrow> (cint \<rightharpoonup> 'c ready_info) \<Rightarrow> cint list \<Rightarrow> 'c cpacket option list option" where
  "other_packets build validCheck ready [] = Some []"
| "other_packets build validCheck ready (sid # sids) =
     (if \<not> validCheck then None
      else case ready sid of
             None \<Rightarrow> map_option ((#) None) (other_packets build validCheck ready sids)
           | Some info \<Rightarrow>
               if ri_isListen info then map_option ((#) None) (other_packets build validCheck ready sids)
               else Option.bind (build sid) (\<lambda>p. map_option ((#) (Some p)) (other_packets build validCheck ready sids)))"

definition MulticastSendCoder ::
    "'c coder_api \<Rightarrow> bool \<Rightarrow> cint \<Rightarrow> cint list \<Rightarrow> cint \<Rightarrow> 'c option \<Rightarrow> cint \<Rightarrow> bool \<Rightarrow> ('c, 'w) service \<Rightarrow> (int \<times> ('c, 'w) service) option" where
  "MulticastSendCoder capi rm svcId sids opcode coder status validCheck s = (case sids of
       [] \<Rightarrow> Some (LLBC_OK, s)
     | sid # sids \<Rightarrow>
         if \<not> sv_started s then Some (LLBC_FAILED, s)
         else let head = (\<lambda>sid. Packet_SetHeader_svc svcId sid opcode status Packet_from_pool);
                  (ok, firstPacket) = Packet_Encode capi \<lparr>cp_packet = head sid, cp_encoder = coder, cp_decoder = None\<rparr>
              in if \<not> ok then Some (LLBC_FAILED, s)
                 else if sids = [] then LockableSend capi rm firstPacket validCheck s
                 else let payload = take (Packet_GetPayloadLength (cp_packet firstPacket)) (Packet_GetPayload (cp_packet firstPacket));
                          build = (\<lambda>sid. if coder = None then Some (plain (head sid)) else map_option (\<lambda>(_, p). plain p) (Packet_Write payload (head sid)))
                      in Option.bind (if validCheck then map_option (\<lambda>s. (s, ready_unlock s)) (ready_lock s) else Some (s, s))
                           (\<lambda>(held, s). Option.bind (other_packets build validCheck (sv_ready held) sids)
                             (\<lambda>others. Option.bind (LockableSend capi rm firstPacket validCheck s)
                               (\<lambda>(_, s). map_option (\<lambda>s. (LLBC_OK, s)) (send_each capi rm others s)))))"

text \<open>The ids of the sessions that are not listening, in the order of the map.\<close>

definition ready_ids :: "(cint \<rightharpoonup> 'c ready_info) \<Rightarrow> cint list" where
  "ready_ids ready = map of_int (sorted_list_of_set (sint ` {sid. \<exists>info. ready sid = Some info \<and> \<not> ri_isListen info}))"

definition Broadcast_coder :: "'c coder_api \<Rightarrow> bool \<Rightarrow> cint \<Rightarrow> cint \<Rightarrow> 'c option \<Rightarrow> cint \<Rightarrow> ('c, 'w) service \<Rightarrow> (int \<times> ('c, 'w) service) option" where
  "Broadcast_coder capi rm svcId opcode coder status s = Option.bind (ready_lock s)
     (\<lambda>s. MulticastSendCoder capi rm svcId (ready_ids (sv_ready s)) opcode coder status False (ready_unlock s))"

fun send_bytes_each :: "'c coder_api \<Rightarrow> bool \<Rightarrow> cint \<Rightarrow> cint list \<Rightarrow> cint \<Rightarrow> byte list \<Rightarrow> cint \<Rightarrow> bool \<Rightarrow> ('c, 'w) service \<Rightarrow> ('c, 'w) service option" where
  "send_bytes_each capi rm svcId [] opcode bytes status validCheck s = Some s"
| "send_bytes_each capi rm svcId (sid # sids) opcode bytes status validCheck s =
     Option.bind (LockableSend_bytes capi rm svcId sid opcode bytes status validCheck s)
       (\<lambda>(_, s). send_bytes_each capi rm svcId sids opcode bytes status validCheck s)"

text \<open>The other broadcast holds the lock of the session table while it sends.\<close>

definition Broadcast_bytes :: "'c coder_api \<Rightarrow> bool \<Rightarrow> cint \<Rightarrow> cint \<Rightarrow> byte list \<Rightarrow> cint \<Rightarrow> ('c, 'w) service \<Rightarrow> (int \<times> ('c, 'w) service) option" where
  "Broadcast_bytes capi rm svcId opcode bytes status s = Option.bind (ready_lock s)
     (\<lambda>s. map_option (\<lambda>s. (LLBC_OK, ready_unlock s)) (send_bytes_each capi rm svcId (ready_ids (sv_ready s)) opcode bytes status False s))"

definition Multicast_bytes ::
    "'c coder_api \<Rightarrow> bool \<Rightarrow> cint \<Rightarrow> cint list \<Rightarrow> cint \<Rightarrow> byte list \<Rightarrow> cint \<Rightarrow> ('c, 'w) service \<Rightarrow> (int \<times> ('c, 'w) service) option" where
  "Multicast_bytes capi rm svcId sids opcode bytes status s =
     (if \<not> sv_started s then Some (LLBC_FAILED, s)
      else map_option (\<lambda>s. (LLBC_OK, s)) (send_bytes_each capi rm svcId sids opcode bytes status True s))"

section \<open>Events\<close>

text \<open>A callback of all started components.\<close>

definition call_comps :: "(('c, 'w) component \<Rightarrow> 'w \<Rightarrow> 'w) \<Rightarrow> ('c, 'w) service \<Rightarrow> 'w \<Rightarrow> 'w" where
  "call_comps f s = fold (\<lambda>cm w. if cm_started cm then f cm w else w) (sv_comps s)"

definition HandleEv_SessionCreate :: "cint \<Rightarrow> cint \<Rightarrow> bool \<Rightarrow> ('c, 'w) service \<Rightarrow> 'w \<Rightarrow> (('c, 'w) service \<times> 'w) option" where
  "HandleEv_SessionCreate sid acceptId isListen s w = map_option
     (\<lambda>s. (s, call_comps (\<lambda>cm. cm_OnSessionCreate cm sid acceptId isListen) s w)) (AddReadySession sid acceptId isListen s)"

definition HandleEv_SessionDestroy :: "cint \<Rightarrow> cint \<Rightarrow> bool \<Rightarrow> close_info \<Rightarrow> ('c, 'w) service \<Rightarrow> 'w \<Rightarrow> (('c, 'w) service \<times> 'w) option" where
  "HandleEv_SessionDestroy sid acceptId isListen info s w = map_option
     (\<lambda>s. (if acceptId = 0 then RemoveSessionProtocolFactory sid s else s,
           call_comps (\<lambda>cm. cm_OnSessionDestroy cm sid acceptId isListen info) s w)) (RemoveReadySession sid s)"

definition HandleEv_AsyncConnResult :: "cint \<Rightarrow> bool \<Rightarrow> ('c, 'w) service \<Rightarrow> 'w \<Rightarrow> ('c, 'w) service \<times> 'w" where
  "HandleEv_AsyncConnResult sid connected s w =
     (if connected then s else RemoveSessionProtocolFactory sid s, call_comps (\<lambda>cm. cm_OnAsyncConnResult cm sid connected) s w)"

text \<open>The second half of \<open>HandleEv_DataArrival\<close>: status handler, pre-handlers, handler. The description of a status is not modelled.\<close>

definition handle_packet :: "'c cpacket \<Rightarrow> ('c, 'w) service \<Rightarrow> 'w \<Rightarrow> 'w" where
  "handle_packet p s w =
     (let opcode = pk_opcode (cp_packet p); status = pk_status (cp_packet p)
      in case (if status \<noteq> 0 then Option.bind (sv_statusHandlers s opcode) (\<lambda>m. m status) else None) of
           Some h \<Rightarrow> h p w
         | None \<Rightarrow>
             (case (case sv_preHandlers s opcode of
                      Some h \<Rightarrow> h p w
                    | None \<Rightarrow> (case sv_unifyPreHandler s of Some h \<Rightarrow> h p w | None \<Rightarrow> (True, p, w))) of
                (False, _, w) \<Rightarrow> w
              | (True, p, w) \<Rightarrow>
                  (case sv_handlers s opcode of
                     Some h \<Rightarrow> h p w
                   | None \<Rightarrow> call_comps (\<lambda>cm. cm_OnUnHandledPacket cm p) s w)))"

text \<open>\<open>peers\<close> says which other services of the process exist and are started.\<close>

definition HandleEv_DataArrival ::
    "'c coder_api \<Rightarrow> bool \<Rightarrow> (cint \<Rightarrow> bool) \<Rightarrow> 'c cpacket \<Rightarrow> ('c, 'w) service \<Rightarrow> 'w \<Rightarrow> (('c, 'w) service \<times> 'w) option" where
  "HandleEv_DataArrival capi rm peers p s w =
     (let sid = pk_sessionId (cp_packet p)
      in Option.bind (ready_lock s)
           (\<lambda>s. case sv_ready s sid of
               None \<Rightarrow> Some (ready_unlock s, w)
             | Some info \<Rightarrow> Option.bind
                 (if sv_fullStack s then Some (LLBC_OK, L_packet p, rm, ready_unlock s)
                  else case ri_codecStack info of
                         None \<Rightarrow> None
                       | Some st \<Rightarrow> map_option
                           (\<lambda>(ret, d, rm, st). (ret, d, rm, ready_unlock (s\<lparr>sv_ready := (sv_ready s)(sid \<mapsto> info\<lparr>ri_codecStack := Some st\<rparr>)\<rparr>)))
                           (RecvCodec capi p rm st))
                 (\<lambda>(ret, d, rm, s).
                    if ret \<noteq> LLBC_OK
                    then map_option (\<lambda>s. (s, w)) (if rm then map_option snd (RemoveSession sid [] s) else Some s)
                    else case d of
                           L_packet p \<Rightarrow>
                             (let recver = pk_recverSvcId (cp_packet p)
                              in if recver = 0 then Some (s, handle_packet (p\<lparr>cp_packet := (cp_packet p)\<lparr>pk_recverSvcId := sv_id s\<rparr>\<rparr>) s w)
                                 else if recver \<noteq> sv_id s
                                 then Some (if peers recver then s\<lparr>sv_toServices := sv_toServices s @ [(recver, p)]\<rparr> else s, w)
                                 else Some (s, handle_packet p s w))
                         | _ \<Rightarrow> None)))"

definition HandleEv_ProtoReport :: "cint \<Rightarrow> cint \<Rightarrow> layer \<Rightarrow> report_level \<Rightarrow> ('c, 'w) service \<Rightarrow> 'w \<Rightarrow> 'w" where
  "HandleEv_ProtoReport sid opcode l level s = call_comps (\<lambda>cm. cm_OnProtoReport cm sid opcode l level) s"

fun HandleQueuedEvents ::
    "'c coder_api \<Rightarrow> bool \<Rightarrow> (cint \<Rightarrow> bool) \<Rightarrow> 'c svc_event list \<Rightarrow> ('c, 'w) service \<Rightarrow> 'w \<Rightarrow> (('c, 'w) service \<times> 'w) option" where
  "HandleQueuedEvents capi rm peers [] s w = Some (s, w)"
| "HandleQueuedEvents capi rm peers (e # es) s w = Option.bind
     (case e of
        Ev_SessionCreate sid acceptId isListen \<Rightarrow> HandleEv_SessionCreate sid acceptId isListen s w
      | Ev_SessionDestroy sid acceptId isListen info \<Rightarrow> HandleEv_SessionDestroy sid acceptId isListen info s w
      | Ev_DataArrival p \<Rightarrow> HandleEv_DataArrival capi rm peers p s w
      | Ev_ProtoReport sid opcode l level \<Rightarrow> Some (s, HandleEv_ProtoReport sid opcode l level s w)
      | Ev_AsyncConn sid connected \<Rightarrow> Some (HandleEv_AsyncConnResult sid connected s w))
     (\<lambda>(s, w). HandleQueuedEvents capi rm peers es s w)"

section \<open>Lemmas\<close>

text \<open>Whether a packet may be sent to a session, and the packet with the id of the sending service.\<close>

definition sendable :: "('c, 'w) service \<Rightarrow> cint \<Rightarrow> bool" where
  "sendable s sid \<longleftrightarrow> (\<exists>info. sv_ready s sid = Some info \<and> \<not> ri_isListen info)"

definition from_service :: "('c, 'w) service \<Rightarrow> 'c cpacket \<Rightarrow> 'c cpacket" where
  "from_service s p = p\<lparr>cp_packet := (cp_packet p)\<lparr>pk_senderSvcId := sv_id s\<rparr>\<rparr>"

definition polled :: "('c, 'w) service \<Rightarrow> 'c cpacket list \<Rightarrow> ('c, 'w) service" where
  "polled s ps = s\<lparr>sv_toPollers := sv_toPollers s @ map (\<lambda>p. (the (poller_index (sv_pollerCount s) (pk_sessionId (cp_packet p))), PM_send (from_service s p))) ps\<rparr>"

text \<open>A service with a full stack that is running and whose session table is not locked.\<close>

definition running :: "('c, 'w) service \<Rightarrow> bool" where
  "running s \<longleftrightarrow> sv_started s \<and> sv_fullStack s \<and> \<not> sv_readyLock s"

lemma ready_lock_unlock: "\<not> sv_readyLock s \<Longrightarrow> ready_lock s = Some (s\<lparr>sv_readyLock := True\<rparr>)" "\<not> sv_readyLock s \<Longrightarrow> ready_unlock (s\<lparr>sv_readyLock := True\<rparr>) = s"
  by (simp_all add: ready_lock_def ready_unlock_def)

lemma polled_Nil: "polled s [] = s" and polled_append: "polled (polled s ps) qs = polled s (ps @ qs)"
  by (simp_all add: polled_def from_service_def)

lemma polled_sel:
  "sv_ready (polled s ps) = sv_ready s" "sv_pollerCount (polled s ps) = sv_pollerCount s" "running (polled s ps) = running s"
  "sendable (polled s ps) = sendable s" "sv_id (polled s ps) = sv_id s" "from_service (polled s ps) = from_service s" "sv_started (polled s ps) = sv_started s"
  by (auto simp: polled_def running_def sendable_def from_service_def fun_eq_iff)

lemma poller_index_pos: "0 < n \<Longrightarrow> 0 \<le> sint sid \<Longrightarrow> poller_index n sid = Some (nat (sint sid mod int n))"
  using pos_mod_sign [of "int n" "sint sid"] by (simp add: poller_index_def Let_def not_less)

lemma poller_index_less: "poller_index n sid = Some i \<Longrightarrow> i < n"
  by (auto simp: poller_index_def Let_def nat_less_iff split: if_splits)

lemma to_poller_send:
  "poller_index (sv_pollerCount s) (pk_sessionId (cp_packet p)) \<noteq> None \<Longrightarrow> to_poller (pk_sessionId (cp_packet p)) (PM_send (from_service s p)) s = Some (polled s [p])"
  by (auto simp: to_poller_def polled_def)

lemma LockableSend_full:
  assumes "running s" "poller_index (sv_pollerCount s) (pk_sessionId (cp_packet p)) \<noteq> None"
  shows "LockableSend capi rm p chk s = Some (if chk \<and> \<not> sendable s (pk_sessionId (cp_packet p)) then (LLBC_FAILED, s) else (LLBC_OK, polled s [p]))"
  using assms to_poller_send [OF assms(2)]
  by (auto simp: LockableSend_def running_def ready_lock_unlock sendable_def from_service_def Let_def split: option.splits)

lemma LockableSend_stopped: "\<not> sv_started s \<Longrightarrow> LockableSend capi rm p chk s = Some (LLBC_FAILED, s)"
  by (simp add: LockableSend_def)

lemma send_each_full:
  assumes "running s" "\<forall>q \<in> set qs. \<forall>p. q = Some p \<longrightarrow> poller_index (sv_pollerCount s) (pk_sessionId (cp_packet p)) \<noteq> None"
  shows "send_each capi rm qs s = Some (polled s (concat (map (\<lambda>q. case q of None \<Rightarrow> [] | Some p \<Rightarrow> [p]) qs)))"
  using assms
proof (induction qs arbitrary: s)
  case (Cons q qs)
  then show ?case
  proof (cases q)
    case (Some p)
    have "LockableSend capi rm p False s = Some (LLBC_OK, polled s [p])" using Cons.prems Some by (subst LockableSend_full) auto
    then show ?thesis using Cons Some by (simp add: polled_sel polled_append)
  qed simp
qed (simp add: polled_Nil)

lemma other_packets_full:
  assumes "\<forall>sid \<in> set sids. build sid \<noteq> None"
  shows "other_packets build True (sv_ready s) sids = Some (map (\<lambda>sid. if sendable s sid then build sid else None) sids)"
  using assms by (induction sids) (auto simp: sendable_def split: option.splits)

lemma concat_options: "concat (map (\<lambda>sid. case (if P sid then f sid else None) of None \<Rightarrow> [] | Some p \<Rightarrow> [p]) sids)
    = map (\<lambda>sid. the (f sid)) (filter P sids)" if "\<forall>sid \<in> set sids. f sid \<noteq> None"
  using that by (induction sids) auto

text \<open>The packet for one session of a multicast.\<close>

definition cast_packet :: "cint \<Rightarrow> cint \<Rightarrow> cint \<Rightarrow> byte list \<Rightarrow> cint \<Rightarrow> packet \<Rightarrow> bool" where
  "cast_packet svcId opcode status bs sid p \<longleftrightarrow> pk_sessionId p = sid \<and> pk_recverSvcId p = svcId \<and> pk_opcode p = opcode \<and> pk_status p = status \<and> packet_repr p bs"

lemma cast_copy:
  "\<exists>q. Packet_Write (map Some bs) (Packet_SetHeader_svc svcId sid opcode status Packet_from_pool) = Some (LLBC_OK, q) \<and> cast_packet svcId opcode status bs sid q"
proof -
  have "packet_repr (Packet_SetHeader_svc svcId sid opcode status Packet_from_pool) []" using Packet_pool_repr by (simp add: packet_repr_def Packet_SetHeader_svc_def)
  from Packet_Write_spec [OF this, of bs] show ?thesis by (auto simp: packet_writes_def cast_packet_def Packet_SetHeader_svc_def packet_repr_def)
qed

lemma cast_head: "cast_packet svcId opcode status [] sid (Packet_SetHeader_svc svcId sid opcode status Packet_from_pool)"
  using Packet_pool_repr by (simp add: cast_packet_def Packet_SetHeader_svc_def packet_repr_def)

text \<open>Encoding the packet for the first session gives a packet with the payload \<open>bs\<close>; a coder only writes the payload.\<close>

definition cast_encodes :: "'c coder_api \<Rightarrow> 'c option \<Rightarrow> cint \<Rightarrow> cint \<Rightarrow> cint \<Rightarrow> cint \<Rightarrow> byte list \<Rightarrow> bool" where
  "cast_encodes capi coder svcId opcode status sid bs \<longleftrightarrow>
     (let (ok, p) = Packet_Encode capi \<lparr>cp_packet = Packet_SetHeader_svc svcId sid opcode status Packet_from_pool, cp_encoder = coder, cp_decoder = None\<rparr>
      in ok \<and> cast_packet svcId opcode status bs sid (cp_packet p))"

lemma MulticastSendCoder_full:
  fixes s :: "('c, 'w) service"
  assumes "running s" "cast_encodes capi coder svcId opcode status sid bs" "\<forall>sid \<in> set (sid # sids). poller_index (sv_pollerCount s) sid \<noteq> None"
  shows "\<exists>ret ps. MulticastSendCoder capi rm svcId (sid # sids) opcode coder status True s = Some (ret, polled s ps)
    \<and> list_all2 (\<lambda>sid p. cast_packet svcId opcode status bs sid (cp_packet p)) (filter (sendable s) (sid # sids)) ps
    \<and> (sids \<noteq> [] \<longrightarrow> ret = LLBC_OK)"
proof -
  let ?head = "\<lambda>sid. Packet_SetHeader_svc svcId sid opcode status Packet_from_pool"
  obtain first where first: "Packet_Encode capi \<lparr>cp_packet = ?head sid, cp_encoder = coder, cp_decoder = None\<rparr> = (True, first)"
    "cast_packet svcId opcode status bs sid (cp_packet first)" using assms(2) by (auto simp: cast_encodes_def split: prod.splits)
  have sid: "pk_sessionId (cp_packet first) = sid" and repr: "packet_repr (cp_packet first) bs" using first(2) by (simp_all add: cast_packet_def)
  let ?ps1 = "if sendable s sid then [first] else []"
  have send1: "LockableSend capi rm first True s = Some (if sendable s sid then LLBC_OK else LLBC_FAILED, polled s ?ps1)"
    using LockableSend_full [OF assms(1), of first] assms(3) sid by (simp add: polled_Nil)
  have started: "sv_started s" "\<not> sv_readyLock s" using assms(1) by (simp_all add: running_def)
  define build :: "cint \<Rightarrow> 'c cpacket option" where "build sid = (if coder = None then Some (plain (?head sid)) else map_option (\<lambda>(_, p). plain p) (Packet_Write (map Some bs) (?head sid)))" for sid
  have built: "\<exists>p. build sid = Some p \<and> cast_packet svcId opcode status bs sid (cp_packet p)" for sid
  proof (cases coder)
    case None
    then have "bs = []" using first repr Packet_pool_repr by (auto simp: Packet_Encode_def packet_repr_def Packet_SetHeader_svc_def Packet_from_pool_def Packet_new_def)
    then show ?thesis using None cast_head by (simp add: build_def plain_def)
  next
    case (Some c)
    then show ?thesis using cast_copy [of bs svcId sid opcode status] by (auto simp: build_def plain_def)
  qed
  show ?thesis
  proof (cases "sids = []")
    case True
    then show ?thesis
      using started first send1 by (intro exI [of _ "if sendable s sid then LLBC_OK else LLBC_FAILED"] exI [of _ ?ps1]) (simp add: MulticastSendCoder_def)
  next
    case False
    let ?ps2 = "map (\<lambda>sid. the (build sid)) (filter (sendable s) sids)"
    have some: "\<forall>sid \<in> set sids. build sid \<noteq> None" using built by fastforce
    have ids: "pk_sessionId (cp_packet p) = sid" if "build sid = Some p" for sid p using built [of sid] that by (auto simp: cast_packet_def)
    have others: "other_packets build True (sv_ready s) sids = Some (map (\<lambda>sid. if sendable s sid then build sid else None) sids)"
      by (rule other_packets_full [OF some])
    have idx: "poller_index (sv_pollerCount s) (pk_sessionId (cp_packet p)) \<noteq> None" if "sid' \<in> set sids" "build sid' = Some p" for sid' p
      using ids [OF that(2)] assms(3) that(1) by simp
    have "send_each capi rm (map (\<lambda>sid. if sendable s sid then build sid else None) sids) (polled s ?ps1) = Some (polled (polled s ?ps1) ?ps2)"
      unfolding concat_options [OF some, symmetric]
      by (subst send_each_full) (use idx assms(1) in \<open>auto simp: polled_sel comp_def split: if_splits\<close>)
    then have "MulticastSendCoder capi rm svcId (sid # sids) opcode coder status True s = Some (LLBC_OK, polled s (?ps1 @ ?ps2))"
      using False started first(1) send1 others packet_payload_cells [OF repr]
      by (simp add: MulticastSendCoder_def ready_lock_unlock polled_append build_def [abs_def])
    moreover have "list_all2 (\<lambda>sid p. cast_packet svcId opcode status bs sid (cp_packet p)) (filter (sendable s) sids) ?ps2"
      using built by (simp add: list_all2_conv_all_nth) (metis option.sel)
    ultimately show ?thesis using first(2) by (intro exI [of _ LLBC_OK] exI [of _ "?ps1 @ ?ps2"]) (auto intro: list_all2_appendI)
  qed
qed

text \<open>A packet that was addressed to no service gets the id of the service that received it.\<close>

definition addressed :: "('c, 'w) service \<Rightarrow> 'c cpacket \<Rightarrow> 'c cpacket" where
  "addressed s p = (if pk_recverSvcId (cp_packet p) = 0 then p\<lparr>cp_packet := (cp_packet p)\<lparr>pk_recverSvcId := sv_id s\<rparr>\<rparr> else p)"

text \<open>The packet is for this service, comes from a ready session, and its opcode has the handler \<open>h\<close> and nothing in front of it.\<close>

definition dispatches :: "('c, 'w) service \<Rightarrow> ('c, 'w) handler \<Rightarrow> 'c cpacket \<Rightarrow> bool" where
  "dispatches s h p \<longleftrightarrow> sv_ready s (pk_sessionId (cp_packet p)) \<noteq> None \<and> pk_recverSvcId (cp_packet p) \<in> {0, sv_id s} \<and> (pk_status (cp_packet p) = 0 \<or> sv_statusHandlers s (pk_opcode (cp_packet p)) = None)
     \<and> sv_preHandlers s (pk_opcode (cp_packet p)) = None \<and> sv_unifyPreHandler s = None \<and> sv_handlers s (pk_opcode (cp_packet p)) = Some h"

lemma HandleEv_DataArrival_dispatch:
  assumes "sv_fullStack s" "\<not> sv_readyLock s" "dispatches s h p"
  shows "HandleEv_DataArrival capi rm peers p s w = Some (s, h (addressed s p) w)"
  using assms by (auto simp: HandleEv_DataArrival_def dispatches_def ready_lock_unlock handle_packet_def addressed_def Let_def)

lemma HandleQueuedEvents_dispatch:
  assumes "sv_fullStack s" "\<not> sv_readyLock s" "\<forall>p \<in> set ps. dispatches s h p"
  shows "HandleQueuedEvents capi rm peers (map Ev_DataArrival ps) s w = Some (s, fold (\<lambda>p. h (addressed s p)) ps w)"
  using assms by (induction ps arbitrary: w) (auto simp: HandleEv_DataArrival_dispatch)

section \<open>Properties\<close>

text \<open>C18: a multicast encodes the message once and queues one packet with that payload for every session of the list to which a packet may be sent,
  in the order of the list, at the poller of the session and with the id of this service as the sender; sessions that are unknown or only listen are left out.
  Nothing else of the service changes.\<close>

theorem multicast_reaches_sessions:
  assumes "running s" "sids \<noteq> []" "cast_encodes capi coder svcId opcode status (hd sids) bs" "0 < sv_pollerCount s" "\<forall>sid \<in> set sids. 0 \<le> sint sid"
  shows "\<exists>ret ps. MulticastSendCoder capi rm svcId sids opcode coder status True s =
      Some (ret, s\<lparr>sv_toPollers := sv_toPollers s @ map (\<lambda>p. (nat (sint (pk_sessionId (cp_packet p)) mod int (sv_pollerCount s)), PM_send (from_service s p))) ps\<rparr>)
    \<and> list_all2 (\<lambda>sid p. cast_packet svcId opcode status bs sid (cp_packet p)) (filter (sendable s) sids) ps"
proof -
  obtain sid sids' where sids: "sids = sid # sids'" using assms(2) by (cases sids) auto
  have "\<forall>sid \<in> set (sid # sids'). poller_index (sv_pollerCount s) sid \<noteq> None" using assms(4,5) sids poller_index_pos by force
  then obtain ret ps where r: "MulticastSendCoder capi rm svcId sids opcode coder status True s = Some (ret, polled s ps)"
    "list_all2 (\<lambda>sid p. cast_packet svcId opcode status bs sid (cp_packet p)) (filter (sendable s) sids) ps"
    using MulticastSendCoder_full [OF assms(1), of capi coder svcId opcode status sid bs sids' rm] assms(3) sids by auto
  have "0 \<le> sint (pk_sessionId (cp_packet p))" if "p \<in> set ps" for p
    using r(2) that assms(5) by (auto simp: list_all2_conv_all_nth in_set_conv_nth cast_packet_def) (metis filter_is_subset nth_mem subsetD)
  then have eq: "map (\<lambda>p. (the (poller_index (sv_pollerCount s) (pk_sessionId (cp_packet p))), PM_send (from_service s p))) ps
      = map (\<lambda>p. (nat (sint (pk_sessionId (cp_packet p)) mod int (sv_pollerCount s)), PM_send (from_service s p))) ps"
    using poller_index_pos [OF assms(4)] by simp
  show ?thesis using r unfolding polled_def eq by blast
qed

text \<open>A service with two ready sessions, and one that listens.\<close>

definition service0 :: "(unit, unit) service" where
  "service0 = \<lparr>sv_id = 1, sv_started = True, sv_initingComp = False, sv_fullStack = True, sv_suppressed = True, sv_pollerCount = 4,
     sv_dftFactory = NormalProtocolFactory, sv_factories = Map.empty, sv_coders = Map.empty,
     sv_ready = [1 \<mapsto> \<lparr>ri_isListen = True, ri_codecStack = None\<rparr>, 2 \<mapsto> \<lparr>ri_isListen = False, ri_codecStack = None\<rparr>, 7 \<mapsto> \<lparr>ri_isListen = False, ri_codecStack = None\<rparr>],
     sv_readyLock = False, sv_handlers = Map.empty, sv_preHandlers = Map.empty, sv_unifyPreHandler = None, sv_statusHandlers = Map.empty,
     sv_comps = [], sv_toPollers = [], sv_toServices = []\<rparr>"

theorem multicast_reaches_sessions_witness:
  "\<exists>ret ps. MulticastSendCoder no_coders True 0 [1, 7, 2, 9] 5 None 0 True service0 =
      Some (ret, service0\<lparr>sv_toPollers := map (\<lambda>p. (nat (sint (pk_sessionId (cp_packet p)) mod 4), PM_send (from_service service0 p))) ps\<rparr>)
    \<and> list_all2 (\<lambda>sid p. cast_packet 0 5 0 [] sid (cp_packet p)) [7, 2] ps"
proof -
  have f: "filter (sendable service0) [1, 7, 2, 9] = [7, 2]" by (simp add: sendable_def service0_def)
  have enc: "cast_encodes no_coders None 0 5 0 1 []" using cast_head by (simp add: cast_encodes_def Packet_Encode_def)
  show ?thesis
    using multicast_reaches_sessions [of service0 "[1, 7, 2, 9]" no_coders None 0 5 0 "[]" True] f enc by (simp add: running_def) (simp add: service0_def)
qed

text \<open>The broadcast of a message does not return normally when more than one session is ready: the loop of \<open>MulticastSendCoder\<close> uses an iterator that was never assigned.\<close>

theorem broadcast_coder_crashes:
  assumes "sv_started s" "ready_ids (sv_ready s) = sid1 # sid2 # sids" "cast_encodes capi coder svcId opcode status sid1 bs"
  shows "Broadcast_coder capi rm svcId opcode coder status s = None"
  using assms by (auto simp: Broadcast_coder_def MulticastSendCoder_def ready_lock_def ready_unlock_def cast_encodes_def Let_def split: prod.splits)

text \<open>A service without a full stack never returns from a broadcast of bytes to a ready session: sending takes the lock that the broadcast holds.\<close>

theorem broadcast_bytes_deadlocks:
  assumes "sv_started s" "\<not> sv_fullStack s" "ready_ids (sv_ready s) = sid # sids"
  shows "Broadcast_bytes capi rm svcId opcode bytes status s = None"
proof (cases "sv_readyLock s")
  case False
  let ?s = "s\<lparr>sv_readyLock := True\<rparr>"
  obtain p where "Packet_Write (map Some bytes) (Packet_SetHeader_svc svcId sid opcode status Packet_from_pool) = Some (LLBC_OK, p)" using cast_copy by blast
  then have "LockableSend_bytes capi rm svcId sid opcode bytes status False ?s = None"
    using assms(1,2) by (simp add: LockableSend_bytes_def LockableSend_def ready_lock_def Let_def)
  then show ?thesis using assms(3) False by (simp add: Broadcast_bytes_def ready_lock_def)
qed (simp add: Broadcast_bytes_def ready_lock_def)

end
