(* ===== verification/Llbc_Poller.thy ===== *)
theory Llbc_Poller
  imports Llbc_Service
begin

text \<open>
  Pollers (3rd/llbc/llbc/src/comm/BasePoller.cpp, EpollPoller.cpp, PollerMgr.cpp) and the node they form with a service: a service with
  its queue of events, the pollers with their queues, sessions and pending connections, and the network. A poller handles the
  events of its queue one at a time; the handlers of the events are the whole functions of the source, with the virtual call of \<open>LLBC_EpollPoller\<close>.
  Addresses and socket options other than the maximum packet size are left out, and so are starting and stopping. The counter of session ids is kept
  as a natural number, an id is its value modulo \<open>2 ^ 32\<close>. \<open>None\<close> is a call that does not return, a null pointer or an index outside the array of pollers.
\<close>

section \<open>State\<close>

datatype conn_result = Conn_ok | Conn_wblock | Conn_failed

text \<open>Socket calls of the operating system layer, by the handle of the socket: a new socket that starts to connect, whether a pending connect has
  succeeded (\<open>SO_ERROR\<close>), \<open>GetPendingError\<close>, \<open>Accept\<close>.\<close>

record 'k net_api =
  na_sock :: "nat \<Rightarrow> 'k sock_api"
  na_connect :: "'k \<Rightarrow> (nat \<times> conn_result) \<times> 'k"
  na_connected :: "nat \<Rightarrow> 'k \<Rightarrow> bool \<times> 'k"
  na_pendingError :: "nat \<Rightarrow> 'k \<Rightarrow> sock_err option \<times> 'k"
  na_accept :: "nat \<Rightarrow> 'k \<Rightarrow> nat option \<times> 'k"

record epoll_event =
  ee_handle :: nat
  ee_session :: cint
  ee_in :: bool
  ee_out :: bool
  ee_hup :: bool

datatype 'c poller_ev =
    PE_AddSock nat socket cint sess_opts
  | PE_AsyncConn cint sess_opts
  | PE_Send "'c cpacket"
  | PE_Close cint string
  | PE_Monitor "epoll_event list"
  | PE_TakeOverSession nat "'c session"
  | PE_CtrlProtocolStack cint

text \<open>The sessions of a poller with the handles of their sockets; the connecting sockets by their handles.\<close>

record 'c poller =
  po_queue :: "'c poller_ev list"
  po_sessions :: "cint \<rightharpoonup> nat \<times> 'c session"
  po_connecting :: "nat \<rightharpoonup> cint \<times> sess_opts"

record ('c, 'w, 'k) node =
  nd_svc :: "('c, 'w) service"
  nd_app :: 'w
  nd_events :: "'c svc_event list"
  nd_pollers :: "'c poller list"
  nd_maxSessionId :: nat
  nd_net :: 'k

definition upd_poller :: "nat \<Rightarrow> ('c poller \<Rightarrow> 'c poller) \<Rightarrow> ('c, 'w, 'k) node \<Rightarrow> ('c, 'w, 'k) node" where
  "upd_poller i f nd = nd\<lparr>nd_pollers := (nd_pollers nd)[i := f (nd_pollers nd ! i)]\<rparr>"

definition svc_Push :: "'c svc_event \<Rightarrow> ('c, 'w, 'k) node \<Rightarrow> ('c, 'w, 'k) node" where
  "svc_Push e nd = nd\<lparr>nd_events := nd_events nd @ [e]\<rparr>"

text \<open>\<open>_pollers[sessionId % _pollerCount]->Push\<close>.\<close>

definition push_sid :: "cint \<Rightarrow> 'c poller_ev \<Rightarrow> ('c, 'w, 'k) node \<Rightarrow> ('c, 'w, 'k) node option" where
  "push_sid sid e nd = map_option (\<lambda>i. upd_poller i (\<lambda>P. P\<lparr>po_queue := po_queue P @ [e]\<rparr>) nd) (poller_index (length (nd_pollers nd)) sid)"

definition AllocSessionId :: "('c, 'w, 'k) node \<Rightarrow> cint \<times> ('c, 'w, 'k) node" where
  "AllocSessionId nd = (of_nat (nd_maxSessionId nd), nd\<lparr>nd_maxSessionId := nd_maxSessionId nd + 1\<rparr>)"

section \<open>Sessions of a poller\<close>

definition CreateSession :: "socket \<Rightarrow> cint \<Rightarrow> sess_opts \<Rightarrow> cint \<Rightarrow> ('c, 'w, 'k) node \<Rightarrow> ('c session \<times> ('c, 'w, 'k) node) option" where
  "CreateSession sk sid opts acceptId nd =
     (let (sid, nd) = (if sid = 0 then AllocSessionId nd else (sid, nd)); svc = nd_svc nd
      in map_option (\<lambda>s. (s, nd))
           (Session_new opts sid acceptId sk (sv_fullStack svc) (FindSessionProtocolFactory (if acceptId \<noteq> 0 then acceptId else sid) svc)
              (sv_coders svc) (sv_suppressed svc)))"

definition AddSession :: "nat \<Rightarrow> nat \<Rightarrow> 'c session \<Rightarrow> ('c, 'w, 'k) node \<Rightarrow> ('c, 'w, 'k) node option" where
  "AddSession i h s nd =
     (let sid = ss_id s; listen = sk_listenSocket (ss_socket s);
          nd = upd_poller i (\<lambda>P. if po_sessions P sid = None then P\<lparr>po_sessions := (po_sessions P)(sid \<mapsto> (h, s))\<rparr> else P) nd
      in map_option (\<lambda>svc. svc_Push (Ev_SessionCreate sid (ss_acceptId s) listen) (nd\<lparr>nd_svc := svc\<rparr>))
           (AddReadySession sid (ss_acceptId s) listen (nd_svc nd)))"

definition AddToPoller :: "nat \<Rightarrow> nat \<Rightarrow> 'c session \<Rightarrow> ('c, 'w, 'k) node \<Rightarrow> ('c, 'w, 'k) node option" where
  "AddToPoller i h s nd =
     (if poller_index (length (nd_pollers nd)) (ss_id s) = Some i then AddSession i h s nd else push_sid (ss_id s) (PE_TakeOverSession h s) nd)"

text \<open>A call on the session \<open>sid\<close> of poller \<open>i\<close>, if it has one; a session that is closed in the call is removed.\<close>

definition on_session ::
    "'k net_api \<Rightarrow> nat \<Rightarrow> cint \<Rightarrow> ('k sock_api \<Rightarrow> ('c, 'k) sworld \<Rightarrow> ('c, 'k) sworld option) \<Rightarrow> ('c, 'w, 'k) node \<Rightarrow> ('c, 'w, 'k) node option" where
  "on_session api i sid f nd = (case po_sessions (nd_pollers nd ! i) sid of
       None \<Rightarrow> Some nd
     | Some (h, s) \<Rightarrow> map_option
         (\<lambda>w. (upd_poller i (\<lambda>P. P\<lparr>po_sessions := (po_sessions P)(sid := map_option (Pair h) (sw_session w))\<rparr>) nd)
                \<lparr>nd_net := sw_net w, nd_events := nd_events nd @ sw_events w\<rparr>)
         (f (na_sock api h) \<lparr>sw_session = Some s, sw_net = nd_net nd, sw_events = []\<rparr>))"

text \<open>\<open>SetConnectedSocketOpts\<close>.\<close>

definition connected_socket :: "sess_opts \<Rightarrow> socket" where
  "connected_socket opts = Socket_new False (if so_maxPacketSize opts \<noteq> 0 then so_maxPacketSize opts else LLBC_INFINITE)"

definition delete_socket :: "'k net_api \<Rightarrow> nat \<Rightarrow> ('c, 'w, 'k) node \<Rightarrow> ('c, 'w, 'k) node" where
  "delete_socket api h nd = nd\<lparr>nd_net := LLBC_CloseSocket (na_sock api h) (nd_net nd)\<rparr>"

section \<open>Event handlers\<close>

text \<open>\<open>AddSession(CreateSession(...))\<close>.\<close>

definition new_session :: "socket \<Rightarrow> nat \<Rightarrow> nat \<Rightarrow> cint \<Rightarrow> sess_opts \<Rightarrow> ('c, 'w, 'k) node \<Rightarrow> ('c, 'w, 'k) node option" where
  "new_session sk i h sid opts nd = Option.bind (CreateSession sk sid opts 0 nd) (\<lambda>(s, nd). AddSession i h s nd)"

definition HandleEv_AddSock :: "nat \<Rightarrow> nat \<Rightarrow> socket \<Rightarrow> cint \<Rightarrow> sess_opts \<Rightarrow> ('c, 'w, 'k) node \<Rightarrow> ('c, 'w, 'k) node option" where
  "HandleEv_AddSock i h sk sid opts nd = new_session sk i h sid opts nd"

definition HandleEv_AsyncConn :: "'k net_api \<Rightarrow> nat \<Rightarrow> cint \<Rightarrow> sess_opts \<Rightarrow> ('c, 'w, 'k) node \<Rightarrow> ('c, 'w, 'k) node option" where
  "HandleEv_AsyncConn api i sid opts nd =
     (let ((h, res), k) = na_connect api (nd_net nd); nd = nd\<lparr>nd_net := k\<rparr>
      in case res of
           Conn_ok \<Rightarrow> new_session (connected_socket opts) i h sid opts (svc_Push (Ev_AsyncConn sid True) nd)
         | Conn_wblock \<Rightarrow> Some (upd_poller i (\<lambda>P. P\<lparr>po_connecting := (po_connecting P)(h \<mapsto> (sid, opts))\<rparr>) nd)
         | Conn_failed \<Rightarrow> Some (delete_socket api h (svc_Push (Ev_AsyncConn sid False) nd)))"

definition session_send :: "'c coder_api \<Rightarrow> bool \<Rightarrow> 'c cpacket \<Rightarrow> 'k sock_api \<Rightarrow> ('c, 'k) sworld \<Rightarrow> ('c, 'k) sworld option" where
  "session_send capi rm p api w = (case sw_session w of
       None \<Rightarrow> None
     | Some s \<Rightarrow>
         if sk_listenSocket (ss_socket s) then Some w
         else map_option (\<lambda>(ret, w). if ret \<noteq> LLBC_OK then Session_OnClose api Close_last_error w else w) (Session_Send capi rm p w))"

text \<open>\<open>OnSend\<close> is called once more after the packet was put into the buffer of the session.\<close>

definition HandleEv_Send :: "'k net_api \<Rightarrow> 'c coder_api \<Rightarrow> bool \<Rightarrow> nat \<Rightarrow> 'c cpacket \<Rightarrow> ('c, 'w, 'k) node \<Rightarrow> ('c, 'w, 'k) node option" where
  "HandleEv_Send api capi rm i p nd =
     (let sid = pk_sessionId (cp_packet p)
      in Option.bind (on_session api i sid (session_send capi rm p) nd) (on_session api i sid Socket_OnSend))"

definition HandleEv_Close :: "'k net_api \<Rightarrow> nat \<Rightarrow> cint \<Rightarrow> string \<Rightarrow> ('c, 'w, 'k) node \<Rightarrow> ('c, 'w, 'k) node option" where
  "HandleEv_Close api i sid reason = on_session api i sid (\<lambda>api w. Some (Session_OnClose api (Close_by_service reason) w))"

text \<open>Accepting goes on until there is no more connection to accept.\<close>

partial_function (option) Accept :: "'k net_api \<Rightarrow> nat \<Rightarrow> nat \<Rightarrow> 'c session \<Rightarrow> ('c, 'w, 'k) node \<Rightarrow> ('c, 'w, 'k) node option" where
  "Accept api i h s nd = (case na_accept api h (nd_net nd) of
       (None, k) \<Rightarrow> Some (nd\<lparr>nd_net := k\<rparr>)
     | (Some newSock, k) \<Rightarrow> Option.bind (CreateSession (connected_socket (ss_opts s)) 0 (ss_opts s) (ss_id s) (nd\<lparr>nd_net := k\<rparr>))
         (\<lambda>(new, nd). Option.bind (AddToPoller i newSock new nd) (Accept api i h s)))"

definition HandleConnecting :: "'k net_api \<Rightarrow> nat \<Rightarrow> epoll_event \<Rightarrow> ('c, 'w, 'k) node \<Rightarrow> (bool \<times> ('c, 'w, 'k) node) option" where
  "HandleConnecting api i e nd = (case po_connecting (nd_pollers nd ! i) (ee_handle e) of
       None \<Rightarrow> Some (False, nd)
     | Some (sid, opts) \<Rightarrow>
         (let h = ee_handle e;
              (connected, k) = (if ee_out e then na_connected api h (nd_net nd) else (False, nd_net nd));
              nd = svc_Push (Ev_AsyncConn sid connected) (nd\<lparr>nd_net := k\<rparr>)
          in map_option (\<lambda>nd. (True, upd_poller i (\<lambda>P. P\<lparr>po_connecting := (po_connecting P)(h := None)\<rparr>) nd))
               (if connected then new_session (connected_socket opts) i h sid opts nd
                else Some (delete_socket api h nd))))"

definition session_hup :: "'k net_api \<Rightarrow> nat \<Rightarrow> 'k sock_api \<Rightarrow> ('c, 'k) sworld \<Rightarrow> ('c, 'k) sworld option" where
  "session_hup napi h api w =
     (let (e, k) = na_pendingError napi h (sw_net w)
      in Some (Session_OnClose api (case e of None \<Rightarrow> Close_last_error | Some e \<Rightarrow> Close_errno e) (w\<lparr>sw_net := k\<rparr>)))"

definition monitor_one :: "'k net_api \<Rightarrow> 'c coder_api \<Rightarrow> nat \<Rightarrow> epoll_event \<Rightarrow> ('c, 'w, 'k) node \<Rightarrow> ('c, 'w, 'k) node option" where
  "monitor_one api capi i e nd = Option.bind (HandleConnecting api i e nd)
     (\<lambda>(was_connecting, nd).
        let sid = ee_session e
        in if was_connecting then Some nd
           else case po_sessions (nd_pollers nd ! i) sid of
                  None \<Rightarrow> Some nd
                | Some (h, s) \<Rightarrow>
                    if ee_hup e then on_session api i sid (session_hup api h) nd
                    else if ee_in e \<and> sk_listenSocket (ss_socket s) then Accept api i h s nd
                    else Option.bind (if ee_in e then on_session api i sid (\<lambda>api. Socket_OnRecv api capi) nd else Some nd)
                           (\<lambda>nd. if ee_out e then on_session api i sid Socket_OnSend nd else Some nd))"

fun HandleEv_Monitor :: "'k net_api \<Rightarrow> 'c coder_api \<Rightarrow> nat \<Rightarrow> epoll_event list \<Rightarrow> ('c, 'w, 'k) node \<Rightarrow> ('c, 'w, 'k) node option" where
  "HandleEv_Monitor api capi i [] nd = Some nd"
| "HandleEv_Monitor api capi i (e # es) nd = Option.bind (monitor_one api capi i e nd) (HandleEv_Monitor api capi i es)"

definition Session_CtrlProtocolStack :: "'c session \<Rightarrow> unit option" where
  "Session_CtrlProtocolStack s = (if ss_fullStack s then CtrlStack (ss_stack s) else map_option (\<lambda>_. ()) (CtrlStackRaw (ss_stack s)))"

text \<open>No protocol of the source sets \<open>removeSession\<close> in a control call.\<close>

definition HandleEv_CtrlProtocolStack :: "'k net_api \<Rightarrow> nat \<Rightarrow> cint \<Rightarrow> ('c, 'w, 'k) node \<Rightarrow> ('c, 'w, 'k) node option" where
  "HandleEv_CtrlProtocolStack api i sid nd = Option.bind
     (on_session api i sid (\<lambda>api w. Option.bind (sw_session w) (\<lambda>s. map_option (\<lambda>_. w) (Session_CtrlProtocolStack s))) nd)
     (on_session api i sid Socket_OnSend)"

definition poller_HandleEv :: "'k net_api \<Rightarrow> 'c coder_api \<Rightarrow> bool \<Rightarrow> nat \<Rightarrow> 'c poller_ev \<Rightarrow> ('c, 'w, 'k) node \<Rightarrow> ('c, 'w, 'k) node option" where
  "poller_HandleEv api capi rm i ev nd = (case ev of
       PE_AddSock h sk sid opts \<Rightarrow> HandleEv_AddSock i h sk sid opts nd
     | PE_AsyncConn sid opts \<Rightarrow> HandleEv_AsyncConn api i sid opts nd
     | PE_Send p \<Rightarrow> HandleEv_Send api capi rm i p nd
     | PE_Close sid reason \<Rightarrow> HandleEv_Close api i sid reason nd
     | PE_Monitor es \<Rightarrow> HandleEv_Monitor api capi i es nd
     | PE_TakeOverSession h s \<Rightarrow> AddSession i h s nd
     | PE_CtrlProtocolStack sid \<Rightarrow> HandleEv_CtrlProtocolStack api i sid nd)"

text \<open>One turn of the loop of \<open>HandleQueuedEvents\<close>.\<close>

definition poller_turn :: "'k net_api \<Rightarrow> 'c coder_api \<Rightarrow> bool \<Rightarrow> nat \<Rightarrow> ('c, 'w, 'k) node \<Rightarrow> ('c, 'w, 'k) node option" where
  "poller_turn api capi rm i nd = (case po_queue (nd_pollers nd ! i) of
       [] \<Rightarrow> Some nd
     | ev # evs \<Rightarrow> poller_HandleEv api capi rm i ev (upd_poller i (\<lambda>P. P\<lparr>po_queue := evs\<rparr>) nd))"

section \<open>The poller manager and the service\<close>

text \<open>The socket calls of \<open>Listen\<close> and \<open>Connect\<close> before the session id is allocated enter as their result \<open>sock\<close>, the handle of the new
  socket. \<open>Connect\<close> leaves the maximum packet size of the socket as its constructor sets it.\<close>

definition PollerMgr_add :: "nat \<Rightarrow> socket \<Rightarrow> factory option \<Rightarrow> sess_opts \<Rightarrow> ('c, 'w, 'k) node \<Rightarrow> (cint \<times> ('c, 'w, 'k) node) option" where
  "PollerMgr_add h sk f opts nd =
     (let (sid, nd) = AllocSessionId nd;
          nd = (case f of None \<Rightarrow> nd | Some f \<Rightarrow> nd\<lparr>nd_svc := AddSessionProtocolFactory sid f (nd_svc nd)\<rparr>)
      in map_option (Pair sid) (push_sid sid (PE_AddSock h sk sid opts) nd))"

definition PollerMgr_Listen :: "nat option \<Rightarrow> factory option \<Rightarrow> sess_opts \<Rightarrow> ('c, 'w, 'k) node \<Rightarrow> (cint \<times> ('c, 'w, 'k) node) option" where
  "PollerMgr_Listen sock f opts nd = (case sock of
       None \<Rightarrow> Some (0, nd)
     | Some h \<Rightarrow> PollerMgr_add h (Socket_new True (if so_maxPacketSize opts \<noteq> 0 then so_maxPacketSize opts else LLBC_INFINITE)) f opts nd)"

definition PollerMgr_Connect :: "nat option \<Rightarrow> factory option \<Rightarrow> sess_opts \<Rightarrow> ('c, 'w, 'k) node \<Rightarrow> (cint \<times> ('c, 'w, 'k) node) option" where
  "PollerMgr_Connect sock f opts nd = (case sock of
       None \<Rightarrow> Some (0, nd)
     | Some h \<Rightarrow> PollerMgr_add h (Socket_new False LLBC_INFINITE) f opts nd)"

text \<open>\<open>AsyncConn\<close>; \<open>resolved\<close> says that the address was found.\<close>

definition PollerMgr_AsyncConn :: "bool \<Rightarrow> factory option \<Rightarrow> sess_opts \<Rightarrow> ('c, 'w, 'k) node \<Rightarrow> (cint \<times> ('c, 'w, 'k) node) option" where
  "PollerMgr_AsyncConn resolved f opts nd =
     (if \<not> resolved then Some (0, nd)
      else let (sid, nd) = AllocSessionId nd;
               nd = (case f of None \<Rightarrow> nd | Some f \<Rightarrow> nd\<lparr>nd_svc := AddSessionProtocolFactory sid f (nd_svc nd)\<rparr>)
           in map_option (Pair sid) (push_sid sid (PE_AsyncConn sid opts) nd))"

definition ready_after :: "bool \<Rightarrow> (cint \<times> ('c, 'w, 'k) node) option \<Rightarrow> (cint \<times> ('c, 'w, 'k) node) option" where
  "ready_after isListen r = Option.bind r
     (\<lambda>(sid, nd). if sid \<noteq> 0 then map_option (\<lambda>svc. (sid, nd\<lparr>nd_svc := svc\<rparr>)) (AddReadySession sid 0 isListen (nd_svc nd)) else Some (sid, nd))"

definition service_Listen :: "nat option \<Rightarrow> factory option \<Rightarrow> sess_opts \<Rightarrow> ('c, 'w, 'k) node \<Rightarrow> (cint \<times> ('c, 'w, 'k) node) option" where
  "service_Listen sock f opts nd = ready_after True (PollerMgr_Listen sock f opts nd)"

definition service_Connect :: "nat option \<Rightarrow> factory option \<Rightarrow> sess_opts \<Rightarrow> ('c, 'w, 'k) node \<Rightarrow> (cint \<times> ('c, 'w, 'k) node) option" where
  "service_Connect sock f opts nd = ready_after False (PollerMgr_Connect sock f opts nd)"

text \<open>What a call of the service has for the pollers is pushed to their queues, in order.\<close>

definition poller_event :: "'c poller_msg \<Rightarrow> 'c poller_ev" where
  "poller_event m = (case m of PM_send p \<Rightarrow> PE_Send p | PM_close sid reason \<Rightarrow> PE_Close sid reason | PM_ctrl sid \<Rightarrow> PE_CtrlProtocolStack sid)"

definition push_msgs :: "(nat \<times> 'c poller_msg) list \<Rightarrow> ('c, 'w, 'k) node \<Rightarrow> ('c, 'w, 'k) node" where
  "push_msgs = fold (\<lambda>(i, m). upd_poller i (\<lambda>P. P\<lparr>po_queue := po_queue P @ [poller_event m]\<rparr>))"

definition with_service :: "(('c, 'w) service \<Rightarrow> ('r \<times> ('c, 'w) service) option) \<Rightarrow> ('c, 'w, 'k) node \<Rightarrow> ('r \<times> ('c, 'w, 'k) node) option" where
  "with_service f nd = map_option (\<lambda>(r, svc). (r, push_msgs (sv_toPollers svc) (nd\<lparr>nd_svc := svc\<lparr>sv_toPollers := []\<rparr>\<rparr>))) (f (nd_svc nd))"

text \<open>\<open>HandleQueuedEvents\<close> of the service takes all events of its queue.\<close>

definition service_turn :: "'c coder_api \<Rightarrow> bool \<Rightarrow> (cint \<Rightarrow> bool) \<Rightarrow> ('c, 'w, 'k) node \<Rightarrow> ('c, 'w, 'k) node option" where
  "service_turn capi rm peers nd = map_option (\<lambda>(w, nd). nd\<lparr>nd_app := w\<rparr>)
     (with_service (\<lambda>s. map_option (\<lambda>(s, w). (w, s)) (HandleQueuedEvents capi rm peers (nd_events nd) s (nd_app nd))) (nd\<lparr>nd_events := []\<rparr>))"

section \<open>Runs of a node\<close>

text \<open>What a node does: the pollers handle events, the kernel reports socket events and moves data, the application calls the service. What the
  application's own handlers do to the service is such a call, too.\<close>

inductive node_step :: "'k net_api \<Rightarrow> 'c coder_api \<Rightarrow> (cint \<Rightarrow> bool) \<Rightarrow> ('c, 'w, 'k) node \<Rightarrow> ('c, 'w, 'k) node \<Rightarrow> bool" for api capi peers where
  ns_poller: "i < length (nd_pollers nd) \<Longrightarrow> poller_turn api capi rm i nd = Some nd' \<Longrightarrow> node_step api capi peers nd nd'"
| ns_monitor: "i < length (nd_pollers nd) \<Longrightarrow> nd' = upd_poller i (\<lambda>P. P\<lparr>po_queue := po_queue P @ [PE_Monitor es]\<rparr>) nd \<Longrightarrow> node_step api capi peers nd nd'"
| ns_net: "nd' = nd\<lparr>nd_net := k\<rparr> \<Longrightarrow> node_step api capi peers nd nd'"
| ns_listen: "service_Listen sock f opts nd = Some (sid, nd') \<Longrightarrow> node_step api capi peers nd nd'"
| ns_connect: "service_Connect sock f opts nd = Some (sid, nd') \<Longrightarrow> node_step api capi peers nd nd'"
| ns_async: "PollerMgr_AsyncConn resolved f opts nd = Some (sid, nd') \<Longrightarrow> node_step api capi peers nd nd'"
| ns_send: "with_service (service_Send capi rm p) nd = Some (ret, nd') \<Longrightarrow> node_step api capi peers nd nd'"
| ns_remove: "with_service (RemoveSession sid reason) nd = Some (ret, nd') \<Longrightarrow> node_step api capi peers nd nd'"
| ns_ctrl: "with_service (service_CtrlProtocolStack sid) nd = Some (ret, nd') \<Longrightarrow> node_step api capi peers nd nd'"
| ns_service: "service_turn capi rm peers nd = Some nd' \<Longrightarrow> node_step api capi peers nd nd'"

text \<open>The node after \<open>Start\<close>: pollers without events and sessions.\<close>

definition node_start :: "('c, 'w, 'k) node \<Rightarrow> bool" where
  "node_start nd \<longleftrightarrow> sv_pollerCount (nd_svc nd) = length (nd_pollers nd) \<and> sv_toPollers (nd_svc nd) = [] \<and> nd_maxSessionId nd = 1
     \<and> (\<forall>P \<in> set (nd_pollers nd). po_queue P = [] \<and> po_sessions P = Map.empty \<and> po_connecting P = Map.empty)"

section \<open>Invariant\<close>

text \<open>Every session, and everything that will become one, is at the poller that its id selects.\<close>

definition event_ok :: "nat \<Rightarrow> nat \<Rightarrow> 'c poller_ev \<Rightarrow> bool" where
  "event_ok n i ev \<longleftrightarrow> (case ev of
       PE_AddSock h sk sid opts \<Rightarrow> sid \<noteq> 0 \<and> poller_index n sid = Some i
     | PE_AsyncConn sid opts \<Rightarrow> sid \<noteq> 0 \<and> poller_index n sid = Some i
     | PE_TakeOverSession h s \<Rightarrow> poller_index n (ss_id s) = Some i
     | _ \<Rightarrow> True)"

definition poller_ok :: "nat \<Rightarrow> nat \<Rightarrow> 'c poller \<Rightarrow> bool" where
  "poller_ok n i P \<longleftrightarrow> (\<forall>ev \<in> set (po_queue P). event_ok n i ev)
     \<and> (\<forall>sid h s. po_sessions P sid = Some (h, s) \<longrightarrow> poller_index n sid = Some i \<and> ss_id s = sid)
     \<and> (\<forall>h sid opts. po_connecting P h = Some (sid, opts) \<longrightarrow> sid \<noteq> 0 \<and> poller_index n sid = Some i)"

definition node_ok :: "('c, 'w, 'k) node \<Rightarrow> bool" where
  "node_ok nd \<longleftrightarrow> 0 < nd_maxSessionId nd \<and> sv_pollerCount (nd_svc nd) = length (nd_pollers nd) \<and> sv_toPollers (nd_svc nd) = []
     \<and> (\<forall>i < length (nd_pollers nd). poller_ok (length (nd_pollers nd)) i (nd_pollers nd ! i))"

text \<open>What every step keeps; the counter only grows, and as long as it has not passed \<open>2 ^ 31\<close> the invariant is kept.\<close>

definition keeps :: "('c, 'w, 'k) node \<Rightarrow> ('c, 'w, 'k) node \<Rightarrow> bool" where
  "keeps nd nd' \<longleftrightarrow> length (nd_pollers nd') = length (nd_pollers nd) \<and> nd_maxSessionId nd \<le> nd_maxSessionId nd' \<and> (node_ok nd \<and> nd_maxSessionId nd' \<le> 2 ^ 31 \<longrightarrow> node_ok nd')"

lemma keeps_refl [simp]: "keeps nd nd"
  by (simp add: keeps_def)

lemma keeps_trans: "keeps a b \<Longrightarrow> keeps b c \<Longrightarrow> keeps a c"
  by (auto simp: keeps_def)

lemma keeps_same:
  "nd_pollers nd' = nd_pollers nd \<Longrightarrow> nd_maxSessionId nd' = nd_maxSessionId nd \<Longrightarrow> sv_pollerCount (nd_svc nd') = sv_pollerCount (nd_svc nd)
    \<Longrightarrow> sv_toPollers (nd_svc nd') = sv_toPollers (nd_svc nd) \<Longrightarrow> keeps nd nd'"
  by (simp add: keeps_def node_ok_def)

lemma upd_poller_sel [simp]:
  "length (nd_pollers (upd_poller i f nd)) = length (nd_pollers nd)" "nd_maxSessionId (upd_poller i f nd) = nd_maxSessionId nd"
  "nd_svc (upd_poller i f nd) = nd_svc nd" "nd_events (upd_poller i f nd) = nd_events nd" "nd_net (upd_poller i f nd) = nd_net nd"
  by (simp_all add: upd_poller_def)

lemma keeps_upd:
  assumes "i < length (nd_pollers nd) \<Longrightarrow> poller_ok (length (nd_pollers nd)) i (nd_pollers nd ! i) \<Longrightarrow> poller_ok (length (nd_pollers nd)) i (f (nd_pollers nd ! i))"
  shows "keeps nd (upd_poller i f nd)"
  using assms by (cases "i < length (nd_pollers nd)") (auto simp: keeps_def node_ok_def upd_poller_def nth_list_update list_update_beyond)

lemma keeps_push: "(\<And>i. poller_index (length (nd_pollers nd)) sid = Some i \<Longrightarrow> event_ok (length (nd_pollers nd)) i e) \<Longrightarrow> push_sid sid e nd = Some nd' \<Longrightarrow> keeps nd nd'"
  by (auto simp: push_sid_def poller_ok_def intro!: keeps_upd)

lemma alloc_id: "0 < m \<Longrightarrow> m < 2 ^ 31 \<Longrightarrow> (of_nat m :: cint) \<noteq> 0"
  by (auto simp: word_of_nat_eq_0_iff dest!: dvd_imp_le)

lemma Session_new_id: "Session_new opts sid acc sk full f coders quiet = Some s \<Longrightarrow> ss_id s = sid"
  by (auto simp: Session_new_def)

lemma CreateSession_id:
  assumes "CreateSession sk sid opts acc nd = Some (s, nd')" "sid \<noteq> 0"
  shows "nd' = nd" "ss_id s = sid"
  using assms by (auto simp: CreateSession_def Let_def dest: Session_new_id)

lemma CreateSession_keeps: "CreateSession sk sid opts acc nd = Some (s, nd') \<Longrightarrow> keeps nd nd'"
  by (auto simp: CreateSession_def AllocSessionId_def Let_def keeps_def node_ok_def split: if_splits)

lemma AddReadySession_sel:
  "AddReadySession sid acc l s = Some s' \<Longrightarrow> sv_pollerCount s' = sv_pollerCount s \<and> sv_toPollers s' = sv_toPollers s"
  by (auto simp: AddReadySession_def ready_lock_def ready_unlock_def split: if_splits)

lemma AddSession_keeps:
  assumes "AddSession i h s nd = Some nd'" "poller_index (length (nd_pollers nd)) (ss_id s) = Some i"
  shows "keeps nd nd'"
proof -
  let ?nd = "upd_poller i (\<lambda>P. if po_sessions P (ss_id s) = None then P\<lparr>po_sessions := (po_sessions P)(ss_id s \<mapsto> (h, s))\<rparr> else P) nd"
  have "keeps nd ?nd" using assms(2) by (intro keeps_upd) (auto simp: poller_ok_def split: if_splits)
  moreover have "keeps ?nd nd'" using assms(1) AddReadySession_sel by (fastforce simp: AddSession_def svc_Push_def Let_def intro!: keeps_same)
  ultimately show ?thesis by (rule keeps_trans)
qed

lemma AddSession_grows: "AddSession i h s nd = Some nd' \<Longrightarrow> nd_maxSessionId nd' = nd_maxSessionId nd \<and> length (nd_pollers nd') = length (nd_pollers nd)"
  by (auto simp: AddSession_def svc_Push_def Let_def)

lemma AddToPoller_keeps: "AddToPoller i h s nd = Some nd' \<Longrightarrow> keeps nd nd'"
  using AddSession_keeps keeps_push [of nd "ss_id s" "PE_TakeOverSession h s"] by (fastforce simp: AddToPoller_def event_ok_def split: if_splits)

text \<open>The calls on a session do not change its id.\<close>

definition keeps_id :: "('k sock_api \<Rightarrow> ('c, 'k) sworld \<Rightarrow> ('c, 'k) sworld option) \<Rightarrow> bool" where
  "keeps_id f \<longleftrightarrow> (\<forall>api w w' s s'. f api w = Some w' \<longrightarrow> sw_session w = Some s \<longrightarrow> sw_session w' = Some s' \<longrightarrow> ss_id s' = ss_id s)"

lemma Session_OnClose_gone [simp]: "sw_session (Session_OnClose api info w) = None"
  by (simp add: Session_OnClose_def split: option.split)

lemma flush_reports_session [simp]: "sw_session (flush_reports s st w) = Some (s\<lparr>ss_stack := st\<lparr>ps_reports := []\<rparr>\<rparr>)"
  by (simp add: flush_reports_def)

lemma Session_Send_block_id: "Session_Send_block b w = Some (ret, w') \<Longrightarrow> sw_session w = Some s \<Longrightarrow> \<exists>s'. sw_session w' = Some s' \<and> ss_id s' = ss_id s"
  by (auto simp: Session_Send_block_def split: if_splits)

lemma Session_Send_id:
  assumes "Session_Send capi rm p w = Some (ret, w')" "sw_session w = Some s"
  shows "\<exists>s'. sw_session w' = Some s' \<and> ss_id s' = ss_id s"
proof -
  obtain ret' d rm' st where r: "(if ss_fullStack s then stack_Send capi p rm (ss_stack s) else SendRaw capi (L_packet p) rm (ss_stack s)) = Some (ret', d, rm', st)"
    using assms unfolding Session_Send_def by (auto simp: bind_eq_Some_conv)
  let ?w = "flush_reports s st w"
  have "w' = ?w \<or> (\<exists>b. Session_Send_block b ?w = Some (ret, w'))" using assms r by (auto simp: Session_Send_def Let_def split: if_splits ldata.splits)
  then show ?thesis using Session_Send_block_id [of _ ?w ret w'] by fastforce
qed

lemma keeps_id_send: "keeps_id (session_send capi rm p)"
  by (fastforce simp: keeps_id_def session_send_def split: option.splits if_splits dest!: Session_Send_id)

lemma keeps_id_OnSend: "keeps_id Socket_OnSend"
  by (auto simp: keeps_id_def Socket_OnSend_def Let_def bind_eq_Some_conv split: option.splits if_splits)

lemma after_recv_id: "sw_session (after_recv api e w) = Some s \<Longrightarrow> sw_session w = Some s"
  by (auto simp: after_recv_def split: recv_end.splits sock_err.splits)

lemma Session_OnRecved_id: "Session_OnRecved api capi b w = Some (ok, w') \<Longrightarrow> sw_session w = Some s \<Longrightarrow> sw_session w' = Some s' \<Longrightarrow> ss_id s' = ss_id s"
  by (auto simp: Session_OnRecved_def Let_def bind_eq_Some_conv split: if_splits)

lemma keeps_id_OnRecv: "keeps_id (\<lambda>api. Socket_OnRecv api capi)"
  unfolding keeps_id_def
proof (intro allI impI)
  fix api :: "'a sock_api" and w w' :: "('b, 'a) sworld" and s s'
  assume a: "Socket_OnRecv api capi w = Some w'" "sw_session w = Some s" "sw_session w' = Some s'"
  obtain e flag b k where f: "recv_fill api (MB_new (so_sessionRecvBufSize (ss_opts s))) False (sw_net w) = Some (e, flag, b, k)"
    using a(1,2) unfolding Socket_OnRecv_def by (auto simp: bind_eq_Some_conv)
  show "ss_id s' = ss_id s"
  proof (cases flag)
    case True
    then obtain ok v where v: "Session_OnRecved api capi b (w\<lparr>sw_net := k\<rparr>) = Some (ok, v)" "w' = (if ok then after_recv api e v else v)"
      using a f by (auto simp: Socket_OnRecv_def bind_eq_Some_conv)
    then have "sw_session v = Some s'" using a(3) after_recv_id by (metis (full_types))
    then show ?thesis using Session_OnRecved_id [OF v(1), of s s'] a(2) by simp
  next
    case False
    then have "w' = after_recv api e (w\<lparr>sw_net := k\<rparr>)" using a f by (simp add: Socket_OnRecv_def)
    then show ?thesis using a(2,3) after_recv_id [of api e "w\<lparr>sw_net := k\<rparr>" s'] by simp
  qed
qed

lemma keeps_id_close: "keeps_id (\<lambda>api w. Some (Session_OnClose api info w))" "keeps_id (session_hup napi h)"
    "keeps_id (\<lambda>api w. Option.bind (sw_session w) (\<lambda>s. map_option (\<lambda>_. w) (g s)))"
  by (auto simp: keeps_id_def session_hup_def Let_def split: prod.splits)

lemmas keeps_ids = keeps_id_send keeps_id_OnSend keeps_id_OnRecv keeps_id_close

lemma on_session_keeps:
  assumes "on_session api i sid f nd = Some nd'" "keeps_id f"
  shows "keeps nd nd'"
proof (cases "po_sessions (nd_pollers nd ! i) sid")
  case None
  then show ?thesis using assms(1) by (simp add: on_session_def)
next
  case (Some hs)
  obtain h s where hs: "hs = (h, s)" by (cases hs)
  let ?w = "\<lparr>sw_session = Some s, sw_net = nd_net nd, sw_events = []\<rparr>"
  from assms(1) Some hs obtain w where w: "f (na_sock api h) ?w = Some w"
    "nd' = (upd_poller i (\<lambda>P. P\<lparr>po_sessions := (po_sessions P)(sid := map_option (Pair h) (sw_session w))\<rparr>) nd)\<lparr>nd_net := sw_net w, nd_events := nd_events nd @ sw_events w\<rparr>"
    by (auto simp: on_session_def)
  let ?u = "upd_poller i (\<lambda>P. P\<lparr>po_sessions := (po_sessions P)(sid := map_option (Pair h) (sw_session w))\<rparr>) nd"
  have id: "ss_id s' = ss_id s" if "sw_session w = Some s'" for s' using assms(2) [unfolded keeps_id_def, rule_format, OF w(1) _ that] by simp
  have "keeps nd ?u" using Some hs id by (intro keeps_upd) (auto simp: poller_ok_def)
  moreover have "keeps ?u nd'" using w(2) by (intro keeps_same) auto
  ultimately show ?thesis by (rule keeps_trans)
qed

lemma Accept_keeps:
  assumes "Accept api i h s nd = Some nd'"
  shows "keeps nd nd'"
proof (rule Accept.raw_induct [OF _ assms])
  fix A api i h s nd nd'
  assume IH: "\<And>api i h s nd nd'. A api i h s nd = Some nd' \<Longrightarrow> keeps nd nd'"
    and run: "(case na_accept api h (nd_net nd) of
       (None, k) \<Rightarrow> Some (nd\<lparr>nd_net := k\<rparr>)
     | (Some newSock, k) \<Rightarrow> Option.bind (CreateSession (connected_socket (ss_opts s)) 0 (ss_opts s) (ss_id s) (nd\<lparr>nd_net := k\<rparr>))
         (\<lambda>(new, nd). Option.bind (AddToPoller i newSock new nd) (A api i h s))) = Some nd'"
  obtain r k where acc: "na_accept api h (nd_net nd) = (r, k)" by (cases "na_accept api h (nd_net nd)")
  have k: "keeps nd (nd\<lparr>nd_net := k\<rparr>)" by (intro keeps_same) auto
  show "keeps nd nd'"
  proof (cases r)
    case None
    then show ?thesis using run acc k by simp
  next
    case (Some newSock)
    then obtain new nd1 nd2 where n: "CreateSession (connected_socket (ss_opts s)) 0 (ss_opts s) (ss_id s) (nd\<lparr>nd_net := k\<rparr>) = Some (new, nd1)"
      "AddToPoller i newSock new nd1 = Some nd2" "A api i h s nd2 = Some nd'"
      using run acc by (auto simp: bind_eq_Some_conv)
    from k CreateSession_keeps [OF n(1)] AddToPoller_keeps [OF n(2)] IH [OF n(3)] show ?thesis by (blast intro: keeps_trans)
  qed
qed

lemma keepsI: "nd_maxSessionId nd \<le> nd_maxSessionId nd' \<Longrightarrow> length (nd_pollers nd') = length (nd_pollers nd) \<Longrightarrow> (node_ok nd \<Longrightarrow> keeps nd nd') \<Longrightarrow> keeps nd nd'"
  by (auto simp: keeps_def)

lemma keeps_grows: "keeps nd nd' \<Longrightarrow> nd_maxSessionId nd \<le> nd_maxSessionId nd' \<and> length (nd_pollers nd') = length (nd_pollers nd)"
  by (simp add: keeps_def)

lemma new_session_grows: "new_session sk i h sid opts nd = Some nd' \<Longrightarrow> nd_maxSessionId nd \<le> nd_maxSessionId nd' \<and> length (nd_pollers nd') = length (nd_pollers nd)"
  by (fastforce simp: new_session_def bind_eq_Some_conv dest!: CreateSession_keeps [THEN keeps_grows] AddSession_grows)

lemma new_session_keeps:
  assumes "new_session sk i h sid opts nd = Some nd'" "sid \<noteq> 0" "poller_index (length (nd_pollers nd)) sid = Some i"
  shows "keeps nd nd'"
  using assms CreateSession_id [of sk sid opts 0 nd] by (fastforce simp: new_session_def bind_eq_Some_conv intro: AddSession_keeps)

lemma node_ok_connecting:
  "node_ok nd \<Longrightarrow> i < length (nd_pollers nd) \<Longrightarrow> po_connecting (nd_pollers nd ! i) h = Some (sid, opts) \<Longrightarrow> sid \<noteq> 0 \<and> poller_index (length (nd_pollers nd)) sid = Some i"
  unfolding node_ok_def poller_ok_def by blast

lemma keeps_forget: "keeps nd (upd_poller i (\<lambda>P. P\<lparr>po_connecting := (po_connecting P)(h := None)\<rparr>) nd)"
  by (rule keeps_upd) (auto simp: poller_ok_def split: if_splits)

lemma HandleConnecting_keeps:
  assumes "HandleConnecting api i e nd = Some (c, nd')" "i < length (nd_pollers nd)"
  shows "keeps nd nd'"
proof (cases "po_connecting (nd_pollers nd ! i) (ee_handle e)")
  case None
  then show ?thesis using assms(1) by (simp add: HandleConnecting_def)
next
  case (Some so)
  obtain sid opts where so: "so = (sid, opts)" by (cases so)
  obtain connected k where ck: "(if ee_out e then na_connected api (ee_handle e) (nd_net nd) else (False, nd_net nd)) = (connected, k)"
    by (cases "if ee_out e then na_connected api (ee_handle e) (nd_net nd) else (False, nd_net nd)")
  let ?nd = "svc_Push (Ev_AsyncConn sid connected) (nd\<lparr>nd_net := k\<rparr>)"
  obtain nd1 where nd1: "(if connected then new_session (connected_socket opts) i (ee_handle e) sid opts ?nd else Some (delete_socket api (ee_handle e) ?nd)) = Some nd1"
    "nd' = upd_poller i (\<lambda>P. P\<lparr>po_connecting := (po_connecting P)(ee_handle e := None)\<rparr>) nd1"
    using assms(1) Some so ck by (auto simp: HandleConnecting_def Let_def)
  have 1: "keeps nd ?nd" by (rule keeps_same) (simp_all add: svc_Push_def)
  have "keeps ?nd nd1"
  proof (cases connected)
    case True
    then have run: "new_session (connected_socket opts) i (ee_handle e) sid opts ?nd = Some nd1" using nd1(1) by simp
    show ?thesis
    proof (rule keepsI)
      assume "node_ok ?nd"
      moreover have "po_connecting (nd_pollers ?nd ! i) (ee_handle e) = Some (sid, opts)" using Some so by (simp add: svc_Push_def)
      ultimately show "keeps ?nd nd1" using new_session_keeps [OF run] node_ok_connecting assms(2) by (fastforce simp: svc_Push_def)
    qed (use new_session_grows [OF run] in auto)
  next
    case False
    then show ?thesis using nd1(1) by (intro keeps_same) (auto simp: delete_socket_def)
  qed
  moreover have "keeps nd1 nd'" using nd1(2) keeps_forget by simp
  ultimately show ?thesis using 1 by (blast intro: keeps_trans)
qed

lemma monitor_one_keeps:
  assumes "monitor_one api capi i e nd = Some nd'" "i < length (nd_pollers nd)"
  shows "keeps nd nd'"
proof -
  obtain c nd1 where c: "HandleConnecting api i e nd = Some (c, nd1)" using assms(1) by (auto simp: monitor_one_def bind_eq_Some_conv)
  have "keeps nd1 nd'"
  proof (cases "c \<or> po_sessions (nd_pollers nd1 ! i) (ee_session e) = None")
    case True
    then show ?thesis using assms(1) c by (auto simp: monitor_one_def Let_def split: if_splits)
  next
    case False
    then obtain h s where hs: "\<not> c" "po_sessions (nd_pollers nd1 ! i) (ee_session e) = Some (h, s)" by auto
    consider (hup) "on_session api i (ee_session e) (session_hup api h) nd1 = Some nd'" | (acc) "Accept api i h s nd1 = Some nd'"
      | (io) nd2 where "(if ee_in e then on_session api i (ee_session e) (\<lambda>api. Socket_OnRecv api capi) nd1 else Some nd1) = Some nd2"
          "(if ee_out e then on_session api i (ee_session e) Socket_OnSend nd2 else Some nd2) = Some nd'"
      using assms(1) c hs by (auto simp: monitor_one_def Let_def bind_eq_Some_conv split: if_splits)
    then show ?thesis
    proof cases
      case io
      have "keeps nd1 nd2" "keeps nd2 nd'" using io by (auto split: if_splits intro: on_session_keeps keeps_ids)
      then show ?thesis by (rule keeps_trans)
    qed (auto intro: on_session_keeps keeps_ids Accept_keeps)
  qed
  with HandleConnecting_keeps [OF c assms(2)] show ?thesis by (rule keeps_trans)
qed

lemma HandleEv_Monitor_keeps: "HandleEv_Monitor api capi i es nd = Some nd' \<Longrightarrow> i < length (nd_pollers nd) \<Longrightarrow> keeps nd nd'"
proof (induction es arbitrary: nd)
  case (Cons e es)
  then obtain nd1 where 1: "monitor_one api capi i e nd = Some nd1" "HandleEv_Monitor api capi i es nd1 = Some nd'" by (auto simp: bind_eq_Some_conv)
  with Cons monitor_one_keeps [OF 1(1)] keeps_grows show ?case by (metis keeps_trans)
qed simp

lemma HandleEv_AsyncConn_keeps:
  assumes "HandleEv_AsyncConn api i sid opts nd = Some nd'" "event_ok (length (nd_pollers nd)) i (PE_AsyncConn sid opts :: 'c poller_ev)"
  shows "keeps nd nd'"
proof -
  obtain h res k where k: "na_connect api (nd_net nd) = ((h, res), k)" by (metis prod.collapse)
  let ?nd = "nd\<lparr>nd_net := k\<rparr>"
  have ok: "sid \<noteq> 0" "poller_index (length (nd_pollers nd)) sid = Some i" using assms(2) by (simp_all add: event_ok_def)
  have k1: "keeps nd ?nd" by (rule keeps_same) simp_all
  have "keeps ?nd nd'"
  proof (cases res)
    case Conn_ok
    let ?nd1 = "svc_Push (Ev_AsyncConn sid True) ?nd"
    have "keeps ?nd ?nd1" by (rule keeps_same) (simp_all add: svc_Push_def)
    moreover have "keeps ?nd1 nd'" using assms(1) k Conn_ok ok by (intro new_session_keeps [of _ i h sid opts]) (auto simp: HandleEv_AsyncConn_def svc_Push_def)
    ultimately show ?thesis by (rule keeps_trans)
  next
    case Conn_wblock
    then have "nd' = upd_poller i (\<lambda>P. P\<lparr>po_connecting := (po_connecting P)(h \<mapsto> (sid, opts))\<rparr>) ?nd" using assms(1) k by (simp add: HandleEv_AsyncConn_def)
    then show ?thesis using ok by (auto simp: poller_ok_def intro!: keeps_upd)
  next
    case Conn_failed
    then show ?thesis using assms(1) k by (intro keeps_same) (auto simp: HandleEv_AsyncConn_def svc_Push_def delete_socket_def)
  qed
  with k1 show ?thesis by (rule keeps_trans)
qed

lemma poller_HandleEv_keeps:
  assumes "poller_HandleEv api capi rm i ev nd = Some nd'" "event_ok (length (nd_pollers nd)) i ev" "i < length (nd_pollers nd)"
  shows "keeps nd nd'"
proof (cases ev)
  case (PE_AddSock h sk sid opts)
  then show ?thesis using assms by (auto simp: poller_HandleEv_def HandleEv_AddSock_def event_ok_def intro: new_session_keeps)
next
  case (PE_AsyncConn sid opts)
  then show ?thesis using assms HandleEv_AsyncConn_keeps by (fastforce simp: poller_HandleEv_def)
next
  case (PE_Send p)
  then obtain nd1 where "on_session api i (pk_sessionId (cp_packet p)) (session_send capi rm p) nd = Some nd1" "on_session api i (pk_sessionId (cp_packet p)) Socket_OnSend nd1 = Some nd'"
    using assms(1) by (auto simp: poller_HandleEv_def HandleEv_Send_def Let_def bind_eq_Some_conv)
  then show ?thesis using on_session_keeps keeps_ids(1,2) keeps_trans by blast
next
  case (PE_Close sid reason)
  then show ?thesis using assms(1) by (auto simp: poller_HandleEv_def HandleEv_Close_def intro: on_session_keeps keeps_ids)
next
  case (PE_Monitor es)
  then show ?thesis using assms(1,3) by (auto simp: poller_HandleEv_def intro: HandleEv_Monitor_keeps)
next
  case (PE_TakeOverSession h s)
  then show ?thesis using assms(1,2) by (auto simp: poller_HandleEv_def event_ok_def intro: AddSession_keeps)
next
  case (PE_CtrlProtocolStack sid)
  then obtain nd1 where "on_session api i sid (\<lambda>api w. Option.bind (sw_session w) (\<lambda>s. map_option (\<lambda>_. w) (Session_CtrlProtocolStack s))) nd = Some nd1"
    "on_session api i sid Socket_OnSend nd1 = Some nd'" using assms(1) by (auto simp: poller_HandleEv_def HandleEv_CtrlProtocolStack_def bind_eq_Some_conv)
  then show ?thesis using on_session_keeps keeps_ids(2,6) keeps_trans by blast
qed

lemma poller_turn_keeps:
  assumes "poller_turn api capi rm i nd = Some nd'" "i < length (nd_pollers nd)" "node_ok nd"
  shows "keeps nd nd'"
proof (cases "po_queue (nd_pollers nd ! i)")
  case Nil
  then show ?thesis using assms(1) by (simp add: poller_turn_def)
next
  case (Cons ev evs)
  let ?nd = "upd_poller i (\<lambda>P. P\<lparr>po_queue := evs\<rparr>) nd"
  have P: "poller_ok (length (nd_pollers nd)) i (nd_pollers nd ! i)" using assms(2,3) by (simp add: node_ok_def)
  have "keeps nd ?nd" using Cons by (intro keeps_upd) (auto simp: poller_ok_def)
  moreover have "keeps ?nd nd'"
    using assms(1,2) Cons P by (intro poller_HandleEv_keeps [of api capi rm i ev]) (auto simp: poller_turn_def poller_ok_def)
  ultimately show ?thesis by (rule keeps_trans)
qed

lemma add_factory_keeps: "keeps nd (case f of None \<Rightarrow> nd | Some f \<Rightarrow> nd\<lparr>nd_svc := AddSessionProtocolFactory sid f (nd_svc nd)\<rparr>)"
  by (cases f) (auto simp: AddSessionProtocolFactory_def intro: keeps_same)

text \<open>Allocating an id and pushing an event for it.\<close>

lemma alloc_push_keeps:
  assumes "push_sid sid e (case f of None \<Rightarrow> nd1 | Some f \<Rightarrow> nd1\<lparr>nd_svc := AddSessionProtocolFactory sid f (nd_svc nd1)\<rparr>) = Some nd'" "AllocSessionId nd = (sid, nd1)"
    and "\<And>n i. sid \<noteq> 0 \<Longrightarrow> poller_index n sid = Some i \<Longrightarrow> event_ok n i e"
  shows "keeps nd nd'"
proof -
  let ?nd = "case f of None \<Rightarrow> nd1 | Some f \<Rightarrow> nd1\<lparr>nd_svc := AddSessionProtocolFactory sid f (nd_svc nd1)\<rparr>"
  have 1: "keeps nd nd1" using assms(2) by (auto simp: AllocSessionId_def keeps_def node_ok_def)
  have 2: "keeps nd1 ?nd" by (rule add_factory_keeps)
  have max: "nd_maxSessionId nd' = nd_maxSessionId nd + 1" "length (nd_pollers nd') = length (nd_pollers nd)"
    using assms(1,2) by (auto simp: push_sid_def AllocSessionId_def split: option.splits)
  have "node_ok nd'" if ok: "node_ok nd" "nd_maxSessionId nd' \<le> 2 ^ 31"
  proof -
    have "sid \<noteq> 0" using assms(2) alloc_id [of "nd_maxSessionId nd"] ok max by (auto simp: AllocSessionId_def node_ok_def)
    then have "keeps ?nd nd'" using keeps_push [OF assms(3) assms(1)] by blast
    then have "keeps nd nd'" using 1 2 keeps_trans by blast
    then show ?thesis using ok by (simp add: keeps_def)
  qed
  then show ?thesis using max by (simp add: keeps_def)
qed

lemma PollerMgr_keeps:
  "PollerMgr_add h sk f opts nd = Some (sid, nd') \<Longrightarrow> keeps nd nd'"
  "PollerMgr_AsyncConn resolved f opts nd = Some (sid, nd') \<Longrightarrow> keeps nd nd'"
  by (auto simp: PollerMgr_add_def PollerMgr_AsyncConn_def Let_def event_ok_def split: prod.splits if_splits intro: alloc_push_keeps)

lemma ready_after_keeps:
  assumes "ready_after l r = Some (sid, nd')" "\<And>sid nd1. r = Some (sid, nd1) \<Longrightarrow> keeps nd nd1"
  shows "keeps nd nd'"
proof -
  obtain nd1 where r: "r = Some (sid, nd1)" "nd1 = nd' \<or> (\<exists>svc. AddReadySession sid 0 l (nd_svc nd1) = Some svc \<and> nd' = nd1\<lparr>nd_svc := svc\<rparr>)"
    using assms(1) by (auto simp: ready_after_def bind_eq_Some_conv split: if_splits)
  have "keeps nd1 nd'" using r(2) by (auto intro!: keeps_same dest: AddReadySession_sel)
  then show ?thesis using assms(2) [OF r(1)] keeps_trans by blast
qed

lemma service_Listen_keeps: "service_Listen sock f opts nd = Some (sid, nd') \<Longrightarrow> keeps nd nd'"
  unfolding service_Listen_def by (erule ready_after_keeps) (auto simp: PollerMgr_Listen_def split: option.splits intro: PollerMgr_keeps)

lemma service_Connect_keeps: "service_Connect sock f opts nd = Some (sid, nd') \<Longrightarrow> keeps nd nd'"
  unfolding service_Connect_def by (erule ready_after_keeps) (auto simp: PollerMgr_Connect_def split: option.splits intro: PollerMgr_keeps)

lemma push_msgs_keeps: "keeps nd (push_msgs ms nd)"
proof (induction ms arbitrary: nd)
  case (Cons m ms)
  obtain i x where m: "m = (i, x)" by (cases m)
  let ?nd = "upd_poller i (\<lambda>P. P\<lparr>po_queue := po_queue P @ [poller_event x]\<rparr>) nd"
  have "keeps nd ?nd" by (rule keeps_upd) (auto simp: poller_ok_def event_ok_def poller_event_def split: poller_msg.splits)
  with Cons [of ?nd] show ?case using m keeps_trans by (auto simp: push_msgs_def)
qed (simp add: push_msgs_def)

lemma with_service_keeps:
  assumes "with_service f nd = Some (r, nd')" "\<And>r svc. f (nd_svc nd) = Some (r, svc) \<Longrightarrow> sv_pollerCount svc = sv_pollerCount (nd_svc nd)"
  shows "keeps nd nd'"
proof -
  obtain svc where svc: "f (nd_svc nd) = Some (r, svc)" "nd' = push_msgs (sv_toPollers svc) (nd\<lparr>nd_svc := svc\<lparr>sv_toPollers := []\<rparr>\<rparr>)"
    using assms(1) by (auto simp: with_service_def)
  have "keeps nd (nd\<lparr>nd_svc := svc\<lparr>sv_toPollers := []\<rparr>\<rparr>)" using assms(2) [OF svc(1)] by (simp add: keeps_def node_ok_def)
  then show ?thesis using svc(2) push_msgs_keeps keeps_trans by blast
qed

text \<open>No call of the service changes the number of pollers.\<close>

lemma count_lock: "ready_lock s = Some s' \<longleftrightarrow> \<not> sv_readyLock s \<and> s' = s\<lparr>sv_readyLock := True\<rparr>"
  by (auto simp: ready_lock_def)

lemma count_unlock [simp]: "sv_pollerCount (ready_unlock s) = sv_pollerCount s"
  by (simp add: ready_unlock_def)

lemma count_to_poller: "to_poller sid m s = Some s' \<Longrightarrow> sv_pollerCount s' = sv_pollerCount s"
  by (auto simp: to_poller_def)

lemma count_RemoveSession: "RemoveSession sid reason s = Some (r, s') \<Longrightarrow> sv_pollerCount s' = sv_pollerCount s"
  by (auto simp: RemoveSession_def bind_eq_Some_conv count_lock split: if_splits dest!: count_to_poller)

lemma count_ctrl: "service_CtrlProtocolStack sid s = Some (r, s') \<Longrightarrow> sv_pollerCount s' = sv_pollerCount s"
  by (auto simp: service_CtrlProtocolStack_def bind_eq_Some_conv count_lock split: if_splits option.splits dest!: count_to_poller)

lemma count_send:
  assumes "LockableSend capi rm p chk s = Some (r, s')"
  shows "sv_pollerCount s' = sv_pollerCount s"
proof -
  let ?sid = "pk_sessionId (cp_packet p)"
  note send = assms [unfolded LockableSend_def Let_def]
  show ?thesis
  proof (cases "\<not> sv_started s \<or> sv_fullStack s \<and> \<not> chk")
    case True
    then show ?thesis using send by (auto split: if_splits dest: count_to_poller)
  next
    case False
    then obtain t where t: "ready_lock s = Some t" using send by (auto simp: bind_eq_Some_conv split: if_splits)
    have ct: "sv_pollerCount t = sv_pollerCount s" using t by (auto simp: count_lock)
    show ?thesis
    proof (cases "\<exists>info. sv_ready t ?sid = Some info \<and> \<not> ri_isListen info \<and> \<not> sv_fullStack t")
      case True
      then obtain info where info: "sv_ready t ?sid = Some info" "\<not> ri_isListen info" "\<not> sv_fullStack t" by blast
      then obtain st where st: "ri_codecStack info = Some st" using send False t by (cases "ri_codecStack info") (auto split: if_splits)
      then obtain ret d rm' st' where c: "SendCodec capi (p\<lparr>cp_packet := (cp_packet p)\<lparr>pk_senderSvcId := sv_id s\<rparr>\<rparr>) rm st = Some (ret, d, rm', st')"
        using send False t info by (auto simp: bind_eq_Some_conv split: if_splits)
      then show ?thesis
        using send False t info st ct by (auto split: if_splits ldata.splits dest!: count_to_poller count_RemoveSession)
    next
      case no_codec: False
      then show ?thesis using send False t ct by (cases "sv_ready t ?sid") (auto split: if_splits dest: count_to_poller)
    qed
  qed
qed

lemma count_ready: "AddReadySession sid acc l s = Some s' \<Longrightarrow> sv_pollerCount s' = sv_pollerCount s" "RemoveReadySession sid s = Some s' \<Longrightarrow> sv_pollerCount s' = sv_pollerCount s"
  by (auto simp: AddReadySession_def RemoveReadySession_def count_lock split: if_splits)

lemma count_session_events:
  "HandleEv_SessionCreate sid acc l s w = Some (s', w') \<Longrightarrow> sv_pollerCount s' = sv_pollerCount s"
  "HandleEv_SessionDestroy sid acc l info s w = Some (s', w') \<Longrightarrow> sv_pollerCount s' = sv_pollerCount s"
  "HandleEv_AsyncConnResult sid c s w = (s', w') \<Longrightarrow> sv_pollerCount s' = sv_pollerCount s"
  by (auto simp: HandleEv_SessionCreate_def HandleEv_SessionDestroy_def HandleEv_AsyncConnResult_def RemoveSessionProtocolFactory_def split: if_splits dest!: count_ready)

lemma count_DataArrival:
  assumes "HandleEv_DataArrival capi rm peers p s w = Some (s', w')"
  shows "sv_pollerCount s' = sv_pollerCount s"
proof -
  let ?sid = "pk_sessionId (cp_packet p)"
  obtain t where t: "ready_lock s = Some t" using assms by (auto simp: HandleEv_DataArrival_def Let_def bind_eq_Some_conv)
  have ct: "sv_pollerCount t = sv_pollerCount s" using t by (auto simp: count_lock)
  show ?thesis
  proof (cases "sv_ready t ?sid")
    case None
    then show ?thesis using assms t ct by (auto simp: HandleEv_DataArrival_def)
  next
    case (Some info)
    define dec where "dec = (if sv_fullStack t then Some (LLBC_OK, L_packet p, rm, ready_unlock t)
                  else case ri_codecStack info of
                         None \<Rightarrow> None
                       | Some st \<Rightarrow> map_option
                           (\<lambda>(ret, d, rm, st). (ret, d, rm, ready_unlock (t\<lparr>sv_ready := (sv_ready t)(?sid \<mapsto> info\<lparr>ri_codecStack := Some st\<rparr>)\<rparr>)))
                           (RecvCodec capi p rm st))"
    obtain ret d rm' u where u: "dec = Some (ret, d, rm', u)" using assms t Some by (auto simp: HandleEv_DataArrival_def dec_def [symmetric] Let_def bind_eq_Some_conv)
    have cu: "sv_pollerCount u = sv_pollerCount s" using u ct by (auto simp: dec_def split: if_splits option.splits)
    have "sv_pollerCount s' = sv_pollerCount u"
      using assms t Some u by (auto simp: HandleEv_DataArrival_def dec_def [symmetric] Let_def split: if_splits ldata.splits dest!: count_RemoveSession)
    then show ?thesis using cu by simp
  qed
qed

lemma count_events: "HandleQueuedEvents capi rm peers es s w = Some (s', w') \<Longrightarrow> sv_pollerCount s' = sv_pollerCount s"
proof (induction es arbitrary: s w)
  case (Cons e es)
  then obtain s1 w1 where 1: "HandleQueuedEvents capi rm peers es s1 w1 = Some (s', w')"
    "(case e of
        Ev_SessionCreate sid acceptId isListen \<Rightarrow> HandleEv_SessionCreate sid acceptId isListen s w
      | Ev_SessionDestroy sid acceptId isListen info \<Rightarrow> HandleEv_SessionDestroy sid acceptId isListen info s w
      | Ev_DataArrival p \<Rightarrow> HandleEv_DataArrival capi rm peers p s w
      | Ev_ProtoReport sid opcode l level \<Rightarrow> Some (s, HandleEv_ProtoReport sid opcode l level s w)
      | Ev_AsyncConn sid connected \<Rightarrow> Some (HandleEv_AsyncConnResult sid connected s w)) = Some (s1, w1)" by (auto simp: bind_eq_Some_conv)
  then have "sv_pollerCount s1 = sv_pollerCount s" by (cases e) (auto dest: count_session_events count_DataArrival)
  then show ?case using Cons.IH [OF 1(1)] by simp
qed simp

lemma service_turn_keeps: "service_turn capi rm peers nd = Some nd' \<Longrightarrow> keeps nd nd'"
proof -
  let ?f = "\<lambda>s. map_option (\<lambda>(s, w). (w, s)) (HandleQueuedEvents capi rm peers (nd_events nd) s (nd_app nd))"
  assume "service_turn capi rm peers nd = Some nd'"
  then obtain w nd1 where 1: "with_service ?f (nd\<lparr>nd_events := []\<rparr>) = Some (w, nd1)" "nd' = nd1\<lparr>nd_app := w\<rparr>" by (auto simp: service_turn_def)
  have "keeps nd (nd\<lparr>nd_events := []\<rparr>)" "keeps nd1 nd'" using 1(2) by (auto intro: keeps_same)
  moreover have "keeps (nd\<lparr>nd_events := []\<rparr>) nd1" by (rule with_service_keeps [OF 1(1)]) (auto dest: count_events)
  ultimately show ?thesis using keeps_trans by blast
qed

lemma node_step_keeps:
  assumes "node_step api capi peers nd nd'" "node_ok nd"
  shows "keeps nd nd'"
  using assms
proof (induction rule: node_step.induct)
  case (ns_monitor i nd nd' es)
  then show ?case by (auto simp: poller_ok_def event_ok_def intro: keeps_upd)
next
  case (ns_send rm p nd ret nd')
  then show ?case by (auto simp: service_Send_def intro!: with_service_keeps [of _ nd ret nd'] dest: count_send)
next
  case (ns_remove sid reason nd ret nd')
  then show ?case by (auto intro!: with_service_keeps [of _ nd ret nd'] dest: count_RemoveSession)
next
  case (ns_ctrl sid nd ret nd')
  then show ?case by (auto intro!: with_service_keeps [of _ nd ret nd'] dest: count_ctrl)
qed (auto intro: poller_turn_keeps keeps_same service_Listen_keeps service_Connect_keeps PollerMgr_keeps service_turn_keeps)

lemma node_start_ok: "node_start nd \<Longrightarrow> node_ok nd"
  by (auto simp: node_start_def node_ok_def poller_ok_def)

text \<open>Runs in which the ids have not run out.\<close>

definition bounded_step :: "'k net_api \<Rightarrow> 'c coder_api \<Rightarrow> (cint \<Rightarrow> bool) \<Rightarrow> ('c, 'w, 'k) node \<Rightarrow> ('c, 'w, 'k) node \<Rightarrow> bool" where
  "bounded_step api capi peers nd nd' \<longleftrightarrow> node_step api capi peers nd nd' \<and> nd_maxSessionId nd' \<le> 2 ^ 31"

interpretation node_run: transition_invariant node_start "bounded_step api capi peers" node_ok
  for api capi peers
  by unfold_locales (auto simp: bounded_step_def node_start_ok keeps_def dest: node_step_keeps)

lemma node_ok_same_poller:
  assumes "node_ok nd" "i < length (nd_pollers nd)" "po_sessions (nd_pollers nd ! i) sid \<noteq> None"
  shows "poller_index (length (nd_pollers nd)) sid = Some i"
  using assms unfolding node_ok_def poller_ok_def by fastforce

lemma LockableSend_full_ok:
  assumes "sv_fullStack s" "LockableSend capi rm p chk s = Some (LLBC_OK, s')"
  shows "\<exists>i. poller_index (sv_pollerCount s) (pk_sessionId (cp_packet p)) = Some i \<and> sv_toPollers s' = sv_toPollers s @ [(i, PM_send (from_service s p))]"
  using assms by (fastforce simp: LockableSend_def Let_def bind_eq_Some_conv count_lock ready_unlock_def to_poller_def from_service_def split: if_splits option.splits)

section \<open>Properties\<close>

text \<open>C15: a session lives at one poller only, the one that its id selects, whichever way it was made (listening, connecting, accepting on another poller,
  connecting without waiting). A packet that the service accepts is queued at exactly that poller, behind everything that was sent before, so that it is handled by
  the poller that has the session, if any poller has.\<close>

theorem sessions_and_packets_meet:
  assumes "node_start nd0" "reaches (bounded_step api capi peers) nd0 nd"
  shows "(\<forall>i < length (nd_pollers nd). \<forall>j < length (nd_pollers nd). \<forall>sid.
        po_sessions (nd_pollers nd ! i) sid \<noteq> None \<and> po_sessions (nd_pollers nd ! j) sid \<noteq> None \<longrightarrow> i = j)
    \<and> (\<forall>rm p nd'. sv_fullStack (nd_svc nd) \<and> with_service (service_Send capi rm p) nd = Some (LLBC_OK, nd') \<longrightarrow>
        (\<exists>i < length (nd_pollers nd). nd_pollers nd' = (nd_pollers nd)[i := (nd_pollers nd ! i)\<lparr>po_queue := po_queue (nd_pollers nd ! i) @ [PE_Send (from_service (nd_svc nd) p)]\<rparr>]
          \<and> (\<forall>j < length (nd_pollers nd). po_sessions (nd_pollers nd ! j) (pk_sessionId (cp_packet p)) \<noteq> None \<longrightarrow> j = i)))"
proof -
  have ok: "node_ok nd" by (rule node_run.inv_reachable [OF assms])
  let ?n = "length (nd_pollers nd)"
  have "\<exists>i < ?n. nd_pollers nd' = (nd_pollers nd)[i := (nd_pollers nd ! i)\<lparr>po_queue := po_queue (nd_pollers nd ! i) @ [PE_Send (from_service (nd_svc nd) p)]\<rparr>]
          \<and> (\<forall>j < ?n. po_sessions (nd_pollers nd ! j) (pk_sessionId (cp_packet p)) \<noteq> None \<longrightarrow> j = i)"
    if send: "sv_fullStack (nd_svc nd)" "with_service (service_Send capi rm p) nd = Some (LLBC_OK, nd')" for rm p nd'
  proof -
    obtain svc where svc: "LockableSend capi rm p True (nd_svc nd) = Some (LLBC_OK, svc)" "nd' = push_msgs (sv_toPollers svc) (nd\<lparr>nd_svc := svc\<lparr>sv_toPollers := []\<rparr>\<rparr>)"
      using send(2) by (auto simp: with_service_def service_Send_def)
    obtain i where i: "poller_index ?n (pk_sessionId (cp_packet p)) = Some i" "sv_toPollers svc = [(i, PM_send (from_service (nd_svc nd) p))]"
      using LockableSend_full_ok [OF send(1) svc(1)] ok by (auto simp: node_ok_def)
    then show ?thesis using svc(2) poller_index_less [OF i(1)] node_ok_same_poller [OF ok] by (auto simp: push_msgs_def poller_event_def upd_poller_def intro!: exI [of _ i])
  qed
  moreover have "i = j" if "i < ?n" "j < ?n" "po_sessions (nd_pollers nd ! i) sid \<noteq> None" "po_sessions (nd_pollers nd ! j) sid \<noteq> None" for i j sid
    using node_ok_same_poller [OF ok that(1,3)] node_ok_same_poller [OF ok that(2,4)] by simp
  ultimately show ?thesis by blast
qed

text \<open>A node with two pollers that connects.\<close>

definition node0 :: "(unit, unit, byte list) node" where
  "node0 = \<lparr>nd_svc = service0\<lparr>sv_pollerCount := 2, sv_ready := Map.empty\<rparr>, nd_app = (), nd_events = [],
     nd_pollers = replicate 2 \<lparr>po_queue = [], po_sessions = Map.empty, po_connecting = Map.empty\<rparr>, nd_maxSessionId = 1, nd_net = []\<rparr>"

definition opts0 :: sess_opts where
  "opts0 = \<lparr>so_sessionSendBufSize = LLBC_INFINITE, so_sessionRecvBufSize = 1024, so_maxPacketSize = 100\<rparr>"

lemma node0_connect: "\<exists>nd. service_Connect (Some 3) None opts0 node0 = Some (1, nd) \<and> sv_fullStack (nd_svc nd) \<and> nd_maxSessionId nd = 2
    \<and> po_queue (nd_pollers nd ! 1) = [PE_AddSock 3 (Socket_new False LLBC_INFINITE) 1 opts0] \<and> length (nd_pollers nd) = 2 \<and> po_sessions (nd_pollers nd ! 1) = Map.empty
    \<and> sendable (nd_svc nd) 1 \<and> running (nd_svc nd) \<and> sv_pollerCount (nd_svc nd) = 2"
  by (auto simp: service_Connect_def ready_after_def PollerMgr_Connect_def PollerMgr_add_def AllocSessionId_def push_sid_def poller_index_def Let_def
      AddReadySession_def ready_lock_def ready_unlock_def new_ready_info_def node0_def service0_def upd_poller_def sendable_def running_def)

theorem sessions_and_packets_meet_witness:
  "\<exists>nd nd' i. reaches (bounded_step \<lparr>na_sock = \<lambda>h. loop_api, na_connect = \<lambda>k. ((0, Conn_failed), k), na_connected = \<lambda>h k. (False, k), na_pendingError = \<lambda>h k. (None, k), na_accept = \<lambda>h k. (None, k)\<rparr>
        no_coders (\<lambda>_. False)) node0 nd
     \<and> with_service (service_Send no_coders True (plain (Packet_from_pool\<lparr>pk_sessionId := 1\<rparr>))) nd = Some (LLBC_OK, nd')
     \<and> i < 2 \<and> nd_pollers nd' = (nd_pollers nd)[i := (nd_pollers nd ! i)\<lparr>po_queue := po_queue (nd_pollers nd ! i) @ [PE_Send (from_service (nd_svc nd) (plain (Packet_from_pool\<lparr>pk_sessionId := 1\<rparr>)))]\<rparr>]"
proof -
  let ?api = "\<lparr>na_sock = \<lambda>h. loop_api, na_connect = \<lambda>k. ((0, Conn_failed), k), na_connected = \<lambda>h k. (False, k), na_pendingError = \<lambda>h k. (None, k), na_accept = \<lambda>h k. (None, k)\<rparr>"
  let ?p = "plain (Packet_from_pool\<lparr>pk_sessionId := 1\<rparr>) :: unit cpacket"
  obtain nd where nd: "service_Connect (Some 3) None opts0 node0 = Some (1, nd)" "sv_fullStack (nd_svc nd)" "nd_maxSessionId nd = 2" "length (nd_pollers nd) = 2"
    "sendable (nd_svc nd) 1" "running (nd_svc nd)" "sv_pollerCount (nd_svc nd) = 2" using node0_connect by blast
  have start: "node_start node0" by (simp add: node_start_def node0_def service0_def)
  have run: "reaches (bounded_step ?api no_coders (\<lambda>_. False)) node0 nd"
    using ns_connect [OF nd(1), of ?api no_coders "\<lambda>_. False"] nd(3) by (intro reaches.intros(2) [OF reaches.intros(1)]) (simp add: bounded_step_def)
  have "LockableSend no_coders True ?p True (nd_svc nd) = Some (LLBC_OK, polled (nd_svc nd) [?p])"
    using LockableSend_full [OF nd(6), of ?p] nd(5,7) by (simp add: plain_def poller_index_def Let_def)
  then obtain nd' where nd': "with_service (service_Send no_coders True ?p) nd = Some (LLBC_OK, nd')" by (simp add: with_service_def service_Send_def)
  then show ?thesis using sessions_and_packets_meet [OF start run] run nd(2,4) by metis
qed

end
