(* ===== verification/Rpc_Transport.thy ===== *)
theory Rpc_Transport
  imports Rpc_Conn Llbc_Poller
begin

text \<open>
  The connection component of the RPC layer on top of an LLBC service: what \<open>RpcConnMgr::Init\<close> (src/rpc_conn_mgr.cpp) configures in the service it creates
  (3rd/llbc/llbc/src/comm/ServiceImpl.cpp, constructor), and the way of a packet from one \<open>RpcConnComp\<close> through sessions, sockets, the network, the
  event queue of the other service and its handlers to the other \<open>RpcConnComp\<close>.
\<close>

text \<open>The constructor of the service with the default arguments of \<open>LLBC_Service::Create\<close>.\<close>

definition ServiceImpl_new :: "cint \<Rightarrow> ('c, 'w) service" where
  "ServiceImpl_new maxId = \<lparr>sv_id = maxId, sv_started = False, sv_initingComp = False, sv_fullStack = True, sv_suppressed = False, sv_pollerCount = 0,
     sv_dftFactory = NormalProtocolFactory, sv_factories = Map.empty, sv_coders = Map.empty, sv_ready = Map.empty, sv_readyLock = False,
     sv_handlers = Map.empty, sv_preHandlers = Map.empty, sv_unifyPreHandler = None, sv_statusHandlers = Map.empty,
     sv_comps = [], sv_toPollers = [], sv_toServices = []\<rparr>"

text \<open>The handler that \<open>Init\<close> subscribes for both opcodes.\<close>

definition conn_handler :: "('c, 'z rpc_world_scheme) handler" where
  "conn_handler p = RpcConnComp_OnRecvPacket (cp_packet p)"

text \<open>The calls of \<open>Init\<close> that configure handlers and coders, with their early returns, and the part of \<open>Start(4)\<close> that matters here.\<close>

definition conn_service_init :: "('c, 'z rpc_world_scheme) service \<Rightarrow> int \<times> ('c, 'z rpc_world_scheme) service" where
  "conn_service_init s =
     (let (ret, s) = Subscribe (opcode_val RpcReq) (Some conn_handler) s
      in if ret \<noteq> LLBC_OK then (LLBC_FAILED, s)
         else let (ret, s) = Subscribe (opcode_val RpcRsp) (Some conn_handler) s
              in if ret \<noteq> LLBC_OK then (LLBC_FAILED, s)
                 else let (ret, s) = SuppressCoderNotFoundWarning s
                      in if ret \<noteq> LLBC_OK then (LLBC_FAILED, s) else (LLBC_OK, s\<lparr>sv_started := True, sv_pollerCount := 4\<rparr>))"

lemma conn_service_init_ok:
  "\<exists>s. conn_service_init (ServiceImpl_new sid) = (LLBC_OK, s) \<and> running s \<and> sv_suppressed s \<and> sv_coders s = Map.empty \<and> sv_preHandlers s = Map.empty
     \<and> sv_unifyPreHandler s = None \<and> sv_statusHandlers s = Map.empty \<and> sv_id s = sid \<and> sv_ready s = Map.empty
     \<and> sv_handlers s = [opcode_val RpcReq \<mapsto> conn_handler, opcode_val RpcRsp \<mapsto> conn_handler]"
  by (auto simp: conn_service_init_def ServiceImpl_new_def Subscribe_def SuppressCoderNotFoundWarning_def can_configure_def opcode_val_def running_def)

text \<open>The service after \<open>Init\<close>, later in its life: sessions have become ready.\<close>

definition conn_service :: "('c, 'z rpc_world_scheme) service \<Rightarrow> bool" where
  "conn_service s \<longleftrightarrow> (\<exists>sid s0 ready. conn_service_init (ServiceImpl_new sid) = (LLBC_OK, s0) \<and> s = s0\<lparr>sv_ready := ready\<rparr>)"

definition is_rpc_packet :: "packet \<Rightarrow> bool" where
  "is_rpc_packet p \<longleftrightarrow> pk_opcode p \<in> {opcode_val RpcReq, opcode_val RpcRsp} \<and> pk_recverSvcId p = 0"

lemma conn_service_dispatches:
  assumes "conn_service s" "sv_ready s (pk_sessionId p) \<noteq> None" "is_rpc_packet p"
  shows "dispatches s conn_handler (plain p)" "sv_fullStack s" "\<not> sv_readyLock s"
proof -
  obtain sid s0 ready where s: "conn_service_init (ServiceImpl_new sid) = (LLBC_OK, s0)" "s = s0\<lparr>sv_ready := ready\<rparr>" using assms(1) by (auto simp: conn_service_def)
  have s0: "running s0" "sv_preHandlers s0 = Map.empty" "sv_unifyPreHandler s0 = None" "sv_statusHandlers s0 = Map.empty"
    "sv_handlers s0 = [opcode_val RpcReq \<mapsto> conn_handler, opcode_val RpcRsp \<mapsto> conn_handler]"
    using conn_service_init_ok [of sid, where 'a = 'a and 'b = 'b] s(1) by auto
  show "dispatches s conn_handler (plain p)" "sv_fullStack s" "\<not> sv_readyLock s"
    using s0 s(2) assms(2,3) by (auto simp: dispatches_def is_rpc_packet_def plain_def running_def)
qed

section \<open>Receiving a series of packets\<close>

lemma OnRecvPacket_series:
  assumes "conn_inv w" "length (recv_list w) + length qs < MAX_QUEUE_SIZE"
  shows "\<exists>as. conn_inv (fold RpcConnComp_OnRecvPacket qs w) \<and> recv_list (fold RpcConnComp_OnRecvPacket qs w) = recv_list w @ as
    \<and> list_all2 (\<lambda>q a. rw_packets (fold RpcConnComp_OnRecvPacket qs w) a = Some (recv_copy q)) qs as
    \<and> (\<forall>a p. rw_packets w a = Some p \<longrightarrow> rw_packets (fold RpcConnComp_OnRecvPacket qs w) a = Some p)"
  using assms
proof (induction qs arbitrary: w)
  case (Cons q qs)
  let ?v = "RpcConnComp_OnRecvPacket q w" and ?u = "fold RpcConnComp_OnRecvPacket (q # qs) w"
  have room: "length (recv_list w) < MAX_QUEUE_SIZE - 1" using Cons.prems(2) by simp
  note v = OnRecvPacket_ok [OF Cons.prems(1) room, of q] OnRecvPacket_inv [OF Cons.prems(1) room, of q]
  have list: "recv_list ?v = recv_list w @ [rw_next w]" "rw_packets ?v = (rw_packets w)(rw_next w \<mapsto> recv_copy q)" using v(1) by auto
  then obtain as where as: "conn_inv ?u" "recv_list ?u = recv_list ?v @ as" "list_all2 (\<lambda>q a. rw_packets ?u a = Some (recv_copy q)) qs as"
    "\<forall>a p. rw_packets ?v a = Some p \<longrightarrow> rw_packets ?u a = Some p"
    using Cons.IH [OF v(2)] Cons.prems(2) by auto
  have new: "rw_packets w (rw_next w) = None" using Cons.prems(1) by (auto simp: conn_inv_def)
  have "rw_packets ?u (rw_next w) = Some (recv_copy q)" using as(4) list(2) by simp
  moreover have "\<forall>a p. rw_packets w a = Some p \<longrightarrow> rw_packets ?u a = Some p" using as(4) list(2) new by (metis fun_upd_apply option.distinct(1))
  ultimately show ?case using as list(1) by (intro exI [of _ "rw_next w # as"]) simp
qed auto

lemma arrival_plain: "pk_sessionId q = sid \<Longrightarrow> arrival capi Map.empty True sid q = Ev_DataArrival (plain q)"
  by (simp add: arrival_def codec_recv_def plain_def)

definition own :: "('c, 'w) service \<Rightarrow> packet \<Rightarrow> packet" where
  "own s q = cp_packet (addressed s (plain q) :: 'c cpacket)"

lemma own_same: "recv_copy (own s q) = recv_copy q" "packet_bytes (recv_copy q) = packet_bytes q"
    "pk_sessionId (recv_copy q) = pk_sessionId q" "pk_opcode (recv_copy q) = pk_opcode q"
  by (auto simp: own_def addressed_def plain_def recv_copy_def packet_bytes_def Packet_GetPayloadLength_def Packet_GetPayload_def Packet_from_pool_def Packet_new_def)

lemma conn_service_receives:
  assumes "conn_service s" "\<forall>q \<in> set qs. sv_ready s (pk_sessionId q) \<noteq> None \<and> is_rpc_packet q"
  shows "HandleQueuedEvents capi rm peers (map (\<lambda>q. Ev_DataArrival (plain q)) qs) s w = Some (s, fold RpcConnComp_OnRecvPacket (map (own s) qs) w)"
proof (cases "qs = []")
  case False
  then obtain q where q: "q \<in> set qs" by (cases qs) auto
  have d: "\<forall>p \<in> set (map plain qs). dispatches s conn_handler p" using conn_service_dispatches(1) [OF assms(1)] assms(2) by auto
  have "fold (\<lambda>p. conn_handler (addressed s p)) (map plain qs) w = fold RpcConnComp_OnRecvPacket (map (own s) qs) w"
    by (simp add: fold_map comp_def conn_handler_def own_def)
  moreover have "sv_fullStack s" "\<not> sv_readyLock s" using conn_service_dispatches(2,3) [OF assms(1), of q] assms(2) q by auto
  ultimately show ?thesis using HandleQueuedEvents_dispatch [OF _ _ d, of capi rm peers w] by (simp add: comp_def)
qed simp

section \<open>Properties\<close>

text \<open>C3: the RPC packets that one side hands to its session arrive in the receive queue of the connection component of the other side. However the bytes are cut and delayed,
  when the service of the receiver has handled its events the component has queued, behind what was there before, one packet for each of a prefix of the packets sent, in order, with the same opcode and
  payload and the session they came from; all of them if no byte is left in the sender's buffer or in flight. The queue must have room.\<close>

theorem rpc_packets_cross_the_network:
  assumes "link_laws sapi rapi flight" "link_start Map.empty True cfg flight c0" "reaches (link_step sapi rapi capi flight (cfg_max cfg)) c0 c"
    and "\<forall>p \<in> set (cn_sent c). is_rpc_packet p" "conn_service s" "sv_ready s (cfg_session cfg) \<noteq> None"
    and "conn_inv w" "length (recv_list w) + length (cn_sent c) < MAX_QUEUE_SIZE"
  shows "\<exists>w' ps later as snd. HandleQueuedEvents capi rm peers (cn_rev c) s w = Some (s, w') \<and> conn_inv w'
    \<and> cn_sent c = ps @ later \<and> recv_list w' = recv_list w @ as
    \<and> list_all2 (\<lambda>p a. \<exists>q. rw_packets w' a = Some q \<and> pk_sessionId q = cfg_session cfg \<and> pk_opcode q = pk_opcode p \<and> packet_bytes q = packet_bytes p) ps as
    \<and> cn_snd c = Some snd \<and> (flight (cn_net c) = [] \<and> MBuf_GetSize (sk_willSend (ss_socket snd)) = 0 \<longrightarrow> later = [])"
proof -
  have acc: "\<forall>q. codec_recv capi Map.empty True q \<noteq> None" by (simp add: codec_recv_def)
  have "link_inv capi Map.empty True cfg flight c"
    using link_run.inv_reachable [of sapi rapi capi Map.empty True cfg flight c0 c] assms(1-3) acc by (simp add: link_ready_def)
  from link_inv_delivered [OF this] obtain snd qs ps later where d: "cn_snd c = Some snd" "cn_rev c = map (arrival capi Map.empty True (cfg_session cfg)) qs"
    "cn_sent c = ps @ later" "list_all2 (received_as cfg) ps qs" "flight (cn_net c) = [] \<and> MBuf_GetSize (sk_willSend (ss_socket snd)) = 0 \<longrightarrow> later = []" by blast
  have sid: "pk_sessionId q = cfg_session cfg" "is_rpc_packet q" if mem: "q \<in> set qs" for q
  proof -
    obtain i where i: "i < length qs" "q = qs ! i" using mem by (auto simp: in_set_conv_nth)
    have "received_as cfg (ps ! i) q" "ps ! i \<in> set ps" using list_all2_nthD2 [OF d(4) i(1)] list_all2_lengthD [OF d(4)] i by auto
    then show "pk_sessionId q = cfg_session cfg" "is_rpc_packet q" using assms(4) d(3) by (auto simp: received_as_def is_rpc_packet_def)
  qed
  have "cn_rev c = map (\<lambda>q. Ev_DataArrival (plain q)) qs" using d(2) sid(1) by (simp add: arrival_plain)
  then have run: "HandleQueuedEvents capi rm peers (cn_rev c) s w = Some (s, fold RpcConnComp_OnRecvPacket (map (own s) qs) w)"
    using conn_service_receives [OF assms(5), of qs] sid assms(6) by simp
  have len: "length qs = length ps" using d(4) by (simp add: list_all2_lengthD)
  obtain as where as: "conn_inv (fold RpcConnComp_OnRecvPacket (map (own s) qs) w)" "recv_list (fold RpcConnComp_OnRecvPacket (map (own s) qs) w) = recv_list w @ as"
    "list_all2 (\<lambda>q a. rw_packets (fold RpcConnComp_OnRecvPacket (map (own s) qs) w) a = Some (recv_copy q)) (map (own s) qs) as"
    using OnRecvPacket_series [OF assms(7), of "map (own s) qs"] assms(8) len d(3) by auto
  let ?w = "fold RpcConnComp_OnRecvPacket (map (own s) qs) w"
  have "list_all2 (\<lambda>p a. \<exists>q. rw_packets ?w a = Some q \<and> pk_sessionId q = cfg_session cfg \<and> pk_opcode q = pk_opcode p \<and> packet_bytes q = packet_bytes p) ps as"
    using d(4) as(3) by (auto simp: list_all2_conv_all_nth received_as_def own_same)
  with run as(1,2) d show ?thesis
    by (intro exI [of _ ?w] exI [of _ ps] exI [of _ later] exI [of _ as] exI [of _ snd]) simp
qed

theorem rpc_packets_cross_the_network_witness:
  "\<exists>c s w' ps later as. cn_sent c = [Packet_from_pool\<lparr>pk_opcode := opcode_val RpcReq\<rparr>] \<and> conn_service s
     \<and> HandleQueuedEvents no_coders True (\<lambda>_. False) (cn_rev c) s rpc_world0 = Some (s, w') \<and> conn_inv w'
     \<and> cn_sent c = ps @ later \<and> recv_list w' = as
     \<and> list_all2 (\<lambda>p a. \<exists>q. rw_packets w' a = Some q \<and> pk_sessionId q = 7 \<and> pk_opcode q = pk_opcode p \<and> packet_bytes q = packet_bytes p) ps as
     \<and> cn_net (c :: (unit, byte list) link) = []"
proof -
  let ?cfg = "\<lparr>cfg_max = 100, cfg_session = 7, cfg_accept = 0\<rparr>"
  let ?opts = "\<lparr>so_sessionSendBufSize = LLBC_INFINITE, so_sessionRecvBufSize = 1024, so_maxPacketSize = 100\<rparr>"
  let ?p = "Packet_from_pool\<lparr>pk_opcode := opcode_val RpcReq\<rparr>"
  obtain snd rcv where s: "Session_new ?opts 1 0 (Socket_new False 100) True NormalProtocolFactory (Map.empty :: cint \<rightharpoonup> unit) True = Some snd"
    "Session_new ?opts 7 0 (Socket_new False 100) True NormalProtocolFactory (Map.empty :: cint \<rightharpoonup> unit) True = Some rcv"
    using Session_new_exists by blast
  let ?c = "\<lparr>cn_snd = Some snd, cn_rcv = Some rcv, cn_net = ([] :: byte list), cn_sev = [], cn_rev = [], cn_sent = []\<rparr>"
  have start: "link_start Map.empty True ?cfg id ?c"
    using s unfolding link_start_def by (intro conjI exI [of _ ?opts] exI [of _ 1] exI [of _ 0] exI [of _ 100] exI [of _ Map.empty] exI [of _ True]) simp_all
  have enc: "Packet_Encode no_coders (plain ?p) = (True, plain ?p)" by (simp add: Packet_Encode_def plain_def)
  have "packet_repr ?p []" using Packet_pool_repr by (simp add: packet_repr_def)
  then have fits: "packet_fits 100 (cp_packet (plain ?p :: unit cpacket))" using packet_bytes_repr [of ?p "[]"] by (simp add: packet_fits_def llbc_headerLen_def plain_def)
  have ok: "sender_ok snd []" using Session_new_full [OF s(1)] MBuf_new_repr by (auto simp: sender_ok_def Socket_new_def)
  obtain snd' where send: "Session_Send no_coders True (plain ?p) (snd_world ?c) = Some (LLBC_OK, (snd_world ?c)\<lparr>sw_session := Some snd'\<rparr>)"
    using Session_Send_ok [of "snd_world ?c" snd "[]", OF _ ok enc, of True] fits by (auto simp: packet_fits_def)
  let ?d = "(set_snd ((snd_world ?c)\<lparr>sw_session := Some snd'\<rparr>) ?c)\<lparr>cn_sent := cn_sent ?c @ [cp_packet (plain ?p :: unit cpacket)]\<rparr>"
  have run: "reaches (link_step loop_api loop_api no_coders id (cfg_max ?cfg)) ?c ?d" using cs_send [OF enc fits, of True ?c LLBC_OK "(snd_world ?c)\<lparr>sw_session := Some snd'\<rparr>"] send by auto
  have "cn_sent ?d = [?p]" "cn_net ?d = []" by (simp_all add: plain_def)
  with run obtain d where d: "reaches (link_step loop_api loop_api no_coders id (cfg_max ?cfg)) ?c d" "cn_sent d = [?p]" "cn_net d = []" by blast
  obtain s0 :: "(unit, rpc_world) service" where "conn_service_init (ServiceImpl_new 1) = (LLBC_OK, s0)" using conn_service_init_ok by blast
  then have svc: "conn_service (s0\<lparr>sv_ready := [7 \<mapsto> \<lparr>ri_isListen = False, ri_codecStack = None\<rparr>]\<rparr>)" unfolding conn_service_def by blast
  have list: "recv_list rpc_world0 = []" by (simp add: rpc_world0_def SPSC_new_list MAX_QUEUE_SIZE_pos)
  have prem: "\<forall>p \<in> set (cn_sent d). is_rpc_packet p" "length (recv_list rpc_world0) + length (cn_sent d) < MAX_QUEUE_SIZE"
    by (simp_all add: d(2) list is_rpc_packet_def Packet_from_pool_def Packet_new_def) (simp add: MAX_QUEUE_SIZE_def)
  have ready: "sv_ready (s0\<lparr>sv_ready := [7 \<mapsto> \<lparr>ri_isListen = False, ri_codecStack = None\<rparr>]\<rparr>) (cfg_session ?cfg) \<noteq> None" by simp
  let ?s = "s0\<lparr>sv_ready := [7 \<mapsto> \<lparr>ri_isListen = False, ri_codecStack = None\<rparr>]\<rparr>"
  obtain w' ps later as where "HandleQueuedEvents no_coders True (\<lambda>_. False) (cn_rev d) ?s rpc_world0 = Some (?s, w')" "conn_inv w'"
    "cn_sent d = ps @ later" "recv_list w' = recv_list rpc_world0 @ as"
    "list_all2 (\<lambda>p a. \<exists>q. rw_packets w' a = Some q \<and> pk_sessionId q = cfg_session ?cfg \<and> pk_opcode q = pk_opcode p \<and> packet_bytes q = packet_bytes p) ps as"
    using rpc_packets_cross_the_network [OF loop_api_laws start d(1) prem(1) svc ready rpc_world0_inv prem(2), of True "\<lambda>_. False"] by (elim exE conjE)
  then show ?thesis
    using svc d(2,3) list by (intro exI [of _ d] exI [of _ ?s] exI [of _ w'] exI [of _ ps] exI [of _ later] exI [of _ as] conjI) simp_all
qed

end
