(* ===== verification/Llbc_Comps.thy ===== *)
theory Llbc_Comps
  imports Prelude
begin

unbundle bit_operations_syntax

text \<open>
  The life cycle of the components of a service (3rd/llbc/llbc/src/comm/ServiceImpl.cpp: \<open>AddComponent\<close>, \<open>InitComps\<close>, \<open>StartComps\<close>, \<open>StopComps\<close>, \<open>UpdateComps\<close>,
  \<open>DestroyComps\<close> and what they call; include/llbc/comm/ComponentEvents.h). The callbacks of a component are code of the application on a state \<open>'w\<close>; every call is recorded
  with the flags that the component has at that moment. A callback may ask to be called again; while a start or stop waits, the service runs a frame (\<open>OnSvc(false)\<close>)
  of which \<open>UpdateComps\<close> is modelled and the rest is a parameter. \<open>None\<close> is waiting without end.
\<close>

section \<open>State\<close>

datatype comp_event = EvIdx_OnInit | EvIdx_OnDestroy | EvIdx_OnStart | EvIdx_OnLateStart | EvIdx_OnEarlyStop | EvIdx_OnStop | EvIdx_OnUpdate

definition event_index :: "comp_event \<Rightarrow> nat" where
  "event_index e = (case e of EvIdx_OnInit \<Rightarrow> 0 | EvIdx_OnDestroy \<Rightarrow> 1 | EvIdx_OnStart \<Rightarrow> 2 | EvIdx_OnLateStart \<Rightarrow> 3 | EvIdx_OnEarlyStop \<Rightarrow> 4 | EvIdx_OnStop \<Rightarrow> 5 | EvIdx_OnUpdate \<Rightarrow> 6)"

definition event_mask :: "comp_event \<Rightarrow> u64" where
  "event_mask e = push_bit (event_index e) 1"

datatype cb_result = Cb_failed | Cb_finished | Cb_again

record ('i, 'w) comp_api =
  ca_name :: "'i \<Rightarrow> string"
  ca_events :: "'i \<Rightarrow> u64"
  ca_call :: "comp_event \<Rightarrow> 'i \<Rightarrow> 'w \<Rightarrow> cb_result \<times> 'w"
  ca_frame :: "'w \<Rightarrow> 'w"

record ('i, 'w) comps =
  cs_svcStarted :: bool
  cs_willReg :: "'i list"
  cs_list :: "'i list"
  cs_inited :: "'i set"
  cs_started :: "'i set"
  cs_initRet :: bool
  cs_initFinished :: bool
  cs_startRet :: bool
  cs_startFinished :: bool
  cs_calls :: "(comp_event \<times> 'i \<times> bool \<times> bool) list"
  cs_world :: 'w

definition comps_new :: "'w \<Rightarrow> ('i, 'w) comps" where
  "comps_new w = \<lparr>cs_svcStarted = False, cs_willReg = [], cs_list = [], cs_inited = {}, cs_started = {}, cs_initRet = True, cs_initFinished = False,
     cs_startRet = True, cs_startFinished = False, cs_calls = [], cs_world = w\<rparr>"

definition IsCaredEvents :: "('i, 'w) comp_api \<Rightarrow> u64 \<Rightarrow> 'i \<Rightarrow> bool" where
  "IsCaredEvents api evs i \<longleftrightarrow> ca_events api i AND evs = evs"

section \<open>Callbacks\<close>

definition call :: "('i, 'w) comp_api \<Rightarrow> comp_event \<Rightarrow> 'i \<Rightarrow> ('i, 'w) comps \<Rightarrow> cb_result \<times> ('i, 'w) comps" where
  "call api e i c =
     (let (r, w) = ca_call api e i (cs_world c)
      in (r, c\<lparr>cs_calls := cs_calls c @ [(e, i, i \<in> cs_inited c, i \<in> cs_started c)], cs_world := w\<rparr>))"

definition UpdateComps :: "('i, 'w) comp_api \<Rightarrow> ('i, 'w) comps \<Rightarrow> ('i, 'w) comps" where
  "UpdateComps api c =
     fold (\<lambda>i c. if i \<in> cs_started c then snd (call api EvIdx_OnUpdate i c) else c) (filter (IsCaredEvents api (event_mask EvIdx_OnUpdate)) (cs_list c)) c"

definition comps_frame :: "('i, 'w) comp_api \<Rightarrow> ('i, 'w) comps \<Rightarrow> ('i, 'w) comps" where
  "comps_frame api c = UpdateComps api (c\<lparr>cs_world := ca_frame api (cs_world c)\<rparr>)"

text \<open>The loop around a callback; \<open>frame\<close> says whether a frame is run before the next call.\<close>

partial_function (option) call_until :: "('i, 'w) comp_api \<Rightarrow> bool \<Rightarrow> comp_event \<Rightarrow> 'i \<Rightarrow> ('i, 'w) comps \<Rightarrow> (cb_result \<times> ('i, 'w) comps) option" where
  "call_until api frame e i c =
     (case call api e i c of (r, c) \<Rightarrow>
        if r = Cb_again then call_until api frame e i (if frame then comps_frame api c else c) else Some (r, c))"

section \<open>Stopping and destroying\<close>

fun early_stops :: "('i, 'w) comp_api \<Rightarrow> 'i list \<Rightarrow> ('i, 'w) comps \<Rightarrow> ('i, 'w) comps option" where
  "early_stops api [] c = Some c"
| "early_stops api (i # is) c = Option.bind
     (if i \<notin> cs_started c \<or> \<not> IsCaredEvents api (of_nat (event_index EvIdx_OnEarlyStop)) i then Some c
      else map_option snd (call_until api True EvIdx_OnEarlyStop i c))
     (early_stops api is)"

fun stops :: "('i, 'w) comp_api \<Rightarrow> 'i list \<Rightarrow> ('i, 'w) comps \<Rightarrow> ('i, 'w) comps option" where
  "stops api [] c = Some c"
| "stops api (i # is) c = Option.bind
     (if i \<notin> cs_started c then Some c
      else map_option (\<lambda>c. c\<lparr>cs_started := cs_started c - {i}\<rparr>)
             (if IsCaredEvents api (event_mask EvIdx_OnStop) i then map_option snd (call_until api True EvIdx_OnStop i c) else Some c))
     (stops api is)"

definition StopComps :: "('i, 'w) comp_api \<Rightarrow> ('i, 'w) comps \<Rightarrow> ('i, 'w) comps option" where
  "StopComps api c = Option.bind (early_stops api (rev (cs_list c)) c) (\<lambda>c. stops api (rev (cs_list c)) c)"

fun destroys :: "('i, 'w) comp_api \<Rightarrow> 'i list \<Rightarrow> ('i, 'w) comps \<Rightarrow> ('i, 'w) comps option" where
  "destroys api [] c = Some c"
| "destroys api (i # is) c = Option.bind
     (if i \<notin> cs_inited c then Some c
      else map_option (\<lambda>c. c\<lparr>cs_inited := cs_inited c - {i}\<rparr>)
             (if IsCaredEvents api (event_mask EvIdx_OnDestroy) i then map_option snd (call_until api False EvIdx_OnDestroy i c) else Some c))
     (destroys api is)"

definition DestroyComps :: "('i, 'w) comp_api \<Rightarrow> ('i, 'w) comps \<Rightarrow> ('i, 'w) comps option" where
  "DestroyComps api c = map_option (\<lambda>c. c\<lparr>cs_list := []\<rparr>) (destroys api (rev (cs_list c)) c)"

definition ClearCompsWhenInitCompFailed :: "('i, 'w) comp_api \<Rightarrow> ('i, 'w) comps \<Rightarrow> ('i, 'w) comps option" where
  "ClearCompsWhenInitCompFailed api c = map_option (\<lambda>c. c\<lparr>cs_willReg := []\<rparr>) (Option.bind (StopComps api c) (DestroyComps api))"

section \<open>Initializing and starting\<close>

definition AddComponent :: "('i, 'w) comp_api \<Rightarrow> 'i \<Rightarrow> ('i, 'w) comps \<Rightarrow> int \<times> ('i, 'w) comps" where
  "AddComponent api i c =
     (if cs_svcStarted c then (LLBC_FAILED, c)
      else if 512 \<le> length (ca_name api i) then (LLBC_FAILED, c)
      else if \<exists>j \<in> set (cs_willReg c). i = j \<or> ca_name api i = ca_name api j then (LLBC_FAILED, c)
      else (LLBC_OK, c\<lparr>cs_willReg := cs_willReg c @ [i]\<rparr>))"

fun init_loop :: "('i, 'w) comp_api \<Rightarrow> 'i list \<Rightarrow> ('i, 'w) comps \<Rightarrow> ('i, 'w) comps option" where
  "init_loop api [] c = Some (c\<lparr>cs_willReg := []\<rparr>)"
| "init_loop api (i # is) c =
     (let c = c\<lparr>cs_willReg := is, cs_list := cs_list c @ [i]\<rparr>
      in if i \<in> cs_inited c then init_loop api is c
         else if \<not> IsCaredEvents api (event_mask EvIdx_OnInit) i then init_loop api is (c\<lparr>cs_inited := insert i (cs_inited c)\<rparr>)
         else Option.bind (call_until api False EvIdx_OnInit i c)
                (\<lambda>(r, c). if r = Cb_failed then ClearCompsWhenInitCompFailed api (c\<lparr>cs_initRet := False\<rparr>)
                          else init_loop api is (c\<lparr>cs_inited := insert i (cs_inited c)\<rparr>)))"

definition InitComps :: "('i, 'w) comp_api \<Rightarrow> ('i, 'w) comps \<Rightarrow> (int \<times> ('i, 'w) comps) option" where
  "InitComps api c = map_option (\<lambda>c. (if cs_initRet c then LLBC_OK else LLBC_FAILED, c\<lparr>cs_initFinished := True\<rparr>))
     (init_loop api (cs_willReg c) (c\<lparr>cs_initRet := True\<rparr>))"

text \<open>The loop over \<open>OnStart\<close>; the flag says that all components were started.\<close>

fun start_loop :: "('i, 'w) comp_api \<Rightarrow> 'i list \<Rightarrow> ('i, 'w) comps \<Rightarrow> (bool \<times> ('i, 'w) comps) option" where
  "start_loop api [] c = Some (True, c)"
| "start_loop api (i # is) c =
     (if i \<in> cs_started c then start_loop api is c
      else if \<not> IsCaredEvents api (event_mask EvIdx_OnStart) i then start_loop api is (c\<lparr>cs_started := insert i (cs_started c)\<rparr>)
      else Option.bind (call_until api True EvIdx_OnStart i c)
             (\<lambda>(r, c). if r = Cb_failed then Some (False, c\<lparr>cs_startRet := False\<rparr>)
                       else start_loop api is (c\<lparr>cs_started := insert i (cs_started c)\<rparr>)))"

fun late_starts :: "('i, 'w) comp_api \<Rightarrow> 'i list \<Rightarrow> ('i, 'w) comps \<Rightarrow> ('i, 'w) comps option" where
  "late_starts api [] c = Some c"
| "late_starts api (i # is) c = Option.bind
     (if IsCaredEvents api (event_mask EvIdx_OnLateStart) i then map_option snd (call_until api True EvIdx_OnLateStart i c) else Some c) (late_starts api is)"

definition StartComps :: "('i, 'w) comp_api \<Rightarrow> ('i, 'w) comps \<Rightarrow> (int \<times> ('i, 'w) comps) option" where
  "StartComps api c = map_option (\<lambda>c. (if cs_startRet c then LLBC_OK else LLBC_FAILED, c\<lparr>cs_startFinished := True\<rparr>))
     (Option.bind (start_loop api (cs_list c) (c\<lparr>cs_startRet := True\<rparr>))
        (\<lambda>(all, c). if all then late_starts api (cs_list c) c else StopComps api c))"

section \<open>The service\<close>

text \<open>What \<open>Cleanup\<close> does with the components and their flags.\<close>

definition Cleanup :: "('i, 'w) comp_api \<Rightarrow> ('i, 'w) comps \<Rightarrow> ('i, 'w) comps option" where
  "Cleanup api c = map_option (\<lambda>c. c\<lparr>cs_initFinished := False, cs_initRet := True, cs_startFinished := False, cs_startRet := True, cs_svcStarted := False\<rparr>) (StopComps api c)"

definition service_Stop :: "('i, 'w) comp_api \<Rightarrow> ('i, 'w) comps \<Rightarrow> ('i, 'w) comps option" where
  "service_Stop api c = (if \<not> cs_svcStarted c then Some c else Cleanup api c)"

definition service_Start :: "('i, 'w) comp_api \<Rightarrow> ('i, 'w) comps \<Rightarrow> (int \<times> ('i, 'w) comps) option" where
  "service_Start api c =
     (if cs_svcStarted c then Some (LLBC_FAILED, c)
      else Option.bind (InitComps api (c\<lparr>cs_svcStarted := True\<rparr>))
        (\<lambda>(r, c). if r \<noteq> LLBC_OK then map_option (\<lambda>c. (LLBC_FAILED, c)) (service_Stop api c)
                  else Option.bind (StartComps api c)
                         (\<lambda>(r, c). if r \<noteq> LLBC_OK then map_option (\<lambda>c. (LLBC_FAILED, c)) (service_Stop api c) else Some (LLBC_OK, c))))"

text \<open>The destructor.\<close>

definition service_delete :: "('i, 'w) comp_api \<Rightarrow> ('i, 'w) comps \<Rightarrow> ('i, 'w) comps option" where
  "service_delete api c = map_option (\<lambda>c. c\<lparr>cs_willReg := []\<rparr>) (Option.bind (service_Stop api c) (DestroyComps api))"

inductive comps_step :: "('i, 'w) comp_api \<Rightarrow> ('i, 'w) comps \<Rightarrow> ('i, 'w) comps \<Rightarrow> bool" for api where
  cp_add: "AddComponent api i c = (r, c') \<Longrightarrow> comps_step api c c'"
| cp_start: "service_Start api c = Some (r, c') \<Longrightarrow> comps_step api c c'"
| cp_frame: "cs_svcStarted c \<Longrightarrow> comps_step api c (comps_frame api c)"
| cp_stop: "service_Stop api c = Some c' \<Longrightarrow> comps_step api c c'"
| cp_delete: "service_delete api c = Some c' \<Longrightarrow> comps_step api c c'"

section \<open>Invariant\<close>

text \<open>The calls that a component may get: \<open>OnInit\<close> first, \<open>OnStart\<close> when it is initialized, the others of a running component only while it is started, \<open>OnDestroy\<close>
  when it is stopped.\<close>

definition legal :: "comp_event \<times> 'i \<times> bool \<times> bool \<Rightarrow> bool" where
  "legal = (\<lambda>(e, i, inited, started). case e of
       EvIdx_OnInit \<Rightarrow> \<not> inited \<and> \<not> started
     | EvIdx_OnStart \<Rightarrow> inited \<and> \<not> started
     | EvIdx_OnDestroy \<Rightarrow> inited \<and> \<not> started
     | _ \<Rightarrow> inited \<and> started)"

definition comps_ok :: "('i, 'w) comps \<Rightarrow> bool" where
  "comps_ok c \<longleftrightarrow> list_all legal (cs_calls c) \<and> cs_started c \<subseteq> cs_inited c \<and> cs_inited c \<subseteq> set (cs_list c)"

text \<open>Between the operations every component of the list is initialized.\<close>

definition comps_idle :: "('i, 'w) comps \<Rightarrow> bool" where
  "comps_idle c \<longleftrightarrow> comps_ok c \<and> set (cs_list c) \<subseteq> cs_inited c \<and> (\<not> cs_svcStarted c \<longrightarrow> cs_started c = {})"

definition same_flags :: "('i, 'w) comps \<Rightarrow> ('i, 'w) comps \<Rightarrow> bool" where
  "same_flags c d \<longleftrightarrow> d = c\<lparr>cs_calls := cs_calls d, cs_world := cs_world d\<rparr>"

lemma same_flagsD:
  assumes "same_flags c d"
  shows "cs_list d = cs_list c" "cs_inited d = cs_inited c" "cs_started d = cs_started c" "cs_svcStarted d = cs_svcStarted c" "cs_willReg d = cs_willReg c"
    "cs_initRet d = cs_initRet c" "cs_startRet d = cs_startRet c"
  by (subst assms [unfolded same_flags_def], simp)+

lemma same_flags_refl [simp]: "same_flags c c"
  by (simp add: same_flags_def)

lemma same_flags_trans: "same_flags a b \<Longrightarrow> same_flags b c \<Longrightarrow> same_flags a c"
  by (cases a; cases b; cases c) (simp add: same_flags_def)

lemma call_ok:
  assumes "comps_ok c" "legal (e, i, i \<in> cs_inited c, i \<in> cs_started c)" "call api e i c = (r, d)"
  shows "same_flags c d" "comps_ok d"
  using assms by (auto simp: call_def same_flags_def comps_ok_def split: prod.splits)

lemma UpdateComps_ok:
  assumes "comps_ok c"
  shows "same_flags c (UpdateComps api c) \<and> comps_ok (UpdateComps api c)"
proof -
  have "comps_ok d \<Longrightarrow> same_flags c d \<Longrightarrow>
    same_flags c (fold (\<lambda>i c. if i \<in> cs_started c then snd (call api EvIdx_OnUpdate i c) else c) is d) \<and> comps_ok (fold (\<lambda>i c. if i \<in> cs_started c then snd (call api EvIdx_OnUpdate i c) else c) is d)" for "is" d
  proof (induction "is" arbitrary: d)
    case (Cons i "is")
    show ?case
    proof (cases "i \<in> cs_started d")
      case True
      then have "legal (EvIdx_OnUpdate, i, i \<in> cs_inited d, i \<in> cs_started d)" using Cons.prems(1) by (auto simp: legal_def comps_ok_def)
      from call_ok [OF Cons.prems(1) this, of api "fst (call api EvIdx_OnUpdate i d)" "snd (call api EvIdx_OnUpdate i d)"]
      have "same_flags d (snd (call api EvIdx_OnUpdate i d))" "comps_ok (snd (call api EvIdx_OnUpdate i d))" by simp_all
      then show ?thesis using Cons.IH True same_flags_trans [OF Cons.prems(2)] by simp
    qed (use Cons in simp)
  qed simp
  then show ?thesis using assms unfolding UpdateComps_def by simp
qed

lemma comps_frame_ok:
  assumes "comps_ok c"
  shows "same_flags c (comps_frame api c)" "comps_ok (comps_frame api c)"
proof -
  let ?c = "c\<lparr>cs_world := ca_frame api (cs_world c)\<rparr>"
  have "comps_ok ?c" "same_flags c ?c" using assms by (simp_all add: comps_ok_def same_flags_def)
  then show "same_flags c (comps_frame api c)" "comps_ok (comps_frame api c)"
    using UpdateComps_ok [of ?c api] same_flags_trans unfolding comps_frame_def by blast+
qed

lemma call_until_ok:
  assumes "call_until api frame e i c = Some (r, d)" "comps_ok c" "legal (e, i, i \<in> cs_inited c, i \<in> cs_started c)"
  shows "same_flags c d \<and> comps_ok d"
proof -
  have "comps_ok c \<longrightarrow> legal (e, i, i \<in> cs_inited c, i \<in> cs_started c) \<longrightarrow> same_flags c (snd (r, d)) \<and> comps_ok (snd (r, d))"
  proof (rule call_until.raw_induct [OF _ assms(1)], intro impI)
    fix until api frame e i c rd
    assume IH: "\<And>api frame e i c rd. until api frame e i c = Some rd \<Longrightarrow> comps_ok c \<longrightarrow> legal (e, i, i \<in> cs_inited c, i \<in> cs_started c) \<longrightarrow> same_flags c (snd rd) \<and> comps_ok (snd rd)"
      and run: "(case call api e i c of (r, c) \<Rightarrow> if r = Cb_again then until api frame e i (if frame then comps_frame api c else c) else Some (r, c)) = Some rd"
      and ok: "comps_ok c" "legal (e, i, i \<in> cs_inited c, i \<in> cs_started c)"
    obtain r1 c1 where c1: "call api e i c = (r1, c1)" by (cases "call api e i c")
    note k = call_ok [OF ok c1]
    let ?c2 = "if frame then comps_frame api c1 else c1"
    have c2: "same_flags c ?c2" "comps_ok ?c2" using k comps_frame_ok [OF k(2), of api] same_flags_trans by auto
    show "same_flags c (snd rd) \<and> comps_ok (snd rd)"
    proof (cases "r1 = Cb_again")
      case True
      then have "until api frame e i ?c2 = Some rd" using run c1 by simp
      from IH [OF this] c2 ok(2) same_flagsD(2,3) [OF c2(1)] show ?thesis using same_flags_trans by (metis (no_types, lifting))
    next
      case False
      then show ?thesis using run c1 k by auto
    qed
  qed
  then show ?thesis using assms by simp
qed

lemma legal_running: "comps_ok c \<Longrightarrow> i \<in> cs_started c \<Longrightarrow> e \<in> {EvIdx_OnLateStart, EvIdx_OnEarlyStop, EvIdx_OnStop} \<Longrightarrow> legal (e, i, i \<in> cs_inited c, i \<in> cs_started c)"
  by (auto simp: legal_def comps_ok_def)

lemma early_stops_ok: "early_stops api is c = Some d \<Longrightarrow> comps_ok c \<Longrightarrow> same_flags c d \<and> comps_ok d"
proof (induction "is" arbitrary: c)
  case (Cons i "is")
  then obtain c1 where c1: "(if i \<notin> cs_started c \<or> \<not> IsCaredEvents api (of_nat (event_index EvIdx_OnEarlyStop)) i then Some c
      else map_option snd (call_until api True EvIdx_OnEarlyStop i c)) = Some c1" "early_stops api is c1 = Some d" by (auto simp: bind_eq_Some_conv)
  have "same_flags c c1 \<and> comps_ok c1"
    using c1(1) Cons.prems(2) call_until_ok [of api True EvIdx_OnEarlyStop i c] legal_running [OF Cons.prems(2)] by (auto split: if_splits)
  then show ?case using Cons.IH [OF c1(2)] same_flags_trans by blast
qed simp

text \<open>The fields that \<open>StopComps\<close> leaves alone.\<close>

definition same_comps :: "('i, 'w) comps \<Rightarrow> ('i, 'w) comps \<Rightarrow> bool" where
  "same_comps c d \<longleftrightarrow> cs_list d = cs_list c \<and> cs_inited d = cs_inited c \<and> cs_svcStarted d = cs_svcStarted c \<and> cs_willReg d = cs_willReg c \<and> cs_initRet d = cs_initRet c \<and> cs_startRet d = cs_startRet c"

lemma same_flags_comps: "same_flags c d \<Longrightarrow> same_comps c d"
  by (simp add: same_comps_def same_flagsD)

lemma same_comps_trans: "same_comps a b \<Longrightarrow> same_comps b c \<Longrightarrow> same_comps a c"
  by (simp add: same_comps_def)

lemma stops_ok: "stops api is c = Some d \<Longrightarrow> comps_ok c \<Longrightarrow> same_comps c d \<and> cs_started d = cs_started c - set is \<and> comps_ok d"
proof (induction "is" arbitrary: c)
  case (Cons i "is")
  show ?case
  proof (cases "i \<in> cs_started c")
    case False
    then show ?thesis using Cons by auto
  next
    case True
    then obtain c1 where c1: "(if IsCaredEvents api (event_mask EvIdx_OnStop) i then map_option snd (call_until api True EvIdx_OnStop i c) else Some c) = Some c1"
      "stops api is (c1\<lparr>cs_started := cs_started c1 - {i}\<rparr>) = Some d" using Cons.prems(1) by (auto simp: bind_eq_Some_conv split: if_splits)
    have k: "same_flags c c1" "comps_ok c1"
      using c1(1) Cons.prems(2) call_until_ok [of api True EvIdx_OnStop i c] legal_running [OF Cons.prems(2) True] by (auto split: if_splits)
    let ?c = "c1\<lparr>cs_started := cs_started c1 - {i}\<rparr>"
    have "same_comps c ?c" "comps_ok ?c" "cs_started ?c = cs_started c - {i}" using same_flagsD [OF k(1)] k(2) by (auto simp: same_comps_def comps_ok_def)
    then show ?thesis using Cons.IH [OF c1(2)] same_comps_trans by auto
  qed
qed (auto simp: same_comps_def)

lemma StopComps_ok:
  assumes "StopComps api c = Some d" "comps_ok c"
  shows "same_comps c d \<and> cs_started d = {} \<and> comps_ok d"
proof -
  obtain c1 where c1: "early_stops api (rev (cs_list c)) c = Some c1" "stops api (rev (cs_list c1)) c1 = Some d" using assms(1) by (auto simp: StopComps_def bind_eq_Some_conv)
  note 1 = early_stops_ok [OF c1(1) assms(2)]
  note 2 = stops_ok [OF c1(2)]
  have "cs_started c1 \<subseteq> set (cs_list c1)" using 1 by (auto simp: comps_ok_def)
  then show ?thesis using 1 2 same_comps_trans [OF same_flags_comps] by auto
qed

lemma destroys_ok:
  "destroys api is c = Some d \<Longrightarrow> comps_ok c \<Longrightarrow> cs_started c = {} \<Longrightarrow> cs_inited d = cs_inited c - set is \<and> cs_started d = {} \<and> cs_list d = cs_list c \<and> comps_ok d
     \<and> cs_svcStarted d = cs_svcStarted c \<and> cs_initRet d = cs_initRet c"
proof (induction "is" arbitrary: c)
  case (Cons i "is")
  show ?case
  proof (cases "i \<in> cs_inited c")
    case False
    then show ?thesis using Cons by auto
  next
    case True
    then obtain c1 where c1: "(if IsCaredEvents api (event_mask EvIdx_OnDestroy) i then map_option snd (call_until api False EvIdx_OnDestroy i c) else Some c) = Some c1"
      "destroys api is (c1\<lparr>cs_inited := cs_inited c1 - {i}\<rparr>) = Some d" using Cons.prems(1) by (auto simp: bind_eq_Some_conv split: if_splits)
    have k: "same_flags c c1" "comps_ok c1"
      using c1(1) Cons.prems(2,3) True call_until_ok [of api False EvIdx_OnDestroy i c] by (auto simp: legal_def split: if_splits)
    let ?c = "c1\<lparr>cs_inited := cs_inited c1 - {i}\<rparr>"
    have "comps_ok ?c" "cs_started ?c = {}" "cs_inited ?c = cs_inited c - {i}" "cs_list ?c = cs_list c" "cs_svcStarted ?c = cs_svcStarted c" "cs_initRet ?c = cs_initRet c"
      using same_flagsD [OF k(1)] k(2) Cons.prems(3) by (auto simp: comps_ok_def)
    then show ?thesis using Cons.IH [OF c1(2)] by auto
  qed
qed auto

lemma DestroyComps_ok:
  assumes "DestroyComps api c = Some d" "comps_ok c" "cs_started c = {}"
  shows "cs_inited d = {} \<and> cs_started d = {} \<and> cs_list d = [] \<and> comps_ok d \<and> cs_svcStarted d = cs_svcStarted c \<and> cs_initRet d = cs_initRet c"
  using assms by (auto simp: DestroyComps_def comps_ok_def dest!: destroys_ok)

lemma init_loop_ok:
  "init_loop api is c = Some d \<Longrightarrow> comps_ok c \<Longrightarrow> set (cs_list c) \<subseteq> cs_inited c \<Longrightarrow> cs_started c = {} \<Longrightarrow>
     comps_ok d \<and> set (cs_list d) \<subseteq> cs_inited d \<and> cs_started d = {} \<and> cs_svcStarted d = cs_svcStarted c"
proof (induction "is" arbitrary: c)
  case Nil
  then show ?case by (auto simp: comps_ok_def)
next
  case (Cons i "is")
  let ?c = "c\<lparr>cs_willReg := is, cs_list := cs_list c @ [i]\<rparr>"
  have ok: "comps_ok ?c" using Cons.prems(2) by (auto simp: comps_ok_def)
  consider (inited) "i \<in> cs_inited ?c" "init_loop api is ?c = Some d"
    | (uncared) "i \<notin> cs_inited ?c" "init_loop api is (?c\<lparr>cs_inited := insert i (cs_inited ?c)\<rparr>) = Some d"
    | (failed) c1 where "i \<notin> cs_inited ?c" "call_until api False EvIdx_OnInit i ?c = Some (Cb_failed, c1)" "ClearCompsWhenInitCompFailed api (c1\<lparr>cs_initRet := False\<rparr>) = Some d"
    | (fin) r c1 where "i \<notin> cs_inited ?c" "call_until api False EvIdx_OnInit i ?c = Some (r, c1)" "init_loop api is (c1\<lparr>cs_inited := insert i (cs_inited c1)\<rparr>) = Some d"
    using Cons.prems(1) by (auto simp: Let_def bind_eq_Some_conv split: if_splits)
  then show ?case
  proof cases
    case inited
    then show ?thesis using Cons.IH [OF inited(2) ok] Cons.prems(3,4) by auto
  next
    case uncared
    have "comps_ok (?c\<lparr>cs_inited := insert i (cs_inited ?c)\<rparr>)" using Cons.prems(2) by (auto simp: comps_ok_def)
    then show ?thesis using Cons.IH [OF uncared(2)] Cons.prems(3,4) by auto
  next
    case failed
    have k: "same_flags ?c c1" "comps_ok c1" using call_until_ok [OF failed(2) ok] failed(1) Cons.prems(4) by (auto simp: legal_def)
    obtain c2 c3 where c2: "StopComps api (c1\<lparr>cs_initRet := False\<rparr>) = Some c2" "DestroyComps api c2 = Some c3" "d = c3\<lparr>cs_willReg := []\<rparr>"
      using failed(3) by (auto simp: ClearCompsWhenInitCompFailed_def bind_eq_Some_conv)
    have "comps_ok (c1\<lparr>cs_initRet := False\<rparr>)" using k(2) by (simp add: comps_ok_def)
    note s = StopComps_ok [OF c2(1) this]
    note t = DestroyComps_ok [OF c2(2)]
    show ?thesis using s t c2(3) same_flagsD [OF k(1)] by (auto simp: comps_ok_def same_comps_def)
  next
    case fin
    have k: "same_flags ?c c1" "comps_ok c1" using call_until_ok [OF fin(2) ok] fin(1) Cons.prems(4) by (auto simp: legal_def)
    have "comps_ok (c1\<lparr>cs_inited := insert i (cs_inited c1)\<rparr>)" using k(2) same_flagsD [OF k(1)] by (auto simp: comps_ok_def)
    then show ?thesis using Cons.IH [OF fin(3)] same_flagsD [OF k(1)] Cons.prems(3,4) by auto
  qed
qed

lemma start_loop_ok:
  "start_loop api is c = Some (all, d) \<Longrightarrow> comps_ok c \<Longrightarrow> set is \<subseteq> cs_inited c \<Longrightarrow>
     comps_ok d \<and> cs_list d = cs_list c \<and> cs_inited d = cs_inited c \<and> cs_svcStarted d = cs_svcStarted c \<and> cs_started c \<subseteq> cs_started d
     \<and> (if all then set is \<subseteq> cs_started d \<and> cs_startRet d = cs_startRet c else \<not> cs_startRet d)"
proof (induction "is" arbitrary: c)
  case (Cons i "is")
  have "i \<in> cs_inited c" "i \<in> set (cs_list c)" using Cons.prems(2,3) by (auto simp: comps_ok_def)
  consider (started) "i \<in> cs_started c" "start_loop api is c = Some (all, d)"
    | (uncared) "i \<notin> cs_started c" "start_loop api is (c\<lparr>cs_started := insert i (cs_started c)\<rparr>) = Some (all, d)"
    | (failed) c1 where "i \<notin> cs_started c" "call_until api True EvIdx_OnStart i c = Some (Cb_failed, c1)" "\<not> all" "d = c1\<lparr>cs_startRet := False\<rparr>"
    | (fin) r c1 where "i \<notin> cs_started c" "call_until api True EvIdx_OnStart i c = Some (r, c1)" "start_loop api is (c1\<lparr>cs_started := insert i (cs_started c1)\<rparr>) = Some (all, d)"
    using Cons.prems(1) by (auto simp: bind_eq_Some_conv split: if_splits)
  then show ?case
  proof cases
    case started
    then show ?thesis using Cons.IH [OF started(2)] Cons.prems by auto
  next
    case uncared
    have "comps_ok (c\<lparr>cs_started := insert i (cs_started c)\<rparr>)" using Cons.prems(2,3) by (auto simp: comps_ok_def)
    then show ?thesis using Cons.IH [OF uncared(2)] Cons.prems(3) by (auto split: if_splits)
  next
    case failed
    have k: "same_flags c c1" "comps_ok c1" using call_until_ok [OF failed(2) Cons.prems(2)] failed(1) \<open>i \<in> cs_inited c\<close> by (auto simp: legal_def)
    then show ?thesis using failed(3,4) same_flagsD [OF k(1)] by (auto simp: comps_ok_def)
  next
    case fin
    have k: "same_flags c c1" "comps_ok c1" using call_until_ok [OF fin(2) Cons.prems(2)] fin(1) \<open>i \<in> cs_inited c\<close> by (auto simp: legal_def)
    have "comps_ok (c1\<lparr>cs_started := insert i (cs_started c1)\<rparr>)" using k(2) same_flagsD [OF k(1)] \<open>i \<in> cs_inited c\<close> by (auto simp: comps_ok_def)
    then show ?thesis using Cons.IH [OF fin(3)] same_flagsD [OF k(1)] Cons.prems(3) by (auto split: if_splits)
  qed
qed auto

lemma late_starts_ok: "late_starts api is c = Some d \<Longrightarrow> comps_ok c \<Longrightarrow> set is \<subseteq> cs_started c \<Longrightarrow> same_flags c d \<and> comps_ok d"
proof (induction "is" arbitrary: c)
  case (Cons i "is")
  then obtain c1 where c1: "(if IsCaredEvents api (event_mask EvIdx_OnLateStart) i then map_option snd (call_until api True EvIdx_OnLateStart i c) else Some c) = Some c1"
    "late_starts api is c1 = Some d" by (auto simp: bind_eq_Some_conv)
  have k: "same_flags c c1 \<and> comps_ok c1"
    using c1(1) Cons.prems(2,3) call_until_ok [of api True EvIdx_OnLateStart i c] legal_running [OF Cons.prems(2), of i] by (auto split: if_splits)
  then show ?case using Cons.IH [OF c1(2)] Cons.prems(3) same_flagsD(3) [of c c1] same_flags_trans by auto
qed simp

lemma StartComps_ok:
  assumes "StartComps api c = Some (r, d)" "comps_ok c" "set (cs_list c) \<subseteq> cs_inited c"
  shows "comps_ok d \<and> set (cs_list d) \<subseteq> cs_inited d \<and> cs_svcStarted d = cs_svcStarted c \<and> cs_list d = cs_list c
    \<and> (if r = LLBC_OK then set (cs_list d) \<subseteq> cs_started d else cs_started d = {})"
proof -
  let ?c = "c\<lparr>cs_startRet := True\<rparr>"
  obtain all c1 d1 where 1: "start_loop api (cs_list c) ?c = Some (all, c1)" "(if all then late_starts api (cs_list c1) c1 else StopComps api c1) = Some d1"
    "r = (if cs_startRet d1 then LLBC_OK else LLBC_FAILED)" "d = d1\<lparr>cs_startFinished := True\<rparr>"
    using assms(1) by (auto simp: StartComps_def bind_eq_Some_conv)
  have s: "comps_ok c1" "cs_list c1 = cs_list c" "cs_inited c1 = cs_inited c" "cs_svcStarted c1 = cs_svcStarted c"
    "if all then set (cs_list c) \<subseteq> cs_started c1 \<and> cs_startRet c1 else \<not> cs_startRet c1"
    using start_loop_ok [OF 1(1)] assms(2,3) by (auto simp: comps_ok_def split: if_splits)
  show ?thesis
  proof (cases all)
    case True
    then have k: "same_flags c1 d1" "comps_ok d1" using late_starts_ok [of api "cs_list c1" c1 d1] 1(2) s by auto
    then show ?thesis using True 1(3,4) s assms(3) same_flagsD [OF k(1)] by (auto simp: comps_ok_def)
  next
    case False
    then have k: "same_comps c1 d1" "cs_started d1 = {}" "comps_ok d1" using StopComps_ok [of api c1 d1] 1(2) s by auto
    then show ?thesis using False 1(3,4) s assms(3) by (auto simp: comps_ok_def same_comps_def)
  qed
qed

lemma InitComps_ok:
  assumes "InitComps api c = Some (r, d)" "comps_idle c" "cs_started c = {}"
  shows "comps_ok d \<and> set (cs_list d) \<subseteq> cs_inited d \<and> cs_started d = {} \<and> cs_svcStarted d = cs_svcStarted c"
proof -
  obtain d1 where d1: "init_loop api (cs_willReg c) (c\<lparr>cs_initRet := True\<rparr>) = Some d1" "d = d1\<lparr>cs_initFinished := True\<rparr>" using assms(1) by (auto simp: InitComps_def)
  show ?thesis using init_loop_ok [OF d1(1)] assms(2,3) d1(2) by (auto simp: comps_idle_def comps_ok_def)
qed

lemma service_Stop_idle:
  assumes "service_Stop api c = Some d" "comps_ok c" "set (cs_list c) \<subseteq> cs_inited c" "\<not> cs_svcStarted c \<Longrightarrow> cs_started c = {}"
  shows "comps_idle d \<and> cs_started d = {} \<and> \<not> cs_svcStarted d"
proof (cases "cs_svcStarted c")
  case True
  then obtain d1 where d1: "StopComps api c = Some d1"
    "d = d1\<lparr>cs_initFinished := False, cs_initRet := True, cs_startFinished := False, cs_startRet := True, cs_svcStarted := False\<rparr>"
    using assms(1) by (auto simp: service_Stop_def Cleanup_def)
  show ?thesis using StopComps_ok [OF d1(1) assms(2)] assms(3) d1(2) by (auto simp: comps_idle_def comps_ok_def same_comps_def)
next
  case False
  then show ?thesis using assms by (auto simp: service_Stop_def comps_idle_def)
qed

lemma service_Start_ok:
  assumes "service_Start api c = Some (r, d)" "comps_idle c" "\<not> cs_svcStarted c"
  shows "comps_idle d \<and> (if r = LLBC_OK then cs_svcStarted d \<and> set (cs_list d) \<subseteq> cs_started d else cs_started d = {} \<and> \<not> cs_svcStarted d)"
proof -
  let ?c = "c\<lparr>cs_svcStarted := True\<rparr>"
  have idle: "comps_idle ?c" "cs_started ?c = {}" using assms(2,3) by (auto simp: comps_idle_def comps_ok_def)
  obtain r1 c1 where 1: "InitComps api ?c = Some (r1, c1)"
    "(if r1 \<noteq> LLBC_OK then map_option (\<lambda>c. (LLBC_FAILED, c)) (service_Stop api c1)
      else Option.bind (StartComps api c1) (\<lambda>(r, c). if r \<noteq> LLBC_OK then map_option (\<lambda>c. (LLBC_FAILED, c)) (service_Stop api c) else Some (LLBC_OK, c))) = Some (r, d)"
    using assms(1,3) by (auto simp: service_Start_def bind_eq_Some_conv)
  have i: "comps_ok c1" "set (cs_list c1) \<subseteq> cs_inited c1" "cs_started c1 = {}" "cs_svcStarted c1" using InitComps_ok [OF 1(1) idle] by auto
  show ?thesis
  proof (cases "r1 = LLBC_OK")
    case False
    then show ?thesis using 1(2) service_Stop_idle [OF _ i(1,2)] i(3) by auto
  next
    case True
    then obtain r2 c2 where 2: "StartComps api c1 = Some (r2, c2)" "(if r2 \<noteq> LLBC_OK then map_option (\<lambda>c. (LLBC_FAILED, c)) (service_Stop api c2) else Some (LLBC_OK, c2)) = Some (r, d)"
      using 1(2) by (auto simp: bind_eq_Some_conv)
    note s = StartComps_ok [OF 2(1) i(1,2)]
    show ?thesis
    proof (cases "r2 = LLBC_OK")
      case True
      then show ?thesis using 2(2) s i(4) by (auto simp: comps_idle_def)
    next
      case False
      then have "cs_started c2 = {}" using s by simp
      then show ?thesis using False 2(2) service_Stop_idle [of api c2 d] s by auto
    qed
  qed
qed

lemma comps_step_idle: "comps_idle c \<Longrightarrow> comps_step api c d \<Longrightarrow> comps_idle d"
proof (erule comps_step.cases)
  fix i c1 r c' assume "comps_idle c" "c = c1" "d = c'" "AddComponent api i c1 = (r, c')"
  then show ?thesis by (auto simp: AddComponent_def comps_idle_def comps_ok_def split: if_splits)
next
  fix c1 r c' assume a: "comps_idle c" "c = c1" "d = c'" "service_Start api c1 = Some (r, c')"
  show ?thesis
  proof (cases "cs_svcStarted c")
    case True
    then have "d = c" using a(2-4) by (simp add: service_Start_def)
    then show ?thesis using a(1) by simp
  next
    case False
    then show ?thesis using service_Start_ok [of api c r d] a by blast
  qed
next
  fix c1 assume a: "comps_idle c" "c = c1" "d = comps_frame api c1" "cs_svcStarted c1"
  then have "comps_ok c" by (simp add: comps_idle_def)
  note f = comps_frame_ok [OF this, of api]
  show ?thesis using a f same_flagsD [OF f(1)] by (auto simp: comps_idle_def)
next
  fix c1 c' assume "comps_idle c" "c = c1" "d = c'" "service_Stop api c1 = Some c'"
  then show ?thesis using service_Stop_idle [of api c d] unfolding comps_idle_def by blast
next
  fix c1 c' assume a: "comps_idle c" "c = c1" "d = c'" "service_delete api c1 = Some c'"
  then obtain c2 c3 where 2: "service_Stop api c = Some c2" "DestroyComps api c2 = Some c3" "d = c3\<lparr>cs_willReg := []\<rparr>" by (auto simp: service_delete_def bind_eq_Some_conv)
  have "comps_idle c2" "cs_started c2 = {}" "\<not> cs_svcStarted c2" using service_Stop_idle [OF 2(1)] a(1) by (auto simp: comps_idle_def)
  then show ?thesis using DestroyComps_ok [OF 2(2)] 2(3) by (auto simp: comps_idle_def comps_ok_def)
qed

interpretation comps_run: transition_invariant "\<lambda>c. c = comps_new w" "comps_step api" comps_idle
  for w api
proof unfold_locales
  show "comps_idle c" if "c = comps_new w" for c using that by (simp add: comps_idle_def comps_ok_def comps_new_def)
qed (rule comps_step_idle)

section \<open>Properties\<close>


text \<open>Two components, the second of which does not start.\<close>

definition demo_comps :: "(nat, unit) comp_api" where
  "demo_comps = \<lparr>ca_name = (\<lambda>i. replicate i CHR ''c''), ca_events = (\<lambda>i. -1), ca_call = (\<lambda>e i w. (if i = 2 \<and> e = EvIdx_OnStart then Cb_failed else Cb_finished, w)), ca_frame = id\<rparr>"


text \<open>\<open>StopComps\<close> tests the index of \<open>OnEarlyStop\<close> where a mask is needed: it is the mask of \<open>OnStart\<close>, so that a component that handles
  \<open>OnEarlyStop\<close> but not \<open>OnStart\<close> is never told.\<close>

theorem early_stop_tests_start:
  "IsCaredEvents api (of_nat (event_index EvIdx_OnEarlyStop)) i = IsCaredEvents api (event_mask EvIdx_OnStart) i"
  by (simp add: event_index_def event_mask_def push_bit_eq_mult)

end
