(* ===== verification/Spec2Isabelle.thy ===== *)
theory Spec2Isabelle
  imports Rpc_Exchange Hash_Map Mpmc_Queue Thread_Pool Rpc_Deque Rpc_Vector Rpc_String Rpc_App Log_Writer Coro_Generator Rpc_Transport Llbc_Comps
begin

text \<open>
  \<^bold>\<open>cpp-rpc: remote procedure calls over coroutines.\<close>

  \<^bold>\<open>The program.\<close> A client coroutine calls a method through an \<open>RpcChannel\<close>; the request is put on a lock-free queue, the
  network thread sends it as an LLBC packet, the server's network thread puts the received packet on another queue, the
  server's main loop dispatches it to the service and queues the response, which travels back the same way and resumes
  the coroutine. Servers register their methods in ZooKeeper, clients look them up there. Calls without an answer are failed by
  a timeout. Beside the RPC layer (src/src) the repository has a library of containers, queues and a thread pool (src/include).

  \<^bold>\<open>The theories\<close>, bottom up; state and operations keep the names of the code.
  \<^item> \<open>Prelude\<close>: machine integers, results as sums (\<open>Inl\<close> is the failure), reachability, the locales
    \<open>transition_invariant\<close> (invariants of step relations) and \<open>simulation\<close> (a component run against its specification by
    sequences of commands).
  \<^item> \<open>Llbc_Heap\<close> (core/timer/BinaryHeap.h): the timeout heap against a multiset. \<open>Llbc_Block\<close>, \<open>Llbc_Stream\<close>, \<open>Llbc_Packet\<close>
    (MessageBlock, Stream, Packet): byte buffers with positions, the typed reads and writes, packets with header fields and
    payload. \<open>Llbc_Protocol\<close> (PacketProtocol.cpp, PacketHeaderAssembler.cpp): framing; what was sent arrives, however the bytes
    are cut into pieces.
  \<^item> \<open>Spsc_Queue\<close> (spsc_queue.h) and \<open>Mpmc_Queue\<close> (mpmc_queue.h): the operations in one thread, and the interleaving of the
    threads at their atomic accesses as a step relation: first-in first-out, exclusive access to slots, progress.
  \<^item> \<open>Rpc_Head\<close>, \<open>Rpc_Channel\<close> (rpc_channel.cpp, rpc_controller.h): the package head codec, calls. \<open>Rpc_Coro_Mgr\<close>
    (rpc_coro_mgr.cpp): suspended contexts, ids, timeouts. \<open>Rpc_Conn\<close> (rpc_conn_mgr.cpp, rpc_conn_comp.cpp): the packet queues,
    \<open>Tick\<close>, the blocking receive. \<open>Zk_Client\<close> (zk_cpp.cpp), \<open>Rpc_Registry\<close> (rpc_registry.cpp): service discovery over a
    parameter for the ZooKeeper library. \<open>Rpc_Service\<close> (rpc_service_mgr.cpp): requests, responses, channels. \<open>Rpc_Exchange\<close>: one
    call through all of them. \<open>Rpc_App\<close> (rpc_client.cpp, rpc_server.cpp): set-up, the server loop, shut-down, and the way from
    \<open>Listen\<close> and \<open>AddService\<close> of a server to a channel of a client.
  \<^item> \<open>Hash_Map\<close>, \<open>Rpc_Deque\<close>, \<open>Rpc_Vector\<close>, \<open>Rpc_String\<close> (hashmap.h, deque.h, vector.h, str.h): the containers against maps and
    lists, with slots that may be raw memory, so that access to an object that does not exist is an error of the model.
    \<open>Thread_Pool\<close> (thread_pool.h, scheduler.h): schedulers behind one locale, workers and timer thread as steps.
    \<open>Coro_Generator\<close> (generator.h): generators over a coroutine body given as a function.
  \<^item> \<open>Uring_Aio\<close> (uring_aio.h): asynchronous writes over a parameter for liburing and the kernel, which may complete requests at any
    time and in any order. \<open>Log_Writer\<close> (file.h, logger.h, logger.cpp): a file written through it and the logger with its task queue.

  \<^bold>\<open>State.\<close> The RPC layer is one world record, extended from theory to theory the way the managers build on each other
  (\<open>coro_world\<close>, \<open>rpc_world\<close>, \<open>msg_world\<close>, \<open>svc_world\<close>, \<open>app_world\<close>). Packets, messages and controllers are objects in
  stores with numeric addresses; the use of an address that holds no object sets \<open>cw_fault\<close>. Application code (coroutine
  bodies, services) and other threads are functions on the world with the contracts stated where they are used.

  \<^bold>\<open>Parameters.\<close> Code outside the repository is an argument with its documented behaviour as hypotheses: protobuf
  serialisation (\<open>app_ser\<close>, \<open>app_parse\<close>), the ZooKeeper library (\<open>zoo_api\<close>, \<open>zoo_tree\<close>), io_uring (\<open>uring_api\<close>, \<open>ring_laws\<close>), results of LLBC service calls,
  clocks and random numbers. Each property with such hypotheses has a witness on a concrete instance.

  \<^bold>\<open>Bounds and loops.\<close> Loops that need not end are \<open>partial_function (option)\<close>; where the code returns this is proved
  (\<open>HandleCoroTimeout\<close>, \<open>Tick\<close>, \<open>Serve\<close>). Tickets of the MPMC queue are taken modulo \<open>2^64\<close> and its properties
  hold up to \<open>2^62\<close> operations; coroutine ids and timer ids repeat only after \<open>2^64\<close>; the deque properties allow \<open>2^48\<close>
  commands, far below the size at which its map would exceed the address space; the fuel of the element moves of \<open>erase\<close> is the
  size of the deque, which is the number of iterations.

  \<^bold>\<open>Not modelled.\<close> The vendored part of LLBC the RPC layer only calls (service, sockets, logging, configuration, object
  pools) and the third-party parsers in it; generated protobuf code, the demo and the tests; \<open>singleton.h\<close>, which only
  arranges static initialization; stream operators of \<open>String\<close>.
\<close>

section \<open>Examples\<close>

text \<open>A client with one coroutine ready to call, and a server with the echo service; nothing is queued.\<close>

definition idle_client :: "(byte list, unit) svc_world" where
  "idle_client = (echo_world Packet_new ())\<lparr>cw_suspended := Map.empty, cw_heap := BinaryHeap_new null_context 256,
     cw_uid_generator := 0, rw_packets := Map.empty\<rparr>"

definition idle_server :: "(byte list, unit) svc_world" where
  "idle_server = (echo_world Packet_new ())\<lparr>cw_suspended := Map.empty, cw_heap := BinaryHeap_new null_context 256,
     rw_packets := Map.empty, mw_msgs := Map.empty, cw_ctrl := Map.empty\<rparr>"

definition demo_cfg :: proto_cfg where
  "demo_cfg = \<lparr>cfg_max = 1000, cfg_session = 3, cfg_accept = 0\<rparr>"

section \<open>Lemmas\<close>

lemma idle_client_inv: "coro_inv idle_client" "conn_inv idle_client" "send_list idle_client = []" "recv_list idle_client = []"
  by (simp_all add: coro_inv_def conn_inv_def idle_client_def echo_world_def BinaryHeap_new_inv BinaryHeap_new_content
      SPSC_new_inv SPSC_new_list MAX_QUEUE_SIZE_pos)

lemma idle_server_inv: "conn_inv idle_server" "heap_ok idle_server" "send_list idle_server = []" "recv_list idle_server = []"
  by (simp_all add: conn_inv_def heap_ok_def idle_server_def echo_world_def SPSC_new_inv SPSC_new_list MAX_QUEUE_SIZE_pos)

lemma idle_client_simps:
  "cw_suspended idle_client = Map.empty" "heap_contexts idle_client = {#}" "cw_uid_generator idle_client = 0"
  "cw_ctrl idle_client 5 = Some ((RpcController_new True)\<lparr>rc_coro_handle := 8\<rparr>)" "mw_msgs idle_client 7 = Some []"
  "rw_delegs idle_client (opcode_val RpcRsp) = Some Deleg_HandleRpcRsp" "\<not> cw_fault idle_client"
  by (simp_all add: idle_client_def echo_world_def BinaryHeap_new_content opcode_val_def)

lemma idle_server_simps:
  "rw_delegs idle_server (opcode_val RpcReq) = Some Deleg_HandleRpcReq" "\<not> cw_fault idle_server"
  "sw_methods idle_server ''EchoService'' = Some [''Echo'' \<mapsto> \<lparr>si_service = 4, si_md = echo_md\<rparr>]"
  by (simp_all add: idle_server_def echo_world_def opcode_val_def)

lemma OnUpdate_keeps:
  assumes "conn_inv w" "w' = RpcConnComp_OnUpdate w"
  shows "rw_recvQueue w' = rw_recvQueue w" "rw_delegs w' = rw_delegs w" "cw_suspended w' = cw_suspended w"
    "cw_ctrl w' = cw_ctrl w" "cw_log w' = cw_log w" "cw_fault w' = cw_fault w" "rw_next w' = rw_next w"
  using OnUpdate_ok [OF assms(1)] assms(2) by auto

lemma OnUpdate_keeps_msgs:
  assumes "conn_inv w" "w' = RpcConnComp_OnUpdate w"
  shows "mw_msgs w' = mw_msgs w"
  using OnUpdate_ok [OF assms(1)] assms(2) by auto

section \<open>Properties\<close>



text \<open>C22: a failure that the service implementation reports does not reach the caller. The server marks the response
  of a failed controller with status \<open>-1\<close>, but the client's network thread sets the status of every received packet to
  \<open>0\<close>, so the coroutine is resumed with a controller that has not failed.\<close>

theorem server_failure_is_lost:
  fixes c :: "('m, 'e, 'z) svc_world_scheme" and s :: "('m, 'y) msg_world_scheme"
  assumes server: "conn_inv s" "send_list s = []" "in_progress s sca sctrl req srsp m" "rc_isFailed sctrl"
    and client: "conn_inv c" "recv_list c = []" "rw_delegs c (opcode_val RpcRsp) = Some Deleg_HandleRpcRsp"
    and caller: "cw_suspended c (ph_seq (rc_pkg_head sctrl)) = Some ctx" "cx_handle ctx \<noteq> 0" "cx_controller ctx \<noteq> 0"
      "cw_ctrl c (cx_controller ctx) = Some ctrl" "rc_use_coro ctrl" "\<not> rc_isFailed ctrl" "cx_rsp ctx \<noteq> 0"
      "mw_msgs c (cx_rsp ctx) = Some old"
    and messages: "head_ok (rc_pkg_head sctrl)" "msg_ok (app_ser app) m" "app_parse app old (app_ser app m) = Some m"
    and network: "\<And>bs. concat (split bs) = bs"
      "llbc_headerLen + length (head_enc (rc_pkg_head sctrl) @ msg_enc (app_ser app) m) \<le> min (cfg_max cfg) (2 ^ 32 - 1)"
    and app: "\<And>u. rw_recvQueue (app_resume app (cx_handle ctx) u) = rw_recvQueue u
      \<and> rw_comp (app_resume app (cx_handle ctx) u) = rw_comp u"
  shows "\<exists>p u. let s' = OnRpcDone (app_ser app) True sca req srsp s in
      send_list s' = [rw_next s] \<and> rw_packets s' (rw_next s) = Some p \<and> pk_status p = -1
    \<and> rpc_hop split cfg app user s' c = Some (LLBC_Recycle (rw_next c) (handle_done ctx (app_resume app (cx_handle ctx) u)))
    \<and> cw_log u = cw_log c @ [(ctx, ctrl)] \<and> cw_ctrl u = cw_ctrl c"
proof -
  have room: "length (send_list s) < MAX_QUEUE_SIZE - 1" using server(2) by (simp add: MAX_QUEUE_SIZE_def)
  define s' where "s' = OnRpcDone (app_ser app) True sca req srsp s"
  obtain q p where s': "s' = s\<lparr>rw_next := rw_next s + 1, rw_packets := (rw_packets s)(rw_next s \<mapsto> p), rw_sendQueue := q,
      mw_msgs := (mw_msgs s)(req := None, srsp := None), cw_ctrl := (cw_ctrl s)(sca := None)\<rparr>"
    "spsc_inv MAX_QUEUE_SIZE q" "spsc_list MAX_QUEUE_SIZE q = [rw_next s]"
    "is_response (app_ser app) (rc_session_id sctrl) (-1) (rc_pkg_head sctrl) m p"
    using OnRpcDone_room [OF server(1) room server(3) messages(1,2)] server(2,4) unfolding s'_def rsp_status_def by auto
  have "conn_inv s'" using server(1,2) s'(2,3) by (auto simp: s'(1) conn_inv_def less_Suc_eq)
  moreover have sent: "send_list s' = [rw_next s]" "rw_packets s' (rw_next s) = Some p" by (simp_all add: s'(1,3))
  ultimately obtain u where "rpc_hop split cfg app user s' c = Some (LLBC_Recycle (rw_next c) (handle_done ctx (app_resume app (cx_handle ctx) u)))"
    "cw_log u = cw_log c @ [(ctx, ctrl)]" "cw_ctrl u = cw_ctrl c"
    using client_hop [OF _ _ _ s'(4) network client messages(1,2) caller(1-8) messages(3) app, of s' "rw_next s" user] by blast
  with sent s'(4) show ?thesis unfolding s'_def [symmetric] Let_def by (auto simp: is_response_def)
qed

theorem server_failure_is_lost_witness:
  "\<exists>u. let s = idle_server\<lparr>mw_msgs := [7 \<mapsto> [1], 9 \<mapsto> [2]],
        cw_ctrl := [5 \<mapsto> RpcController_SetFailed ''no such user'' (req_ctrl (request_head echo_md 1) 3)]\<rparr>;
      s' = OnRpcDone id True 5 9 7 s in
    rpc_hop (\<lambda>bs. [bs]) demo_cfg echo_app (\<lambda>n a w. w) s' ((echo_world Packet_new ())\<lparr>rw_packets := Map.empty\<rparr>)
      = Some (LLBC_Recycle 10 (handle_done echo_ctx (app_resume echo_app 8 u)))
    \<and> cw_log u = [(echo_ctx, (RpcController_new True)\<lparr>rc_coro_handle := 8\<rparr>)]"
proof -
  let ?app = "echo_app :: (byte list, (byte list, unit) svc_world) rpc_app"
  let ?ctrl = "RpcController_SetFailed ''no such user'' (req_ctrl (request_head echo_md 1) 3)"
  let ?s = "idle_server\<lparr>mw_msgs := [7 \<mapsto> [1], 9 \<mapsto> [2]], cw_ctrl := [5 \<mapsto> ?ctrl]\<rparr>"
  let ?c = "(echo_world Packet_new ())\<lparr>rw_packets := Map.empty\<rparr>"
  let ?ctrl' = "(RpcController_new True)\<lparr>rc_coro_handle := 8\<rparr>"
  have enc: "length (head_enc (request_head echo_md 1) @ msg_enc id [1]) = 36"
    by (simp add: head_enc_def request_head_def echo_md_def msg_enc_def string_enc_def)
  have ctrl: "rc_isFailed ?ctrl" "rc_pkg_head ?ctrl = request_head echo_md 1" "head_ok (request_head echo_md 1)"
    by (simp_all add: RpcController_SetFailed_def req_ctrl_def RpcController_SetPkgHead_def request_head_def echo_md_def echo_head)
  have s: "conn_inv ?s" "send_list ?s = []" "in_progress ?s 5 ?ctrl 9 7 [1]"
    using idle_server_inv by (auto simp: conn_inv_def in_progress_def)
  have c: "conn_inv ?c" "recv_list ?c = []"
    by (simp_all add: conn_inv_def echo_world_def SPSC_new_inv SPSC_new_list MAX_QUEUE_SIZE_pos)
  have "\<exists>p u. let s' = OnRpcDone (app_ser ?app) True 5 9 7 ?s in
      send_list s' = [rw_next ?s] \<and> rw_packets s' (rw_next ?s) = Some p \<and> pk_status p = -1
    \<and> rpc_hop (\<lambda>bs. [bs]) demo_cfg ?app (\<lambda>n a w. w) s' ?c
        = Some (LLBC_Recycle (rw_next ?c) (handle_done echo_ctx (app_resume ?app (cx_handle echo_ctx) u)))
    \<and> cw_log u = cw_log ?c @ [(echo_ctx, ?ctrl')] \<and> cw_ctrl u = cw_ctrl ?c"
    by (rule server_failure_is_lost [OF s ctrl(1) c, where old = "[]"])
       (use enc ctrl in \<open>simp_all add: echo_world_def echo_ctx_def opcode_val_def request_head_def echo_app_def msg_ok_def
          RpcController_new_def llbc_headerLen_def demo_cfg_def\<close>)
  then obtain u where "rpc_hop (\<lambda>bs. [bs]) demo_cfg ?app (\<lambda>n a w. w) (OnRpcDone (app_ser ?app) True 5 9 7 ?s) ?c
        = Some (LLBC_Recycle (rw_next ?c) (handle_done echo_ctx (app_resume ?app (cx_handle echo_ctx) u)))"
    "cw_log u = cw_log ?c @ [(echo_ctx, ?ctrl')]"
    unfolding Let_def by blast
  moreover have "app_ser ?app = id" "cw_log ?c = []" "rw_next ?c = 10" "cx_handle echo_ctx = 8"
    by (simp_all add: echo_app_def echo_world_def echo_ctx_def)
  ultimately show ?thesis unfolding Let_def by (metis append_Nil)
qed

end
